(* ===== verification/Prelude.thy ===== *)
theory Prelude
  imports Main "HOL-Library.Char_ord" "HOL-Library.List_Lexorder" "HOL-Library.Multiset"
begin

text \<open>
  What the components share: the machine integers of the broker (\<open>u64\<close>, \<open>u32\<close> counters with
  the saturating and wrapping operations the source writes out), the string operations of the
  Rust standard library it uses (on bytes: a \<open>string\<close> is the byte sequence of a Rust
  \<open>String\<close>; white space and letter case are the ASCII ones), ordered maps (\<open>BTreeMap\<close>) and
  hash maps as association lists, stable deduplication, and the lemmas about ascending lists
  that the rings, the trace indices and the epoch log rest on.
\<close>

named_theorems ring_simps \<open>facts that rewrite positions and slices of a seq-ordered ring\<close>
named_theorems inv_intros \<open>an operation keeps its component's invariant\<close>

section \<open>Machine integers\<close>

type_synonym u64 = nat
type_synonym u32 = nat
type_synonym u128 = nat

definition u64_max :: nat where
  "u64_max = 2 ^ 64 - 1"

definition u32_max :: nat where
  "u32_max = 2 ^ 32 - 1"

text \<open>\<open>a.saturating_add(b)\<close>; \<open>saturating_sub\<close> is the subtraction of \<open>nat\<close>, which stops at 0.\<close>

definition sat_add :: "u64 \<Rightarrow> u64 \<Rightarrow> u64" where
  "sat_add a b = min u64_max (a + b)"

text \<open>\<open>fetch_add\<close> on an \<open>AtomicU64\<close> and an \<open>AtomicU32\<close>: modulo the width.\<close>

definition wrap64 :: "nat \<Rightarrow> u64" where
  "wrap64 n = n mod 2 ^ 64"

definition wrap32 :: "nat \<Rightarrow> u32" where
  "wrap32 n = n mod 2 ^ 32"

lemma u64_max_pos [simp]: "0 < u64_max"
  by (simp add: u64_max_def)

lemma u64_max_Suc: "Suc u64_max = 2 ^ 64"
  by (simp add: u64_max_def)

lemma sat_add_1 [simp]: "n < u64_max \<Longrightarrow> sat_add n 1 = Suc n"
  by (simp add: sat_add_def)

lemma sat_add_Suc0 [simp]: "n < u64_max \<Longrightarrow> sat_add n (Suc 0) = Suc n"
  by (simp add: sat_add_def)

lemma sat_add_le_max [simp]: "sat_add a b \<le> u64_max"
  by (simp add: sat_add_def)

lemma wrap64_id [simp]: "n \<le> u64_max \<Longrightarrow> wrap64 n = n"
  using u64_max_Suc by (simp add: wrap64_def)

lemma wrap64_le [simp]: "wrap64 n \<le> u64_max"
  using u64_max_Suc mod_less_divisor [of "2 ^ 64" n] unfolding wrap64_def by simp

section \<open>Results\<close>

text \<open>A Rust \<open>Result<T, E>\<close> is \<open>E + T\<close>: \<open>Inl\<close> is \<open>Err\<close>, \<open>Inr\<close> is \<open>Ok\<close>.\<close>

definition bind_res :: "'e + 'a \<Rightarrow> ('a \<Rightarrow> 'e + 'b) \<Rightarrow> 'e + 'b" where
  "bind_res r f = (case r of Inl e \<Rightarrow> Inl e | Inr a \<Rightarrow> f a)"

lemma bind_res_simps [simp]:
  "bind_res (Inl e) f = Inl e"
  "bind_res (Inr a) f = f a"
  by (simp_all add: bind_res_def)

lemma bind_res_Inr: "bind_res r f = Inr b \<longleftrightarrow> (\<exists>a. r = Inr a \<and> f a = Inr b)"
  by (simp add: bind_res_def split: sum.splits)

definition is_ok :: "'e + 'a \<Rightarrow> bool" where
  "is_ok r = (case r of Inl _ \<Rightarrow> False | Inr _ \<Rightarrow> True)"

lemma is_ok_simps [simp]: "is_ok (Inr a)" "\<not> is_ok (Inl e)"
  by (simp_all add: is_ok_def)

section \<open>Strings\<close>

definition is_ascii_ws :: "char \<Rightarrow> bool" where
  "is_ascii_ws c = (c \<in> set [CHR 0x09, CHR 0x0A, CHR 0x0B, CHR 0x0C, CHR 0x0D, CHR 0x20])"

definition trim_start :: "string \<Rightarrow> string" where
  "trim_start s = dropWhile is_ascii_ws s"

definition trim :: "string \<Rightarrow> string" where
  "trim s = rev (trim_start (rev (trim_start s)))"

definition is_ascii_upper :: "char \<Rightarrow> bool" where
  "is_ascii_upper c = (65 \<le> (of_char c :: nat) \<and> (of_char c :: nat) \<le> 90)"

definition is_ascii_lower :: "char \<Rightarrow> bool" where
  "is_ascii_lower c = (97 \<le> (of_char c :: nat) \<and> (of_char c :: nat) \<le> 122)"

definition is_ascii_digit :: "char \<Rightarrow> bool" where
  "is_ascii_digit c = (48 \<le> (of_char c :: nat) \<and> (of_char c :: nat) \<le> 57)"

definition is_ascii_alphanumeric :: "char \<Rightarrow> bool" where
  "is_ascii_alphanumeric c = (is_ascii_upper c \<or> is_ascii_lower c \<or> is_ascii_digit c)"

definition to_lowercase :: "string \<Rightarrow> string" where
  "to_lowercase s = map (\<lambda>c. if is_ascii_upper c then char_of (of_char c + 32 :: nat) else c) s"

definition to_uppercase :: "string \<Rightarrow> string" where
  "to_uppercase s = map (\<lambda>c. if is_ascii_lower c then char_of (of_char c - 32 :: nat) else c) s"

fun starts_with :: "string \<Rightarrow> string \<Rightarrow> bool" where
  "starts_with s [] = True"
| "starts_with [] (p # ps) = False"
| "starts_with (c # s) (p # ps) = (c = p \<and> starts_with s ps)"

definition ends_with :: "string \<Rightarrow> string \<Rightarrow> bool" where
  "ends_with s p = starts_with (rev s) (rev p)"

text \<open>\<open>s.strip_prefix(p)\<close>.\<close>

definition strip_prefix :: "string \<Rightarrow> string \<Rightarrow> string option" where
  "strip_prefix p s = (if starts_with s p then Some (drop (length p) s) else None)"

fun str_contains :: "string \<Rightarrow> string \<Rightarrow> bool" where
  "str_contains [] p = (p = [])"
| "str_contains (c # s) p = (starts_with (c # s) p \<or> str_contains s p)"

text \<open>\<open>s.find(c)\<close> and \<open>s.rfind(c)\<close>: the first and the last byte offset of \<open>c\<close>.\<close>

fun str_find :: "char \<Rightarrow> string \<Rightarrow> nat option" where
  "str_find c [] = None"
| "str_find c (d # s) = (if d = c then Some 0 else map_option Suc (str_find c s))"

definition str_rfind :: "char \<Rightarrow> string \<Rightarrow> nat option" where
  "str_rfind c s = map_option (\<lambda>i. length s - 1 - i) (str_find c (rev s))"

text \<open>\<open>s.split(c)\<close>: the segments between occurrences of \<open>c\<close>, at least one.\<close>

fun str_split :: "char \<Rightarrow> string \<Rightarrow> string list" where
  "str_split c [] = [[]]"
| "str_split c (d # s) =
     (if d = c then [] # str_split c s
      else (case str_split c s of [] \<Rightarrow> [[d]] | w # ws \<Rightarrow> (d # w) # ws))"

text \<open>\<open>s.split_once(c)\<close>: around the first occurrence of \<open>c\<close>.\<close>

definition split_once :: "char \<Rightarrow> string \<Rightarrow> (string \<times> string) option" where
  "split_once c s =
     map_option (\<lambda>i. (take i s, drop (Suc i) s)) (str_find c s)"

text \<open>The decimal rendering of an unsigned integer (\<open>to_string\<close>).\<close>

fun nat_to_string :: "nat \<Rightarrow> string" where
  "nat_to_string n =
     (if n < 10 then [char_of (48 + n)]
      else nat_to_string (n div 10) @ [char_of (48 + n mod 10)])"

declare nat_to_string.simps [simp del]

lemma starts_with_append [simp]: "starts_with (p @ s) p"
  by (induction p) auto

lemma starts_with_iff: "starts_with s p \<longleftrightarrow> (\<exists>r. s = p @ r)"
  by (induction s p rule: starts_with.induct) auto

lemma strip_prefix_Some: "strip_prefix p s = Some r \<longleftrightarrow> s = p @ r"
  by (auto simp: strip_prefix_def starts_with_iff split: if_splits)

lemma strip_prefix_None: "strip_prefix p s = None \<longleftrightarrow> \<not> starts_with s p"
  by (simp add: strip_prefix_def)

lemma str_split_nonempty [simp]: "str_split c s \<noteq> []"
  by (induction s) (auto split: list.splits)

lemma str_split_append:
  "c \<notin> set w \<Longrightarrow> str_split c (w @ c # s) = w # str_split c s"
  by (induction w) auto

lemma str_split_single: "c \<notin> set w \<Longrightarrow> str_split c w = [w]"
  by (induction w) auto

lemma hd_str_split: "hd (str_split c s) = takeWhile (\<lambda>d. d \<noteq> c) s"
  by (induction s) (auto split: list.splits)

lemma str_find_None: "str_find c s = None \<longleftrightarrow> c \<notin> set s"
  by (induction s) auto

lemma str_find_Some:
  "str_find c s = Some i \<Longrightarrow> i < length s \<and> s ! i = c \<and> c \<notin> set (take i s)"
  by (induction s arbitrary: i) (auto split: if_splits)

lemma split_once_Some:
  "split_once c s = Some (a, b) \<Longrightarrow> s = a @ c # b \<and> c \<notin> set a"
  by (auto simp: split_once_def dest!: str_find_Some)
     (metis id_take_nth_drop)

lemma split_once_append: "c \<notin> set a \<Longrightarrow> split_once c (a @ c # b) = Some (a, b)"
proof -
  assume "c \<notin> set a"
  then have "str_find c (a @ c # b) = Some (length a)"
    by (induction a) auto
  then show ?thesis by (simp add: split_once_def)
qed

lemma trim_start_suffix: "\<exists>p. s = p @ trim_start s"
  unfolding trim_start_def by (metis takeWhile_dropWhile_id)

lemma set_trim_start: "set (trim_start s) \<subseteq> set s"
  unfolding trim_start_def by (auto dest: set_dropWhileD)

lemma set_trim: "set (trim s) \<subseteq> set s"
  unfolding trim_def using set_trim_start by (metis set_rev order_trans)

lemma length_to_lowercase [simp]: "length (to_lowercase s) = length s"
  by (simp add: to_lowercase_def)

lemma to_lowercase_idem [simp]: "to_lowercase (to_lowercase s) = to_lowercase s"
  by (simp add: to_lowercase_def is_ascii_upper_def)

lemma trim_ends:
  assumes "s \<noteq> []" and "\<not> is_ascii_ws (hd s)" and "\<not> is_ascii_ws (last s)"
  shows "trim s = s"
proof -
  have "trim_start s = s" using assms by (cases s) (auto simp: trim_start_def)
  moreover have "trim_start (rev s) = rev s"
    using assms by (cases s rule: rev_cases) (auto simp: trim_start_def)
  ultimately show ?thesis by (simp add: trim_def)
qed

lemma trim_trim [simp]: "trim (trim s) = trim s"
proof (cases "trim s = []")
  case True
  show ?thesis unfolding True by (simp add: trim_def trim_start_def)
next
  case False
  let ?t = "trim_start s" and ?u = "trim_start (rev (trim_start s))"
  have u: "?u \<noteq> []" using False by (simp add: trim_def)
  then have last_ok: "\<not> is_ascii_ws (hd ?u)"
    unfolding trim_start_def by (metis hd_dropWhile)
  have t: "?t \<noteq> []"
  proof
    assume t: "?t = []"
    show False using u unfolding t by (simp add: trim_start_def)
  qed
  obtain p where "rev ?t = p @ ?u" using trim_start_suffix by blast
  then have "?t = rev ?u @ rev p" by (metis rev_append rev_rev_ident)
  then have "hd (rev ?u) = hd ?t" using u by (metis hd_append2 rev_is_Nil_conv)
  also have "\<not> is_ascii_ws (hd ?t)" using t unfolding trim_start_def by (metis hd_dropWhile)
  finally have "\<not> is_ascii_ws (hd (trim s))" by (simp add: trim_def)
  moreover have "\<not> is_ascii_ws (last (trim s))"
    using last_ok u by (simp add: trim_def last_rev)
  ultimately show ?thesis by (intro trim_ends [OF False])
qed

section \<open>Ordered maps and hash maps as association lists\<close>

text \<open>
  A \<open>BTreeMap\<close> is an association list in ascending key order; inserting keeps the order and
  overwrites an equal key. A \<open>HashMap\<close> is an association list with distinct keys, whose order
  stands for the unspecified iteration order of the hash table. Both look a key up with
  \<open>map_of\<close>.
\<close>

fun bt_insert :: "'k::linorder \<Rightarrow> 'v \<Rightarrow> ('k \<times> 'v) list \<Rightarrow> ('k \<times> 'v) list" where
  "bt_insert k v [] = [(k, v)]"
| "bt_insert k v ((k', v') # m) =
     (if k < k' then (k, v) # (k', v') # m
      else if k = k' then (k, v) # m
      else (k', v') # bt_insert k v m)"

definition bt_remove :: "'k \<Rightarrow> ('k \<times> 'v) list \<Rightarrow> ('k \<times> 'v) list" where
  "bt_remove k m = filter (\<lambda>p. fst p \<noteq> k) m"

text \<open>\<open>map.insert(k, v)\<close> and \<open>map.remove(k)\<close> on a \<open>HashMap\<close>.\<close>

fun hm_insert :: "'k \<Rightarrow> 'v \<Rightarrow> ('k \<times> 'v) list \<Rightarrow> ('k \<times> 'v) list" where
  "hm_insert k v [] = [(k, v)]"
| "hm_insert k v ((k', v') # m) = (if k = k' then (k, v) # m else (k', v') # hm_insert k v m)"

definition hm_remove :: "'k \<Rightarrow> ('k \<times> 'v) list \<Rightarrow> ('k \<times> 'v) list" where
  "hm_remove k m = filter (\<lambda>p. fst p \<noteq> k) m"

text \<open>\<open>if let Some(v) = map.get_mut(k) { *v = f(v) }\<close>.\<close>

definition hm_update :: "'k \<Rightarrow> ('v \<Rightarrow> 'v) \<Rightarrow> ('k \<times> 'v) list \<Rightarrow> ('k \<times> 'v) list" where
  "hm_update k f m = map (\<lambda>p. if fst p = k then (fst p, f (snd p)) else p) m"

abbreviation keys_of :: "('k \<times> 'v) list \<Rightarrow> 'k list" where
  "keys_of m \<equiv> map fst m"

lemma map_of_bt_insert [simp]: "map_of (bt_insert k v m) = (map_of m)(k \<mapsto> v)"
  by (induction m rule: bt_insert.induct) (auto simp: fun_upd_twist)

lemma set_keys_bt_insert [simp]: "set (keys_of (bt_insert k v m)) = insert k (set (keys_of m))"
  by (induction k v m rule: bt_insert.induct) auto

lemma fst_set_bt_insert [simp]: "fst ` set (bt_insert k v m) = insert k (fst ` set m)"
  by (induction k v m rule: bt_insert.induct) auto

lemma sorted_bt_insert [simp]:
  "sorted_wrt (<) (keys_of m) \<Longrightarrow> sorted_wrt (<) (keys_of (bt_insert k v m))"
proof (induction k v m rule: bt_insert.induct)
  case (1 k v)
  then show ?case by simp
next
  case (2 k v k' v' m)
  then show ?case by (force simp del: set_keys_bt_insert simp: fst_set_bt_insert)
qed

lemma bt_insert_snoc:
  "(\<And>k'. k' \<in> fst ` set m \<Longrightarrow> k' < k) \<Longrightarrow> bt_insert k v m = m @ [(k, v)]"
  by (induction m) force+

lemma map_of_filter_key:
  "map_of (filter (\<lambda>p. fst p \<noteq> k) m) = (map_of m)(k := None)"
  by (induction m) (auto simp: fun_eq_iff)

lemma map_of_bt_remove [simp]: "map_of (bt_remove k m) = (map_of m)(k := None)"
  by (simp add: bt_remove_def map_of_filter_key)

lemma map_of_hm_remove [simp]: "map_of (hm_remove k m) = (map_of m)(k := None)"
  by (simp add: hm_remove_def map_of_filter_key)

lemma map_of_hm_insert [simp]: "map_of (hm_insert k v m) = (map_of m)(k \<mapsto> v)"
  by (induction k v m rule: hm_insert.induct) (auto simp: fun_upd_twist)

lemma map_of_hm_update [simp]:
  "map_of (hm_update k f m) = (map_of m)(k := map_option f (map_of m k))"
  unfolding hm_update_def by (induction m) (auto simp: fun_eq_iff)

lemma keys_hm_update [simp]: "keys_of (hm_update k f m) = keys_of m"
  by (simp add: hm_update_def case_prod_unfold if_distrib)

lemma set_keys_hm_insert [simp]: "fst ` set (hm_insert k v m) = insert k (fst ` set m)"
  by (induction k v m rule: hm_insert.induct) auto

lemma distinct_hm_insert [simp]: "distinct (keys_of m) \<Longrightarrow> distinct (keys_of (hm_insert k v m))"
  by (induction k v m rule: hm_insert.induct) auto

lemma distinct_filter_keys [simp]: "distinct (keys_of m) \<Longrightarrow> distinct (keys_of (filter P m))"
  by (simp add: distinct_map_filter)

lemma distinct_hm_remove [simp]: "distinct (keys_of m) \<Longrightarrow> distinct (keys_of (hm_remove k m))"
  by (simp add: hm_remove_def)

lemma sorted_filter_keys [simp]:
  "sorted_wrt (<) (keys_of m) \<Longrightarrow> sorted_wrt (<) (keys_of (filter P m))"
  by (induction m) auto

lemma sorted_bt_remove [simp]:
  "sorted_wrt (<) (keys_of m) \<Longrightarrow> sorted_wrt (<) (keys_of (bt_remove k m))"
  by (simp add: bt_remove_def)

lemma map_of_filter_distinct:
  "distinct (keys_of m) \<Longrightarrow>
   map_of (filter P m) k = (case map_of m k of None \<Rightarrow> None
     | Some v \<Rightarrow> if P (k, v) then Some v else None)"
proof (induction m)
  case Nil
  then show ?case by simp
next
  case (Cons p m)
  then show ?case
    by (cases p) (auto simp: map_of_eq_None_iff image_iff split: option.splits)
qed

section \<open>Ascending lists\<close>

lemma sorted_less_distinct: "sorted_wrt (<) (xs :: 'a::linorder list) \<Longrightarrow> distinct xs"
  by (induction xs) auto

lemma sorted_less_sorted: "sorted_wrt (<) (xs :: 'a::linorder list) \<Longrightarrow> sorted xs"
  by (induction xs) auto

lemma ascending_unique:
  "sorted_wrt (<) (xs :: 'a::linorder list) \<Longrightarrow> sorted_wrt (<) ys \<Longrightarrow> set xs = set ys \<Longrightarrow> xs = ys"
  by (simp add: sorted_distinct_set_unique sorted_less_distinct sorted_less_sorted)

lemma ascending_map_filter:
  "sorted_wrt (<) (map f xs) \<Longrightarrow> sorted_wrt (<) (map f (filter P xs))"
  by (induction xs) auto

lemma ascending_drop: "sorted_wrt (<) (map f xs) \<Longrightarrow> sorted_wrt (<) (map f (drop n xs))"
  by (metis drop_map sorted_wrt_drop)

lemma ascending_take: "sorted_wrt (<) (map f xs) \<Longrightarrow> sorted_wrt (<) (map f (take n xs))"
  by (metis take_map sorted_wrt_take)

lemma ascending_key_inj:
  "sorted_wrt (<) (map (f :: 'a \<Rightarrow> 'b::linorder) xs) \<Longrightarrow> x \<in> set xs \<Longrightarrow> y \<in> set xs \<Longrightarrow> f x = f y \<Longrightarrow> x = y"
  by (meson distinct_map inj_onD sorted_less_distinct)

lemma ascending_keys_unique:
  assumes "sorted_wrt (<) (map (f :: 'a \<Rightarrow> 'b::linorder) xs)" "sorted_wrt (<) (map f ys)" "set xs = set ys"
  shows "xs = ys"
proof -
  have "map f xs = map f ys"
    using assms by (intro ascending_unique) auto
  moreover have "inj_on f (set xs \<union> set ys)"
    using assms by (metis distinct_map sorted_less_distinct sup.idem)
  ultimately show ?thesis by (rule map_inj_on)
qed

lemma ascending_last_greatest:
  "sorted_wrt (<) (map (f :: 'a \<Rightarrow> 'b::linorder) xs) \<Longrightarrow> x \<in> set xs \<Longrightarrow> f x \<le> f (last xs)"
  by (induction xs) (auto simp: less_imp_le)

lemma ascending_hd_least:
  "sorted_wrt (<) (map (f :: 'a \<Rightarrow> 'b::linorder) xs) \<Longrightarrow> x \<in> set xs \<Longrightarrow> f (hd xs) \<le> f x"
  by (induction xs) (auto simp: less_imp_le)

text \<open>\<open>dedup_by_key\<close>: of each run of equal keys the first is kept.\<close>

fun dedup_by_key :: "('a \<Rightarrow> 'k) \<Rightarrow> 'a list \<Rightarrow> 'a list" where
  "dedup_by_key f [] = []"
| "dedup_by_key f [x] = [x]"
| "dedup_by_key f (x # y # xs) =
     (if f x = f y then dedup_by_key f (x # xs) else x # dedup_by_key f (y # xs))"

lemma keys_dedup_by_key [simp]: "f ` set (dedup_by_key f xs) = f ` set xs"
  by (induction f xs rule: dedup_by_key.induct) auto

lemma set_dedup_by_key: "set (dedup_by_key f xs) \<subseteq> set xs"
  by (induction f xs rule: dedup_by_key.induct) auto

lemma dedup_hd: "dedup_by_key f (x # xs) = x # tl (dedup_by_key f (x # xs))"
  by (induction f "x # xs" arbitrary: x xs rule: dedup_by_key.induct) (auto)

lemma ascending_dedup_by_key:
  "sorted (map (f :: 'a \<Rightarrow> 'b::linorder) xs) \<Longrightarrow> sorted_wrt (<) (map f (dedup_by_key f xs))"
proof (induction f xs rule: dedup_by_key.induct)
  case (3 f x y xs)
  have "\<forall>k\<in>f ` set (dedup_by_key f (y # xs)). f y \<le> k"
    using "3.prems" by (simp del: dedup_by_key.simps)
  then show ?case using 3 by (force simp del: keys_dedup_by_key)
qed auto

text \<open>\<open>partition_point\<close> on a list partitioned by the predicate.\<close>

definition partition_point :: "('a \<Rightarrow> bool) \<Rightarrow> 'a list \<Rightarrow> nat" where
  "partition_point p xs = length (takeWhile p xs)"

lemma take_partition_point: "take (partition_point p xs) xs = takeWhile p xs"
  unfolding partition_point_def by (metis takeWhile_eq_take)

lemma drop_partition_point: "drop (partition_point p xs) xs = dropWhile p xs"
  unfolding partition_point_def by (metis dropWhile_eq_drop)

lemma takeWhile_ascending:
  "sorted_wrt (<) (map (f :: 'a \<Rightarrow> 'b::linorder) xs) \<Longrightarrow>
   takeWhile (\<lambda>x. f x < b) xs = filter (\<lambda>x. f x < b) xs"
  by (induction xs) (force simp: empty_filter_conv)+

lemma dropWhile_ascending:
  "sorted_wrt (<) (map (f :: 'a \<Rightarrow> 'b::linorder) xs) \<Longrightarrow>
   dropWhile (\<lambda>x. f x < b) xs = filter (\<lambda>x. b \<le> f x) xs"
  by (induction xs) (auto simp: filter_id_conv intro!: sym [OF filter_True])

lemma map_filter_append: "List.map_filter f (xs @ ys) = List.map_filter f xs @ List.map_filter f ys"
  by (simp add: List.map_filter_def)

end
