(* ===== verification/F64.thy ===== *)
theory F64
  imports Prelude "HOL-Library.Log_Nat"
begin

text \<open>
  The double-precision numbers of the program: span durations, duration thresholds of filters
  and GELF timestamps. A finite \<open>f64\<close> is the rational it denotes (the two zeros are one value:
  no comparison of the program tells them apart); rounding is to nearest, ties to even, with
  the 53-bit significand and the exponent range of IEEE 754 binary64. \<open>parse_f64\<close> is the
  grammar of Rust's \<open>str::parse::<f64>\<close>.
\<close>

datatype f64 = NaN | PInf | NInf | Fin rat

definition pow2i :: "int \<Rightarrow> rat" where
  "pow2i e = (if 0 \<le> e then 2 ^ nat e else 1 / 2 ^ nat (- e))"

text \<open>The binary exponent of a positive rational: \<open>2 ^ e \<le> x < 2 ^ (e + 1)\<close>.\<close>

definition binexp :: "rat \<Rightarrow> int" where
  "binexp x =
     (let (p, q) = quotient_of x; e = int (floorlog 2 (nat p)) - int (floorlog 2 (nat q))
      in if pow2i e \<le> x then e else e - 1)"

definition round_half_even :: "rat \<Rightarrow> int" where
  "round_half_even x =
     (let n = \<lfloor>x\<rfloor>; d = x - of_int n
      in if d < 1 / 2 then n else if 1 / 2 < d then n + 1 else if even n then n else n + 1)"

definition round_f64 :: "rat \<Rightarrow> f64" where
  "round_f64 x =
     (if x = 0 then Fin 0
      else let u = max (binexp \<bar>x\<bar> - 52) (- 1074);
               v = of_int (round_half_even (\<bar>x\<bar> / pow2i u)) * pow2i u
           in if pow2i 1024 \<le> v then (if 0 < x then PInf else NInf)
              else Fin (if 0 < x then v else - v))"

section \<open>Comparisons\<close>

text \<open>Every comparison with NaN is false.\<close>

fun f64_le :: "f64 \<Rightarrow> f64 \<Rightarrow> bool" where
  "f64_le NaN b = False"
| "f64_le a NaN = False"
| "f64_le NInf b = True"
| "f64_le a PInf = True"
| "f64_le (Fin a) (Fin b) = (a \<le> b)"
| "f64_le (Fin a) NInf = False"
| "f64_le PInf NInf = False"
| "f64_le PInf (Fin b) = False"

definition f64_lt :: "f64 \<Rightarrow> f64 \<Rightarrow> bool" where
  "f64_lt a b = (f64_le a b \<and> \<not> f64_le b a)"

definition is_nan :: "f64 \<Rightarrow> bool" where
  "is_nan a = (a = NaN)"

definition is_infinite :: "f64 \<Rightarrow> bool" where
  "is_infinite a = (a = PInf \<or> a = NInf)"

text \<open>\<open>is_sign_positive\<close>, which the program asks of infinite values only.\<close>

definition is_sign_positive :: "f64 \<Rightarrow> bool" where
  "is_sign_positive a = (case a of PInf \<Rightarrow> True | NInf \<Rightarrow> False | NaN \<Rightarrow> True | Fin x \<Rightarrow> 0 \<le> x)"

text \<open>\<open>f64::max\<close> and \<open>f64::min\<close>: the other operand when one is NaN.\<close>

definition f64_max :: "f64 \<Rightarrow> f64 \<Rightarrow> f64" where
  "f64_max a b = (if is_nan a then b else if is_nan b then a else if f64_le a b then b else a)"

definition f64_min :: "f64 \<Rightarrow> f64 \<Rightarrow> f64" where
  "f64_min a b = (if is_nan a then b else if is_nan b then a else if f64_le a b then a else b)"

section \<open>Arithmetic of the timestamp conversion\<close>

text \<open>Subtraction and multiplication of a possibly infinite value by a finite one.\<close>

fun f64_sub :: "f64 \<Rightarrow> f64 \<Rightarrow> f64" where
  "f64_sub (Fin a) (Fin b) = round_f64 (a - b)"
| "f64_sub PInf (Fin b) = PInf"
| "f64_sub NInf (Fin b) = NInf"
| "f64_sub (Fin a) PInf = NInf"
| "f64_sub (Fin a) NInf = PInf"
| "f64_sub PInf NInf = PInf"
| "f64_sub NInf PInf = NInf"
| "f64_sub a b = NaN"

text \<open>Addition, and division by a positive integer converted to \<open>f64\<close>.\<close>

fun f64_add :: "f64 \<Rightarrow> f64 \<Rightarrow> f64" where
  "f64_add (Fin a) (Fin b) = round_f64 (a + b)"
| "f64_add PInf (Fin b) = PInf"
| "f64_add NInf (Fin b) = NInf"
| "f64_add (Fin a) PInf = PInf"
| "f64_add (Fin a) NInf = NInf"
| "f64_add PInf PInf = PInf"
| "f64_add NInf NInf = NInf"
| "f64_add a b = NaN"

definition f64_div_nat :: "f64 \<Rightarrow> nat \<Rightarrow> f64" where
  "f64_div_nat a n =
     (case (a, round_f64 (of_nat n)) of (Fin x, Fin d) \<Rightarrow> round_f64 (x / d) | _ \<Rightarrow> a)"

definition f64_mul_pos :: "f64 \<Rightarrow> rat \<Rightarrow> f64" where
  "f64_mul_pos a c = (case a of Fin x \<Rightarrow> round_f64 (x * c) | _ \<Rightarrow> a)"

text \<open>\<open>x as T\<close> of a float: truncated toward zero, saturated at the bounds, NaN to 0.\<close>

definition trunc :: "rat \<Rightarrow> int" where
  "trunc x = (if 0 \<le> x then \<lfloor>x\<rfloor> else - \<lfloor>- x\<rfloor>)"

definition f64_as_int :: "int \<Rightarrow> int \<Rightarrow> f64 \<Rightarrow> int" where
  "f64_as_int lo hi a =
     (case a of NaN \<Rightarrow> 0 | PInf \<Rightarrow> hi | NInf \<Rightarrow> lo | Fin x \<Rightarrow> max lo (min hi (trunc x)))"

definition i64_min :: int where "i64_min = - (2 ^ 63)"
definition i64_max :: int where "i64_max = 2 ^ 63 - 1"

section \<open>Parsing\<close>

definition digit_val :: "char \<Rightarrow> nat" where
  "digit_val c = of_char c - 48"

definition digits_val :: "string \<Rightarrow> nat" where
  "digits_val s = foldl (\<lambda>n c. 10 * n + digit_val c) 0 s"

definition all_digits :: "string \<Rightarrow> bool" where
  "all_digits s = list_all is_ascii_digit s"

text \<open>The optional sign and the unsigned rest.\<close>

definition split_sign :: "string \<Rightarrow> bool \<times> string" where
  "split_sign s =
     (case s of
        c # r \<Rightarrow> if c = CHR ''-'' then (True, r) else if c = CHR ''+'' then (False, r) else (False, s)
      | [] \<Rightarrow> (False, s))"

text \<open>The exponent after \<open>e\<close> or \<open>E\<close>: an optional sign and at least one digit.\<close>

definition parse_exp :: "string \<Rightarrow> int option" where
  "parse_exp s =
     (let (neg, ds) = split_sign s
      in if ds \<noteq> [] \<and> all_digits ds
         then Some (if neg then - int (digits_val ds) else int (digits_val ds)) else None)"

definition pow10i :: "int \<Rightarrow> rat" where
  "pow10i e = (if 0 \<le> e then 10 ^ nat e else 1 / 10 ^ nat (- e))"

text \<open>\<open>digits [. digits] [(e|E) exponent]\<close>, with a digit before or after the point.\<close>

definition parse_decimal :: "string \<Rightarrow> rat option" where
  "parse_decimal s =
     (let ip = takeWhile is_ascii_digit s; r = dropWhile is_ascii_digit s;
          (fp, r2) = (case r of
             c # r' \<Rightarrow> if c = CHR ''.'' then (takeWhile is_ascii_digit r', dropWhile is_ascii_digit r')
                       else ([], r)
           | [] \<Rightarrow> ([], r));
          ex = (case r2 of
             [] \<Rightarrow> Some 0
           | c # r3 \<Rightarrow> if c = CHR ''e'' \<or> c = CHR ''E'' then parse_exp r3 else None)
      in if ip = [] \<and> fp = [] then None
         else case ex of None \<Rightarrow> None
              | Some e \<Rightarrow> Some (of_nat (digits_val (ip @ fp)) * pow10i (e - int (length fp))))"

definition parse_f64 :: "string \<Rightarrow> f64 option" where
  "parse_f64 s =
     (let (neg, r) = split_sign s; low = to_lowercase r
      in if low = ''nan'' then Some NaN
         else if low = ''inf'' \<or> low = ''infinity'' then Some (if neg then NInf else PInf)
         else case parse_decimal r of None \<Rightarrow> None
              | Some x \<Rightarrow> Some (round_f64 (if neg then - x else x)))"

section \<open>Facts about comparisons\<close>

lemma f64_le_Fin_max:
  "\<not> is_nan a \<Longrightarrow> \<not> is_nan b \<Longrightarrow> f64_le (f64_max a b) (Fin x) \<longleftrightarrow> f64_le a (Fin x) \<and> f64_le b (Fin x)"
  by (cases a; cases b) (auto simp: f64_max_def is_nan_def)

lemma f64_le_Fin_min:
  "\<not> is_nan a \<Longrightarrow> \<not> is_nan b \<Longrightarrow> f64_le (Fin x) (f64_min a b) \<longleftrightarrow> f64_le (Fin x) a \<and> f64_le (Fin x) b"
  by (cases a; cases b) (auto simp: f64_min_def is_nan_def)

lemma f64_lt_trans_le: "f64_lt b a \<Longrightarrow> f64_le a x \<Longrightarrow> \<not> f64_le x b"
  by (cases a; cases b; cases x) (auto simp: f64_lt_def)

end
