(* ===== verification/Message.thy ===== *)
theory Message
  imports F64
begin

text \<open>
  The log record and how a GELF datagram becomes one (\<open>gelf/message.rs\<close>). A JSON value is the
  tree of \<open>serde_json::Value\<close>; of a number only what the program asks of it is kept, its
  \<open>as_u64\<close> and \<open>as_f64\<close>. The JSON reader and \<open>chrono\<close>'s \<open>timestamp_opt\<close> are parameters.
  Timestamps are nanoseconds since the epoch; \<open>now\<close> stands for the clock.
\<close>

section \<open>Levels\<close>

datatype level = Trace | Debug | Info | Warn | Error

definition level_num :: "level \<Rightarrow> nat" where
  "level_num l = (case l of Trace \<Rightarrow> 0 | Debug \<Rightarrow> 1 | Info \<Rightarrow> 2 | Warn \<Rightarrow> 3 | Error \<Rightarrow> 4)"

lemma level_num_inj [simp]: "level_num a = level_num b \<longleftrightarrow> a = b"
  by (cases a; cases b) (auto simp: level_num_def)

text \<open>The derived \<open>Ord\<close>: by discriminant.\<close>

instantiation level :: linorder
begin

definition less_eq_level :: "level \<Rightarrow> level \<Rightarrow> bool" where
  "a \<le> b \<longleftrightarrow> level_num a \<le> level_num b"

definition less_level :: "level \<Rightarrow> level \<Rightarrow> bool" where
  "a < b \<longleftrightarrow> level_num a < level_num b"

instance
  by standard (auto simp: less_eq_level_def less_level_def)

end

definition from_syslog :: "nat \<Rightarrow> level" where
  "from_syslog n = (if n \<le> 3 then Error else if n = 4 then Warn
     else if n = 5 \<or> n = 6 then Info else Debug)"

definition from_name :: "string \<Rightarrow> level option" where
  "from_name s =
     (let u = to_uppercase s
      in if u = ''ERROR'' then Some Error
         else if u = ''WARN'' \<or> u = ''WARNING'' then Some Warn
         else if u = ''INFO'' then Some Info
         else if u = ''DEBUG'' then Some Debug
         else if u = ''TRACE'' then Some Trace
         else None)"

definition level_display :: "level \<Rightarrow> string" where
  "level_display l =
     (case l of Error \<Rightarrow> ''ERROR'' | Warn \<Rightarrow> ''WARN'' | Info \<Rightarrow> ''INFO'' | Debug \<Rightarrow> ''DEBUG''
      | Trace \<Rightarrow> ''TRACE'')"

section \<open>JSON values and log records\<close>

datatype json =
    JNull
  | JBool bool
  | JNumber (num_as_u64: "u64 option") (num_as_f64: "f64 option")
  | JString string
  | JArray "json list"
  | JObject "(string \<times> json) list"

definition as_str :: "json \<Rightarrow> string option" where
  "as_str v = (case v of JString s \<Rightarrow> Some s | _ \<Rightarrow> None)"

definition as_u64 :: "json \<Rightarrow> u64 option" where
  "as_u64 v = (case v of JNumber u f \<Rightarrow> u | _ \<Rightarrow> None)"

definition as_f64 :: "json \<Rightarrow> f64 option" where
  "as_f64 v = (case v of JNumber u f \<Rightarrow> f | _ \<Rightarrow> None)"

datatype log_source = Filter | PreTrigger | PostTrigger

record log_entry =
  le_seq :: u64
  le_timestamp :: int
  le_level :: level
  le_message :: string
  le_full_message :: "string option"
  le_host :: string
  le_facility :: "string option"
  le_file :: "string option"
  le_line :: "u32 option"
  le_additional_fields :: "(string \<times> json) list"
  le_trace_id :: "u128 option"
  le_span_id :: "u64 option"
  le_matched_filters :: "string list"
  le_source :: log_source

definition synthetic :: "int \<Rightarrow> level \<Rightarrow> string \<Rightarrow> log_entry" where
  "synthetic now lvl msg =
     \<lparr>le_seq = 0, le_timestamp = now, le_level = lvl, le_message = msg, le_full_message = None,
      le_host = ''test'', le_facility = None, le_file = None, le_line = None,
      le_additional_fields = [], le_trace_id = None, le_span_id = None,
      le_matched_filters = [], le_source = Filter\<rparr>"

section \<open>Hexadecimal ids\<close>

definition hex_val :: "char \<Rightarrow> nat option" where
  "hex_val c =
     (let n = (of_char c :: nat)
      in if is_ascii_digit c then Some (n - 48)
         else if 97 \<le> n \<and> n \<le> 102 then Some (n - 87)
         else if 65 \<le> n \<and> n \<le> 70 then Some (n - 55)
         else None)"

fun hex_digits :: "nat \<Rightarrow> string \<Rightarrow> nat option" where
  "hex_digits acc [] = Some acc"
| "hex_digits acc (c # s) =
     (case hex_val c of None \<Rightarrow> None | Some d \<Rightarrow> hex_digits (16 * acc + d) s)"

text \<open>\<open>uN::from_str_radix(s, 16)\<close>: an optional \<open>+\<close>, at least one digit, no overflow.\<close>

definition from_str_radix16 :: "nat \<Rightarrow> string \<Rightarrow> nat option" where
  "from_str_radix16 w s =
     (let ds = (case s of c # r \<Rightarrow> if c = CHR ''+'' then r else s | [] \<Rightarrow> s)
      in if ds = [] then None
         else case hex_digits 0 ds of None \<Rightarrow> None
              | Some n \<Rightarrow> if n < 2 ^ w then Some n else None)"

section \<open>Reading a GELF message\<close>

datatype gelf_parse_error = InvalidJson | MissingField string

text \<open>
  \<open>parse_promoted\<close>: the parsed value of a field, which leaves the map exactly when it parses.
\<close>

definition parse_promoted ::
  "(string \<times> json) list \<Rightarrow> string \<Rightarrow> (string \<Rightarrow> 'a option) \<Rightarrow> 'a option \<times> (string \<times> json) list" where
  "parse_promoted flds key parse =
     (let parsed = Option.bind (Option.bind (map_of flds key) as_str) parse
      in (parsed, if parsed = None then flds else hm_remove key flds))"

definition gelf_timestamp :: "(int \<Rightarrow> nat \<Rightarrow> int option) \<Rightarrow> int \<Rightarrow> f64 \<Rightarrow> int" where
  "gelf_timestamp timestamp_opt now ts =
     (let secs = f64_as_int i64_min i64_max ts;
          nanos = f64_as_int 0 (2 ^ 32 - 1)
            (f64_mul_pos (f64_sub ts (round_f64 (of_int secs))) 1000000000)
      in case timestamp_opt secs (nat nanos) of None \<Rightarrow> now | Some t \<Rightarrow> t)"

definition gelf_additional :: "(string \<times> json) list \<Rightarrow> (string \<times> json) list" where
  "gelf_additional obj =
     map (\<lambda>(k, v). (drop 1 k, v))
       (filter (\<lambda>(k, v). starts_with k ''_'' \<and> k \<noteq> ''_level'') obj)"

definition parse_gelf_message ::
  "(string \<Rightarrow> json option) \<Rightarrow> (int \<Rightarrow> nat \<Rightarrow> int option) \<Rightarrow> int \<Rightarrow> string \<Rightarrow> u64
     \<Rightarrow> gelf_parse_error + log_entry" where
  "parse_gelf_message from_slice timestamp_opt now bytes seq =
     (case from_slice bytes of
        None \<Rightarrow> Inl InvalidJson
      | Some (JObject obj) \<Rightarrow>
          (let get = map_of obj;
               get_str = (\<lambda>k. Option.bind (get k) as_str)
           in case get_str ''host'' of
                None \<Rightarrow> Inl (MissingField ''host'')
              | Some host \<Rightarrow>
                  (case get_str ''short_message'' of
                     None \<Rightarrow> Inl (MissingField ''short_message'')
                   | Some message \<Rightarrow>
                       (let syslog_level =
                              (case Option.bind (get ''level'') as_u64 of
                                 None \<Rightarrow> 6 | Some n \<Rightarrow> n mod 2 ^ 8);
                            lvl = (case Option.bind (get_str ''_level'') from_name of
                                 None \<Rightarrow> from_syslog syslog_level | Some l \<Rightarrow> l);
                            ts = (case Option.bind (get ''timestamp'') as_f64 of
                                 None \<Rightarrow> now | Some t \<Rightarrow> gelf_timestamp timestamp_opt now t);
                            fields0 = gelf_additional obj;
                            (tid, fields1) =
                              parse_promoted fields0 ''trace_id'' (from_str_radix16 128);
                            (sid, fields2) =
                              parse_promoted fields1 ''span_id'' (from_str_radix16 64)
                        in Inr \<lparr>le_seq = seq, le_timestamp = ts, le_level = lvl,
                             le_message = message, le_full_message = get_str ''full_message'',
                             le_host = host, le_facility = get_str ''facility'',
                             le_file = get_str ''file'',
                             le_line = map_option wrap32 (Option.bind (get ''line'') as_u64),
                             le_additional_fields = fields2, le_trace_id = tid,
                             le_span_id = sid, le_matched_filters = [], le_source = Filter\<rparr>)))
      | Some _ \<Rightarrow> Inl (MissingField ''root object''))"

section \<open>What reading keeps\<close>

lemma parse_promoted_cases:
  assumes "parse_promoted flds key parse = (r, flds')"
  shows "map_of flds' = (if r = None then map_of flds else (map_of flds)(key := None))"
    and "r = Option.bind (Option.bind (map_of flds key) as_str) parse"
  using assms by (auto simp: parse_promoted_def Let_def split: if_splits)

lemma map_of_gelf_additional:
  assumes "k \<noteq> ''level''"
  shows "map_of (gelf_additional obj) k = map_of obj (CHR ''_'' # k)"
  using assms
proof (induction obj)
  case (Cons p obj)
  obtain a v where p: "p = (a, v)" by (cases p)
  show ?case
    using Cons by (cases a) (auto simp: gelf_additional_def p)
qed (simp add: gelf_additional_def)

lemma gelf_additional_no_level:
  "map_of (gelf_additional obj) ''level'' = None"
proof (induction obj)
  case (Cons p obj)
  obtain a v where p: "p = (a, v)" by (cases p)
  show ?case
    using Cons by (cases a) (auto simp: gelf_additional_def p)
qed (simp add: gelf_additional_def)

text \<open>
  Reading a GELF message loses no additional field: every \<open>_\<close>-prefixed member of the object,
  \<open>_level\<close> apart, is either in the record's additional fields under its name without the
  prefix, or it is a trace or span id that parsed as hexadecimal and became the record's id.
\<close>

theorem gelf_field_survives:
  assumes "parse_gelf_message from_slice timestamp_opt now bytes seq = Inr e"
    and "from_slice bytes = Some (JObject obj)"
    and "map_of obj (CHR ''_'' # k) = Some v" and "k \<noteq> ''level''"
  shows "map_of (le_additional_fields e) k = Some v
    \<or> (k = ''trace_id'' \<and> (\<exists>s n. v = JString s \<and> from_str_radix16 128 s = Some n \<and> le_trace_id e = Some n))
    \<or> (k = ''span_id'' \<and> (\<exists>s n. v = JString s \<and> from_str_radix16 64 s = Some n \<and> le_span_id e = Some n))"
proof -
  obtain tid f1 where p1: "parse_promoted (gelf_additional obj) ''trace_id'' (from_str_radix16 128) = (tid, f1)"
    by fastforce
  obtain sid f2 where p2: "parse_promoted f1 ''span_id'' (from_str_radix16 64) = (sid, f2)"
    by fastforce
  have e: "le_additional_fields e = f2" "le_trace_id e = tid" "le_span_id e = sid"
    using assms(1,2) p1 p2
    by (auto simp: parse_gelf_message_def Let_def split: option.splits)
  have v: "map_of (gelf_additional obj) k = Some v"
    using assms(3,4) by (simp add: map_of_gelf_additional)
  show ?thesis
    using v e parse_promoted_cases [OF p1] parse_promoted_cases [OF p2]
    by (auto simp: as_str_def split: if_splits option.splits json.splits)
qed

lemma gelf_field_survives_witness:
  fixes obj :: "(string \<times> json) list"
  defines "obj \<equiv> [(''host'', JString ''h''), (''short_message'', JString ''m''), (''_user'', JString ''bob'')]"
  shows "\<exists>e. parse_gelf_message (\<lambda>b. Some (JObject obj)) (\<lambda>s n. None) 0 [] 1 = Inr e
    \<and> map_of (le_additional_fields e) ''user'' = Some (JString ''bob'')"
proof -
  obtain e where e: "parse_gelf_message (\<lambda>b. Some (JObject obj)) (\<lambda>s n. None) 0 [] 1 = Inr e"
    by (cases "parse_gelf_message (\<lambda>b. Some (JObject obj)) (\<lambda>s n. None) 0 [] 1")
       (auto simp: parse_gelf_message_def obj_def as_str_def Let_def split: prod.splits)
  show ?thesis
    using gelf_field_survives [OF e refl, of "''user''" "JString ''bob''"] e by (simp add: obj_def)
qed

end
