(* ===== verification/Span_Types.thy ===== *)
theory Span_Types
  imports Message
begin

text \<open>
  The span record and its parts (\<open>span/types.rs\<close>), and how \<open>traces.slow\<close> reads its grouping.
\<close>

datatype span_kind = Unspecified | Internal | Server | Client | Producer | Consumer

datatype span_status = Unset | Ok | SError string

datatype slow_group_by = GNone | GName

record span_event =
  ev_name :: string
  ev_timestamp :: int
  ev_attributes :: "(string \<times> json) list"

record span_entry =
  sp_seq :: u64
  sp_trace_id :: u128
  sp_span_id :: u64
  sp_parent_span_id :: "u64 option"
  sp_start_time :: int
  sp_end_time :: int
  sp_duration_ms :: f64
  sp_name :: string
  sp_kind :: span_kind
  sp_service_name :: string
  sp_status :: span_status
  sp_attributes :: "(string \<times> json) list"
  sp_events :: "span_event list"

record trace_summary =
  ts_trace_id :: u128
  ts_root_span_name :: string
  ts_service_name :: string
  ts_start_time :: int
  ts_total_duration_ms :: f64
  ts_span_count :: u32
  ts_has_errors :: bool
  ts_linked_log_count :: u32

definition slow_as_str :: "slow_group_by \<Rightarrow> string" where
  "slow_as_str g = (case g of GNone \<Rightarrow> ''none'' | GName \<Rightarrow> ''name'')"

definition slow_parse :: "string \<Rightarrow> slow_group_by option" where
  "slow_parse s =
     (if s = ''none'' \<or> s = [] then Some GNone else if s = ''name'' then Some GName else None)"

text \<open>\<open>format!("{:?}", kind).to_lowercase()\<close>.\<close>

definition kind_lower :: "span_kind \<Rightarrow> string" where
  "kind_lower k =
     (case k of Unspecified \<Rightarrow> ''unspecified'' | Internal \<Rightarrow> ''internal'' | Server \<Rightarrow> ''server''
      | Client \<Rightarrow> ''client'' | Producer \<Rightarrow> ''producer'' | Consumer \<Rightarrow> ''consumer'')"

lemma slow_parse_as_str [simp]: "slow_parse (slow_as_str g) = Some g"
  by (cases g) (simp_all add: slow_parse_def slow_as_str_def)

end
