(* ===== verification/Filter_Parser.thy ===== *)
theory Filter_Parser
  imports Span_Types
begin

text \<open>
  The filter language (\<open>filter/parser.rs\<close>): its syntax tree, the parser from a comma-separated
  list of qualifiers, the wire form of a pattern, and the seq window a resolved filter selects.
  A regular expression is compiled by the \<open>regex\<close> crate, which is a parameter: \<open>rx p\<close> says that
  \<open>Regex::new(p)\<close> succeeds, and a compiled expression is the text it was compiled from.
\<close>

section \<open>Syntax\<close>

datatype duration_op = DGte | DLte
datatype bookmark_op = BGte | BLte
datatype seq_op = Gt | Lt
datatype level_op = LEq | LGte | LLte

datatype pattern = Substring string | Regex (rx_source: string) (rx_compiled: string) (rx_ci: bool)

datatype selector =
    SMessage | SFullMessage | SMessageOrFull | SHost | SFacility | SFile | SLine
  | SSpanName | SServiceName | SSpanStatus | SSpanKind
  | SAdditionalField string

datatype qualifier =
    BarePattern pattern
  | SelectorPattern selector pattern
  | LevelFilter level_op level
  | DurationFilter duration_op f64
  | BookmarkFilter bookmark_op string
  | CursorFilter string
  | SeqFilter seq_op u64
  | CursorSeq u64

datatype parsed_filter = FAll | FNone | Qualifiers "qualifier list"

datatype filter_parse_error =
    EmptyFilter
  | InvalidRegex string
  | UnknownLevel string
  | InvalidLevelSyntax string
  | UnclosedQuote
  | MixedLogSpanSelectors
  | EmptyBookmarkName
  | InvalidBookmarkName string
  | MultipleCursorQualifiers
  | CursorLteNotSupported
  | UnknownComparisonSelector string

section \<open>Parsing\<close>

definition is_valid_bookmark_token :: "string \<Rightarrow> bool" where
  "is_valid_bookmark_token name =
     (name \<noteq> [] \<and>
      list_all (\<lambda>b. is_ascii_alphanumeric b \<or> b = CHR ''-'' \<or> b = CHR ''_'' \<or> b = CHR ''/'') name)"

text \<open>The loop of \<open>split_on_commas\<close>: the tokens so far, the current token, inside quotes.\<close>

fun split_commas_loop :: "string \<Rightarrow> string list \<Rightarrow> string \<Rightarrow> bool \<Rightarrow> filter_parse_error + string list" where
  "split_commas_loop [] toks cur in_quote =
     (if in_quote then Inl UnclosedQuote else Inr (toks @ [cur]))"
| "split_commas_loop (ch # s) toks cur in_quote =
     (if ch = CHR 0x22 then split_commas_loop s toks (cur @ [ch]) (\<not> in_quote)
      else if ch = CHR '','' \<and> \<not> in_quote then split_commas_loop s (toks @ [cur]) [] in_quote
      else split_commas_loop s toks (cur @ [ch]) in_quote)"

definition split_on_commas :: "string \<Rightarrow> filter_parse_error + string list" where
  "split_on_commas s = split_commas_loop s [] [] False"

text \<open>What \<open>parse_pattern\<close> and the wire form hand to \<open>Regex::new\<close>.\<close>

definition regex_text :: "bool \<Rightarrow> string \<Rightarrow> string" where
  "regex_text ci source = (if ci then ''(?i)'' @ source else source)"

definition parse_pattern :: "(string \<Rightarrow> bool) \<Rightarrow> string \<Rightarrow> filter_parse_error + pattern" where
  "parse_pattern rx s =
     (case strip_prefix ''/'' s of
        Some inner \<Rightarrow>
          (let (source, ci) =
                 (case str_rfind (CHR ''/'') inner of
                    Some pos \<Rightarrow> (take pos inner, CHR ''i'' \<in> set (drop (pos + 1) inner))
                  | None \<Rightarrow> (inner, False));
               pat = regex_text ci source
           in if rx pat then Inr (Regex source pat ci) else Inl (InvalidRegex pat))
      | None \<Rightarrow> Inr (Substring (to_lowercase s)))"

definition parse_selector :: "string \<Rightarrow> selector" where
  "parse_selector s =
     (if s = ''m'' then SMessage else if s = ''fm'' then SFullMessage
      else if s = ''mfm'' then SMessageOrFull else if s = ''h'' then SHost
      else if s = ''fa'' then SFacility else if s = ''fi'' then SFile
      else if s = ''ln'' then SLine else if s = ''sn'' then SSpanName
      else if s = ''sv'' then SServiceName else if s = ''st'' then SSpanStatus
      else if s = ''sk'' then SSpanKind else SAdditionalField s)"

definition parse_level_token :: "level_op \<Rightarrow> string \<Rightarrow> filter_parse_error + qualifier" where
  "parse_level_token op rest =
     (case from_name rest of None \<Rightarrow> Inl (UnknownLevel rest) | Some l \<Rightarrow> Inr (LevelFilter op l))"

definition parse_duration_token :: "duration_op \<Rightarrow> string \<Rightarrow> filter_parse_error + qualifier" where
  "parse_duration_token op rest =
     (case parse_f64 rest of
        None \<Rightarrow> Inl (InvalidLevelSyntax (''invalid duration value: '' @ rest))
      | Some v \<Rightarrow> Inr (DurationFilter op v))"

definition parse_name_token :: "(string \<Rightarrow> qualifier) \<Rightarrow> string \<Rightarrow> filter_parse_error + qualifier" where
  "parse_name_token mk rest =
     (let name = trim rest
      in if name = [] then Inl EmptyBookmarkName
         else if \<not> is_valid_bookmark_token name then Inl (InvalidBookmarkName name)
         else Inr (mk name))"

definition is_quoted :: "string \<Rightarrow> bool" where
  "is_quoted s = (starts_with s [CHR 0x22] \<and> ends_with s [CHR 0x22] \<and> 2 \<le> length s)"

definition unquote :: "string \<Rightarrow> string" where
  "unquote s = (if is_quoted s then take (length s - 2) (drop 1 s) else s)"

text \<open>The tail of \<open>parse_token\<close>, once no comparison prefix applied.\<close>

definition parse_plain_token :: "(string \<Rightarrow> bool) \<Rightarrow> string \<Rightarrow> filter_parse_error + qualifier" where
  "parse_plain_token rx token =
     (if is_quoted token then Inr (BarePattern (Substring (to_lowercase (unquote token))))
      else if starts_with token ''/'' then bind_res (parse_pattern rx token) (\<lambda>p. Inr (BarePattern p))
      else
        let bare = Inr (BarePattern (Substring (to_lowercase token)))
        in case str_find (CHR ''='') token of
             None \<Rightarrow> bare
           | Some eq_pos \<Rightarrow>
               (let lhs = trim (take eq_pos token); rhs = trim (drop (eq_pos + 1) token)
                in if lhs = [] then bare
                   else if ends_with lhs ''>'' \<or> ends_with lhs ''<''
                   then Inl (UnknownComparisonSelector lhs)
                   else bind_res (parse_pattern rx (unquote rhs))
                     (\<lambda>p. Inr (SelectorPattern (parse_selector lhs) p))))"

definition parse_token :: "(string \<Rightarrow> bool) \<Rightarrow> string \<Rightarrow> filter_parse_error + qualifier" where
  "parse_token rx tok =
     (let token = trim tok
      in case strip_prefix ''l>='' token of Some rest \<Rightarrow> parse_level_token LGte rest | None \<Rightarrow>
         case strip_prefix ''l<='' token of Some rest \<Rightarrow> parse_level_token LLte rest | None \<Rightarrow>
         case strip_prefix ''l='' token of Some rest \<Rightarrow> parse_level_token LEq rest | None \<Rightarrow>
         case strip_prefix ''d>='' token of Some rest \<Rightarrow> parse_duration_token DGte rest | None \<Rightarrow>
         case strip_prefix ''d<='' token of Some rest \<Rightarrow> parse_duration_token DLte rest | None \<Rightarrow>
         case strip_prefix ''b>='' token of Some rest \<Rightarrow> parse_name_token (BookmarkFilter BGte) rest | None \<Rightarrow>
         case strip_prefix ''b<='' token of Some rest \<Rightarrow> parse_name_token (BookmarkFilter BLte) rest | None \<Rightarrow>
         case strip_prefix ''c>='' token of Some rest \<Rightarrow> parse_name_token CursorFilter rest | None \<Rightarrow>
         if starts_with token ''c<='' then Inl CursorLteNotSupported
         else parse_plain_token rx token)"

definition is_span_qualifier :: "qualifier \<Rightarrow> bool" where
  "is_span_qualifier q =
     (case q of SelectorPattern sel _ \<Rightarrow> sel \<in> set [SSpanName, SServiceName, SSpanStatus, SSpanKind]
      | DurationFilter _ _ \<Rightarrow> True | _ \<Rightarrow> False)"

definition is_log_qualifier :: "qualifier \<Rightarrow> bool" where
  "is_log_qualifier q =
     (case q of SelectorPattern sel _ \<Rightarrow>
          sel \<in> set [SMessage, SFullMessage, SMessageOrFull, SHost, SFacility, SFile, SLine]
      | LevelFilter _ _ \<Rightarrow> True | _ \<Rightarrow> False)"

definition is_cursor :: "qualifier \<Rightarrow> bool" where
  "is_cursor q = (case q of CursorFilter _ \<Rightarrow> True | _ \<Rightarrow> False)"

definition is_bookmark :: "qualifier \<Rightarrow> bool" where
  "is_bookmark q = (case q of BookmarkFilter _ _ \<Rightarrow> True | CursorFilter _ \<Rightarrow> True | _ \<Rightarrow> False)"

definition is_span_filter :: "parsed_filter \<Rightarrow> bool" where
  "is_span_filter f = (case f of Qualifiers qs \<Rightarrow> list_ex is_span_qualifier qs | _ \<Rightarrow> False)"

text \<open>The loop of \<open>parse_filter\<close> over the tokens: blank ones are skipped, the first error ends it.\<close>

fun parse_tokens :: "(string \<Rightarrow> bool) \<Rightarrow> string list \<Rightarrow> filter_parse_error + qualifier list" where
  "parse_tokens rx [] = Inr []"
| "parse_tokens rx (t # ts) =
     (if trim t = [] then parse_tokens rx ts
      else bind_res (parse_token rx (trim t)) (\<lambda>q.
           bind_res (parse_tokens rx ts) (\<lambda>qs. Inr (q # qs))))"

definition parse_filter :: "(string \<Rightarrow> bool) \<Rightarrow> string \<Rightarrow> filter_parse_error + parsed_filter" where
  "parse_filter rx inp =
     (let s = trim inp
      in if s = [] then Inl EmptyFilter
         else if s = ''ALL'' then Inr FAll
         else if s = ''NONE'' then Inr FNone
         else bind_res (split_on_commas s) (\<lambda>toks.
              bind_res (parse_tokens rx toks) (\<lambda>qs.
                if qs = [] then Inl EmptyFilter
                else if list_ex is_span_qualifier qs \<and> list_ex is_log_qualifier qs
                then Inl MixedLogSpanSelectors
                else if 1 < length (filter is_cursor qs) then Inl MultipleCursorQualifiers
                else Inr (Qualifiers qs))))"

section \<open>Questions about a filter\<close>

definition contains_bookmark_qualifier :: "parsed_filter \<Rightarrow> bool" where
  "contains_bookmark_qualifier f = (case f of Qualifiers qs \<Rightarrow> list_ex is_bookmark qs | _ \<Rightarrow> False)"

definition contains_cursor_qualifier :: "parsed_filter \<Rightarrow> bool" where
  "contains_cursor_qualifier f = (case f of Qualifiers qs \<Rightarrow> list_ex is_cursor qs | _ \<Rightarrow> False)"

definition additional_field_selector :: "(string \<Rightarrow> bool) \<Rightarrow> string \<Rightarrow> string option" where
  "additional_field_selector rx name =
     (if name = [] then None
      else case parse_filter rx (name @ ''=x'') of
             Inr (Qualifiers [SelectorPattern (SAdditionalField n) p]) \<Rightarrow>
               if n = name then Some name else None
           | _ \<Rightarrow> None)"

definition lower_bound_of :: "qualifier \<Rightarrow> u64 option" where
  "lower_bound_of q = (case q of SeqFilter Gt v \<Rightarrow> Some v | CursorSeq v \<Rightarrow> Some v | _ \<Rightarrow> None)"

definition resolved_lower_bound :: "parsed_filter \<Rightarrow> u64 option" where
  "resolved_lower_bound f =
     (case f of
        Qualifiers qs \<Rightarrow>
          (case List.map_filter lower_bound_of qs of [] \<Rightarrow> None | v # vs \<Rightarrow> Some (fold max vs v))
      | _ \<Rightarrow> None)"

fun seq_range_step :: "qualifier \<Rightarrow> u64 option \<times> u64 option \<Rightarrow> u64 option \<times> u64 option" where
  "seq_range_step (SeqFilter Gt v) (lo, hi) =
     (Some (case lo of None \<Rightarrow> sat_add v 1 | Some cur \<Rightarrow> max cur (sat_add v 1)), hi)"
| "seq_range_step (CursorSeq v) (lo, hi) =
     (Some (case lo of None \<Rightarrow> sat_add v 1 | Some cur \<Rightarrow> max cur (sat_add v 1)), hi)"
| "seq_range_step (SeqFilter Lt v) (lo, hi) =
     (lo, Some (case hi of None \<Rightarrow> v - 1 | Some cur \<Rightarrow> min cur (v - 1)))"
| "seq_range_step q r = r"

definition resolved_seq_range :: "parsed_filter option \<Rightarrow> u64 option \<times> u64 option" where
  "resolved_seq_range f =
     (case f of Some (Qualifiers qs) \<Rightarrow> fold seq_range_step qs (None, None) | _ \<Rightarrow> (None, None))"

definition evicted_below :: "u64 \<Rightarrow> u64 \<Rightarrow> u64 option" where
  "evicted_below from lost_below = (if lost_below > from then Some (lost_below - from) else None)"

definition evicted_before_window :: "parsed_filter \<Rightarrow> u64 \<Rightarrow> u64 option" where
  "evicted_before_window f lost_below =
     (case resolved_lower_bound f of None \<Rightarrow> None
      | Some lb \<Rightarrow> evicted_below (sat_add lb 1) lost_below)"

section \<open>The wire form of a pattern\<close>

datatype de_error = DeMissingField string | DeInvalidType | DeInvalidRegex string | DeUnknownPatternType

definition serialize_pattern :: "pattern \<Rightarrow> (string \<times> json) list" where
  "serialize_pattern p =
     (case p of
        Substring s \<Rightarrow> [(''type'', JString ''substring''), (''value'', JString s)]
      | Regex source compiled ci \<Rightarrow>
          [(''type'', JString ''regex''), (''source'', JString source),
           (''case_insensitive'', JBool ci)])"

record pattern_visit =
  pv_type :: "string option"
  pv_value :: "string option"
  pv_source :: "string option"
  pv_ci :: "bool option"

text \<open>The visitor's loop over the map: known keys are decoded, the others skipped.\<close>

fun visit_keys :: "(string \<times> json) list \<Rightarrow> pattern_visit \<Rightarrow> de_error + pattern_visit" where
  "visit_keys [] st = Inr st"
| "visit_keys ((k, v) # m) st =
     (let str_key = (\<lambda>upd. case as_str v of None \<Rightarrow> Inl DeInvalidType | Some s \<Rightarrow> visit_keys m (upd s))
      in if k = ''type'' then str_key (\<lambda>s. st\<lparr>pv_type := Some s\<rparr>)
         else if k = ''value'' then str_key (\<lambda>s. st\<lparr>pv_value := Some s\<rparr>)
         else if k = ''source'' then str_key (\<lambda>s. st\<lparr>pv_source := Some s\<rparr>)
         else if k = ''case_insensitive'' then
           (case v of JBool b \<Rightarrow> visit_keys m (st\<lparr>pv_ci := Some b\<rparr>) | _ \<Rightarrow> Inl DeInvalidType)
         else visit_keys m st)"

definition deserialize_pattern :: "(string \<Rightarrow> bool) \<Rightarrow> (string \<times> json) list \<Rightarrow> de_error + pattern" where
  "deserialize_pattern rx m =
     bind_res (visit_keys m \<lparr>pv_type = None, pv_value = None, pv_source = None, pv_ci = None\<rparr>) (\<lambda>st.
       if pv_type st = Some ''substring'' then
         (case pv_value st of None \<Rightarrow> Inl (DeMissingField ''value'') | Some v \<Rightarrow> Inr (Substring v))
       else if pv_type st = Some ''regex'' then
         (case pv_source st of None \<Rightarrow> Inl (DeMissingField ''source'')
          | Some src \<Rightarrow>
              (let ci = (case pv_ci st of None \<Rightarrow> False | Some b \<Rightarrow> b); pat = regex_text ci src
               in if rx pat then Inr (Regex src pat ci) else Inl (DeInvalidRegex pat)))
       else Inl DeUnknownPatternType)"

section \<open>What the parser produces\<close>

text \<open>
  A pattern as the parser stores it: a substring in lower case, or an expression that compiled
  from its own source and flag.
\<close>

fun wf_pattern :: "(string \<Rightarrow> bool) \<Rightarrow> pattern \<Rightarrow> bool" where
  "wf_pattern rx (Substring s) = (to_lowercase s = s)"
| "wf_pattern rx (Regex source compiled ci) = (compiled = regex_text ci source \<and> rx compiled)"

text \<open>
  A qualifier the parser can produce: patterns well-formed, bookmark names valid, and never one
  of the internal seq bounds, which only the resolver writes.
\<close>

fun wf_qualifier :: "(string \<Rightarrow> bool) \<Rightarrow> qualifier \<Rightarrow> bool" where
  "wf_qualifier rx (BarePattern p) = wf_pattern rx p"
| "wf_qualifier rx (SelectorPattern sel p) =
     (wf_pattern rx p \<and> (case sel of SAdditionalField k \<Rightarrow> k \<noteq> [] \<and> \<not> ends_with k ''>'' \<and> \<not> ends_with k ''<'' | _ \<Rightarrow> True))"
| "wf_qualifier rx (BookmarkFilter op name) = is_valid_bookmark_token name"
| "wf_qualifier rx (CursorFilter name) = is_valid_bookmark_token name"
| "wf_qualifier rx (SeqFilter op v) = False"
| "wf_qualifier rx (CursorSeq v) = False"
| "wf_qualifier rx q = True"

definition wf_filter :: "(string \<Rightarrow> bool) \<Rightarrow> parsed_filter \<Rightarrow> bool" where
  "wf_filter rx f =
     (case f of
        Qualifiers qs \<Rightarrow> qs \<noteq> [] \<and> list_all (wf_qualifier rx) qs
          \<and> \<not> (list_ex is_span_qualifier qs \<and> list_ex is_log_qualifier qs)
          \<and> length (filter is_cursor qs) \<le> 1
      | _ \<Rightarrow> True)"

lemma parse_pattern_wf: "parse_pattern rx s = Inr p \<Longrightarrow> wf_pattern rx p"
  by (auto simp: parse_pattern_def Let_def split: option.splits if_splits)

lemma parse_level_token_wf: "parse_level_token op s = Inr q \<Longrightarrow> wf_qualifier rx q"
  by (auto simp: parse_level_token_def split: option.splits)

lemma parse_duration_token_wf: "parse_duration_token op s = Inr q \<Longrightarrow> wf_qualifier rx q"
  by (auto simp: parse_duration_token_def split: option.splits)

lemma parse_name_token_wf:
  "parse_name_token mk s = Inr q \<Longrightarrow> \<exists>n. q = mk n \<and> is_valid_bookmark_token n"
  by (auto simp: parse_name_token_def Let_def split: if_splits)

lemma parse_selector_field:
  "parse_selector s = SAdditionalField k \<Longrightarrow> k = s"
  by (auto simp: parse_selector_def split: if_splits)

lemma parse_plain_token_wf: "parse_plain_token rx s = Inr q \<Longrightarrow> wf_qualifier rx q"
  by (auto simp: parse_plain_token_def Let_def bind_res_Inr parse_pattern_wf
      split: option.splits if_splits selector.splits dest!: parse_selector_field)

lemma parse_token_wf: "parse_token rx s = Inr q \<Longrightarrow> wf_qualifier rx q"
  unfolding parse_token_def Let_def
  by (auto split: option.splits if_splits
      dest: parse_level_token_wf parse_duration_token_wf parse_name_token_wf parse_plain_token_wf)

lemma parse_tokens_wf: "parse_tokens rx ts = Inr qs \<Longrightarrow> list_all (wf_qualifier rx) qs"
  by (induction ts arbitrary: qs) (auto simp: bind_res_Inr parse_token_wf split: if_splits)

text \<open>
  (C11) Whatever the parser accepts is a well-formed filter: at least one qualifier, log and span
  selectors never mixed, at most one cursor, every regular expression compiled from its own
  source and flag, every bookmark name valid, and no internal seq bound.
\<close>

theorem parse_filter_wf: "parse_filter rx s = Inr f \<Longrightarrow> wf_filter rx f"
  by (auto simp: parse_filter_def Let_def bind_res_Inr wf_filter_def parse_tokens_wf
      split: if_splits)

lemma parse_filter_wf_witness:
  "wf_filter (\<lambda>p. True) (Qualifiers [LevelFilter LGte Warn, CursorFilter ''cur'', BarePattern (Substring ''db'')])"
proof -
  have "parse_filter (\<lambda>p. True) ''l>=warn, c>=cur ,DB''
      = Inr (Qualifiers [LevelFilter LGte Warn, CursorFilter ''cur'', BarePattern (Substring ''db'')])"
    by code_simp
  then show ?thesis by (rule parse_filter_wf)
qed

section \<open>Round trips\<close>

text \<open>
  A pattern survives its wire form: deserialising what \<open>serialize\<close> wrote gives the pattern
  back, for a substring always, and for a regular expression whenever it compiled from its own
  source and flag, which holds of every pattern the parser or the deserialiser made.
\<close>

theorem pattern_wire_roundtrip:
  "(case p of Substring s \<Rightarrow> True | Regex source compiled ci \<Rightarrow> compiled = regex_text ci source \<and> rx compiled) \<Longrightarrow>
   deserialize_pattern rx (serialize_pattern p) = Inr p"
  by (cases p) (simp_all add: deserialize_pattern_def serialize_pattern_def as_str_def Let_def)

lemma pattern_wire_roundtrip_witness:
  "deserialize_pattern (\<lambda>p. True) (serialize_pattern (Regex ''a+'' ''(?i)a+'' True))
     = Inr (Regex ''a+'' ''(?i)a+'' True)"
  by (rule pattern_wire_roundtrip) (simp add: regex_text_def)

lemma split_commas_in_quotes:
  "CHR 0x22 \<notin> set s \<Longrightarrow>
   split_commas_loop (s @ CHR 0x22 # r) toks cur True = split_commas_loop r toks (cur @ s @ [CHR 0x22]) False"
  by (induction s arbitrary: cur) auto

lemma quoted_token:
  "is_quoted (CHR 0x22 # s @ [CHR 0x22])" "unquote (CHR 0x22 # s @ [CHR 0x22]) = s"
  by (simp_all add: unquote_def is_quoted_def ends_with_def)

text \<open> The escape hatch: any text without a double quote, put in double quotes, is a filter for
  that text in lower case, whatever commas, operators or selectors it contains.
\<close>

theorem quoted_text_is_literal:
  assumes "CHR 0x22 \<notin> set s"
  shows "parse_filter rx (CHR 0x22 # s @ [CHR 0x22]) = Inr (Qualifiers [BarePattern (Substring (to_lowercase s))])"
proof -
  let ?q = "CHR 0x22 # s @ [CHR 0x22]"
  have trim: "trim ?q = ?q" by (rule trim_ends) (auto simp: is_ascii_ws_def)
  have split: "split_on_commas ?q = Inr [?q]"
    using split_commas_in_quotes [OF assms, of "[]" "[]" "[CHR 0x22]"]
    by (simp add: split_on_commas_def)
  have tok: "parse_token rx ?q = Inr (BarePattern (Substring (to_lowercase s)))"
    by (simp add: parse_token_def trim strip_prefix_def parse_plain_token_def quoted_token)
  show ?thesis
    by (simp add: parse_filter_def trim split tok is_span_qualifier_def is_cursor_def)
qed

lemma quoted_text_is_literal_witness:
  "parse_filter (\<lambda>p. True) (CHR 0x22 # ''A>=b, l=x'' @ [CHR 0x22])
     = Inr (Qualifiers [BarePattern (Substring ''a>=b, l=x'')])"
proof -
  have "to_lowercase ''A>=b, l=x'' = ''a>=b, l=x''" by code_simp
  then show ?thesis using quoted_text_is_literal [of "''A>=b, l=x''" "\<lambda>p. True"] by simp
qed

section \<open>Which additional fields a filter can reach\<close>

text \<open>A name of letters, digits, \<open>_\<close>, \<open>-\<close> and \<open>.\<close>, as emitters use for fields.\<close>

definition plain_name :: "string \<Rightarrow> bool" where
  "plain_name s =
     (s \<noteq> [] \<and> list_all (\<lambda>c. is_ascii_alphanumeric c \<or> c = CHR ''_'' \<or> c = CHR ''-'' \<or> c = CHR ''.'') s)"

lemma plain_name_chars:
  assumes "plain_name s"
  shows "CHR ''='' \<notin> set s" "CHR '','' \<notin> set s" "CHR 0x22 \<notin> set s" "CHR ''>'' \<notin> set s"
    "CHR ''<'' \<notin> set s" "CHR ''/'' \<notin> set s" "c \<in> set s \<Longrightarrow> \<not> is_ascii_ws c"
proof -
  let ?ok = "\<lambda>c. is_ascii_alphanumeric c \<or> c = CHR ''_'' \<or> c = CHR ''-'' \<or> c = CHR ''.''"
  note char_defs = is_ascii_alphanumeric_def is_ascii_upper_def is_ascii_lower_def is_ascii_digit_def
  have ok: "?ok c" if "c \<in> set s" for c
    using assms that by (auto simp: plain_name_def list_all_iff)
  then have no: "\<not> ?ok c \<Longrightarrow> c \<notin> set s" for c by metis
  show "CHR ''='' \<notin> set s" "CHR '','' \<notin> set s" "CHR 0x22 \<notin> set s" "CHR ''>'' \<notin> set s"
    "CHR ''<'' \<notin> set s" "CHR ''/'' \<notin> set s"
    by (rule no, simp add: char_defs)+
  show "c \<in> set s \<Longrightarrow> \<not> is_ascii_ws c"
    using ok [of c] by (auto simp: char_defs is_ascii_ws_def)
qed

lemma split_commas_plain:
  "CHR '','' \<notin> set s \<Longrightarrow> CHR 0x22 \<notin> set s \<Longrightarrow>
   split_commas_loop s toks cur False = Inr (toks @ [cur @ s])"
  by (induction s arbitrary: cur) auto

lemma starts_with_field:
  "CHR ''='' \<notin> set name \<Longrightarrow> CHR ''='' \<notin> set p \<Longrightarrow> starts_with (name @ ''=x'') (p @ ''='') \<longleftrightarrow> name = p"
  by (auto simp: starts_with_iff append_Cons_eq_iff)

lemma str_find_append: "c \<notin> set a \<Longrightarrow> str_find c (a @ c # b) = Some (length a)"
  by (induction a) auto

lemma parse_probe_token:
  assumes "plain_name name"
  shows "parse_token rx (name @ ''=x'') =
    (if name = ''l'' then Inl (UnknownLevel ''x'')
     else Inr (SelectorPattern (parse_selector name) (Substring ''x'')))"
proof -
  note chars = plain_name_chars [OF assms]
  have ne: "name \<noteq> []" using assms by (simp add: plain_name_def)
  have eq: "CHR ''='' \<notin> set name" by (rule chars)
  have trim: "trim (name @ ''=x'') = name @ ''=x''" "trim name = name" "trim ''x'' = ''x''"
    using ne chars(7) by (auto intro!: trim_ends simp: is_ascii_ws_def)
  have pre: "starts_with (name @ ''=x'') (p @ ''='') \<longleftrightarrow> name = p" if "CHR ''='' \<notin> set p" for p
    using starts_with_field [OF eq that] .
  have gtlt: "name \<noteq> a # CHR ''>'' # b" "name \<noteq> a # CHR ''<'' # b" for a b
    using chars(4,5) by auto
  have cmp: "\<not> starts_with (name @ ''=x'') ''l>=''" "\<not> starts_with (name @ ''=x'') ''l<=''"
    "\<not> starts_with (name @ ''=x'') ''d>=''" "\<not> starts_with (name @ ''=x'') ''d<=''"
    "\<not> starts_with (name @ ''=x'') ''b>=''" "\<not> starts_with (name @ ''=x'') ''b<=''"
    "\<not> starts_with (name @ ''=x'') ''c>=''" "\<not> starts_with (name @ ''=x'') ''c<=''"
    using pre [of "''l>''"] pre [of "''l<''"] pre [of "''d>''"] pre [of "''d<''"]
      pre [of "''b>''"] pre [of "''b<''"] pre [of "''c>''"] pre [of "''c<''"] gtlt by auto
  have lpre: "strip_prefix ''l='' (name @ ''=x'') = (if name = ''l'' then Some ''x'' else None)"
    using pre [of "''l''"] by (simp add: strip_prefix_def)
  have lx: "parse_level_token LEq ''x'' = Inl (UnknownLevel ''x'')" by code_simp
  have ends: "\<not> ends_with name ''>''" "\<not> ends_with name ''<''"
    using chars(4,5) ne by (auto simp: ends_with_def starts_with_iff rev_eq_append_conv)
  have pat: "parse_pattern rx (unquote ''x'') = Inr (Substring ''x'')" by code_simp
  have nq: "\<not> is_quoted (name @ ''=x'')" by (simp add: is_quoted_def ends_with_def)
  have ns: "\<not> starts_with (name @ ''=x'') ''/''"
    using chars(6) ne by (cases name) auto
  have "parse_plain_token rx (name @ ''=x'') = Inr (SelectorPattern (parse_selector name) (Substring ''x''))"
    using ne by (simp add: parse_plain_token_def nq ns str_find_append [OF eq] trim ends pat)
  then show ?thesis
    unfolding parse_token_def Let_def trim lpre by (simp add: strip_prefix_def cmp lx)
qed

text \<open> A filter reaches an additional field with an ordinary name exactly when no selector of the
  language has that name: the eleven selectors and \<open>l\<close> hide the field, every other name is its
  own selector.
\<close>

theorem additional_field_reachable:
  assumes "plain_name name"
  shows "additional_field_selector rx name =
    (if name \<in> set [''m'', ''fm'', ''mfm'', ''h'', ''fa'', ''fi'', ''ln'', ''sn'', ''sv'', ''st'', ''sk'', ''l'']
     then None else Some name)"
proof -
  note chars = plain_name_chars [OF assms]
  have ne: "name \<noteq> []" using assms by (simp add: plain_name_def)
  have trim: "trim (name @ ''=x'') = name @ ''=x''"
    using ne chars(7) by (auto intro!: trim_ends simp: is_ascii_ws_def)
  have kw: "name @ ''=x'' \<noteq> ''ALL''" "name @ ''=x'' \<noteq> ''NONE''"
    using chars(1) by (auto simp: append_eq_Cons_conv)
  have split: "split_on_commas (name @ ''=x'') = Inr [name @ ''=x'']"
    using chars(2,3) split_commas_plain [of "name @ ''=x''" "[]" "[]"]
    by (auto simp: split_on_commas_def)
  show ?thesis
    using ne unfolding additional_field_selector_def parse_filter_def Let_def trim
    by (simp add: kw split trim parse_probe_token [OF assms] is_cursor_def is_span_qualifier_def
        is_log_qualifier_def parse_selector_def)
qed

lemma additional_field_reachable_witness:
  "additional_field_selector (\<lambda>p. True) ''user.id'' = Some ''user.id''"
proof -
  have "plain_name ''user.id''" by code_simp
  from additional_field_reachable [OF this] show ?thesis by simp
qed

end
