(* ===== verification/Filter_Matcher.thy ===== *)
theory Filter_Matcher
  imports Filter_Parser
begin

text \<open>
  Evaluating a filter against a record (\<open>filter/matcher.rs\<close>). The regular-expression matcher and
  the rendering of a non-string JSON value are parameters, the two fields of \<open>match_env\<close>.
\<close>

record match_env =
  regex_is_match :: "string \<Rightarrow> string \<Rightarrow> bool"
  json_to_string :: "json \<Rightarrow> string"

definition matches_pattern :: "match_env \<Rightarrow> pattern \<Rightarrow> string \<Rightarrow> bool" where
  "matches_pattern env p txt =
     (case p of
        Substring s \<Rightarrow> str_contains (to_lowercase txt) (to_lowercase s)
      | Regex source compiled ci \<Rightarrow> regex_is_match env compiled txt)"

definition matches_opt :: "match_env \<Rightarrow> pattern \<Rightarrow> string option \<Rightarrow> bool" where
  "matches_opt env p t = (case t of None \<Rightarrow> False | Some s \<Rightarrow> matches_pattern env p s)"

definition field_text :: "match_env \<Rightarrow> json \<Rightarrow> string" where
  "field_text env v = (case v of JString s \<Rightarrow> s | _ \<Rightarrow> json_to_string env v)"

definition matches_any_field :: "match_env \<Rightarrow> pattern \<Rightarrow> log_entry \<Rightarrow> bool" where
  "matches_any_field env p e =
     (if matches_pattern env p (le_message e) then True
      else if matches_opt env p (le_full_message e) then True
      else if matches_pattern env p (le_host e) then True
      else if matches_opt env p (le_facility e) then True
      else if matches_opt env p (le_file e) then True
      else if matches_opt env p (map_option nat_to_string (le_line e)) then True
      else list_ex (\<lambda>(k, v). matches_pattern env p (field_text env v)) (le_additional_fields e))"

definition matches_selector :: "match_env \<Rightarrow> selector \<Rightarrow> pattern \<Rightarrow> log_entry \<Rightarrow> bool" where
  "matches_selector env sel p e =
     (case sel of
        SMessage \<Rightarrow> matches_pattern env p (le_message e)
      | SFullMessage \<Rightarrow> matches_opt env p (le_full_message e)
      | SMessageOrFull \<Rightarrow> matches_pattern env p (le_message e) \<or> matches_opt env p (le_full_message e)
      | SHost \<Rightarrow> matches_pattern env p (le_host e)
      | SFacility \<Rightarrow> matches_opt env p (le_facility e)
      | SFile \<Rightarrow> matches_opt env p (le_file e)
      | SLine \<Rightarrow> matches_opt env p (map_option nat_to_string (le_line e))
      | SAdditionalField name \<Rightarrow>
          matches_opt env p (map_option (field_text env) (map_of (le_additional_fields e) name))
      | _ \<Rightarrow> False)"

definition matches_level :: "level_op \<Rightarrow> level \<Rightarrow> level \<Rightarrow> bool" where
  "matches_level op filter_level entry_level =
     (case op of LEq \<Rightarrow> entry_level = filter_level
      | LGte \<Rightarrow> filter_level \<le> entry_level
      | LLte \<Rightarrow> entry_level \<le> filter_level)"

definition matches_seq :: "seq_op \<Rightarrow> u64 \<Rightarrow> u64 \<Rightarrow> bool" where
  "matches_seq op v s = (case op of Gt \<Rightarrow> v < s | Lt \<Rightarrow> s < v)"

definition matches_qualifier :: "match_env \<Rightarrow> qualifier \<Rightarrow> log_entry \<Rightarrow> bool" where
  "matches_qualifier env q e =
     (case q of
        BarePattern p \<Rightarrow> matches_any_field env p e
      | SelectorPattern sel p \<Rightarrow> matches_selector env sel p e
      | LevelFilter op l \<Rightarrow> matches_level op l (le_level e)
      | DurationFilter _ _ \<Rightarrow> False
      | BookmarkFilter _ _ \<Rightarrow> False
      | CursorFilter _ \<Rightarrow> False
      | SeqFilter op v \<Rightarrow> matches_seq op v (le_seq e)
      | CursorSeq v \<Rightarrow> v < le_seq e)"

definition matches_entry :: "match_env \<Rightarrow> parsed_filter \<Rightarrow> log_entry \<Rightarrow> bool" where
  "matches_entry env f e =
     (case f of FAll \<Rightarrow> True | FNone \<Rightarrow> False
      | Qualifiers qs \<Rightarrow> list_all (\<lambda>q. matches_qualifier env q e) qs)"

definition is_cursor_seq :: "qualifier \<Rightarrow> bool" where
  "is_cursor_seq q = (case q of CursorSeq _ \<Rightarrow> True | _ \<Rightarrow> False)"

definition matches_entry_past_cursor :: "match_env \<Rightarrow> parsed_filter \<Rightarrow> log_entry \<Rightarrow> bool" where
  "matches_entry_past_cursor env f e =
     (case f of FAll \<Rightarrow> True | FNone \<Rightarrow> False
      | Qualifiers qs \<Rightarrow> list_all (\<lambda>q. is_cursor_seq q \<or> matches_qualifier env q e) qs)"

definition matches_status :: "match_env \<Rightarrow> pattern \<Rightarrow> span_status \<Rightarrow> bool" where
  "matches_status env p st =
     (let pat_lower = (case p of Substring s \<Rightarrow> s | Regex source _ _ \<Rightarrow> to_lowercase source)
      in case st of
           SError msg \<Rightarrow> pat_lower = ''error'' \<or> matches_pattern env p msg
         | Ok \<Rightarrow> pat_lower = ''ok''
         | Unset \<Rightarrow> pat_lower = ''unset'')"

definition matches_span_qualifier :: "match_env \<Rightarrow> qualifier \<Rightarrow> span_entry \<Rightarrow> bool" where
  "matches_span_qualifier env q sp =
     (case q of
        BarePattern p \<Rightarrow> matches_pattern env p (sp_name sp)
      | SelectorPattern sel p \<Rightarrow>
          (case sel of
             SSpanName \<Rightarrow> matches_pattern env p (sp_name sp)
           | SServiceName \<Rightarrow> matches_pattern env p (sp_service_name sp)
           | SSpanStatus \<Rightarrow> matches_status env p (sp_status sp)
           | SSpanKind \<Rightarrow> matches_pattern env p (kind_lower (sp_kind sp))
           | SAdditionalField key \<Rightarrow>
               matches_opt env p (Option.bind (map_of (sp_attributes sp) key) as_str)
           | _ \<Rightarrow> False)
      | DurationFilter op threshold \<Rightarrow>
          (case op of DGte \<Rightarrow> f64_le threshold (sp_duration_ms sp)
           | DLte \<Rightarrow> f64_le (sp_duration_ms sp) threshold)
      | LevelFilter _ _ \<Rightarrow> False
      | BookmarkFilter _ _ \<Rightarrow> False
      | CursorFilter _ \<Rightarrow> False
      | SeqFilter op v \<Rightarrow> matches_seq op v (sp_seq sp)
      | CursorSeq v \<Rightarrow> v < sp_seq sp)"

definition matches_span :: "match_env \<Rightarrow> parsed_filter \<Rightarrow> span_entry \<Rightarrow> bool" where
  "matches_span env f sp =
     (case f of FAll \<Rightarrow> True | FNone \<Rightarrow> False
      | Qualifiers qs \<Rightarrow> list_all (\<lambda>q. matches_span_qualifier env q sp) qs)"

section \<open>The window of a filter\<close>

definition in_window :: "u64 option \<times> u64 option \<Rightarrow> u64 \<Rightarrow> bool" where
  "in_window r s =
     ((case fst r of None \<Rightarrow> True | Some lo \<Rightarrow> lo \<le> s) \<and> (case snd r of None \<Rightarrow> True | Some hi \<Rightarrow> s \<le> hi))"

text \<open>Whether a seq satisfies the seq bound of a qualifier, if it is one.\<close>

definition seq_ok :: "u64 \<Rightarrow> qualifier \<Rightarrow> bool" where
  "seq_ok s q = (case q of SeqFilter op v \<Rightarrow> matches_seq op v s | CursorSeq v \<Rightarrow> v < s | _ \<Rightarrow> True)"

lemma seq_range_step_sound:
  "in_window r s \<Longrightarrow> seq_ok s q \<Longrightarrow> in_window (seq_range_step q r) s"
  by (cases r; induction q r rule: seq_range_step.induct)
     (auto simp: in_window_def seq_ok_def matches_seq_def sat_add_def split: option.splits)

lemma seq_range_fold_sound:
  "in_window r s \<Longrightarrow> list_all (seq_ok s) qs \<Longrightarrow> in_window (fold seq_range_step qs r) s"
  by (induction qs arbitrary: r) (auto simp: seq_range_step_sound)

lemma matching_seq_ok:
  "matches_entry env (Qualifiers qs) e \<Longrightarrow> list_all (seq_ok (le_seq e)) qs"
  unfolding matches_entry_def
  by (auto simp: list_all_iff matches_qualifier_def seq_ok_def split: qualifier.splits)

lemma matching_span_seq_ok:
  "matches_span env (Qualifiers qs) sp \<Longrightarrow> list_all (seq_ok (sp_seq sp)) qs"
  unfolding matches_span_def
  by (auto simp: list_all_iff matches_span_qualifier_def seq_ok_def split: qualifier.splits)

lemma lower_bound_seq_ok:
  assumes "list_all (seq_ok s) qs" and "resolved_lower_bound (Qualifiers qs) = Some lb"
  shows "lb < s"
proof -
  have below: "v < s" if "v \<in> set (List.map_filter lower_bound_of qs)" for v
    using that assms(1)
    by (auto simp: List.map_filter_def list_all_iff lower_bound_of_def seq_ok_def matches_seq_def
        split: qualifier.splits seq_op.splits)
  obtain v vs where l: "List.map_filter lower_bound_of qs = v # vs" and lb: "lb = fold max vs v"
    using assms(2) by (auto simp: resolved_lower_bound_def split: list.splits)
  have "fold max vs v = Max (set (v # vs))" by (metis Max.set_eq_fold)
  then show ?thesis using lb l below Max_in [of "set (v # vs)"] by auto
qed

lemma resolved_range_sound:
  "(\<And>qs. f = Qualifiers qs \<Longrightarrow> list_all (seq_ok s) qs) \<Longrightarrow> in_window (resolved_seq_range (Some f)) s"
  using seq_range_fold_sound [of "(None, None)" s]
  by (cases f) (auto simp: resolved_seq_range_def, auto simp: in_window_def)

lemma unevicted_window_sound:
  assumes "\<And>qs. f = Qualifiers qs \<Longrightarrow> list_all (seq_ok s) qs"
    and "evicted_before_window f lost = None" and "resolved_lower_bound f = Some lb"
  shows "lost \<le> s"
proof -
  obtain qs where f: "f = Qualifiers qs"
    using assms(3) by (cases f) (auto simp: resolved_lower_bound_def)
  have "lb < s" using lower_bound_seq_ok assms(1) [OF f] assms(3) f by blast
  moreover have "lost \<le> sat_add lb 1"
    using assms(2,3) by (simp add: evicted_before_window_def evicted_below_def split: if_splits)
  ultimately show ?thesis by (simp add: sat_add_def)
qed

text \<open>
  (C10) The window a reply reports is sound for both kinds of record: whatever a filter matches,
  log or span, lies in the filter's resolved seq range; and where the filter has a lower bound
  and no eviction is reported below it, whatever it matches is at or above the loss floor.
\<close>

theorem resolved_window_sound:
  assumes "matches_entry env f e \<and> s = le_seq e \<or> matches_span env f sp \<and> s = sp_seq sp"
  shows "in_window (resolved_seq_range (Some f)) s
    \<and> (resolved_lower_bound f = None \<or> evicted_before_window f lost \<noteq> None \<or> lost \<le> s)"
proof -
  have ok: "list_all (seq_ok s) qs" if "f = Qualifiers qs" for qs
    using assms that matching_seq_ok matching_span_seq_ok by blast
  show ?thesis
    using resolved_range_sound [OF ok] unevicted_window_sound [OF ok] by fastforce
qed

definition demo_env :: match_env where
  "demo_env = \<lparr>regex_is_match = (\<lambda>p t. p = t), json_to_string = (\<lambda>v. [])\<rparr>"

definition demo_entry :: "u64 \<Rightarrow> log_entry" where
  "demo_entry s = (synthetic 0 Info ''hello'')\<lparr>le_seq := s\<rparr>"

lemma le_seq_demo_entry [simp]: "le_seq (demo_entry s) = s"
  by (simp add: demo_entry_def)

lemma resolved_window_sound_witness:
  "in_window (resolved_seq_range (Some (Qualifiers [CursorSeq 4, SeqFilter Lt 9]))) 7 \<and> (5::nat) \<le> 7"
proof -
  let ?f = "Qualifiers [CursorSeq 4, SeqFilter Lt 9]"
  have "matches_entry demo_env ?f (demo_entry 7) \<and> 7 = le_seq (demo_entry 7)
      \<or> matches_span demo_env ?f undefined \<and> 7 = sp_seq undefined"
    by (simp add: matches_entry_def matches_qualifier_def matches_seq_def demo_entry_def synthetic_def)
  from resolved_window_sound [OF this, of 5] show ?thesis
    by (simp add: evicted_before_window_def evicted_below_def resolved_lower_bound_def
        List.map_filter_def lower_bound_of_def sat_add_def u64_max_def)
qed

text \<open>
  A cursor's own bound is one qualifier among others: a record matches the resolved filter
  exactly when it matches past the cursor and lies above every cursor bound.
\<close>

lemma matches_entry_split:
  "matches_entry env f e \<longleftrightarrow>
   matches_entry_past_cursor env f e \<and>
   (case f of Qualifiers qs \<Rightarrow> list_all (\<lambda>q. case q of CursorSeq v \<Rightarrow> v < le_seq e | _ \<Rightarrow> True) qs | _ \<Rightarrow> True)"
  by (cases f)
     (auto simp: matches_entry_def matches_entry_past_cursor_def list_all_iff is_cursor_seq_def
        matches_qualifier_def split: qualifier.splits)

end
