(* ===== verification/Admission.thy ===== *)
theory Admission
  imports Filter_Matcher
begin

text \<open>
  Admitting a filter for a span collector (\<open>filter/admission.rs\<close>): filters that provably match
  no span are refused, surprising ones are admitted with warnings.
\<close>

datatype admission_error =
    MatchesNothing
  | LogOnlyQualifier string
  | ImpossibleDurationThreshold f64
  | EmptyDurationInterval f64 f64

datatype admission_warning =
    UninterpretedSelector string
  | NoSpanSpecificQualifier
  | NoOpDurationThreshold f64
  | BarePatternMatchesNameOnly
  | StatusMatchesErrorMessages
  | AttributeMatchIsStringOnly string

record admission = warnings :: "admission_warning list"

definition selector_name :: "selector \<Rightarrow> string option" where
  "selector_name sel =
     (case sel of SMessage \<Rightarrow> Some ''m'' | SFullMessage \<Rightarrow> Some ''fm'' | SMessageOrFull \<Rightarrow> Some ''mfm''
      | SHost \<Rightarrow> Some ''h'' | SFacility \<Rightarrow> Some ''fa'' | SFile \<Rightarrow> Some ''fi'' | SLine \<Rightarrow> Some ''ln''
      | _ \<Rightarrow> None)"

text \<open>The loop's state: warnings, whether a span-specific qualifier was seen, and the interval.\<close>

record admit_state =
  ad_warnings :: "admission_warning list"
  ad_span_specific :: bool
  ad_lower :: "f64 option"
  ad_upper :: "f64 option"

definition warn :: "admission_warning list \<Rightarrow> admit_state \<Rightarrow> admit_state" where
  "warn ws st = st\<lparr>ad_warnings := ad_warnings st @ ws\<rparr>"

definition admit_duration :: "duration_op \<Rightarrow> f64 \<Rightarrow> admit_state \<Rightarrow> admission_error + admit_state" where
  "admit_duration op v st0 =
     (let st = st0\<lparr>ad_span_specific := True\<rparr>
      in if is_nan v then Inl (ImpossibleDurationThreshold v)
         else if is_infinite v then
           (if (op = DGte) = is_sign_positive v then Inl (ImpossibleDurationThreshold v)
            else Inr (warn [NoOpDurationThreshold v] st))
         else case op of
             DGte \<Rightarrow> Inr (st\<lparr>ad_lower := Some (case ad_lower st of None \<Rightarrow> v | Some l \<Rightarrow> f64_max l v)\<rparr>)
           | DLte \<Rightarrow> Inr (st\<lparr>ad_upper := Some (case ad_upper st of None \<Rightarrow> v | Some u \<Rightarrow> f64_min u v)\<rparr>))"

definition admit_qualifier :: "qualifier \<Rightarrow> admit_state \<Rightarrow> admission_error + admit_state" where
  "admit_qualifier q st =
     (case q of
        LevelFilter _ _ \<Rightarrow> Inl (LogOnlyQualifier ''l'')
      | SelectorPattern sel _ \<Rightarrow>
          (case selector_name sel of
             Some name \<Rightarrow> Inl (LogOnlyQualifier name)
           | None \<Rightarrow>
               Inr (case sel of
                  SSpanStatus \<Rightarrow> warn [StatusMatchesErrorMessages] (st\<lparr>ad_span_specific := True\<rparr>)
                | SAdditionalField key \<Rightarrow>
                    warn [UninterpretedSelector key, AttributeMatchIsStringOnly key] st
                | _ \<Rightarrow> if sel \<in> set [SSpanName, SServiceName, SSpanKind]
                       then st\<lparr>ad_span_specific := True\<rparr> else st))
      | DurationFilter op v \<Rightarrow> admit_duration op v st
      | BarePattern _ \<Rightarrow> Inr (warn [BarePatternMatchesNameOnly] st)
      | _ \<Rightarrow> Inr st)"

fun admit_loop :: "qualifier list \<Rightarrow> admit_state \<Rightarrow> admission_error + admit_state" where
  "admit_loop [] st = Inr st"
| "admit_loop (q # qs) st = bind_res (admit_qualifier q st) (admit_loop qs)"

definition admit_span_filter :: "parsed_filter \<Rightarrow> admission_error + admission" where
  "admit_span_filter f =
     (case f of
        FNone \<Rightarrow> Inl MatchesNothing
      | FAll \<Rightarrow> Inr \<lparr>warnings = []\<rparr>
      | Qualifiers qs \<Rightarrow>
          bind_res (admit_loop qs \<lparr>ad_warnings = [], ad_span_specific = False, ad_lower = None, ad_upper = None\<rparr>)
            (\<lambda>st.
              let result = Inr \<lparr>warnings = ad_warnings (if ad_span_specific st then st else warn [NoSpanSpecificQualifier] st)\<rparr>
              in case (ad_lower st, ad_upper st) of
                   (Some l, Some u) \<Rightarrow> if f64_lt u l then Inl (EmptyDurationInterval l u) else result
                 | _ \<Rightarrow> result))"

section \<open>Refusals are provable\<close>

lemma admit_loop_append:
  "admit_loop (xs @ ys) st = bind_res (admit_loop xs st) (admit_loop ys)"
  by (induction xs arbitrary: st) (auto simp: bind_res_def split: sum.splits)

text \<open>The interval kept by the loop bounds the duration of every span the qualifiers match.\<close>

definition in_interval :: "admit_state \<Rightarrow> f64 \<Rightarrow> bool" where
  "in_interval st d =
     ((case ad_lower st of None \<Rightarrow> True | Some l \<Rightarrow> \<not> is_nan l \<and> f64_le l d) \<and>
      (case ad_upper st of None \<Rightarrow> True | Some u \<Rightarrow> \<not> is_nan u \<and> f64_le d u))"

lemma admit_qualifier_within:
  assumes "admit_qualifier q st = Inr st'" and "matches_span_qualifier env q sp"
    and "in_interval st (sp_duration_ms sp)" and "sp_duration_ms sp = Fin d"
  shows "in_interval st' (sp_duration_ms sp)"
proof (cases q)
  case (DurationFilter op v)
  then show ?thesis using assms
    by (auto simp: admit_qualifier_def admit_duration_def matches_span_qualifier_def in_interval_def
        warn_def f64_le_Fin_max f64_le_Fin_min Let_def split: if_splits duration_op.splits option.splits)
       (auto simp: f64_max_def f64_min_def split: if_splits)
qed (use assms in \<open>auto simp: admit_qualifier_def in_interval_def warn_def split: option.splits selector.splits if_splits\<close>)

lemma admit_qualifier_refuses:
  assumes "admit_qualifier q st = Inl err" and "sp_duration_ms sp = Fin d"
  shows "\<not> matches_span_qualifier env q sp"
proof (cases q)
  case (DurationFilter op v)
  then show ?thesis using assms
    by (cases op; cases v) (auto simp: admit_qualifier_def admit_duration_def matches_span_qualifier_def
        is_nan_def is_infinite_def is_sign_positive_def)
next
  case (SelectorPattern sel p)
  then show ?thesis using assms
    by (cases sel) (auto simp: admit_qualifier_def selector_name_def matches_span_qualifier_def)
qed (use assms in \<open>auto simp: admit_qualifier_def matches_span_qualifier_def\<close>)

lemma admit_loop_within:
  "admit_loop qs st = Inr st' \<Longrightarrow> list_all (\<lambda>q. matches_span_qualifier env q sp) qs \<Longrightarrow>
   in_interval st (sp_duration_ms sp) \<Longrightarrow> sp_duration_ms sp = Fin d \<Longrightarrow> in_interval st' (sp_duration_ms sp)"
  by (induction qs arbitrary: st) (auto simp: bind_res_Inr dest: admit_qualifier_within)

lemma admit_loop_refuses:
  "admit_loop qs st = Inl err \<Longrightarrow> sp_duration_ms sp = Fin d \<Longrightarrow>
   \<not> list_all (\<lambda>q. matches_span_qualifier env q sp) qs"
  by (induction qs arbitrary: st)
     (auto simp: bind_res_def split: sum.splits dest: admit_qualifier_refuses)

text \<open>
  (C12) Admission refuses only what provably cannot match: when a filter is refused, no span with
  a finite duration matches it, whatever the regular-expression engine.
\<close>

theorem refused_filter_matches_no_span:
  assumes "admit_span_filter f = Inl err" and "sp_duration_ms sp = Fin d"
  shows "\<not> matches_span env f sp"
proof
  assume m: "matches_span env f sp"
  then obtain qs where f: "f = Qualifiers qs"
    using assms(1) by (cases f) (auto simp: admit_span_filter_def matches_span_def)
  let ?st0 = "\<lparr>ad_warnings = [], ad_span_specific = False, ad_lower = None, ad_upper = None\<rparr>"
  have all: "list_all (\<lambda>q. matches_span_qualifier env q sp) qs" using m f by (simp add: matches_span_def)
  then obtain st where st: "admit_loop qs ?st0 = Inr st"
    using admit_loop_refuses [OF _ assms(2)] by (cases "admit_loop qs ?st0") auto
  have w: "in_interval st (sp_duration_ms sp)"
    by (rule admit_loop_within [OF st all _ assms(2)]) (simp add: in_interval_def)
  obtain l u where "ad_lower st = Some l" "ad_upper st = Some u" "f64_lt u l"
    using assms(1) by (auto simp: f admit_span_filter_def st Let_def split: option.splits if_splits)
  then show False using w f64_lt_trans_le by (auto simp: in_interval_def)
qed

definition demo_span :: "u64 \<Rightarrow> rat \<Rightarrow> span_entry" where
  "demo_span s d =
     \<lparr>sp_seq = s, sp_trace_id = 1, sp_span_id = 1, sp_parent_span_id = None, sp_start_time = 0,
      sp_end_time = 0, sp_duration_ms = Fin d, sp_name = ''op'', sp_kind = Server,
      sp_service_name = ''svc'', sp_status = Ok, sp_attributes = [], sp_events = []\<rparr>"

lemma refused_filter_matches_no_span_witness:
  "\<not> matches_span demo_env (Qualifiers [DurationFilter DGte (Fin 100), DurationFilter DLte (Fin 50)]) (demo_span 1 70)"
proof (rule refused_filter_matches_no_span)
  show "admit_span_filter (Qualifiers [DurationFilter DGte (Fin 100), DurationFilter DLte (Fin 50)])
      = Inl (EmptyDurationInterval (Fin 100) (Fin 50))"
    by (simp add: admit_span_filter_def admit_qualifier_def admit_duration_def is_nan_def
        is_infinite_def f64_lt_def)
  show "sp_duration_ms (demo_span 1 70) = Fin 70" by (simp add: demo_span_def)
qed

end
