(* ===== verification/Seq_Ring.thy ===== *)
theory Seq_Ring
  imports Prelude
begin

text \<open>
  Both stores of a domain, the log ring and the span ring, keep their records in ascending,
  distinct seq order and answer every read from that order: a seq is found by binary search, a
  range of seqs is a slice between two partition points, the neighbourhood of a record is the
  slice around its position, and a trace's records come from an index of ascending seq lists.
  This theory holds the standard library's searches, the reads over any ring, and the interface
  of a seq-ordered store as the locales \<open>seq_store\<close> and \<open>traced_store\<close>; the log store and the
  span store each interpret them.
\<close>

section \<open>Searching an ascending list\<close>

text \<open>\<open>binary_search_by_key\<close>: the index of an element with the key, by halving.\<close>

function bsearch :: "('a \<Rightarrow> nat) \<Rightarrow> 'a list \<Rightarrow> nat \<Rightarrow> nat \<Rightarrow> nat \<Rightarrow> nat option" where
  "bsearch key xs s lo hi =
     (if lo < hi
      then let mid = lo + (hi - lo) div 2; k = key (xs ! mid)
           in if k = s then Some mid
              else if k < s then bsearch key xs s (Suc mid) hi
              else bsearch key xs s lo mid
      else None)"
  by pat_completeness auto
termination
  by (relation "measure (\<lambda>(key, xs, s, lo, hi). hi - lo)") auto

declare bsearch.simps [simp del]

definition binary_search_by_key :: "('a \<Rightarrow> nat) \<Rightarrow> 'a list \<Rightarrow> nat \<Rightarrow> nat option" where
  "binary_search_by_key key xs s = bsearch key xs s 0 (length xs)"

lemma bsearch_Some:
  "bsearch key xs s lo hi = Some i \<Longrightarrow> lo \<le> i \<and> i < hi \<and> key (xs ! i) = s"
proof (induction key xs s lo hi rule: bsearch.induct)
  case (1 key xs s lo hi)
  let ?mid = "lo + (hi - lo) div 2"
  have lt: "lo < hi" using "1.prems" by (subst (asm) bsearch.simps) (simp split: if_splits)
  consider "key (xs ! ?mid) = s" | "key (xs ! ?mid) < s" | "s < key (xs ! ?mid)" by linarith
  then show ?case
  proof cases
    case 1
    then show ?thesis using "1.prems" lt by (subst (asm) bsearch.simps) (auto simp: Let_def)
  next
    case 2
    have "bsearch key xs s (Suc ?mid) hi = Some i"
      using 2 "1.prems" lt by (subst (asm) bsearch.simps) (simp add: Let_def)
    then show ?thesis using 1 lt "1.IH"(1) [OF lt refl refl] 2 by force
  next
    case 3
    have "bsearch key xs s lo ?mid = Some i"
      using 3 "1.prems" lt by (subst (asm) bsearch.simps) (simp add: Let_def)
    then show ?thesis using 1 lt "1.IH"(2) [OF lt refl refl] 3 by force
  qed
qed

lemma bsearch_finds:
  assumes "sorted_wrt (<) (map key xs)" and "hi \<le> length xs" and "lo \<le> i" and "i < hi"
    and "key (xs ! i) = s"
  shows "bsearch key xs s lo hi = Some i"
  using assms
proof (induction key xs s lo hi rule: bsearch.induct)
  case (1 key xs s lo hi)
  let ?mid = "lo + (hi - lo) div 2"
  have lt: "lo < hi" using "1.prems" by linarith
  have mid: "lo \<le> ?mid" "?mid < hi" using lt by auto
  have mono: "a < b \<Longrightarrow> b < length xs \<Longrightarrow> key (xs ! a) < key (xs ! b)" for a b
    using "1.prems"(1) sorted_wrt_nth_less [of "(<)" "map key xs" a b] by simp
  have ilen: "i < length xs" and mlen: "?mid < length xs" using "1.prems" mid by linarith+
  consider "?mid = i" | "?mid < i" | "i < ?mid" by linarith
  then show ?case
  proof cases
    case 1
    then show ?thesis using "1.prems" lt by (subst bsearch.simps) (simp add: Let_def)
  next
    case 2
    then have less: "key (xs ! ?mid) < s" using mono ilen "1.prems"(5) by blast
    then have "bsearch key xs s (Suc ?mid) hi = Some i"
      using "1.IH"(1) [OF lt refl refl] "1.prems" 2 by simp
    with less lt show ?thesis by (subst bsearch.simps) (simp add: Let_def)
  next
    case 3
    then have less: "s < key (xs ! ?mid)" using mono mlen "1.prems"(5) by blast
    then have "bsearch key xs s lo ?mid = Some i"
      using "1.IH"(2) [OF lt refl refl] "1.prems" 3 mid by simp
    with less lt show ?thesis by (subst bsearch.simps) (simp add: Let_def)
  qed
qed

lemma binary_search_SomeD:
  "binary_search_by_key key xs s = Some i \<Longrightarrow> i < length xs \<and> key (xs ! i) = s"
  unfolding binary_search_by_key_def by (drule bsearch_Some) simp

lemma binary_search_ascending:
  assumes "sorted_wrt (<) (map key xs)"
  shows "binary_search_by_key key xs s = Some i \<longleftrightarrow> i < length xs \<and> key (xs ! i) = s"
  using assms bsearch_finds [of key xs "length xs" 0 i s] binary_search_SomeD
  unfolding binary_search_by_key_def by blast

lemma binary_search_None:
  assumes "sorted_wrt (<) (map key xs)"
  shows "binary_search_by_key key xs s = None \<longleftrightarrow> s \<notin> key ` set xs"
proof -
  have "binary_search_by_key key xs s \<noteq> None \<longleftrightarrow> (\<exists>i < length xs. key (xs ! i) = s)"
    using binary_search_ascending [OF assms, of s] by auto
  also have "\<dots> \<longleftrightarrow> s \<in> key ` set xs"
    by (force simp: in_set_conv_nth)
  finally show ?thesis by blast
qed

section \<open>Reads over a ring\<close>

text \<open>The slice \<open>[from, to]\<close> in seqs: the records between two partition points.\<close>

definition ring_range :: "('a \<Rightarrow> nat) \<Rightarrow> 'a list \<Rightarrow> nat \<Rightarrow> nat \<Rightarrow> 'a list" where
  "ring_range key xs lo_seq hi_seq =
     (let start = partition_point (\<lambda>e. key e < lo_seq) xs;
          stop = partition_point (\<lambda>e. key e \<le> hi_seq) xs
      in take (max stop start - start) (drop start xs))"

text \<open>
  The record with this seq and its neighbours by position. The end \<open>idx + after + 1\<close> is a \<open>usize\<close>
  sum, which wraps in a release build; \<open>None\<close> is the panic of \<open>range(start..end)\<close> when the end
  it gives lies before the start.
\<close>

definition ring_context :: "('a \<Rightarrow> nat) \<Rightarrow> 'a list \<Rightarrow> nat \<Rightarrow> nat \<Rightarrow> nat \<Rightarrow> 'a list option" where
  "ring_context key xs s before after =
     (case binary_search_by_key key xs s of
        None \<Rightarrow> Some []
      | Some idx \<Rightarrow>
          (let start = idx - before; stop = min (wrap64 (wrap64 (idx + after) + 1)) (length xs)
           in if stop < start then None else Some (take (stop - start) (drop start xs))))"

text \<open>The records a list of seqs names, each looked up by binary search.\<close>

definition ring_lookup :: "('a \<Rightarrow> nat) \<Rightarrow> 'a list \<Rightarrow> nat list \<Rightarrow> 'a list" where
  "ring_lookup key xs seqs =
     List.map_filter (\<lambda>s. map_option ((!) xs) (binary_search_by_key key xs s)) seqs"

text \<open>The index a ring should carry: each trace's held seqs, ascending, no key for none.\<close>

definition index_of :: "('a \<Rightarrow> nat) \<Rightarrow> ('a \<Rightarrow> u128 option) \<Rightarrow> 'a list \<Rightarrow> (u128 \<rightharpoonup> nat list)" where
  "index_of key tr xs tid =
     (let l = map key (filter (\<lambda>e. tr e = Some tid) xs) in if l = [] then None else Some l)"

lemma partition_point_le: "partition_point p xs \<le> length xs"
  by (simp add: partition_point_def length_takeWhile_le)

lemma takeWhile_le_ascending:
  "sorted_wrt (<) (map (f :: 'a \<Rightarrow> 'b::linorder) xs) \<Longrightarrow>
   takeWhile (\<lambda>x. f x \<le> b) xs = filter (\<lambda>x. f x \<le> b) xs"
  by (induction xs) (force simp: empty_filter_conv)+

lemma ring_range_eq:
  assumes asc: "sorted_wrt (<) (map key xs)"
  shows "ring_range key xs lo_seq hi_seq = filter (\<lambda>e. lo_seq \<le> key e \<and> key e \<le> hi_seq) xs"
proof -
  define ys where "ys = takeWhile (\<lambda>e. key e < lo_seq) xs"
  define zs where "zs = dropWhile (\<lambda>e. key e < lo_seq) xs"
  have xs: "xs = ys @ zs" by (simp add: ys_def zs_def)
  have zs: "zs = filter (\<lambda>e. lo_seq \<le> key e) xs"
    unfolding zs_def by (rule dropWhile_ascending [OF asc])
  have asc_zs: "sorted_wrt (<) (map key zs)"
    using asc unfolding zs by (rule ascending_map_filter)
  have start: "partition_point (\<lambda>e. key e < lo_seq) xs = length ys"
    by (simp add: partition_point_def ys_def)
  have "ring_range key xs lo_seq hi_seq
      = take (max (length (takeWhile (\<lambda>e. key e \<le> hi_seq) xs)) (length ys) - length ys) zs"
    unfolding ring_range_def Let_def start by (simp add: xs partition_point_def)
  also have "\<dots> = takeWhile (\<lambda>e. key e \<le> hi_seq) zs"
  proof (cases "lo_seq \<le> Suc hi_seq")
    case True
    then have "key e \<le> hi_seq" if "e \<in> set ys" for e
      using that set_takeWhileD unfolding ys_def by fastforce
    then have "takeWhile (\<lambda>e. key e \<le> hi_seq) xs = ys @ takeWhile (\<lambda>e. key e \<le> hi_seq) zs"
      unfolding xs by (simp add: takeWhile_append2)
    then show ?thesis by (simp add: takeWhile_eq_take [symmetric])
  next
    case False
    have none: "takeWhile (\<lambda>e. key e \<le> hi_seq) zs = []"
    proof -
      have "lo_seq \<le> key e" if "e \<in> set zs" for e using that zs by simp
      with False have "\<not> key e \<le> hi_seq" if "e \<in> set zs" for e using that by fastforce
      then show ?thesis by (cases zs) auto
    qed
    have "length (takeWhile (\<lambda>e. key e \<le> hi_seq) xs) \<le> length ys"
      unfolding xs by (simp add: takeWhile_append none length_takeWhile_le)
    with none show ?thesis by (simp add: max_def)
  qed
  also have "\<dots> = filter (\<lambda>e. lo_seq \<le> key e \<and> key e \<le> hi_seq) xs"
    unfolding takeWhile_le_ascending [OF asc_zs] unfolding zs by (simp add: conj_commute)
  finally show ?thesis .
qed

lemma ring_context_Some:
  assumes asc: "sorted_wrt (<) (map key xs)" and i: "i < length xs" and fits: "length xs + after \<le> u64_max"
  shows "ring_context key xs (key (xs ! i)) before after =
    Some (map ((!) xs) [i - before ..< min (Suc (i + after)) (length xs)])"
proof -
  have "binary_search_by_key key xs (key (xs ! i)) = Some i"
    using binary_search_ascending [OF asc] i by blast
  moreover have "wrap64 (wrap64 (i + after) + 1) = Suc (i + after)" using i fits by simp
  ultimately show ?thesis
    using i by (auto simp: ring_context_def Let_def less_diff_conv add.commute intro!: nth_equalityI)
qed

lemma ring_context_None:
  assumes "sorted_wrt (<) (map key xs)" and "s \<notin> key ` set xs"
  shows "ring_context key xs s before after = Some []"
  using binary_search_None [OF assms(1), of s] assms(2) by (simp add: ring_context_def)

lemma ring_lookup_sub:
  assumes asc: "sorted_wrt (<) (map key xs)" and "set ys \<subseteq> set xs"
  shows "ring_lookup key xs (map key ys) = ys"
  using assms(2)
proof (induction ys)
  case Nil
  then show ?case by (simp add: ring_lookup_def List.map_filter_def)
next
  case (Cons y ys)
  obtain i where i: "i < length xs" "xs ! i = y" using Cons.prems by (auto simp: in_set_conv_nth)
  then have "binary_search_by_key key xs (key y) = Some i"
    using binary_search_ascending [OF asc] by blast
  then show ?case using Cons i by (simp add: ring_lookup_def List.map_filter_def)
qed

lemma ring_lookup_index:
  assumes "sorted_wrt (<) (map key xs)"
  shows "ring_lookup key xs (case index_of key tr xs tid of None \<Rightarrow> [] | Some l \<Rightarrow> l)
    = filter (\<lambda>e. tr e = Some tid) xs"
  using ring_lookup_sub [OF assms, of "filter (\<lambda>e. tr e = Some tid) xs"]
  by (auto simp: index_of_def Let_def ring_lookup_def List.map_filter_def)

section \<open>The interface of a seq-ordered store\<close>

text \<open>
  What a store promises its readers: while its invariant holds, the records it holds are in
  ascending, distinct seq order, and none of them lies below the floor it reports. The reads of
  both stores are correct by these laws alone.
\<close>

locale seq_store =
  fixes seq_of :: "'a \<Rightarrow> nat"
    and held :: "'s \<Rightarrow> 'a list"
    and floor :: "'s \<Rightarrow> nat"
    and invar :: "'s \<Rightarrow> bool"
  assumes ascending: "invar s \<Longrightarrow> sorted_wrt (<) (map seq_of (held s))"
    and above_floor: "invar s \<Longrightarrow> e \<in> set (held s) \<Longrightarrow> floor s \<le> seq_of e"
begin

lemma position_correct:
  "invar s \<Longrightarrow> binary_search_by_key seq_of (held s) q = Some i \<longleftrightarrow>
    i < length (held s) \<and> seq_of (held s ! i) = q"
  by (rule binary_search_ascending) (rule ascending)

lemma position_held:
  "invar s \<Longrightarrow> binary_search_by_key seq_of (held s) q \<noteq> None \<longleftrightarrow> q \<in> seq_of ` set (held s)"
  by (simp add: binary_search_None ascending del: not_None_eq)

lemma range_correct:
  "invar s \<Longrightarrow> ring_range seq_of (held s) a b = filter (\<lambda>e. a \<le> seq_of e \<and> seq_of e \<le> b) (held s)"
  by (rule ring_range_eq) (rule ascending)

lemma range_above_floor:
  "invar s \<Longrightarrow> e \<in> set (ring_range seq_of (held s) a b) \<Longrightarrow> floor s \<le> seq_of e"
  by (simp add: range_correct above_floor)

lemma context_correct:
  "invar s \<Longrightarrow> i < length (held s) \<Longrightarrow> length (held s) + after \<le> u64_max \<Longrightarrow>
   ring_context seq_of (held s) (seq_of (held s ! i)) before after =
     Some (map ((!) (held s)) [i - before ..< min (Suc (i + after)) (length (held s))])"
  by (rule ring_context_Some) (rule ascending)

lemma same_seq_same_record:
  "invar s \<Longrightarrow> e \<in> set (held s) \<Longrightarrow> e' \<in> set (held s) \<Longrightarrow> seq_of e = seq_of e' \<Longrightarrow> e = e'"
  by (rule ascending_key_inj [OF ascending])

end

text \<open>A store that also indexes its records by trace.\<close>

locale traced_store = seq_store seq_of held floor invar
  for seq_of :: "'a \<Rightarrow> nat" and held :: "'s \<Rightarrow> 'a list" and floor :: "'s \<Rightarrow> nat"
    and invar :: "'s \<Rightarrow> bool" +
  fixes trace_of :: "'a \<Rightarrow> u128 option"
    and index :: "'s \<Rightarrow> (u128 \<rightharpoonup> nat list)"
  assumes index_exact: "invar s \<Longrightarrow> index s = index_of seq_of trace_of (held s)"
begin

lemma by_trace_correct:
  "invar s \<Longrightarrow>
   ring_lookup seq_of (held s) (case index s tid of None \<Rightarrow> [] | Some l \<Rightarrow> l) =
     filter (\<lambda>e. trace_of e = Some tid) (held s)"
  using ring_lookup_index [OF ascending] by (simp add: index_exact)

lemma count_correct:
  "invar s \<Longrightarrow>
   (case index s tid of None \<Rightarrow> 0 | Some l \<Rightarrow> length l) =
     length (filter (\<lambda>e. trace_of e = Some tid) (held s))"
  by (auto simp: index_exact index_of_def Let_def)

end

section \<open>Lemmas on trace indices\<close>

lemma index_of_Nil [simp]: "index_of key tr [] = Map.empty"
  by (auto simp: index_of_def)

lemma index_of_snoc:
  "index_of key tr (xs @ [e]) =
     (case tr e of None \<Rightarrow> index_of key tr xs
      | Some t \<Rightarrow> (index_of key tr xs)(t \<mapsto>
          (case index_of key tr xs t of None \<Rightarrow> [] | Some l \<Rightarrow> l) @ [key e]))"
  by (rule ext) (auto simp: index_of_def Let_def split: option.splits)

lemma index_of_ascending:
  "sorted_wrt (<) (map key xs) \<Longrightarrow> index_of key tr xs tid = Some l \<Longrightarrow> sorted_wrt (<) l"
  by (auto simp: index_of_def Let_def ascending_map_filter split: if_splits)

end
