(* ===== verification/Log_Store.thy ===== *)
theory Log_Store
  imports Seq_Ring Filter_Matcher
begin

text \<open>
  The log ring of a domain (\<open>store/memory.rs\<close>): records in ascending seq order, an index of
  each trace's seqs, the records stored late (below a seq already held) by number and by seq,
  and the two floors, what was lost and what is refused. Every operation runs under one lock,
  so it is one step on the state; the atomics it moves are fields of the same record.
\<close>

section \<open>State\<close>

record log_store =
  entries :: "log_entry list"
  trace_index :: "u128 \<rightharpoonup> u64 list"
  late :: "(u64 \<times> u64) list"
  late_by_seq :: "(u64 \<times> u64) list"
  late_counter :: u64
  max_capacity :: nat
  total_stored :: u64
  total_received :: u64
  malformed_count :: u64
  lost_below :: u64
  admit_from :: u64

definition new_store :: "nat \<Rightarrow> log_store" where
  "new_store capacity =
     \<lparr>entries = [], trace_index = Map.empty, late = [], late_by_seq = [], late_counter = 0,
      max_capacity = capacity, total_stored = 0, total_received = 0, malformed_count = 0,
      lost_below = 0, admit_from = 0\<rparr>"

definition last_opt :: "'a list \<Rightarrow> 'a option" where
  "last_opt xs = (if xs = [] then None else Some (last xs))"

definition newest_seq :: "log_store \<Rightarrow> u64 option" where
  "newest_seq st = map_option le_seq (last_opt (entries st))"

definition oldest_seq :: "log_store \<Rightarrow> u64 option" where
  "oldest_seq st = (case entries st of [] \<Rightarrow> None | e # _ \<Rightarrow> Some (le_seq e))"

definition oldest_timestamp :: "log_store \<Rightarrow> int option" where
  "oldest_timestamp st = (case entries st of [] \<Rightarrow> None | e # _ \<Rightarrow> Some (le_timestamp e))"

text \<open>\<open>trace_index.entry(tid).or_default().push(seq)\<close>.\<close>

definition index_push :: "u128 option \<Rightarrow> u64 \<Rightarrow> (u128 \<rightharpoonup> u64 list) \<Rightarrow> (u128 \<rightharpoonup> u64 list)" where
  "index_push tid s m =
     (case tid of None \<Rightarrow> m
      | Some t \<Rightarrow> m(t \<mapsto> (case m t of None \<Rightarrow> [] | Some l \<Rightarrow> l) @ [s]))"

text \<open>
  \<open>from_records\<close>: the assertion on the order is the precondition, a violated one is the panic
  \<open>None\<close>.
\<close>

definition from_records :: "nat \<Rightarrow> log_entry list \<Rightarrow> u64 \<Rightarrow> log_store option" where
  "from_records capacity records floor0 =
     (if sorted_wrt (<) (map le_seq records)
      then Some ((new_store (max capacity (length records)))
             \<lparr>entries := records,
              trace_index := fold (\<lambda>e. index_push (le_trace_id e) (le_seq e)) records Map.empty,
              lost_below := floor0\<rparr>)
      else None)"

section \<open>Looking up and leaving\<close>

definition position :: "log_store \<Rightarrow> u64 \<Rightarrow> nat option" where
  "position st s = binary_search_by_key le_seq (entries st) s"

definition holds :: "log_store \<Rightarrow> u64 \<Rightarrow> bool" where
  "holds st s =
     (case newest_seq st of
        None \<Rightarrow> False
      | Some newest \<Rightarrow> if newest < s then False else if s = newest then True else position st s \<noteq> None)"

definition remove_at :: "nat \<Rightarrow> 'a list \<Rightarrow> 'a list" where
  "remove_at i xs = take i xs @ drop (Suc i) xs"

text \<open>The trace half of \<open>unindex\<close>.\<close>

definition index_remove :: "u128 option \<Rightarrow> u64 \<Rightarrow> (u128 \<rightharpoonup> u64 list) \<Rightarrow> (u128 \<rightharpoonup> u64 list)" where
  "index_remove tid s m =
     (case tid of None \<Rightarrow> m
      | Some t \<Rightarrow>
          (case m t of None \<Rightarrow> m
           | Some l \<Rightarrow>
               (let l' = (case binary_search_by_key (\<lambda>x. x) l s of None \<Rightarrow> l | Some i \<Rightarrow> remove_at i l)
                in if l' = [] then m(t := None) else m(t \<mapsto> l'))))"

definition unindex :: "u128 option \<Rightarrow> u64 \<Rightarrow> log_store \<Rightarrow> log_store" where
  "unindex tid s st =
     (let st1 = (case map_of (late_by_seq st) s of
                   None \<Rightarrow> st
                 | Some n \<Rightarrow> st\<lparr>late_by_seq := bt_remove s (late_by_seq st), late := bt_remove n (late st)\<rparr>)
      in st1\<lparr>trace_index := index_remove tid s (trace_index st1)\<rparr>)"

text \<open>The floor rises past a record that leaves, and its indices forget it.\<close>

definition lose :: "log_entry \<Rightarrow> log_store \<Rightarrow> log_store" where
  "lose e st = unindex (le_trace_id e) (le_seq e) (st\<lparr>lost_below := max (lost_below st) (sat_add (le_seq e) 1)\<rparr>)"

definition evict_front :: "log_store \<Rightarrow> log_store" where
  "evict_front st = (case entries st of [] \<Rightarrow> st | e # es \<Rightarrow> lose e (st\<lparr>entries := es\<rparr>))"

definition refuse_below :: "log_store \<Rightarrow> u64" where
  "refuse_below st = max (lost_below st) (admit_from st)"

definition clear_locked :: "log_store \<Rightarrow> log_store" where
  "clear_locked st =
     st\<lparr>lost_below := (case newest_seq st of None \<Rightarrow> lost_below st
          | Some newest \<Rightarrow> max (lost_below st) (sat_add newest 1)),
        entries := [], trace_index := Map.empty, late := [], late_by_seq := []\<rparr>"

definition clear :: "log_store \<Rightarrow> log_store" where
  "clear st = clear_locked st"

definition clear_through :: "u64 \<Rightarrow> log_store \<Rightarrow> log_store" where
  "clear_through newest_assigned st =
     (let st1 = clear_locked st in st1\<lparr>admit_from := max (admit_from st1) (sat_add newest_assigned 1)\<rparr>)"

section \<open>Storing\<close>

text \<open>Two runs merged by key: the first run's element when its key is smaller.\<close>

fun merge_runs :: "('a \<Rightarrow> nat) \<Rightarrow> 'a list \<Rightarrow> 'a list \<Rightarrow> 'a list" where
  "merge_runs key [] ys = ys"
| "merge_runs key xs [] = xs"
| "merge_runs key (x # xs) (y # ys) =
     (if key x < key y then x # merge_runs key xs (y # ys) else y # merge_runs key (x # xs) ys)"

definition merge_ascending :: "u64 list \<Rightarrow> u64 list \<Rightarrow> u64 list" where
  "merge_ascending l add =
     (if add = [] \<or> l = [] \<or> last l < hd add then l @ add else merge_runs (\<lambda>x. x) l add)"

text \<open>
  Each trace's list takes the batch's seqs for it in one merge. \<open>by_trace\<close> and \<open>trace_index\<close>
  are hash maps whose entries are handled independently, so the loop is pointwise.
\<close>

definition index_merge :: "log_entry list \<Rightarrow> (u128 \<rightharpoonup> u64 list) \<Rightarrow> (u128 \<rightharpoonup> u64 list)" where
  "index_merge batch m tid =
     (let seqs = map le_seq (filter (\<lambda>e. le_trace_id e = Some tid) batch)
      in if seqs = [] then m tid
         else Some (merge_ascending (case m tid of None \<Rightarrow> [] | Some l \<Rightarrow> l) seqs))"

text \<open>\<open>while excess > 0 && !entries.is_empty()\<close>: the state and the excess left.\<close>

fun evict_while :: "nat \<Rightarrow> log_store \<Rightarrow> log_store \<times> nat" where
  "evict_while 0 st = (st, 0)"
| "evict_while (Suc n) st =
     (if entries st = [] then (st, Suc n) else evict_while n (evict_front st))"

text \<open>A late record is numbered.\<close>

definition number_late :: "u64 \<Rightarrow> log_store \<Rightarrow> log_store" where
  "number_late s st =
     (let n = late_counter st + 1
      in st\<lparr>late_counter := n, late := bt_insert n s (late st), late_by_seq := bt_insert s n (late_by_seq st)\<rparr>)"

text \<open>The batch as \<open>merge_locked\<close> first reduces it: sorted, without repeats, not held.\<close>

definition new_offers :: "log_store \<Rightarrow> log_entry list \<Rightarrow> log_entry list" where
  "new_offers st batch =
     filter (\<lambda>e. \<not> holds st (le_seq e)) (dedup_by_key le_seq (sort_key le_seq batch))"

definition admitted :: "log_store \<Rightarrow> log_entry list \<Rightarrow> log_entry list" where
  "admitted st batch = filter (\<lambda>e. refuse_below st \<le> le_seq e) (new_offers st batch)"

definition late_seqs_of :: "log_store \<Rightarrow> log_entry list \<Rightarrow> u64 list" where
  "late_seqs_of st batch =
     (case newest_seq st of None \<Rightarrow> []
      | Some newest \<Rightarrow> takeWhile (\<lambda>s. s < newest) (map le_seq batch))"

text \<open>The body once the batch is known to be nonempty.\<close>

definition merge_batch :: "log_entry list \<Rightarrow> log_store \<Rightarrow> log_store \<times> nat" where
  "merge_batch batch st =
     (let late_seqs = late_seqs_of st batch;
          split = partition_point (\<lambda>e. le_seq e < le_seq (hd batch)) (entries st);
          tail = drop split (entries st);
          st1 = st\<lparr>entries := take split (entries st), trace_index := index_merge batch (trace_index st)\<rparr>;
          merged = merge_runs le_seq tail batch;
          (st2, excess) = evict_while (length (entries st1) + length merged - max_capacity st1) st1;
          dropped = take excess merged;
          st3 = fold lose dropped st2;
          dropped_through = map_option le_seq (last_opt dropped);
          st4 = st3\<lparr>entries := entries st3 @ drop excess merged\<rparr>;
          st5 = fold number_late
                  (filter (\<lambda>s. \<not> (case dropped_through of None \<Rightarrow> False | Some d \<Rightarrow> s \<le> d)) late_seqs) st4
      in (st5\<lparr>total_stored := wrap64 (total_stored st5 + length batch)\<rparr>, length tail))"

definition merge_locked :: "log_entry list \<Rightarrow> log_store \<Rightarrow> log_store \<times> nat" where
  "merge_locked batch st =
     (let offers = new_offers st batch;
          st1 = st\<lparr>total_received := wrap64 (total_received st + length offers)\<rparr>;
          adm = filter (\<lambda>e. refuse_below st1 \<le> le_seq e) offers
      in if adm = [] then (st1, 0) else merge_batch adm st1)"

definition insert_sorted :: "log_entry list \<Rightarrow> log_store \<Rightarrow> log_store \<times> nat" where
  "insert_sorted batch st = merge_locked batch st"

definition append :: "log_entry \<Rightarrow> log_store \<Rightarrow> log_store" where
  "append e st =
     (if \<not> (case newest_seq st of None \<Rightarrow> True | Some newest \<Rightarrow> newest < le_seq e)
      then fst (merge_locked [e] st)
      else
        let st1 = st\<lparr>total_received := wrap64 (total_received st + 1)\<rparr>
        in if le_seq e < refuse_below st1 then st1
           else if max_capacity st1 = 0
           then st1\<lparr>lost_below := max (lost_below st1) (sat_add (le_seq e) 1),
                    total_stored := wrap64 (total_stored st1 + 1)\<rparr>
           else
             let st2 = (if max_capacity st1 \<le> length (entries st1) then evict_front st1 else st1);
                 st3 = st2\<lparr>trace_index := index_push (le_trace_id e) (le_seq e) (trace_index st2)\<rparr>
             in st3\<lparr>entries := entries st3 @ [e], total_stored := wrap64 (total_stored st3 + 1)\<rparr>)"

definition increment_malformed :: "log_store \<Rightarrow> log_store" where
  "increment_malformed st = st\<lparr>malformed_count := wrap64 (malformed_count st + 1)\<rparr>"

section \<open>Reading\<close>

definition range_with_floor :: "u64 \<Rightarrow> u64 \<Rightarrow> log_store \<Rightarrow> log_entry list \<times> u64" where
  "range_with_floor from to st = (ring_range le_seq (entries st) from to, lost_below st)"

text \<open>\<open>None\<close> is the panic of the slice, when the window's end wraps (\<open>ring_context\<close>).\<close>

definition context_by_seq :: "u64 \<Rightarrow> nat \<Rightarrow> nat \<Rightarrow> log_store \<Rightarrow> log_entry list option" where
  "context_by_seq s before after st = ring_context le_seq (entries st) s before after"

definition logs_by_trace_id :: "u128 \<Rightarrow> log_store \<Rightarrow> log_entry list" where
  "logs_by_trace_id tid st =
     (case trace_index st tid of None \<Rightarrow> [] | Some seqs \<Rightarrow> ring_lookup le_seq (entries st) seqs)"

definition count_by_trace_id :: "u128 \<Rightarrow> log_store \<Rightarrow> nat" where
  "count_by_trace_id tid st = (case trace_index st tid of None \<Rightarrow> 0 | Some seqs \<Rightarrow> length seqs)"

definition contains_seq :: "u64 \<Rightarrow> log_store \<Rightarrow> bool" where
  "contains_seq s st = holds st s"

end
