(* ===== verification/Log_Store_Inv.thy ===== *)
theory Log_Store_Inv
  imports Log_Store
begin

text \<open>
  The invariant of the log ring and that every writer keeps it. \<open>ring_ok L st\<close> says that the
  indices, the late maps and the floors of \<open>st\<close> describe the ring \<open>L\<close>; it is stated of a list
  apart from \<open>entries st\<close>, because inside a merge the ring is split into the part still in the
  deque and the run being merged back.
\<close>

section \<open>Merging runs\<close>

lemma set_merge_runs [simp]: "set (merge_runs key xs ys) = set xs \<union> set ys"
  by (induction key xs ys rule: merge_runs.induct) auto

lemma length_merge_runs [simp]: "length (merge_runs key xs ys) = length xs + length ys"
  by (induction key xs ys rule: merge_runs.induct) auto

lemma ascending_merge_runs:
  "sorted_wrt (<) (map key xs) \<Longrightarrow> sorted_wrt (<) (map key ys) \<Longrightarrow> key ` set xs \<inter> key ` set ys = {} \<Longrightarrow>
   sorted_wrt (<) (map key (merge_runs key xs ys))"
proof (induction key xs ys rule: merge_runs.induct)
  case (3 key x xs y ys)
  then have "key x \<noteq> key y" by auto
  then consider "key x < key y" | "key y < key x" by linarith
  then show ?case
  proof cases
    case 1
    with 3 show ?thesis by (force simp: Ball_def)
  next
    case 2
    with 3 show ?thesis by (force simp: Ball_def)
  qed
qed auto

lemma merge_ascending_props:
  assumes "sorted_wrt (<) l" and "sorted_wrt (<) add" and "set l \<inter> set add = {}"
  shows "sorted_wrt (<) (merge_ascending l add)" and "set (merge_ascending l add) = set l \<union> set add"
proof -
  have "sorted_wrt (<) (l @ add)" if "last l < hd add" "l \<noteq> []" "add \<noteq> []"
  proof -
    have "x < y" if "x \<in> set l" "y \<in> set add" for x y
      using ascending_last_greatest [of "\<lambda>x. x" l x] ascending_hd_least [of "\<lambda>x. x" add y]
        assms that \<open>last l < hd add\<close> by force
    then show ?thesis using assms by (simp add: sorted_wrt_append)
  qed
  moreover have "sorted_wrt (<) (merge_runs (\<lambda>x. x) l add)"
    using ascending_merge_runs [of "\<lambda>x. x" l add] assms by simp
  ultimately show "sorted_wrt (<) (merge_ascending l add)"
    using assms by (cases "l = []"; cases "add = []") (auto simp: merge_ascending_def)
  show "set (merge_ascending l add) = set l \<union> set add"
    by (auto simp: merge_ascending_def)
qed

section \<open>Trace indices\<close>

lemma index_of_Some_iff:
  "index_of key tr xs tid = Some l \<longleftrightarrow> l \<noteq> [] \<and> l = map key (filter (\<lambda>e. tr e = Some tid) xs)"
  by (auto simp: index_of_def Let_def)

lemma index_of_None_iff:
  "index_of key tr xs tid = None \<longleftrightarrow> (\<forall>e\<in>set xs. tr e \<noteq> Some tid)"
  by (auto simp: index_of_def Let_def filter_empty_conv)

lemma index_push_of:
  "index_push (tr e) (key e) (index_of key tr xs) = index_of key tr (xs @ [e])"
  by (simp add: index_push_def index_of_snoc)

lemma fold_index_push:
  "fold (\<lambda>e. index_push (tr e) (key e)) xs (index_of key tr ys) = index_of key tr (ys @ xs)"
  by (induction xs arbitrary: ys) (simp_all add: index_push_of)

lemma binary_search_hd:
  assumes "sorted_wrt (<) (s # l)"
  shows "binary_search_by_key (\<lambda>x. x) (s # l) s = Some 0"
  using binary_search_ascending [of "\<lambda>x. x" "s # l" s 0] assms by simp

lemma index_remove_front:
  assumes "sorted_wrt (<) (map key (e # xs))"
  shows "index_remove (tr e) (key e) (index_of key tr (e # xs)) = index_of key tr xs"
proof (cases "tr e")
  case None
  then show ?thesis by (auto simp: index_remove_def index_of_def fun_eq_iff)
next
  case (Some t)
  let ?l = "map key (filter (\<lambda>e. tr e = Some t) xs)"
  have "sorted_wrt (<) (key e # ?l)"
    using ascending_map_filter [OF assms, of "\<lambda>e. tr e = Some t"] Some by simp
  from binary_search_hd [OF this] show ?thesis
    using Some by (auto simp: index_remove_def index_of_def remove_at_def Let_def fun_eq_iff)
qed

lemma index_merge_of:
  assumes "sorted_wrt (<) (map le_seq xs)" and "sorted_wrt (<) (map le_seq batch)"
    and "le_seq ` set xs \<inter> le_seq ` set batch = {}"
    and "sorted_wrt (<) (map le_seq L)" and "set L = set xs \<union> set batch"
  shows "index_merge batch (index_of le_seq le_trace_id xs) = index_of le_seq le_trace_id L"
proof
  fix tid
  let ?sel = "\<lambda>ys. map le_seq (filter (\<lambda>e. le_trace_id e = Some tid) ys)"
  have asc: "sorted_wrt (<) (?sel xs)" "sorted_wrt (<) (?sel batch)" "sorted_wrt (<) (?sel L)"
    using assms(1,2,4) by (simp_all add: ascending_map_filter)
  have dis: "set (?sel xs) \<inter> set (?sel batch) = {}" using assms(3) by auto
  have union: "set (?sel L) = set (?sel xs) \<union> set (?sel batch)" using assms(5) by auto
  have merged: "merge_ascending (?sel xs) (?sel batch) = ?sel L"
    using merge_ascending_props [OF asc(1,2) dis] asc(3) union by (intro ascending_unique) auto
  have base: "(case index_of le_seq le_trace_id xs tid of None \<Rightarrow> [] | Some l \<Rightarrow> l) = ?sel xs"
    by (auto simp: index_of_def Let_def)
  show "index_merge batch (index_of le_seq le_trace_id xs) tid = index_of le_seq le_trace_id L tid"
  proof (cases "?sel batch = []")
    case True
    then have "?sel L = ?sel xs" using asc union by (intro ascending_unique) auto
    with True show ?thesis by (simp add: index_merge_def index_of_def)
  next
    case False
    then have "?sel L \<noteq> []" using union by (metis Un_empty set_empty)
    with False merged base show ?thesis
      by (simp add: index_merge_def index_of_def Let_def)
  qed
qed

section \<open>The invariant\<close>

text \<open>The late maps: ordered, each the inverse of the other, numbered up to the counter.\<close>

definition late_ok :: "log_store \<Rightarrow> bool" where
  "late_ok st \<longleftrightarrow>
     sorted_wrt (<) (keys_of (late st)) \<and> sorted_wrt (<) (keys_of (late_by_seq st)) \<and>
     (\<forall>n s. map_of (late st) n = Some s \<longleftrightarrow> map_of (late_by_seq st) s = Some n) \<and>
     (\<forall>n s. map_of (late st) n = Some s \<longrightarrow> 0 < n \<and> n \<le> late_counter st)"

definition ring_ok :: "log_entry list \<Rightarrow> log_store \<Rightarrow> bool" where
  "ring_ok L st \<longleftrightarrow>
     sorted_wrt (<) (map le_seq L) \<and>
     trace_index st = index_of le_seq le_trace_id L \<and>
     late_ok st \<and> fst ` set (late_by_seq st) \<subseteq> le_seq ` set L \<and>
     (\<forall>e\<in>set L. refuse_below st \<le> le_seq e \<and> le_seq e < u64_max)"

definition log_inv :: "log_store \<Rightarrow> bool" where
  "log_inv st \<longleftrightarrow> ring_ok (entries st) st \<and> length (entries st) \<le> max_capacity st"

text \<open>The seqs of an offered batch are below the counter's last value.\<close>

definition valid_batch :: "log_entry list \<Rightarrow> bool" where
  "valid_batch batch \<longleftrightarrow> (\<forall>e\<in>set batch. le_seq e < u64_max)"

lemma late_okD:
  assumes "late_ok st"
  shows "sorted_wrt (<) (keys_of (late st))" "sorted_wrt (<) (keys_of (late_by_seq st))"
    "map_of (late st) n = Some s \<longleftrightarrow> map_of (late_by_seq st) s = Some n"
    "map_of (late st) n = Some s \<Longrightarrow> 0 < n \<and> n \<le> late_counter st"
  using assms unfolding late_ok_def by blast+

lemma lose_simps [simp]:
  "entries (lose e st) = entries st"
  "late_counter (lose e st) = late_counter st"
  "max_capacity (lose e st) = max_capacity st"
  "total_stored (lose e st) = total_stored st"
  "total_received (lose e st) = total_received st"
  "malformed_count (lose e st) = malformed_count st"
  "admit_from (lose e st) = admit_from st"
  "lost_below (lose e st) = max (lost_below st) (sat_add (le_seq e) 1)"
  "trace_index (lose e st) = index_remove (le_trace_id e) (le_seq e) (trace_index st)"
  by (simp_all add: lose_def unindex_def Let_def split: option.splits)

lemma lose_late:
  "map_of (late_by_seq (lose e st)) = (map_of (late_by_seq st))(le_seq e := None)"
  "map_of (late (lose e st)) = (case map_of (late_by_seq st) (le_seq e) of
     None \<Rightarrow> map_of (late st) | Some n \<Rightarrow> (map_of (late st))(n := None))"
  by (auto simp: lose_def unindex_def Let_def fun_eq_iff split: option.splits)

lemma lose_entries_update:
  "lose e (st\<lparr>entries := es\<rparr>) = (lose e st)\<lparr>entries := es\<rparr>"
  by (simp add: lose_def unindex_def Let_def split: option.splits)

lemma set_keys_bt_remove: "fst ` set (bt_remove k m) = fst ` set m - {k}"
  by (auto simp: bt_remove_def)

lemma late_keys_lose:
  "fst ` set (late_by_seq (lose e st)) = fst ` set (late_by_seq st) - {le_seq e}"
  by (auto simp: lose_def unindex_def Let_def set_keys_bt_remove map_of_eq_None_iff
      split: option.splits)

lemma late_ok_lose:
  assumes "late_ok st"
  shows "late_ok (lose e st)"
proof -
  have "sorted_wrt (<) (keys_of (late (lose e st)))" "sorted_wrt (<) (keys_of (late_by_seq (lose e st)))"
    using late_okD(1,2) [OF assms]
    by (auto simp: lose_def unindex_def Let_def split: option.splits)
  moreover have "map_of (late (lose e st)) n = Some s \<Longrightarrow> 0 < n \<and> n \<le> late_counter st" for n s
    using late_okD(4) [OF assms] by (auto simp: lose_late split: option.splits if_splits)
  moreover have "map_of (late (lose e st)) n = Some s \<longleftrightarrow> map_of (late_by_seq (lose e st)) s = Some n" for n s
    using late_okD(3) [OF assms] by (auto simp: lose_late split: option.splits) (metis option.inject)+
  ultimately show ?thesis
    unfolding late_ok_def lose_simps by blast
qed

lemma ring_ok_lose:
  assumes "ring_ok (e # L) st"
  shows "ring_ok L (lose e st)"
proof -
  have asc: "sorted_wrt (<) (map le_seq (e # L))" and e: "le_seq e < u64_max"
    using assms by (auto simp: ring_ok_def)
  have "le_seq e \<notin> le_seq ` set L" using asc by auto
  then have late: "fst ` set (late_by_seq (lose e st)) \<subseteq> le_seq ` set L"
    using assms by (auto simp: ring_ok_def late_keys_lose)
  have floors: "refuse_below (lose e st) \<le> le_seq f" if "f \<in> set L" for f
    using assms that e by (auto simp: ring_ok_def refuse_below_def Suc_le_eq)
  show ?thesis
    using assms late floors index_remove_front [OF asc, of le_trace_id] late_ok_lose
    by (simp add: ring_ok_def)
qed

lemma ring_ok_fold_lose: "ring_ok (D @ L) st \<Longrightarrow> ring_ok L (fold lose D st)"
  by (induction D arbitrary: st) (auto dest: ring_ok_lose)

lemma fold_lose_simps [simp]:
  "entries (fold lose D st) = entries st"
  "late_counter (fold lose D st) = late_counter st"
  "max_capacity (fold lose D st) = max_capacity st"
  "total_stored (fold lose D st) = total_stored st"
  "total_received (fold lose D st) = total_received st"
  "admit_from (fold lose D st) = admit_from st"
  by (induction D arbitrary: st) auto

lemma fold_lose_entries_update:
  "fold lose D (st\<lparr>entries := es\<rparr>) = (fold lose D st)\<lparr>entries := es\<rparr>"
  by (induction D arbitrary: st) (simp_all add: lose_entries_update)

text \<open>Evicting in a loop takes the front of the deque as long as there is one.\<close>

lemma evict_while_eq:
  "evict_while n st =
     ((fold lose (take n (entries st)) st)\<lparr>entries := drop n (entries st)\<rparr>, n - length (entries st))"
proof (induction n arbitrary: st)
  case (Suc n)
  show ?case
  proof (cases "entries st")
    case (Cons e es)
    then have "evict_front st = (lose e st)\<lparr>entries := es\<rparr>"
      by (simp add: evict_front_def lose_entries_update)
    with Cons Suc show ?thesis by (simp add: fold_lose_entries_update)
  qed simp
qed simp

section \<open>Numbering late records\<close>

lemma number_late_simps [simp]:
  "entries (number_late s st) = entries st"
  "trace_index (number_late s st) = trace_index st"
  "late_counter (number_late s st) = Suc (late_counter st)"
  "max_capacity (number_late s st) = max_capacity st"
  "total_stored (number_late s st) = total_stored st"
  "total_received (number_late s st) = total_received st"
  "lost_below (number_late s st) = lost_below st"
  "admit_from (number_late s st) = admit_from st"
  "fst ` set (late_by_seq (number_late s st)) = insert s (fst ` set (late_by_seq st))"
  "map_of (late_by_seq (number_late s st)) = (map_of (late_by_seq st))(s \<mapsto> Suc (late_counter st))"
  "map_of (late (number_late s st)) = (map_of (late st))(Suc (late_counter st) \<mapsto> s)"
  by (simp_all add: number_late_def Let_def)

lemma late_ok_number_late:
  assumes "late_ok st" and "s \<notin> fst ` set (late_by_seq st)"
  shows "late_ok (number_late s st)"
proof -
  have new: "map_of (late_by_seq st) s = None" using assms(2) by (simp add: map_of_eq_None_iff)
  have fresh: "map_of (late st) (Suc (late_counter st)) = None"
    using late_okD(4) [OF assms(1), of "Suc (late_counter st)"]
    by (cases "map_of (late st) (Suc (late_counter st))") auto
  have "sorted_wrt (<) (keys_of (late (number_late s st)))"
    "sorted_wrt (<) (keys_of (late_by_seq (number_late s st)))"
    using late_okD(1,2) [OF assms(1)] by (simp_all add: number_late_def Let_def)
  moreover have "map_of (late (number_late s st)) n = Some s' \<longleftrightarrow> map_of (late_by_seq (number_late s st)) s' = Some n" for n s'
    using late_okD(3) [OF assms(1), of n s'] new fresh by (auto split: if_splits)
  moreover have "map_of (late (number_late s st)) n = Some s' \<Longrightarrow> 0 < n \<and> n \<le> Suc (late_counter st)" for n s'
    using late_okD(4) [OF assms(1), of n s'] by (auto split: if_splits)
  ultimately show ?thesis unfolding late_ok_def number_late_simps(3) by blast
qed

lemma fold_number_late_simps [simp]:
  "entries (fold number_late ss st) = entries st"
  "trace_index (fold number_late ss st) = trace_index st"
  "late_counter (fold number_late ss st) = late_counter st + length ss"
  "max_capacity (fold number_late ss st) = max_capacity st"
  "total_stored (fold number_late ss st) = total_stored st"
  "total_received (fold number_late ss st) = total_received st"
  "lost_below (fold number_late ss st) = lost_below st"
  "admit_from (fold number_late ss st) = admit_from st"
  "fst ` set (late_by_seq (fold number_late ss st)) = set ss \<union> fst ` set (late_by_seq st)"
  by (induction ss arbitrary: st) auto

lemma late_ok_fold_number_late:
  "late_ok st \<Longrightarrow> distinct ss \<Longrightarrow> set ss \<inter> fst ` set (late_by_seq st) = {} \<Longrightarrow>
   late_ok (fold number_late ss st)"
  by (induction ss arbitrary: st) (auto simp: late_ok_number_late)

text \<open>A numbered seq gets a number above every earlier one; the others keep theirs.\<close>

lemma fold_number_late_number:
  "distinct ss \<Longrightarrow>
   (s \<in> set ss \<longrightarrow> (\<exists>n. map_of (late_by_seq (fold number_late ss st)) s = Some n \<and> late_counter st < n)) \<and>
   (s \<notin> set ss \<longrightarrow> map_of (late_by_seq (fold number_late ss st)) s = map_of (late_by_seq st) s)"
proof (induction ss arbitrary: st)
  case (Cons x ss)
  have IH: "(s \<in> set ss \<longrightarrow> (\<exists>n. map_of (late_by_seq (fold number_late ss (number_late x st))) s = Some n \<and> Suc (late_counter st) < n)) \<and>
    (s \<notin> set ss \<longrightarrow> map_of (late_by_seq (fold number_late ss (number_late x st))) s = map_of (late_by_seq (number_late x st)) s)"
    using Cons.IH [of "number_late x st"] Cons.prems by simp
  show ?case
  proof (cases "s \<in> set ss")
    case True
    then show ?thesis using IH by (auto dest: Suc_lessD)
  next
    case False
    then show ?thesis using IH by auto
  qed
qed simp

section \<open>The merged ring\<close>

text \<open>The held records and an admitted batch in one ring, as \<open>merge_batch\<close> assembles it.\<close>

definition merged_ring :: "log_entry list \<Rightarrow> log_entry list \<Rightarrow> log_entry list" where
  "merged_ring es batch =
     (let split = partition_point (\<lambda>e. le_seq e < le_seq (hd batch)) es
      in take split es @ merge_runs le_seq (drop split es) batch)"

definition mergeable :: "log_entry list \<Rightarrow> log_entry list \<Rightarrow> bool" where
  "mergeable es batch \<longleftrightarrow>
     sorted_wrt (<) (map le_seq es) \<and> sorted_wrt (<) (map le_seq batch) \<and> batch \<noteq> [] \<and>
     le_seq ` set es \<inter> le_seq ` set batch = {}"

definition run_split :: "log_entry list \<Rightarrow> log_entry list \<Rightarrow> nat" where
  "run_split es batch = partition_point (\<lambda>e. le_seq e < le_seq (hd batch)) es"

lemma run_split_eqs:
  assumes "mergeable es batch"
  shows "take (run_split es batch) es = filter (\<lambda>e. le_seq e < le_seq (hd batch)) es"
    and "drop (run_split es batch) es = filter (\<lambda>e. le_seq (hd batch) \<le> le_seq e) es"
  using assms unfolding run_split_def take_partition_point drop_partition_point mergeable_def
  by (simp_all add: takeWhile_ascending dropWhile_ascending)

lemma merged_ring_eq:
  "merged_ring es batch =
     take (run_split es batch) es @ merge_runs le_seq (drop (run_split es batch) es) batch"
  by (simp add: merged_ring_def run_split_def Let_def)

lemma set_merged: "set (merged_ring es batch) = set es \<union> set batch"
  unfolding merged_ring_eq by (metis append_take_drop_id set_append set_merge_runs sup_assoc)

lemma length_merged: "length (merged_ring es batch) = length es + length batch"
  unfolding merged_ring_eq by simp

lemma asc_run:
  assumes "mergeable es batch"
  shows "sorted_wrt (<) (map le_seq (merge_runs le_seq (drop (run_split es batch) es) batch))"
  using assms ascending_drop [of le_seq es] set_drop_subset [of "run_split es batch" es]
  unfolding mergeable_def by (intro ascending_merge_runs) blast+

lemma asc_merged:
  assumes "mergeable es batch"
  shows "sorted_wrt (<) (map le_seq (merged_ring es batch))"
proof -
  let ?k = "run_split es batch"
  have asc: "sorted_wrt (<) (map le_seq es)" "sorted_wrt (<) (map le_seq batch)"
    using assms by (simp_all add: mergeable_def)
  have "le_seq x < le_seq y"
    if "x \<in> set (take ?k es)" "y \<in> set (drop ?k es) \<union> set batch" for x y
  proof -
    have "le_seq x < le_seq (hd batch)" using that(1) by (simp add: run_split_eqs [OF assms])
    moreover have "le_seq (hd batch) \<le> le_seq y"
      using that(2) ascending_hd_least [OF asc(2)] by (auto simp: run_split_eqs [OF assms])
    ultimately show ?thesis by simp
  qed
  then show ?thesis
    unfolding merged_ring_eq using asc_run [OF assms] ascending_take [OF asc(1)]
    by (auto simp: sorted_wrt_append)
qed

lemma index_merged:
  assumes "mergeable es batch"
  shows "index_merge batch (index_of le_seq le_trace_id es) = index_of le_seq le_trace_id (merged_ring es batch)"
  using assms index_merge_of [OF _ _ _ asc_merged [OF assms] set_merged]
  by (simp add: mergeable_def)

lemma merged_ring_unique:
  "mergeable es batch \<Longrightarrow> sorted_wrt (<) (map le_seq L) \<Longrightarrow> set L = set es \<union> set batch \<Longrightarrow>
   merged_ring es batch = L"
  by (rule ascending_keys_unique [OF asc_merged]) (simp_all add: set_merged)

section \<open>The merge in closed form\<close>

text \<open>Above the last dropped of an ascending run is exactly what was not dropped.\<close>

lemma above_last_dropped:
  assumes "sorted_wrt (<) (map le_seq M)" and "e \<in> set M"
  shows "\<not> (case map_option le_seq (last_opt (take k M)) of None \<Rightarrow> False | Some d \<Rightarrow> le_seq e \<le> d) \<longleftrightarrow>
    e \<in> set (drop k M)"
proof (cases "take k M = []")
  case True
  then show ?thesis using assms by (auto simp: last_opt_def)
next
  case False
  have asc: "sorted_wrt (<) (map le_seq (take k M @ drop k M))" using assms by simp
  then have lt: "x \<in> set (take k M) \<Longrightarrow> y \<in> set (drop k M) \<Longrightarrow> le_seq x < le_seq y" for x y
    unfolding map_append sorted_wrt_append by auto
  have "e \<in> set (take k M) \<Longrightarrow> le_seq e \<le> le_seq (last (take k M))"
    by (rule ascending_last_greatest [OF ascending_take [OF assms(1)]])
  moreover have "e \<in> set (take k M) \<or> e \<in> set (drop k M)"
    using assms(2) by (metis append_take_drop_id set_append UnE)
  moreover have "last (take k M) \<in> set (take k M)" using False by simp
  ultimately show ?thesis
    using False lt [of "last (take k M)" e] lt [of e e] by (auto simp: last_opt_def not_le)
qed

text \<open>
  Merging a batch loses the front of the merged ring down to the capacity and numbers the late
  records that were kept.
\<close>

definition merge_result :: "log_entry list \<Rightarrow> log_store \<Rightarrow> log_store" where
  "merge_result batch st =
     (let L = merged_ring (entries st) batch; k = length L - max_capacity st;
          st1 = (fold lose (take k L) (st\<lparr>trace_index := index_merge batch (trace_index st)\<rparr>))\<lparr>entries := drop k L\<rparr>;
          st2 = fold number_late (filter (\<lambda>s. s \<in> le_seq ` set (drop k L)) (late_seqs_of st batch)) st1
      in st2\<lparr>total_stored := wrap64 (total_stored st2 + length batch)\<rparr>)"

lemma kept_late_seqs:
  assumes "mergeable (entries st) batch"
  defines "M \<equiv> merge_runs le_seq (drop (run_split (entries st) batch) (entries st)) batch"
    and "L \<equiv> merged_ring (entries st) batch"
  shows "filter (\<lambda>s. \<not> (case map_option le_seq (last_opt (take (k - run_split (entries st) batch) M)) of
             None \<Rightarrow> False | Some d \<Rightarrow> s \<le> d)) (late_seqs_of st batch) =
         filter (\<lambda>s. s \<in> le_seq ` set (drop k L)) (late_seqs_of st batch)"
proof (rule filter_cong [OF refl])
  let ?p = "run_split (entries st) batch"
  fix s
  assume "s \<in> set (late_seqs_of st batch)"
  then obtain e where e: "e \<in> set batch" "s = le_seq e"
    by (auto simp: late_seqs_of_def split: option.splits dest!: set_takeWhileD)
  have eM: "e \<in> set M" using e by (simp add: M_def)
  have plen: "length (take ?p (entries st)) = ?p"
    unfolding run_split_def by (simp add: partition_point_le)
  have L: "drop k L = drop k (take ?p (entries st)) @ drop (k - ?p) M"
    unfolding L_def merged_ring_eq M_def using plen by simp
  have inj: "inj_on le_seq (set L)"
    using asc_merged [OF assms(1)] sorted_less_distinct unfolding L_def by (metis distinct_map)
  have "e \<notin> set (take ?p (entries st))"
    using e(1) assms(1) set_take_subset [of ?p "entries st"] by (auto simp: mergeable_def)
  then have "e \<in> set (drop (k - ?p) M) \<longleftrightarrow> e \<in> set (drop k L)"
    unfolding L by (auto dest: in_set_dropD)
  also have "\<dots> \<longleftrightarrow> s \<in> le_seq ` set (drop k L)"
  proof -
    have "e \<in> set L" using e(1) by (simp add: L_def set_merged)
    then show ?thesis using e(2) inj set_drop_subset [of k L] by (auto dest: inj_onD)
  qed
  finally show "(\<not> (case map_option le_seq (last_opt (take (k - ?p) M)) of None \<Rightarrow> False | Some d \<Rightarrow> s \<le> d)) \<longleftrightarrow>
      s \<in> le_seq ` set (drop k L)"
    unfolding e(2) using above_last_dropped [OF asc_run [OF assms(1), folded M_def] eM, of "k - ?p"]
    by blast
qed

lemma merge_batch_eq:
  assumes "mergeable (entries st) batch"
  shows "merge_batch batch st =
    (merge_result batch st, length (drop (run_split (entries st) batch) (entries st)))"
proof -
  let ?es = "entries st"
  let ?p = "run_split ?es batch"
  let ?M = "merge_runs le_seq (drop ?p ?es) batch"
  let ?L = "merged_ring ?es batch"
  let ?k = "length ?L - max_capacity st"
  let ?s0 = "st\<lparr>trace_index := index_merge batch (trace_index st)\<rparr>"
  have plen: "length (take ?p ?es) = ?p"
    unfolding run_split_def by (simp add: partition_point_le)
  let ?s1 = "st\<lparr>entries := take ?p ?es, trace_index := index_merge batch (trace_index st)\<rparr>"
  have n: "length (entries ?s1) + length ?M - max_capacity ?s1 = ?k"
    unfolding merged_ring_eq by simp
  have s1: "?s1 = ?s0\<lparr>entries := take ?p ?es\<rparr>" by simp
  have evict: "evict_while (length (entries ?s1) + length ?M - max_capacity ?s1) ?s1
      = ((fold lose (take ?k (take ?p ?es)) ?s0)\<lparr>entries := drop ?k (take ?p ?es)\<rparr>, ?k - ?p)"
    unfolding n unfolding evict_while_eq s1 fold_lose_entries_update using plen by (simp add: min_def)
  have take_L: "take ?k ?L = take ?k (take ?p ?es) @ take (?k - ?p) ?M"
    and drop_L: "drop ?k ?L = drop ?k (take ?p ?es) @ drop (?k - ?p) ?M"
    unfolding merged_ring_eq [of ?es batch] using plen by simp_all
  have st3: "fold lose (take (?k - ?p) ?M) ((fold lose (take ?k (take ?p ?es)) ?s0)\<lparr>entries := drop ?k (take ?p ?es)\<rparr>)
      = (fold lose (take ?k ?L) ?s0)\<lparr>entries := drop ?k (take ?p ?es)\<rparr>"
    unfolding take_L by (simp add: fold_lose_entries_update)
  have st4: "((fold lose (take ?k ?L) ?s0)\<lparr>entries := drop ?k (take ?p ?es)\<rparr>)\<lparr>entries :=
        entries ((fold lose (take ?k ?L) ?s0)\<lparr>entries := drop ?k (take ?p ?es)\<rparr>) @ drop (?k - ?p) ?M\<rparr>
      = (fold lose (take ?k ?L) ?s0)\<lparr>entries := drop ?k ?L\<rparr>"
    by (simp add: drop_L)
  show ?thesis
    unfolding merge_batch_def Let_def run_split_def [symmetric] evict case_prod_conv st3 st4
      kept_late_seqs [OF assms] merge_result_def ..
qed

lemma asc_new_offers: "sorted_wrt (<) (map le_seq (new_offers st batch))"
  unfolding new_offers_def by (intro ascending_map_filter ascending_dedup_by_key) simp

lemma set_new_offers: "set (new_offers st batch) \<subseteq> set batch"
  unfolding new_offers_def using set_dedup_by_key [of le_seq "sort_key le_seq batch"] by auto

section \<open>Lookups on a ring in order\<close>

lemma holds_iff:
  assumes "sorted_wrt (<) (map le_seq (entries st))"
  shows "holds st s \<longleftrightarrow> s \<in> le_seq ` set (entries st)"
proof (cases "entries st = []")
  case True
  then show ?thesis by (simp add: holds_def newest_seq_def last_opt_def)
next
  case False
  then have last: "newest_seq st = Some (le_seq (last (entries st)))"
    by (simp add: newest_seq_def last_opt_def)
  have le: "e \<in> set (entries st) \<Longrightarrow> le_seq e \<le> le_seq (last (entries st))" for e
    using ascending_last_greatest [OF assms] .
  show ?thesis
    using le False binary_search_None [OF assms, of s]
    by (force simp: holds_def last position_def)
qed

lemma new_offers_disjoint:
  assumes "sorted_wrt (<) (map le_seq (entries st))"
  shows "le_seq ` set (entries st) \<inter> le_seq ` set (new_offers st batch) = {}"
proof -
  have "le_seq e \<notin> le_seq ` set (entries st)" if "e \<in> set (new_offers st batch)" for e
    using that holds_iff [OF assms] by (simp add: new_offers_def)
  then show ?thesis by (auto simp: image_iff) metis
qed

lemma image_filter_key: "f ` set (filter (\<lambda>x. P (f x)) xs) = {k \<in> f ` set xs. P k}"
  by auto

lemma keys_new_offers:
  assumes "sorted_wrt (<) (map le_seq (entries st))"
  shows "le_seq ` set (new_offers st batch) = le_seq ` set batch - le_seq ` set (entries st)"
proof -
  have "le_seq ` set (new_offers st batch) =
      {s \<in> le_seq ` set (dedup_by_key le_seq (sort_key le_seq batch)). \<not> holds st s}"
    unfolding new_offers_def by (rule image_filter_key)
  also have "\<dots> = le_seq ` set batch - le_seq ` set (entries st)"
    unfolding holds_iff [OF assms] keys_dedup_by_key set_sort by auto
  finally show ?thesis .
qed

lemma mergeable_admitted:
  assumes "sorted_wrt (<) (map le_seq (entries st))" and "admitted st batch \<noteq> []"
  shows "mergeable (entries st) (admitted st batch)"
  using assms asc_new_offers new_offers_disjoint [OF assms(1), of batch]
  by (auto simp: mergeable_def admitted_def ascending_map_filter)

text \<open>Merging a batch, in one equation.\<close>

lemma merge_locked_eq:
  assumes "sorted_wrt (<) (map le_seq (entries st))"
  shows "fst (merge_locked batch st) =
    (let st1 = st\<lparr>total_received := wrap64 (total_received st + length (new_offers st batch))\<rparr>
     in if admitted st batch = [] then st1 else merge_result (admitted st batch) st1)"
proof -
  let ?st1 = "st\<lparr>total_received := wrap64 (total_received st + length (new_offers st batch))\<rparr>"
  have adm: "filter (\<lambda>e. refuse_below ?st1 \<le> le_seq e) (new_offers st batch) = admitted st batch"
    by (simp add: admitted_def refuse_below_def)
  have "mergeable (entries ?st1) (admitted st batch)" if "admitted st batch \<noteq> []"
    using mergeable_admitted [OF assms that] by simp
  then show ?thesis
    unfolding merge_locked_def Let_def adm by (simp add: merge_batch_eq)
qed

section \<open>Every writer keeps the invariant\<close>

lemma refuse_below_simps [simp]:
  "refuse_below (st\<lparr>entries := es\<rparr>) = refuse_below st"
  "refuse_below (st\<lparr>trace_index := ti\<rparr>) = refuse_below st"
  "refuse_below (st\<lparr>total_stored := a\<rparr>) = refuse_below st"
  "refuse_below (st\<lparr>total_received := a\<rparr>) = refuse_below st"
  "refuse_below (st\<lparr>malformed_count := a\<rparr>) = refuse_below st"
  "refuse_below (fold number_late ss st) = refuse_below st"
  by (simp_all add: refuse_below_def)

lemma late_ok_simps [simp]:
  "late_ok (st\<lparr>entries := es\<rparr>) = late_ok st"
  "late_ok (st\<lparr>trace_index := ti\<rparr>) = late_ok st"
  "late_ok (st\<lparr>total_stored := a\<rparr>) = late_ok st"
  "late_ok (st\<lparr>total_received := a\<rparr>) = late_ok st"
  "late_ok (st\<lparr>malformed_count := a\<rparr>) = late_ok st"
  "late_ok (st\<lparr>lost_below := a\<rparr>) = late_ok st"
  by (simp_all add: late_ok_def)

lemma ring_ok_simps [simp]:
  "ring_ok L (st\<lparr>entries := es\<rparr>) = ring_ok L st"
  "ring_ok L (st\<lparr>total_stored := a\<rparr>) = ring_ok L st"
  "ring_ok L (st\<lparr>total_received := a\<rparr>) = ring_ok L st"
  "ring_ok L (st\<lparr>malformed_count := a\<rparr>) = ring_ok L st"
  by (simp_all add: ring_ok_def)

lemma log_inv_simps [simp]:
  "log_inv (st\<lparr>total_stored := a\<rparr>) = log_inv st"
  "log_inv (st\<lparr>total_received := a\<rparr>) = log_inv st"
  "log_inv (st\<lparr>malformed_count := a\<rparr>) = log_inv st"
  by (simp_all add: log_inv_def)

lemma ring_okD:
  assumes "ring_ok L st"
  shows "sorted_wrt (<) (map le_seq L)" "trace_index st = index_of le_seq le_trace_id L" "late_ok st"
    "fst ` set (late_by_seq st) \<subseteq> le_seq ` set L"
    "e \<in> set L \<Longrightarrow> refuse_below st \<le> le_seq e" "e \<in> set L \<Longrightarrow> le_seq e < u64_max"
  using assms by (auto simp: ring_ok_def)

lemma log_invD:
  assumes "log_inv st"
  shows "ring_ok (entries st) st" "sorted_wrt (<) (map le_seq (entries st))"
    "length (entries st) \<le> max_capacity st"
  using assms by (auto simp: log_inv_def ring_ok_def)

lemma ring_ok_number:
  assumes "ring_ok L st" and "distinct ss" and "set ss \<subseteq> le_seq ` set L"
    and "set ss \<inter> fst ` set (late_by_seq st) = {}"
  shows "ring_ok L (fold number_late ss st)"
  using assms late_ok_fold_number_late [of st ss] by (auto simp: ring_ok_def)

lemma late_seqs_of_props:
  assumes "mergeable (entries st) batch"
  shows "distinct (late_seqs_of st batch)" and "set (late_seqs_of st batch) \<subseteq> le_seq ` set batch"
proof -
  have "distinct (map le_seq batch)" using assms by (simp add: mergeable_def sorted_less_distinct)
  then show "distinct (late_seqs_of st batch)"
    by (auto simp: late_seqs_of_def split: option.splits)
  show "set (late_seqs_of st batch) \<subseteq> le_seq ` set batch"
    by (auto simp: late_seqs_of_def split: option.splits dest!: set_takeWhileD)
qed

lemma set_late_seqs_of:
  assumes "mergeable (entries st) batch"
  shows "set (late_seqs_of st batch) =
    {s \<in> le_seq ` set batch. \<exists>newest. newest_seq st = Some newest \<and> s < newest}"
proof -
  have "sorted_wrt (<) (map (\<lambda>s. s) (map le_seq batch))" using assms by (simp add: mergeable_def)
  then show ?thesis
    using takeWhile_ascending [of "\<lambda>s. s" "map le_seq batch"]
    by (cases "newest_seq st") (auto simp: late_seqs_of_def)
qed

text \<open>The state between the drop and the numbering.\<close>

lemma ring_ok_dropped:
  assumes "ring_ok (entries st) st" and "mergeable (entries st) batch"
    and "\<forall>e\<in>set batch. refuse_below st \<le> le_seq e \<and> le_seq e < u64_max"
  shows "ring_ok (drop k (merged_ring (entries st) batch))
    (fold lose (take k (merged_ring (entries st) batch)) (st\<lparr>trace_index := index_merge batch (trace_index st)\<rparr>))"
proof (rule ring_ok_fold_lose)
  show "ring_ok (take k (merged_ring (entries st) batch) @ drop k (merged_ring (entries st) batch))
      (st\<lparr>trace_index := index_merge batch (trace_index st)\<rparr>)"
    using assms asc_merged [OF assms(2)] index_merged [OF assms(2)]
    by (auto simp: ring_ok_def set_merged)
qed

lemma fold_lose_late_keys:
  "fst ` set (late_by_seq (fold lose D st)) = fst ` set (late_by_seq st) - le_seq ` set D"
  by (induction D arbitrary: st) (auto simp: late_keys_lose)

lemma merge_result_entries:
  "entries (merge_result batch st) =
     drop (length (entries st) + length batch - max_capacity st) (merged_ring (entries st) batch)"
  by (simp add: merge_result_def Let_def length_merged)

lemma log_inv_merge_result [inv_intros]:
  assumes "ring_ok (entries st) st" and "mergeable (entries st) batch"
    and "\<forall>e\<in>set batch. refuse_below st \<le> le_seq e \<and> le_seq e < u64_max"
  shows "log_inv (merge_result batch st)"
proof -
  let ?L = "merged_ring (entries st) batch"
  let ?k = "length ?L - max_capacity st"
  let ?s0 = "st\<lparr>trace_index := index_merge batch (trace_index st)\<rparr>"
  let ?ss = "filter (\<lambda>s. s \<in> le_seq ` set (drop ?k ?L)) (late_seqs_of st batch)"
  have "set ?ss \<inter> fst ` set (late_by_seq (fold lose (take ?k ?L) ?s0)) = {}"
    using ring_okD(4) [OF assms(1)] late_seqs_of_props(2) [OF assms(2)] assms(2)
    by (auto simp: fold_lose_late_keys mergeable_def)
  then have "ring_ok (drop ?k ?L) (fold number_late ?ss ((fold lose (take ?k ?L) ?s0)\<lparr>entries := drop ?k ?L\<rparr>))"
    using ring_ok_dropped [OF assms] late_seqs_of_props(1) [OF assms(2)]
    by (intro ring_ok_number) auto
  then show ?thesis by (simp add: log_inv_def merge_result_def Let_def)
qed

lemma admitted_bounds:
  "valid_batch batch \<Longrightarrow> \<forall>e\<in>set (admitted st batch). refuse_below st \<le> le_seq e \<and> le_seq e < u64_max"
  using set_new_offers [of st batch] by (auto simp: admitted_def valid_batch_def)

lemma log_inv_merge_locked [inv_intros]:
  assumes "log_inv st" and "valid_batch batch"
  shows "log_inv (fst (merge_locked batch st))"
proof -
  let ?st1 = "st\<lparr>total_received := wrap64 (total_received st + length (new_offers st batch))\<rparr>"
  have "log_inv (merge_result (admitted st batch) ?st1)" if "admitted st batch \<noteq> []"
    using log_invD [OF assms(1)] mergeable_admitted [OF _ that] admitted_bounds [OF assms(2)]
    by (intro log_inv_merge_result) auto
  then show ?thesis
    using assms(1) log_invD(2) [OF assms(1)] by (auto simp: merge_locked_eq Let_def log_inv_def)
qed

lemma log_inv_insert_sorted [inv_intros]:
  "log_inv st \<Longrightarrow> valid_batch batch \<Longrightarrow> log_inv (fst (insert_sorted batch st))"
  by (simp add: insert_sorted_def log_inv_merge_locked)

lemma log_inv_evict_front:
  assumes "log_inv st"
  shows "log_inv (evict_front st)"
proof (cases "entries st")
  case (Cons e es)
  then have "ring_ok es (lose e st)" using log_invD(1) [OF assms] by (metis ring_ok_lose)
  with Cons assms show ?thesis
    by (auto simp: evict_front_def lose_entries_update log_inv_def)
qed (use assms in \<open>simp add: evict_front_def\<close>)

text \<open>What the front eviction leaves, and where it puts the floor.\<close>

lemma evict_front_simps [simp]:
  "entries (evict_front st) = tl (entries st)"
  "max_capacity (evict_front st) = max_capacity st"
  "total_stored (evict_front st) = total_stored st"
  "total_received (evict_front st) = total_received st"
  "late_counter (evict_front st) = late_counter st"
  "admit_from (evict_front st) = admit_from st"
  by (simp_all add: evict_front_def lose_entries_update split: list.splits)

lemma lost_below_evict_front:
  "lost_below (evict_front st) =
     (case entries st of [] \<Rightarrow> lost_below st | e # _ \<Rightarrow> max (lost_below st) (sat_add (le_seq e) 1))"
  by (simp add: evict_front_def lose_entries_update split: list.splits)

lemma ring_ok_push:
  assumes "ring_ok es st" and "\<forall>x\<in>set es. le_seq x < le_seq e"
    and "refuse_below st \<le> le_seq e" and "le_seq e < u64_max"
  shows "ring_ok (es @ [e]) (st\<lparr>trace_index := index_push (le_trace_id e) (le_seq e) (trace_index st)\<rparr>)"
  using assms by (auto simp: ring_ok_def sorted_wrt_append index_push_of)

text \<open>The fast path of \<open>append\<close>, once the floors have admitted the record.\<close>

definition push_back :: "log_entry \<Rightarrow> log_store \<Rightarrow> log_store" where
  "push_back e st =
     (let st2 = (if max_capacity st \<le> length (entries st) then evict_front st else st)
      in st2\<lparr>trace_index := index_push (le_trace_id e) (le_seq e) (trace_index st2),
             entries := entries st2 @ [e], total_stored := wrap64 (total_stored st2 + 1)\<rparr>)"

lemma newest_seq_less:
  assumes "sorted_wrt (<) (map le_seq (entries st))"
  shows "(case newest_seq st of None \<Rightarrow> True | Some newest \<Rightarrow> newest < s) \<longleftrightarrow>
    (\<forall>x\<in>set (entries st). le_seq x < s)"
proof (cases "entries st = []")
  case False
  then show ?thesis
    using ascending_last_greatest [OF assms] last_in_set [OF False]
    by (fastforce simp: newest_seq_def last_opt_def)
qed (simp add: newest_seq_def last_opt_def)

lemma append_cases [consumes 1]:
  assumes "sorted_wrt (<) (map le_seq (entries st))"
  obtains
    (merge) "\<not> (\<forall>x\<in>set (entries st). le_seq x < le_seq e)" "append e st = fst (merge_locked [e] st)"
  | (refuse) "\<forall>x\<in>set (entries st). le_seq x < le_seq e" "le_seq e < refuse_below st"
      "append e st = st\<lparr>total_received := wrap64 (total_received st + 1)\<rparr>"
  | (no_room) "\<forall>x\<in>set (entries st). le_seq x < le_seq e" "refuse_below st \<le> le_seq e" "max_capacity st = 0"
      "append e st = st\<lparr>total_received := wrap64 (total_received st + 1),
         lost_below := max (lost_below st) (sat_add (le_seq e) 1), total_stored := wrap64 (total_stored st + 1)\<rparr>"
  | (push) "\<forall>x\<in>set (entries st). le_seq x < le_seq e" "refuse_below st \<le> le_seq e" "0 < max_capacity st"
      "append e st = push_back e (st\<lparr>total_received := wrap64 (total_received st + 1)\<rparr>)"
proof (cases "\<forall>x\<in>set (entries st). le_seq x < le_seq e")
  case False
  then have "append e st = fst (merge_locked [e] st)"
    unfolding append_def newest_seq_less [OF assms] by simp
  with False show ?thesis by (rule that(1))
next
  case True
  then have app: "append e st =
      (let st1 = st\<lparr>total_received := wrap64 (total_received st + 1)\<rparr>
       in if le_seq e < refuse_below st1 then st1
          else if max_capacity st1 = 0
          then st1\<lparr>lost_below := max (lost_below st1) (sat_add (le_seq e) 1),
                   total_stored := wrap64 (total_stored st1 + 1)\<rparr>
          else push_back e st1)"
    unfolding append_def newest_seq_less [OF assms] push_back_def by (simp add: Let_def)
  consider "le_seq e < refuse_below st" | "refuse_below st \<le> le_seq e" "max_capacity st = 0"
    | "refuse_below st \<le> le_seq e" "0 < max_capacity st" by linarith
  then show ?thesis
  proof cases
    case 1
    with True show ?thesis by (intro that(2)) (simp_all add: app)
  next
    case 2
    with True show ?thesis by (intro that(3)) (simp_all add: app)
  next
    case 3
    with True show ?thesis by (intro that(4)) (simp_all add: app)
  qed
qed

lemma log_inv_push_back:
  assumes "log_inv st" and "\<forall>x\<in>set (entries st). le_seq x < le_seq e"
    and "refuse_below st \<le> le_seq e" and "0 < max_capacity st" and "le_seq e < u64_max"
  shows "log_inv (push_back e st)"
proof -
  let ?st2 = "if max_capacity st \<le> length (entries st) then evict_front st else st"
  have inv: "log_inv ?st2" using assms(1) by (simp add: log_inv_evict_front)
  have below: "\<forall>x\<in>set (entries ?st2). le_seq x < le_seq e"
    using assms(2) by (auto dest: list.set_sel(2) simp: split: if_splits) (metis list.set_sel(2) tl_Nil)
  have floor: "refuse_below ?st2 \<le> le_seq e"
    using assms(2,3,5) by (auto simp: refuse_below_def lost_below_evict_front Suc_le_eq split: list.splits)
  have len: "length (entries ?st2) < max_capacity ?st2"
    using assms(1,4) by (auto simp: log_inv_def)
  show ?thesis
    using ring_ok_push [OF log_invD(1) [OF inv] below floor assms(5)] len
    by (simp add: log_inv_def push_back_def Let_def)
qed

lemma log_inv_append [inv_intros]:
  assumes "log_inv st" and "le_seq e < u64_max"
  shows "log_inv (append e st)"
  using log_invD(2) [OF assms(1)]
proof (cases rule: append_cases [where e = e])
  case merge
  then show ?thesis using assms by (simp add: log_inv_merge_locked valid_batch_def)
next
  case refuse
  then show ?thesis using assms by (simp add: log_inv_def)
next
  case no_room
  then have "entries st = []" using log_invD(3) [OF assms(1)] by simp
  then show ?thesis unfolding no_room(4) using assms by (simp add: log_inv_def ring_ok_def)
next
  case push
  then show ?thesis using assms by (simp add: log_inv_push_back)
qed

lemma log_inv_clear_locked [inv_intros]:
  "log_inv st \<Longrightarrow> log_inv (clear_locked st)"
  by (simp add: clear_locked_def log_inv_def ring_ok_def late_ok_def)

lemma log_inv_clear [inv_intros]: "log_inv st \<Longrightarrow> log_inv (clear st)"
  by (simp add: clear_def log_inv_clear_locked)

lemma log_inv_clear_through [inv_intros]: "log_inv st \<Longrightarrow> log_inv (clear_through n st)"
  by (simp add: clear_through_def clear_locked_def log_inv_def ring_ok_def late_ok_def Let_def)

lemma log_inv_increment_malformed [inv_intros]: "log_inv st \<Longrightarrow> log_inv (increment_malformed st)"
  by (simp add: increment_malformed_def log_inv_def)

lemma log_inv_new_store [inv_intros]: "log_inv (new_store capacity)"
  by (simp add: new_store_def log_inv_def ring_ok_def late_ok_def)

lemma log_inv_from_records [inv_intros]:
  assumes "from_records capacity records floor0 = Some st"
    and "\<forall>e\<in>set records. floor0 \<le> le_seq e \<and> le_seq e < u64_max"
  shows "log_inv st"
  using assms fold_index_push [of le_trace_id le_seq records "[]"]
  by (auto simp: from_records_def new_store_def log_inv_def ring_ok_def late_ok_def refuse_below_def
      split: if_splits)

end
