(* ===== verification/Log_Store_Props.thy ===== *)
theory Log_Store_Props
  imports Log_Store_Inv
begin

text \<open>
  What the log ring promises: its invariant along every run of its writers, the merge and the
  append as implementations of one abstract insertion, the loss floor, the counters, and the
  reads, which follow from the interface of a seq-ordered traced store.
\<close>

section \<open>Runs of the writers\<close>

datatype log_op =
    OpAppend log_entry
  | OpInsertSorted "log_entry list"
  | OpClear
  | OpClearThrough u64
  | OpMalformed

fun log_apply :: "log_op \<Rightarrow> log_store \<Rightarrow> log_store" where
  "log_apply (OpAppend e) st = append e st"
| "log_apply (OpInsertSorted batch) st = fst (insert_sorted batch st)"
| "log_apply OpClear st = clear st"
| "log_apply (OpClearThrough n) st = clear_through n st"
| "log_apply OpMalformed st = increment_malformed st"

definition log_run :: "log_op list \<Rightarrow> log_store \<Rightarrow> log_store" where
  "log_run ops st = fold log_apply ops st"

text \<open>The records an operation offers, each with a seq the counter can have assigned.\<close>

fun op_batch :: "log_op \<Rightarrow> log_entry list" where
  "op_batch (OpAppend e) = [e]"
| "op_batch (OpInsertSorted batch) = batch"
| "op_batch op = []"

definition is_store :: "log_op \<Rightarrow> bool" where
  "is_store op = (case op of OpAppend _ \<Rightarrow> True | OpInsertSorted _ \<Rightarrow> True | _ \<Rightarrow> False)"

definition valid_op :: "log_op \<Rightarrow> bool" where
  "valid_op op = list_all (\<lambda>e. le_seq e < u64_max) (op_batch op)"

lemma valid_op_batch: "valid_op op \<Longrightarrow> valid_batch (op_batch op)"
  by (simp add: valid_op_def valid_batch_def list_all_iff)

lemma log_inv_apply [inv_intros]: "log_inv st \<Longrightarrow> valid_op op \<Longrightarrow> log_inv (log_apply op st)"
  by (cases op) (auto simp: valid_op_def valid_batch_def list_all_iff intro: inv_intros)

lemma log_inv_run [inv_intros]:
  "log_inv st \<Longrightarrow> list_all valid_op ops \<Longrightarrow> log_inv (log_run ops st)"
  unfolding log_run_def by (induction ops arbitrary: st) (auto intro: log_inv_apply)

lemma log_run_append: "log_run (ops @ ops') st = log_run ops' (log_run ops st)"
  by (simp add: log_run_def)

text \<open>
  (C4) The ring's invariant holds after any sequence of writes, of any records in any order, from
  an empty store or a loaded case: seqs ascending and distinct, never more records than the
  capacity, the trace index exactly the held records of each trace in seq order, the late maps
  inverse to each other and over held records only, every record at or above both floors.
\<close>

theorem log_store_invariant:
  assumes "list_all valid_op ops"
    and "st0 = new_store capacity \<or>
      from_records capacity records floor0 = Some st0 \<and> (\<forall>e\<in>set records. floor0 \<le> le_seq e \<and> le_seq e < u64_max)"
  shows "log_inv (log_run ops st0)"
  using assms log_inv_run log_inv_new_store log_inv_from_records by metis

lemma log_store_invariant_witness:
  "log_inv (log_run [OpAppend (demo_entry 5), OpInsertSorted [demo_entry 3, demo_entry 4], OpClearThrough 9] (new_store 2))"
  by (rule log_store_invariant [where capacity = 2]) (simp_all add: valid_op_def u64_max_def)

section \<open>The append is the merge of one record\<close>

lemma lose_trace_index_update:
  "lose e (st\<lparr>trace_index := ti\<rparr>) = (lose e st)\<lparr>trace_index := index_remove (le_trace_id e) (le_seq e) ti\<rparr>"
  by (simp add: lose_def unindex_def Let_def split: option.splits)

lemma new_offers_single:
  assumes "\<forall>x\<in>set (entries st). le_seq x < le_seq e" and "sorted_wrt (<) (map le_seq (entries st))"
  shows "new_offers st [e] = [e]"
  using assms holds_iff [OF assms(2), of "le_seq e"] by (auto simp: new_offers_def)

lemma late_seqs_of_newest:
  assumes "\<forall>x\<in>set (entries st). le_seq x < le_seq e" and "sorted_wrt (<) (map le_seq (entries st))"
  shows "late_seqs_of st [e] = []"
  using newest_seq_less [OF assms(2), of "le_seq e"] assms(1)
  by (auto simp: late_seqs_of_def split: option.splits)

lemma merged_ring_newest:
  assumes "\<forall>x\<in>set (entries st). le_seq x < le_seq e" and "sorted_wrt (<) (map le_seq (entries st))"
  shows "mergeable (entries st) [e]" and "merged_ring (entries st) [e] = entries st @ [e]"
proof -
  show m: "mergeable (entries st) [e]" using assms by (auto simp: mergeable_def)
  show "merged_ring (entries st) [e] = entries st @ [e]"
    by (rule merged_ring_unique [OF m]) (use assms in \<open>auto simp: sorted_wrt_append\<close>)
qed

lemma merge_result_newest:
  assumes "log_inv st" and "\<forall>x\<in>set (entries st). le_seq x < le_seq e"
  shows "merge_result [e] st =
    (let L = entries st @ [e]; k = length L - max_capacity st;
         st1 = (fold lose (take k L) (st\<lparr>trace_index := index_of le_seq le_trace_id L\<rparr>))\<lparr>entries := drop k L\<rparr>
     in st1\<lparr>total_stored := wrap64 (total_stored st1 + 1)\<rparr>)"
proof -
  note asc = log_invD(2) [OF assms(1)]
  have "index_merge [e] (trace_index st) = index_of le_seq le_trace_id (entries st @ [e])"
    using index_merged [OF merged_ring_newest(1) [OF assms(2) asc]] merged_ring_newest(2) [OF assms(2) asc]
      ring_okD(2) [OF log_invD(1) [OF assms(1)]] by simp
  then show ?thesis
    unfolding merge_result_def late_seqs_of_newest [OF assms(2) asc] merged_ring_newest(2) [OF assms(2) asc]
    by (simp add: Let_def)
qed

lemma push_back_is_merge:
  assumes "log_inv st" and "\<forall>x\<in>set (entries st). le_seq x < le_seq e" and "0 < max_capacity st"
  shows "push_back e st = merge_result [e] st"
proof (cases "max_capacity st \<le> length (entries st)")
  case False
  then show ?thesis
    using ring_okD(2) [OF log_invD(1) [OF assms(1)]]
    by (simp add: merge_result_newest [OF assms(1,2)] push_back_def Let_def index_push_of not_le)
next
  case True
  then have full: "length (entries st) = max_capacity st" using log_invD(3) [OF assms(1)] by simp
  then obtain x xs where es: "entries st = x # xs" using assms(3) by (cases "entries st") auto
  have asc: "sorted_wrt (<) (map le_seq (x # (xs @ [e])))"
    using log_invD(2) [OF assms(1)] assms(2) es by (auto simp: sorted_wrt_append)
  have asc': "sorted_wrt (<) (map le_seq (x # xs))" using log_invD(2) [OF assms(1)] es by simp
  have ti: "trace_index st = index_of le_seq le_trace_id (x # xs)"
    using ring_okD(2) [OF log_invD(1) [OF assms(1)]] es by simp
  have "length (entries st @ [e]) - max_capacity st = 1" using full by simp
  then show ?thesis
    using True index_remove_front [OF asc, of le_trace_id] index_remove_front [OF asc', of le_trace_id] ti
    by (simp add: merge_result_newest [OF assms(1,2)] push_back_def Let_def es evict_front_def
        lose_entries_update lose_trace_index_update index_push_of)
qed

lemma append_as_merge:
  assumes "log_inv st" and "le_seq e < u64_max"
  shows "append e st = fst (insert_sorted [e] st)"
  using log_invD(2) [OF assms(1)]
proof (cases rule: append_cases [where e = e])
  case merge
  then show ?thesis by (simp add: insert_sorted_def)
next
  case refuse
  then have "admitted st [e] = []" "new_offers st [e] = [e]"
    using new_offers_single log_invD(2) [OF assms(1)] by (auto simp: admitted_def)
  then show ?thesis
    unfolding refuse(3) insert_sorted_def merge_locked_eq [OF log_invD(2) [OF assms(1)]] by simp
next
  case no_room
  let ?st1 = "st\<lparr>total_received := wrap64 (total_received st + 1)\<rparr>"
  have es: "entries st = []" using no_room log_invD(3) [OF assms(1)] by simp
  have st: "trace_index st = Map.empty" "late_by_seq st = []"
    using assms(1) es by (auto simp: log_inv_def ring_ok_def)
  have adm: "admitted st [e] = [e]" "new_offers st [e] = [e]"
    using new_offers_single [OF no_room(1) log_invD(2) [OF assms(1)]] no_room by (auto simp: admitted_def)
  have "merge_result [e] ?st1 = append e st"
    unfolding no_room(4) using no_room(3) es st index_remove_front [of le_seq e "[]" le_trace_id]
    by (subst merge_result_newest) (use assms(1) in \<open>auto simp: Let_def lose_def unindex_def fun_eq_iff\<close>)
  then show ?thesis
    unfolding insert_sorted_def merge_locked_eq [OF log_invD(2) [OF assms(1)]] by (simp add: adm)
next
  case push
  have adm: "admitted st [e] = [e]" "new_offers st [e] = [e]"
    using new_offers_single [OF push(1) log_invD(2) [OF assms(1)]] push by (auto simp: admitted_def)
  then show ?thesis
    unfolding push(4) insert_sorted_def merge_locked_eq [OF log_invD(2) [OF assms(1)]]
    using push_back_is_merge [of "st\<lparr>total_received := wrap64 (total_received st + 1)\<rparr>" e] push assms(1)
    by simp
qed

text \<open>
  (C7) The append's fast path is an optimisation only: on every store satisfying the invariant it
  leaves exactly the state, indices, floors and counters included, that sorting, merging and
  evicting the one-record batch leaves, a ring of capacity zero and a refused record included.
\<close>

theorem append_is_insert_sorted:
  "log_inv st \<Longrightarrow> le_seq e < u64_max \<Longrightarrow> append e st = fst (insert_sorted [e] st)"
  by (rule append_as_merge)

lemma append_is_insert_sorted_witness:
  "append (demo_entry 7) (append (demo_entry 5) (new_store 1))
     = fst (insert_sorted [demo_entry 7] (append (demo_entry 5) (new_store 1)))"
  by (rule append_is_insert_sorted)
     (auto intro!: log_inv_append log_inv_new_store simp: u64_max_def)

section \<open>The abstract insertion\<close>

text \<open>
  What storing a batch means: the held records and the admitted ones in seq order, of which the
  newest stay, as many as the ring has room for.
\<close>

definition offer_spec :: "log_entry list \<Rightarrow> log_store \<Rightarrow> log_entry list" where
  "offer_spec batch st =
     (let L = sort_key le_seq (entries st @ admitted st batch) in drop (length L - max_capacity st) L)"

lemma sort_key_ascending:
  assumes "distinct (map (f :: 'a \<Rightarrow> 'b::linorder) xs)"
  shows "sorted_wrt (<) (map f (sort_key f xs))"
proof -
  have "distinct (map f (sort_key f xs))"
    using assms by (metis distinct_map distinct_sort set_sort)
  then show ?thesis by (simp add: strict_sorted_iff)
qed

lemma merged_ring_sort:
  assumes "mergeable es batch"
  shows "merged_ring es batch = sort_key le_seq (es @ batch)"
proof (rule merged_ring_unique [OF assms])
  have "distinct (map le_seq (es @ batch))"
    using assms by (auto simp: mergeable_def sorted_less_distinct)
  then show "sorted_wrt (<) (map le_seq (sort_key le_seq (es @ batch)))" by (rule sort_key_ascending)
qed simp

lemma insert_sorted_entries:
  assumes "log_inv st"
  shows "entries (fst (insert_sorted batch st)) = offer_spec batch st"
proof (cases "admitted st batch = []")
  case True
  have "sort_key le_seq (entries st) = entries st"
    using log_invD(2) [OF assms] by (simp add: sort_key_id_if_sorted sorted_less_sorted)
  with True show ?thesis
    using log_invD(2,3) [OF assms] by (simp add: insert_sorted_def merge_locked_eq offer_spec_def)
next
  case False
  have m: "mergeable (entries st) (admitted st batch)"
    using mergeable_admitted [OF log_invD(2) [OF assms] False] .
  then show ?thesis
    using False log_invD(2) [OF assms]
    by (simp add: insert_sorted_def merge_locked_eq offer_spec_def merge_result_entries
        merged_ring_sort [OF m] Let_def)
qed

text \<open>
  (C6) Storing implements the abstract insertion: after a batch in any order, with repeats, held
  seqs and seqs below the floors, or after a single append, the ring holds exactly the newest
  records of the sorted union of what it held and what the floors admitted.
\<close>

theorem storing_refines_offer:
  assumes "log_inv st" and "valid_op op" and "is_store op"
  shows "entries (log_apply op st) = offer_spec (op_batch op) st"
  using assms
  by (cases op) (auto simp: valid_op_def is_store_def insert_sorted_entries append_as_merge)

lemma storing_refines_offer_witness:
  "entries (log_apply (OpInsertSorted [demo_entry 4, demo_entry 2, demo_entry 4]) (append (demo_entry 3) (new_store 2)))
     = offer_spec [demo_entry 4, demo_entry 2, demo_entry 4] (append (demo_entry 3) (new_store 2))"
proof -
  have inv: "log_inv (append (demo_entry 3) (new_store 2))"
    by (intro log_inv_append log_inv_new_store) (simp add: u64_max_def)
  show ?thesis
    using storing_refines_offer [OF inv, of "OpInsertSorted [demo_entry 4, demo_entry 2, demo_entry 4]"]
    by (simp add: valid_op_def is_store_def u64_max_def)
qed

section \<open>The loss floor\<close>

lemma lost_below_fold_lose:
  "lost_below (fold lose D st) = fold (\<lambda>e. max (sat_add (le_seq e) 1)) D (lost_below st)"
  by (induction D arbitrary: st) (simp_all add: max.commute)

lemma fold_max_ge: "a \<le> fold (\<lambda>e. max (f e)) D (a :: nat)"
proof (induction D arbitrary: a)
  case (Cons x D)
  show ?case using Cons [of "max (f x) a"] by simp
qed simp

lemma fold_max_ge_elem: "e \<in> set D \<Longrightarrow> f e \<le> fold (\<lambda>e. max (f e)) D (a :: nat)"
proof (induction D arbitrary: a)
  case (Cons x D)
  show ?case
  proof (cases "e = x")
    case True
    then show ?thesis using fold_max_ge [where a = "max (f x) a" and f = f and D = D] by simp
  qed (use Cons in simp)
qed simp

lemma fold_max_cases: "fold (\<lambda>e. max (f e)) D (a :: nat) = a \<or> (\<exists>e\<in>set D. fold (\<lambda>e. max (f e)) D a = f e)"
proof (induction D arbitrary: a)
  case (Cons x D)
  show ?case using Cons [of "max (f x) a"] by (auto simp: max_def split: if_splits)
qed simp

lemma lost_below_insert_sorted:
  assumes "log_inv st"
  shows "lost_below (fst (insert_sorted batch st)) =
    (let L = sort_key le_seq (entries st @ admitted st batch)
     in fold (\<lambda>e. max (sat_add (le_seq e) 1)) (take (length L - max_capacity st) L) (lost_below st))"
proof (cases "admitted st batch = []")
  case True
  then show ?thesis
    using log_invD(2,3) [OF assms] by (simp add: insert_sorted_def merge_locked_eq)
next
  case False
  have m: "mergeable (entries st) (admitted st batch)"
    using mergeable_admitted [OF log_invD(2) [OF assms] False] .
  show ?thesis
    using False log_invD(2) [OF assms]
    by (simp add: insert_sorted_def merge_locked_eq merge_result_def merged_ring_sort [OF m] Let_def
        lost_below_fold_lose)
qed

text \<open>One step: what was held or is admitted stays or falls below the new floor.\<close>

definition op_admitted :: "log_op \<Rightarrow> log_store \<Rightarrow> log_entry list" where
  "op_admitted op st = admitted st (op_batch op)"

lemma insert_sorted_floor:
  assumes "log_inv st" and "valid_batch batch" and "e \<in> set (entries st) \<union> set (admitted st batch)"
  shows "e \<in> set (entries (fst (insert_sorted batch st))) \<or> le_seq e < lost_below (fst (insert_sorted batch st))"
proof -
  let ?L = "sort_key le_seq (entries st @ admitted st batch)"
  let ?k = "length ?L - max_capacity st"
  have "e \<in> set ?L" using assms(3) by simp
  then have "e \<in> set (take ?k ?L) \<or> e \<in> set (drop ?k ?L)" by (metis UnE append_take_drop_id set_append)
  then show ?thesis
  proof
    assume "e \<in> set (take ?k ?L)"
    moreover have "le_seq e < u64_max"
      using assms ring_okD(6) [OF log_invD(1) [OF assms(1)]] admitted_bounds [OF assms(2), of st] by blast
    ultimately have "Suc (le_seq e) \<le> lost_below (fst (insert_sorted batch st))"
      unfolding lost_below_insert_sorted [OF assms(1)] Let_def
      using fold_max_ge_elem [of e "take ?k ?L" "\<lambda>e. sat_add (le_seq e) 1" "lost_below st"] by simp
    then show ?thesis by simp
  next
    assume "e \<in> set (drop ?k ?L)"
    then show ?thesis by (simp add: insert_sorted_entries [OF assms(1)] offer_spec_def Let_def)
  qed
qed

lemma apply_as_insert:
  "log_inv st \<Longrightarrow> valid_op op \<Longrightarrow> is_store op \<Longrightarrow>
   log_apply op st = fst (insert_sorted (op_batch op) st)"
  by (cases op) (auto simp: valid_op_def is_store_def append_as_merge)

lemma op_admitted_nil [simp]: "\<not> is_store op \<Longrightarrow> op_admitted op st = []"
  by (cases op) (simp_all add: op_admitted_def admitted_def new_offers_def is_store_def)

lemma newest_seq_Some:
  "entries st \<noteq> [] \<Longrightarrow> newest_seq st = Some (le_seq (last (entries st)))"
  by (simp add: newest_seq_def last_opt_def)

lemma clear_locked_floor:
  assumes "log_inv st" and "e \<in> set (entries st)"
  shows "le_seq e < lost_below (clear_locked st)"
proof -
  have ne: "entries st \<noteq> []" using assms(2) by auto
  have "le_seq e \<le> le_seq (last (entries st))"
    using ascending_last_greatest [OF log_invD(2) [OF assms(1)] assms(2)] .
  moreover have "le_seq (last (entries st)) < u64_max"
    using ring_okD(6) [OF log_invD(1) [OF assms(1)]] ne by simp
  ultimately show ?thesis by (simp add: clear_locked_def newest_seq_Some [OF ne])
qed

lemma apply_floor:
  assumes "log_inv st" and "valid_op op" and "e \<in> set (entries st) \<union> set (op_admitted op st)"
  shows "e \<in> set (entries (log_apply op st)) \<or> le_seq e < lost_below (log_apply op st)"
proof (cases "is_store op")
  case True
  then show ?thesis
    using insert_sorted_floor [OF assms(1) valid_op_batch [OF assms(2)]] assms
    by (simp add: apply_as_insert op_admitted_def)
next
  case False
  then show ?thesis
    using assms clear_locked_floor [OF assms(1)]
    by (cases op) (auto simp: is_store_def clear_def clear_through_def Let_def increment_malformed_def)
qed

lemma apply_floor_cases:
  assumes "log_inv st" and "valid_op op"
  shows "lost_below (log_apply op st) = lost_below st \<or>
    (\<exists>e \<in> set (entries st) \<union> set (op_admitted op st). lost_below (log_apply op st) = Suc (le_seq e))"
proof (cases "is_store op")
  case True
  let ?L = "sort_key le_seq (entries st @ admitted st (op_batch op))"
  have small: "sat_add (le_seq e) 1 = Suc (le_seq e)"
    if "e \<in> set (entries st) \<union> set (admitted st (op_batch op))" for e
    using that ring_okD(6) [OF log_invD(1) [OF assms(1)]]
      admitted_bounds [OF valid_op_batch [OF assms(2)], of st] by auto
  have sub: "set (take (length ?L - max_capacity st) ?L) \<subseteq> set (entries st) \<union> set (admitted st (op_batch op))"
    using set_take_subset [of _ ?L] by auto
  have lost: "lost_below (log_apply op st)
      = fold (\<lambda>e. max (sat_add (le_seq e) 1)) (take (length ?L - max_capacity st) ?L) (lost_below st)"
    unfolding apply_as_insert [OF assms True] lost_below_insert_sorted [OF assms(1)] Let_def ..
  have "\<exists>e \<in> set (entries st) \<union> set (admitted st (op_batch op)). lost_below (log_apply op st) = Suc (le_seq e)"
    if e: "e \<in> set (take (length ?L - max_capacity st) ?L)"
      and "lost_below (log_apply op st) = sat_add (le_seq e) 1" for e
    using that subsetD [OF sub e] small [of e] by auto
  then show ?thesis
    using fold_max_cases [of "\<lambda>e. sat_add (le_seq e) 1" "take (length ?L - max_capacity st) ?L" "lost_below st"]
    unfolding lost [symmetric] op_admitted_def by blast
next
  case False
  have "lost_below (clear_locked st) = lost_below st \<or>
      (\<exists>e\<in>set (entries st). lost_below (clear_locked st) = Suc (le_seq e))"
  proof (cases "entries st = []")
    case False
    then have "le_seq (last (entries st)) < u64_max"
      using ring_okD(6) [OF log_invD(1) [OF assms(1)]] by simp
    then show ?thesis using False
      by (auto simp: clear_locked_def newest_seq_Some max_def intro!: bexI [OF _ last_in_set])
  qed (simp add: clear_locked_def newest_seq_def last_opt_def)
  then show ?thesis
    using False by (cases op) (auto simp: is_store_def clear_def clear_through_def Let_def increment_malformed_def)
qed

lemma apply_entries_subset:
  assumes "log_inv st" and "valid_op op"
  shows "set (entries (log_apply op st)) \<subseteq> set (entries st) \<union> set (op_admitted op st)"
proof (cases "is_store op")
  case True
  then show ?thesis
    unfolding apply_as_insert [OF assms True] insert_sorted_entries [OF assms(1)] offer_spec_def
      op_admitted_def Let_def
    by (auto dest: in_set_dropD)
next
  case False
  then show ?thesis
    by (cases op) (auto simp: is_store_def clear_def clear_through_def clear_locked_def Let_def increment_malformed_def)
qed

lemma lost_below_apply_mono:
  assumes "log_inv st" and "valid_op op"
  shows "lost_below st \<le> lost_below (log_apply op st)"
proof (cases "is_store op")
  case True
  show ?thesis
    unfolding apply_as_insert [OF assms True] lost_below_insert_sorted [OF assms(1)] Let_def
    by (rule fold_max_ge)
next
  case False
  then show ?thesis
    by (cases op) (auto simp: is_store_def clear_def clear_through_def clear_locked_def Let_def
        increment_malformed_def split: option.splits)
qed

lemma lost_below_run_mono:
  "log_inv st \<Longrightarrow> list_all valid_op ops \<Longrightarrow> lost_below st \<le> lost_below (log_run ops st)"
proof (induction ops arbitrary: st)
  case (Cons op ops)
  have "lost_below st \<le> lost_below (log_apply op st)"
    using lost_below_apply_mono Cons.prems by simp
  also have "\<dots> \<le> lost_below (log_run ops (log_apply op st))"
    using Cons log_inv_apply by simp
  finally show ?case by (simp add: log_run_def)
qed (simp add: log_run_def)

text \<open>Every record a run has held: what the store started with and what each write admitted.\<close>

fun stored_in :: "log_op list \<Rightarrow> log_store \<Rightarrow> log_entry set" where
  "stored_in [] st = set (entries st)"
| "stored_in (op # ops) st =
     set (entries st) \<union> set (op_admitted op st) \<union> stored_in ops (log_apply op st)"

lemma run_floor:
  "log_inv st \<Longrightarrow> list_all valid_op ops \<Longrightarrow> e \<in> stored_in ops st \<Longrightarrow>
   e \<in> set (entries (log_run ops st)) \<or> le_seq e < lost_below (log_run ops st)"
proof (induction ops arbitrary: st)
  case (Cons op ops)
  have inv: "log_inv (log_apply op st)" using Cons.prems log_inv_apply by simp
  show ?case
  proof (cases "e \<in> stored_in ops (log_apply op st)")
    case True
    then show ?thesis using Cons inv by (simp add: log_run_def)
  next
    case False
    then have "e \<in> set (entries st) \<union> set (op_admitted op st)" using Cons.prems by simp
    then have "e \<in> set (entries (log_apply op st)) \<or> le_seq e < lost_below (log_apply op st)"
      using apply_floor Cons.prems by simp
    moreover have "set (entries (log_apply op st)) \<subseteq> stored_in ops (log_apply op st)" by (cases ops) auto
    ultimately have "le_seq e < lost_below (log_apply op st)" using False by blast
    also have "\<dots> \<le> lost_below (log_run ops (log_apply op st))"
      using lost_below_run_mono [OF inv] Cons.prems by simp
    finally show ?thesis by (simp add: log_run_def)
  qed
qed (simp add: log_run_def)

lemma run_entries_stored:
  "log_inv st \<Longrightarrow> list_all valid_op ops \<Longrightarrow> set (entries (log_run ops st)) \<subseteq> stored_in ops st"
proof (induction ops arbitrary: st)
  case (Cons op ops)
  then show ?case using log_inv_apply [of st op] by (simp add: log_run_def) blast
qed (simp add: log_run_def)

lemma run_floor_cases:
  "log_inv st \<Longrightarrow> list_all valid_op ops \<Longrightarrow>
   lost_below (log_run ops st) = lost_below st \<or>
   (\<exists>e \<in> stored_in ops st. lost_below (log_run ops st) = Suc (le_seq e))"
proof (induction ops arbitrary: st)
  case (Cons op ops)
  have "log_inv (log_apply op st)" using Cons.prems log_inv_apply by simp
  then have "lost_below (log_run ops (log_apply op st)) = lost_below (log_apply op st) \<or>
      (\<exists>e \<in> stored_in ops (log_apply op st). lost_below (log_run ops (log_apply op st)) = Suc (le_seq e))"
    using Cons by simp
  then show ?case
    using apply_floor_cases [of st op] Cons.prems by (auto simp: log_run_def)
qed (simp add: log_run_def)

text \<open>
  (C5) The loss floor tells the truth in both directions, after any run of writes: the ring holds
  exactly those of the records it ever stored whose seq is at or above the floor, and the floor
  never rises except to one past a record that was stored and is gone.
\<close>

theorem loss_floor_exact:
  assumes "log_inv st0" and "list_all valid_op ops"
  shows "set (entries (log_run ops st0)) = {e \<in> stored_in ops st0. lost_below (log_run ops st0) \<le> le_seq e}
    \<and> (lost_below (log_run ops st0) = lost_below st0 \<or>
       (\<exists>e \<in> stored_in ops st0 - set (entries (log_run ops st0)). lost_below (log_run ops st0) = Suc (le_seq e)))"
proof -
  have inv: "log_inv (log_run ops st0)" using assms by (rule log_inv_run)
  have above: "lost_below (log_run ops st0) \<le> le_seq e" if "e \<in> set (entries (log_run ops st0))" for e
    using ring_okD(5) [OF log_invD(1) [OF inv] that] by (simp add: refuse_below_def)
  have "set (entries (log_run ops st0)) = {e \<in> stored_in ops st0. lost_below (log_run ops st0) \<le> le_seq e}"
    using run_floor [OF assms] run_entries_stored [OF assms] above by fastforce
  moreover have "e \<notin> set (entries (log_run ops st0))" if "lost_below (log_run ops st0) = Suc (le_seq e)" for e
    using above that by fastforce
  ultimately show ?thesis using run_floor_cases [OF assms] by blast
qed

lemma loss_floor_exact_witness:
  "set (entries (log_run [OpInsertSorted [demo_entry 4, demo_entry 2]] (new_store 1)))
     = {e \<in> stored_in [OpInsertSorted [demo_entry 4, demo_entry 2]] (new_store 1).
         lost_below (log_run [OpInsertSorted [demo_entry 4, demo_entry 2]] (new_store 1)) \<le> le_seq e}"
  using loss_floor_exact [OF log_inv_new_store, of "[OpInsertSorted [demo_entry 4, demo_entry 2]]" 1]
  by (simp add: valid_op_def u64_max_def)

section \<open>The counters\<close>

text \<open>The offers of a run that a floor refused: new to the ring, and below it.\<close>

fun refusals :: "log_op list \<Rightarrow> log_store \<Rightarrow> nat" where
  "refusals [] st = 0"
| "refusals (op # ops) st =
     length (filter (\<lambda>e. le_seq e < refuse_below st) (new_offers st (op_batch op)))
     + refusals ops (log_apply op st)"

lemma offers_split:
  "length (new_offers st batch) =
     length (admitted st batch) + length (filter (\<lambda>e. le_seq e < refuse_below st) (new_offers st batch))"
  unfolding admitted_def using sum_length_filter_compl [of "\<lambda>e. refuse_below st \<le> le_seq e" "new_offers st batch"]
  by (simp add: not_le)

lemma wrap64_add: "wrap64 (wrap64 a + b) = wrap64 (a + b)" "wrap64 (a + wrap64 b) = wrap64 (a + b)"
  by (simp_all add: wrap64_def mod_simps)

lemma counters_apply:
  assumes "log_inv st" and "valid_op op" and "total_stored st \<le> u64_max" and "total_received st \<le> u64_max"
  shows "total_received (log_apply op st) = wrap64 (total_received st + length (new_offers st (op_batch op)))"
    and "total_stored (log_apply op st) = wrap64 (total_stored st + length (op_admitted op st))"
proof -
  note eq = merge_locked_eq [OF log_invD(2) [OF assms(1)]]
  have "total_received (log_apply op st) = wrap64 (total_received st + length (new_offers st (op_batch op)))
    \<and> total_stored (log_apply op st) = wrap64 (total_stored st + length (op_admitted op st))"
  proof (cases "is_store op")
    case True
    then show ?thesis
      using assms(3) by (simp add: apply_as_insert [OF assms(1,2) True] insert_sorted_def eq Let_def
          merge_result_def op_admitted_def)
  next
    case False
    then show ?thesis using assms(3,4)
      by (cases op) (auto simp: is_store_def clear_def clear_through_def clear_locked_def Let_def
          increment_malformed_def new_offers_def op_admitted_def admitted_def)
  qed
  then show "total_received (log_apply op st) = wrap64 (total_received st + length (new_offers st (op_batch op)))"
    and "total_stored (log_apply op st) = wrap64 (total_stored st + length (op_admitted op st))" by auto
qed

lemma counters_run:
  "log_inv st \<Longrightarrow> list_all valid_op ops \<Longrightarrow> total_stored st \<le> u64_max \<Longrightarrow>
   total_received st = wrap64 (total_stored st + r) \<Longrightarrow>
   total_received (log_run ops st) = wrap64 (total_stored (log_run ops st) + r + refusals ops st)"
proof (induction ops arbitrary: st r)
  case (Cons op ops)
  let ?st = "log_apply op st"
  have v: "valid_op op" and le: "total_received st \<le> u64_max" using Cons.prems by simp_all
  note c = counters_apply [OF Cons.prems(1) v Cons.prems(3) le]
  have "total_received ?st = wrap64 (total_stored ?st
      + (r + length (filter (\<lambda>e. le_seq e < refuse_below st) (new_offers st (op_batch op)))))"
    unfolding c Cons.prems(4) offers_split [of st "op_batch op"] op_admitted_def wrap64_add
    by (simp add: ac_simps)
  moreover have "log_inv ?st" "total_stored ?st \<le> u64_max"
    using Cons.prems v log_inv_apply by (simp_all add: c)
  ultimately show ?case
    using Cons.IH [of ?st] Cons.prems(2) by (simp add: log_run_def add.assoc)
qed (simp add: log_run_def)

text \<open>
  The counters account for every offer: after any run of writes from an empty store, received
  minus stored (modulo the counters' width) is exactly the number of offers of new seqs that the
  floors refused; a held or repeated seq counts as neither.
\<close>

theorem received_minus_stored_is_refused:
  assumes "list_all valid_op ops"
  shows "total_received (log_run ops (new_store capacity)) =
    wrap64 (total_stored (log_run ops (new_store capacity)) + refusals ops (new_store capacity))"
  using counters_run [OF log_inv_new_store assms, of capacity 0] by (simp add: new_store_def)

lemma received_minus_stored_is_refused_witness:
  "total_received (log_run [OpClearThrough 5, OpAppend (demo_entry 3)] (new_store 4)) =
    wrap64 (total_stored (log_run [OpClearThrough 5, OpAppend (demo_entry 3)] (new_store 4)) + 1)"
proof -
  have "refusals [OpClearThrough 5, OpAppend (demo_entry 3)] (new_store 4) = 1"
    by (simp add: new_offers_def clear_through_def clear_locked_def new_store_def holds_def
        newest_seq_def last_opt_def refuse_below_def sat_add_def u64_max_def)
  with received_minus_stored_is_refused [of "[OpClearThrough 5, OpAppend (demo_entry 3)]" 4]
  show ?thesis by (simp add: valid_op_def u64_max_def)
qed

section \<open>The reads\<close>

interpretation ls: traced_store le_seq entries lost_below log_inv le_trace_id trace_index
proof
  fix st e
  assume inv: "log_inv st"
  show "sorted_wrt (<) (map le_seq (entries st))" by (rule log_invD(2) [OF inv])
  show "trace_index st = index_of le_seq le_trace_id (entries st)"
    by (rule ring_okD(2) [OF log_invD(1) [OF inv]])
  show "e \<in> set (entries st) \<Longrightarrow> lost_below st \<le> le_seq e"
    using ring_okD(5) [OF log_invD(1) [OF inv]] by (auto simp: refuse_below_def)
qed

text \<open>
  (C9) Every seq read of the log ring is the obvious filter of what it holds: a seq range with its
  floor, a trace's records and their count, and whether a seq is held; none of them walks the ring.
  The neighbours of a record by position are the slice around it, clamped at the ring's ends, as
  long as the ring's length and \<open>after\<close> together fit in a \<open>usize\<close>. Past that the end of the window
  wraps and the read may panic; a record not held has no neighbours in any case.
\<close>

theorem log_reads_correct:
  assumes "log_inv st"
  shows "range_with_floor a b st = (filter (\<lambda>e. a \<le> le_seq e \<and> le_seq e \<le> b) (entries st), lost_below st)
    \<and> logs_by_trace_id tid st = filter (\<lambda>e. le_trace_id e = Some tid) (entries st)
    \<and> count_by_trace_id tid st = length (logs_by_trace_id tid st)
    \<and> (contains_seq s st \<longleftrightarrow> s \<in> le_seq ` set (entries st))
    \<and> (length (entries st) + after \<le> u64_max \<or> position st s = None \<longrightarrow> context_by_seq s before after st =
        Some (case position st s of None \<Rightarrow> []
         | Some i \<Rightarrow> map ((!) (entries st)) [i - before ..< min (Suc (i + after)) (length (entries st))]))"
proof -
  have trace: "logs_by_trace_id tid st = filter (\<lambda>e. le_trace_id e = Some tid) (entries st)"
    using ls.by_trace_correct [OF assms, of tid]
    by (auto simp: logs_by_trace_id_def ring_lookup_def List.map_filter_def split: option.splits)
  have "context_by_seq s before after st =
      Some (map ((!) (entries st)) [i - before ..< min (Suc (i + after)) (length (entries st))])"
    if "position st s = Some i" "length (entries st) + after \<le> u64_max" for i
    using that ls.position_correct [OF assms] ls.context_correct [OF assms, of i after before]
    by (simp add: context_by_seq_def position_def)
  moreover have "context_by_seq s before after st = Some []" if "position st s = None"
    using that by (simp add: context_by_seq_def position_def ring_context_def)
  ultimately show ?thesis
    using trace ls.range_correct [OF assms] ls.count_correct [OF assms, of tid] holds_iff [OF log_invD(2) [OF assms]]
    by (auto simp: range_with_floor_def count_by_trace_id_def contains_seq_def split: option.splits)
qed

lemma log_reads_correct_witness:
  "range_with_floor 2 3 (append (demo_entry 3) (new_store 4)) = ([demo_entry 3], 0)
   \<and> context_by_seq 3 1 5 (append (demo_entry 3) (new_store 4)) = Some [demo_entry 3]"
proof -
  have "log_inv (append (demo_entry 3) (new_store 4))"
    by (intro log_inv_append log_inv_new_store) (simp add: u64_max_def)
  moreover have "entries (append (demo_entry 3) (new_store 4)) = [demo_entry 3]"
    "lost_below (append (demo_entry 3) (new_store 4)) = 0"
    by (simp_all add: append_def new_store_def newest_seq_def last_opt_def refuse_below_def Let_def)
  moreover from this have "position (append (demo_entry 3) (new_store 4)) 3 = Some 0"
    by (simp add: position_def binary_search_by_key_def bsearch.simps)
  ultimately show ?thesis
    using log_reads_correct [of "append (demo_entry 3) (new_store 4)" 2 3 _ 3 5 1] by (simp add: u64_max_def)
qed

end
