(* ===== verification/Cursor_Read.thy ===== *)
theory Cursor_Read
  imports Log_Store_Props
begin

text \<open>
  The queries that walk the ring (\<open>store/memory.rs\<close>): the newest or oldest matching records,
  and the cursor read, which first looks at the records stored late below the cursor's position
  and then at those above it. The commit of a cursor read is \<open>advance_for\<close>.
\<close>

section \<open>Walking for the newest or oldest\<close>

record ring_view =
  rv_scanned :: nat
  rv_len :: nat
  rv_oldest_seq :: "u64 option"
  rv_newest_seq :: "u64 option"
  rv_lost_below :: u64

definition view_of :: "nat \<Rightarrow> log_store \<Rightarrow> ring_view" where
  "view_of scanned st =
     \<lparr>rv_scanned = scanned, rv_len = length (entries st), rv_oldest_seq = oldest_seq st,
      rv_newest_seq = newest_seq st, rv_lost_below = lost_below st\<rparr>"

definition opt_matches :: "match_env \<Rightarrow> parsed_filter option \<Rightarrow> log_entry \<Rightarrow> bool" where
  "opt_matches env f e = (case f of None \<Rightarrow> True | Some p \<Rightarrow> matches_entry env p e)"

definition opt_matches_past :: "match_env \<Rightarrow> parsed_filter option \<Rightarrow> log_entry \<Rightarrow> bool" where
  "opt_matches_past env f e = (case f of None \<Rightarrow> True | Some p \<Rightarrow> matches_entry_past_cursor env p e)"

text \<open>The loop of \<open>recent_with_view\<close>: the record is pushed before the count is compared.\<close>

fun scan_take :: "(log_entry \<Rightarrow> bool) \<Rightarrow> nat \<Rightarrow> log_entry list \<Rightarrow> log_entry list \<Rightarrow> nat \<Rightarrow> log_entry list \<times> nat" where
  "scan_take p cnt [] acc scanned = (acc, scanned)"
| "scan_take p cnt (e # es) acc scanned =
     (if \<not> p e then scan_take p cnt es acc (scanned + 1)
      else let acc' = acc @ [e]
           in if cnt \<le> length acc' then (acc', scanned + 1)
              else scan_take p cnt es acc' (scanned + 1))"

definition recent_with_view ::
  "match_env \<Rightarrow> nat \<Rightarrow> parsed_filter option \<Rightarrow> bool \<Rightarrow> log_store \<Rightarrow> log_entry list \<times> ring_view" where
  "recent_with_view env cnt f oldest_first st =
     (let (result, scanned) =
        scan_take (opt_matches env f) cnt (if oldest_first then entries st else rev (entries st)) [] 0
      in (result, view_of scanned st))"

definition recent_with_scanned ::
  "match_env \<Rightarrow> nat \<Rightarrow> parsed_filter option \<Rightarrow> bool \<Rightarrow> log_store \<Rightarrow> log_entry list \<times> nat" where
  "recent_with_scanned env cnt f oldest_first st =
     (let (es, view) = recent_with_view env cnt f oldest_first st in (es, rv_scanned view))"

definition recent :: "match_env \<Rightarrow> nat \<Rightarrow> parsed_filter option \<Rightarrow> bool \<Rightarrow> log_store \<Rightarrow> log_entry list" where
  "recent env cnt f oldest_first st = fst (recent_with_scanned env cnt f oldest_first st)"

record scan_counts =
  sc_scanned :: nat
  sc_matched :: nat
  sc_oldest_seq :: "u64 option"
  sc_newest_seq :: "u64 option"
  sc_lost_below :: u64

text \<open>\<open>for_each_matching\<close>: the visited records in order, with the counts.\<close>

definition for_each_matching :: "match_env \<Rightarrow> parsed_filter option \<Rightarrow> log_store \<Rightarrow> log_entry list \<times> scan_counts" where
  "for_each_matching env f st =
     (let visited = filter (opt_matches env f) (entries st)
      in (visited, \<lparr>sc_scanned = length (entries st), sc_matched = length visited,
            sc_oldest_seq = oldest_seq st, sc_newest_seq = newest_seq st, sc_lost_below = lost_below st\<rparr>))"

section \<open>The cursor read\<close>

record cursor_pos =
  cp_seq :: u64
  cp_late_mark :: u64
  cp_floor :: u64

record late_tag =
  lt_number :: u64
  lt_held_through :: u64

record cursor_read =
  cr_entries :: "(log_entry \<times> late_tag option) list"
  cr_pos :: cursor_pos
  cr_late_exhausted :: bool
  cr_late_counter :: u64
  cr_held_total :: "u64 option"
  cr_view :: ring_view

record cursor_advance =
  ca_seq :: u64
  ca_late_mark :: u64
  ca_late :: u64
  ca_late_lost :: "u64 option"

definition lookup_seq :: "log_store \<Rightarrow> u64 \<Rightarrow> log_entry option" where
  "lookup_seq st s = map_option ((!) (entries st)) (position st s)"

text \<open>
  The late part: over the late records by number, with the records taken, the count of late
  records passed and the count examined; the last component says the walk was not cut.
\<close>

fun late_walk ::
  "(log_entry \<Rightarrow> bool) \<Rightarrow> cursor_pos \<Rightarrow> log_store \<Rightarrow> nat \<Rightarrow> (u64 \<times> u64) list \<Rightarrow>
   (log_entry \<times> late_tag option) list \<Rightarrow> nat \<Rightarrow> nat \<Rightarrow> (log_entry \<times> late_tag option) list \<times> nat \<times> nat \<times> bool" where
  "late_walk p pos st cnt [] acc held scanned = (acc, held, scanned, True)"
| "late_walk p pos st cnt ((number, s) # l) acc held scanned =
     (if cp_seq pos < s \<or> s \<le> cp_floor pos then late_walk p pos st cnt l acc (held + 1) scanned
      else case lookup_seq st s of
          None \<Rightarrow> late_walk p pos st cnt l acc (held + 1) (scanned + 1)
        | Some e \<Rightarrow>
            if \<not> p e then late_walk p pos st cnt l acc (held + 1) (scanned + 1)
            else let acc' = acc @ [(e, Some \<lparr>lt_number = number, lt_held_through = held + 1\<rparr>)]
                 in if cnt \<le> length acc' then (acc', held + 1, scanned + 1, False)
                    else late_walk p pos st cnt l acc' (held + 1) (scanned + 1))"

text \<open>The normal part, oldest first above the position.\<close>

fun normal_walk ::
  "(log_entry \<Rightarrow> bool) \<Rightarrow> cursor_pos \<Rightarrow> nat \<Rightarrow> log_entry list \<Rightarrow>
   (log_entry \<times> late_tag option) list \<Rightarrow> nat \<Rightarrow> (log_entry \<times> late_tag option) list \<times> nat" where
  "normal_walk p pos cnt [] acc scanned = (acc, scanned)"
| "normal_walk p pos cnt (e # es) acc scanned =
     (if le_seq e \<le> cp_seq pos \<or> \<not> p e then normal_walk p pos cnt es acc (scanned + 1)
      else let acc' = acc @ [(e, None)]
           in if cnt \<le> length acc' then (acc', scanned + 1)
              else normal_walk p pos cnt es acc' (scanned + 1))"

definition late_above :: "cursor_pos \<Rightarrow> log_store \<Rightarrow> (u64 \<times> u64) list" where
  "late_above pos st = filter (\<lambda>(n, s). sat_add (cp_late_mark pos) 1 \<le> n) (late st)"

text \<open>The late part as a cursor read does it: skipped when the position is below every late seq.\<close>

definition late_start ::
  "match_env \<Rightarrow> nat \<Rightarrow> parsed_filter option \<Rightarrow> cursor_pos \<Rightarrow> log_store \<Rightarrow>
   (log_entry \<times> late_tag option) list \<times> nat \<times> nat \<times> bool" where
  "late_start env cnt f pos st =
     (if cnt = 0 then ([], 0, 0, False)
      else if (case late_by_seq st of [] \<Rightarrow> True | (lowest, n) # _ \<Rightarrow> cp_seq pos < lowest)
      then ([], length (late_above pos st), 0, True)
      else late_walk (opt_matches_past env f) pos st cnt (late_above pos st) [] 0 0)"

definition cursor_read_log ::
  "match_env \<Rightarrow> nat \<Rightarrow> parsed_filter option \<Rightarrow> cursor_pos \<Rightarrow> log_store \<Rightarrow> cursor_read" where
  "cursor_read_log env cnt f pos st =
     (case late_start env cnt f pos st of (acc, held, scanned, exhausted) \<Rightarrow>
        (case (if exhausted \<and> length acc < cnt
               then normal_walk (opt_matches env f) pos cnt (entries st) acc scanned
               else (acc, scanned)) of (taken, scanned') \<Rightarrow>
          \<lparr>cr_entries = taken, cr_pos = pos, cr_late_exhausted = exhausted, cr_late_counter = late_counter st,
           cr_held_total = (if exhausted then Some held else None), cr_view = view_of scanned' st\<rparr>))"

text \<open>The read of one trace: its late records are found through the trace index.\<close>

definition trace_take ::
  "match_env \<Rightarrow> parsed_filter option \<Rightarrow> cursor_pos \<Rightarrow> log_store \<Rightarrow> u64 \<Rightarrow> (log_entry \<times> late_tag option) option" where
  "trace_take env f pos st s =
     (case lookup_seq st s of
        None \<Rightarrow> None
      | Some e \<Rightarrow>
          if s \<le> cp_floor pos then None
          else if s \<le> cp_seq pos then
            (case map_of (late_by_seq st) s of
               None \<Rightarrow> None
             | Some number \<Rightarrow>
                 if number \<le> cp_late_mark pos \<or> \<not> opt_matches_past env f e then None
                 else Some (e, Some \<lparr>lt_number = number, lt_held_through = 0\<rparr>))
          else if opt_matches env f e then Some (e, None) else None)"

definition cursor_read_trace ::
  "match_env \<Rightarrow> u128 \<Rightarrow> parsed_filter option \<Rightarrow> cursor_pos \<Rightarrow> log_store \<Rightarrow> cursor_read" where
  "cursor_read_trace env tid f pos st =
     \<lparr>cr_entries = List.map_filter (trace_take env f pos st)
        (case trace_index st tid of None \<Rightarrow> [] | Some l \<Rightarrow> l),
      cr_pos = pos, cr_late_exhausted = True, cr_late_counter = late_counter st,
      cr_held_total = None, cr_view = view_of 0 st\<rparr>"

definition into_kept_entries :: "nat \<Rightarrow> cursor_read \<Rightarrow> log_entry list" where
  "into_kept_entries kept r = sort_key le_seq (map fst (take kept (cr_entries r)))"

definition advance_for :: "nat \<Rightarrow> cursor_read \<Rightarrow> cursor_advance" where
  "advance_for kept0 r =
     (let kept = min kept0 (length (cr_entries r));
          late_total = length (filter (\<lambda>(e, t). t \<noteq> None) (cr_entries r));
          prefix = take kept (cr_entries r);
          late_kept = List.map_filter snd prefix;
          seq0 = cp_seq (cr_pos r); mark0 = cp_late_mark (cr_pos r)
      in if cr_late_exhausted r \<and> length late_kept = late_total
         then let late_mark = max (cr_late_counter r) mark0
              in \<lparr>ca_seq = fold (\<lambda>(e, t). max (le_seq e)) (filter (\<lambda>(e, t). t = None) prefix) seq0,
                  ca_late_mark = late_mark, ca_late = length late_kept,
                  ca_late_lost = map_option (\<lambda>h. late_mark - mark0 - h) (cr_held_total r)\<rparr>
         else case late_kept of
             [] \<Rightarrow> \<lparr>ca_seq = seq0, ca_late_mark = mark0, ca_late = 0, ca_late_lost = Some 0\<rparr>
           | _ \<Rightarrow> (let t = last late_kept
                   in \<lparr>ca_seq = seq0, ca_late_mark = lt_number t, ca_late = length late_kept,
                       ca_late_lost = Some (lt_number t - mark0 - lt_held_through t)\<rparr>))"

end
