(* ===== verification/Cursor_Props.thy ===== *)
theory Cursor_Props
  imports Cursor_Read
begin

text \<open>
  Exactly once: what a cursor wants is what lies above its position and what was stored late
  below it since its mark. A read takes wanted records only, the commit of a kept prefix removes
  exactly that prefix from what is wanted, and every record stored after any position is wanted
  at it.
\<close>

section \<open>What a cursor wants\<close>

definition eligible :: "log_store \<Rightarrow> cursor_pos \<Rightarrow> log_entry \<Rightarrow> bool" where
  "eligible st pos e \<longleftrightarrow>
     e \<in> set (entries st) \<and>
     (cp_seq pos < le_seq e \<or>
      cp_floor pos < le_seq e \<and>
        (case map_of (late_by_seq st) (le_seq e) of None \<Rightarrow> False | Some n \<Rightarrow> cp_late_mark pos < n))"

definition wanted :: "match_env \<Rightarrow> parsed_filter option \<Rightarrow> log_store \<Rightarrow> cursor_pos \<Rightarrow> log_entry set" where
  "wanted env f st pos = {e. eligible st pos e \<and> opt_matches_past env f e}"

text \<open>The filter of a cursor read: its cursor bounds, if any, are at or below the position.\<close>

definition cursor_filter :: "parsed_filter option \<Rightarrow> cursor_pos \<Rightarrow> bool" where
  "cursor_filter f pos =
     (case f of Some (Qualifiers qs) \<Rightarrow> list_all (\<lambda>q. case q of CursorSeq v \<Rightarrow> v \<le> cp_seq pos | _ \<Rightarrow> True) qs
      | _ \<Rightarrow> True)"

text \<open>A position the store's cursors can be at.\<close>

definition pos_ok :: "log_store \<Rightarrow> cursor_pos \<Rightarrow> bool" where
  "pos_ok st pos \<longleftrightarrow> cp_late_mark pos \<le> late_counter st \<and> late_counter st < u64_max \<and> cp_floor pos \<le> cp_seq pos"

definition move_to :: "cursor_advance \<Rightarrow> cursor_pos \<Rightarrow> cursor_pos" where
  "move_to a pos = pos\<lparr>cp_seq := ca_seq a, cp_late_mark := ca_late_mark a\<rparr>"

lemma opt_matches_above:
  assumes "cursor_filter f pos" and "cp_seq pos < le_seq e"
  shows "opt_matches env f e \<longleftrightarrow> opt_matches_past env f e"
proof (cases f)
  case (Some p)
  then show ?thesis
    using assms unfolding opt_matches_def opt_matches_past_def
    by (cases p) (force simp: matches_entry_split cursor_filter_def list_all_iff split: qualifier.splits)+
qed (simp add: opt_matches_def opt_matches_past_def)

section \<open>What the walks take\<close>

definition late_candidate :: "(log_entry \<Rightarrow> bool) \<Rightarrow> cursor_pos \<Rightarrow> log_store \<Rightarrow> u64 \<times> u64 \<Rightarrow> (log_entry \<times> u64) option" where
  "late_candidate p pos st = (\<lambda>(n, s).
     if cp_seq pos < s \<or> s \<le> cp_floor pos then None
     else case lookup_seq st s of None \<Rightarrow> None | Some e \<Rightarrow> if p e then Some (e, n) else None)"

definition candidates :: "(log_entry \<Rightarrow> bool) \<Rightarrow> cursor_pos \<Rightarrow> log_store \<Rightarrow> (u64 \<times> u64) list \<Rightarrow> (log_entry \<times> u64) list" where
  "candidates p pos st l = List.map_filter (late_candidate p pos st) l"

abbreviation untag :: "log_entry \<times> late_tag option \<Rightarrow> log_entry \<times> u64 option" where
  "untag x \<equiv> (fst x, map_option lt_number (snd x))"

lemma candidates_simps [simp]:
  "candidates p pos st [] = []"
  "candidates p pos st (x # l) =
     (case late_candidate p pos st x of None \<Rightarrow> candidates p pos st l | Some c \<Rightarrow> c # candidates p pos st l)"
  by (simp_all add: candidates_def List.map_filter_simps split: option.splits)

lemma late_walk_skip:
  "late_candidate p pos st x = None \<Longrightarrow>
   \<exists>sc. late_walk p pos st cnt (x # l) acc held scanned = late_walk p pos st cnt l acc (held + 1) sc"
  by (cases x) (auto simp: late_candidate_def split: if_splits option.splits)

lemma late_walk_take:
  "late_candidate p pos st x = Some (e, n) \<Longrightarrow>
   late_walk p pos st cnt (x # l) acc held scanned =
     (let acc' = acc @ [(e, Some \<lparr>lt_number = n, lt_held_through = held + 1\<rparr>)]
      in if cnt \<le> length acc' then (acc', held + 1, scanned + 1, False)
         else late_walk p pos st cnt l acc' (held + 1) (scanned + 1))"
  by (cases x) (auto simp: late_candidate_def split: if_splits option.splits)

lemma late_walk_spec:
  assumes "length acc < cnt" and "late_walk p pos st cnt l acc held scanned = (acc', held', scanned', ex)"
  shows "map untag acc' = map untag acc @ take (cnt - length acc) (map (\<lambda>(e, n). (e, Some n)) (candidates p pos st l))
    \<and> (ex \<longleftrightarrow> length acc + length (candidates p pos st l) < cnt)"
  using assms
proof (induction l arbitrary: acc held scanned)
  case (Cons x l)
  show ?case
  proof (cases "late_candidate p pos st x")
    case None
    obtain sc where "late_walk p pos st cnt l acc (held + 1) sc = (acc', held', scanned', ex)"
      using late_walk_skip [OF None] Cons.prems(2) by metis
    then show ?thesis using Cons.IH [OF Cons.prems(1)] None by simp
  next
    case (Some c)
    obtain e n where c: "c = (e, n)" by (cases c)
    let ?acc = "acc @ [(e, Some \<lparr>lt_number = n, lt_held_through = held + 1\<rparr>)]"
    note step = late_walk_take [OF Some [unfolded c], of cnt l acc held scanned, unfolded Cons.prems(2) Let_def]
    show ?thesis
    proof (cases "cnt \<le> length ?acc")
      case True
      then have "cnt - length acc = 1" using Cons.prems(1) by simp
      with True step Cons.prems(1) show ?thesis by (simp add: Some c)
    next
      case False
      then have "late_walk p pos st cnt l ?acc (held + 1) (scanned + 1) = (acc', held', scanned', ex)"
        using step by simp
      from Cons.IH [OF _ this] False Cons.prems(1) show ?thesis
        by (simp add: Some c Suc_diff_Suc take_Cons')
    qed
  qed
qed simp

lemma normal_walk_spec:
  assumes "length acc < cnt"
  shows "fst (normal_walk p pos cnt es acc scanned) =
    acc @ take (cnt - length acc) (map (\<lambda>e. (e, None)) (filter (\<lambda>e. cp_seq pos < le_seq e \<and> p e) es))"
  using assms
  by (induction p pos cnt es acc scanned rule: normal_walk.induct)
     (auto simp: Let_def not_le take_Cons' Suc_diff_Suc)

section \<open>The read in closed form\<close>

definition late_part :: "match_env \<Rightarrow> parsed_filter option \<Rightarrow> cursor_pos \<Rightarrow> log_store \<Rightarrow> (log_entry \<times> u64) list" where
  "late_part env f pos st = candidates (opt_matches_past env f) pos st (late_above pos st)"

definition normal_part :: "match_env \<Rightarrow> parsed_filter option \<Rightarrow> cursor_pos \<Rightarrow> log_store \<Rightarrow> log_entry list" where
  "normal_part env f pos st = filter (\<lambda>e. cp_seq pos < le_seq e \<and> opt_matches env f e) (entries st)"

lemma late_pair:
  assumes "log_inv st"
  shows "(n, s) \<in> set (late st) \<longleftrightarrow> map_of (late_by_seq st) s = Some n"
proof -
  have l: "late_ok st" using assms by (simp add: log_inv_def ring_ok_def)
  have "distinct (keys_of (late st))" using late_okD(1) [OF l] by (rule sorted_less_distinct)
  then show ?thesis using late_okD(3) [OF l, of n s] by (auto dest: map_of_SomeD)
qed

lemma late_number_le:
  assumes "log_inv st" and "map_of (late_by_seq st) s = Some n"
  shows "n \<le> late_counter st"
proof -
  have l: "late_ok st" using assms(1) by (simp add: log_inv_def ring_ok_def)
  show ?thesis using late_okD(3,4) [OF l, of n s] assms(2) by blast
qed

lemma lookup_seq_iff:
  assumes "log_inv st"
  shows "lookup_seq st s = Some e \<longleftrightarrow> e \<in> set (entries st) \<and> le_seq e = s"
proof
  assume "lookup_seq st s = Some e"
  then show "e \<in> set (entries st) \<and> le_seq e = s"
    using ls.position_correct [OF assms] by (auto simp: lookup_seq_def position_def)
next
  assume e: "e \<in> set (entries st) \<and> le_seq e = s"
  then obtain i where "i < length (entries st)" "entries st ! i = e" by (auto simp: in_set_conv_nth)
  then show "lookup_seq st s = Some e"
    using e ls.position_correct [OF assms, of s i] by (simp add: lookup_seq_def position_def)
qed

lemma late_part_below:
  assumes "log_inv st" and "case late_by_seq st of [] \<Rightarrow> True | (lowest, n) # _ \<Rightarrow> cp_seq pos < lowest"
  shows "late_part env f pos st = []"
proof -
  have asc: "sorted_wrt (<) (keys_of (late_by_seq st))"
    using assms(1) by (simp add: log_inv_def ring_ok_def late_ok_def)
  have above: "cp_seq pos < s" if "(n, s) \<in> set (late st)" for n s
  proof -
    have "(s, n) \<in> set (late_by_seq st)"
      using that late_pair [OF assms(1)] by (auto dest: map_of_SomeD)
    then show ?thesis using assms(2) asc by (cases "late_by_seq st") force+
  qed
  have "candidates p pos st l = []" if "set l \<subseteq> set (late st)" for p l
    using that above by (induction l) (auto simp: late_candidate_def)
  then show ?thesis by (simp add: late_part_def late_above_def)
qed

lemma late_start_spec:
  assumes "log_inv st" and "late_start env cnt f pos st = (acc, held, sc, ex)"
  shows "map untag acc = take cnt (map (\<lambda>(e, n). (e, Some n)) (late_part env f pos st))
    \<and> (ex \<longleftrightarrow> length (late_part env f pos st) < cnt)"
proof -
  let ?below = "case late_by_seq st of [] \<Rightarrow> True | (lowest, n) # _ \<Rightarrow> cp_seq pos < lowest"
  consider "cnt = 0" | "cnt \<noteq> 0" ?below | "cnt \<noteq> 0" "\<not> ?below" by blast
  then show ?thesis
  proof cases
    case 1
    then show ?thesis using assms(2) by (simp add: late_start_def)
  next
    case 2
    have "acc = [] \<and> ex" using assms(2) unfolding late_start_def if_not_P [OF 2(1)] if_P [OF 2(2)] by simp
    then show ?thesis using late_part_below [OF assms(1) 2(2)] 2(1) by simp
  next
    case 3
    have "late_walk (opt_matches_past env f) pos st cnt (late_above pos st) [] 0 0 = (acc, held, sc, ex)"
      using assms(2) unfolding late_start_def if_not_P [OF 3(1)] if_not_P [OF 3(2)] .
    from late_walk_spec [OF _ this] 3(1) show ?thesis by (simp add: late_part_def)
  qed
qed

lemma cursor_read_fields [simp]:
  "cr_pos (cursor_read_log env cnt f pos st) = pos"
  "cr_late_counter (cursor_read_log env cnt f pos st) = late_counter st"
  by (simp_all add: cursor_read_log_def split: prod.split)

lemma cursor_read_spec:
  assumes "log_inv st"
  shows "cr_late_exhausted (cursor_read_log env cnt f pos st) \<longleftrightarrow> length (late_part env f pos st) < cnt" (is ?ex)
    and "map untag (cr_entries (cursor_read_log env cnt f pos st)) =
      (if length (late_part env f pos st) < cnt
       then map (\<lambda>(e, n). (e, Some n)) (late_part env f pos st)
            @ map (\<lambda>e. (e, None)) (take (cnt - length (late_part env f pos st)) (normal_part env f pos st))
       else map (\<lambda>(e, n). (e, Some n)) (take cnt (late_part env f pos st)))" (is ?taken)
proof -
  let ?cs = "late_part env f pos st"
  obtain acc held sc ex where start: "late_start env cnt f pos st = (acc, held, sc, ex)"
    by (metis prod_cases4)
  note spec = late_start_spec [OF assms start]
  have r: "cr_late_exhausted (cursor_read_log env cnt f pos st) = ex"
    "cr_entries (cursor_read_log env cnt f pos st) =
      (if ex \<and> length acc < cnt then fst (normal_walk (opt_matches env f) pos cnt (entries st) acc sc) else acc)"
    unfolding cursor_read_log_def start by (simp_all add: case_prod_unfold)
  show ?ex using r spec by simp
  have len: "length acc = min cnt (length ?cs)"
    using arg_cong [OF conjunct1 [OF spec], of length] by (simp add: min.commute)
  show ?taken
  proof (cases "length ?cs < cnt")
    case True
    then have acc: "map untag acc = map (\<lambda>(e, n). (e, Some n)) ?cs" "length acc = length ?cs" "ex"
      using spec len by simp_all
    have lt: "length acc < cnt" using True acc(2) by simp
    have "map untag (fst (normal_walk (opt_matches env f) pos cnt (entries st) acc sc)) =
        map untag acc @ map (\<lambda>e. (e, None)) (take (cnt - length ?cs) (normal_part env f pos st))"
      unfolding normal_walk_spec [OF lt] normal_part_def acc(2) [symmetric] by (simp add: take_map)
    then show ?thesis
      unfolding r(2) acc(1) using True lt acc(3) by simp
  next
    case False
    then have "map untag acc = map (\<lambda>(e, n). (e, Some n)) (take cnt ?cs)" "\<not> ex"
      using spec by (simp_all add: take_map)
    then show ?thesis using False unfolding r(2) by simp
  qed
qed

section \<open>The commit in closed form\<close>

abbreviation tagged :: "(log_entry \<times> u64) list \<Rightarrow> (log_entry \<times> u64 option) list" where
  "tagged cs \<equiv> map (\<lambda>(e, n). (e, Some n)) cs"

abbreviation untagged :: "log_entry list \<Rightarrow> (log_entry \<times> u64 option) list" where
  "untagged ns \<equiv> map (\<lambda>e. (e, None)) ns"

lemma tagged_props:
  "map untag xs = tagged cs \<Longrightarrow>
   map lt_number (List.map_filter snd xs) = map snd cs \<and> filter (\<lambda>(e, t). t = None) xs = [] \<and>
   filter (\<lambda>(e, t). t \<noteq> None) xs = xs"
proof (induction xs arbitrary: cs)
  case (Cons x xs)
  then obtain c cs' where "cs = c # cs'" by (cases cs) auto
  with Cons show ?case by (cases x; cases c) (auto simp: List.map_filter_simps)
qed (auto simp: List.map_filter_simps)

lemma untagged_props:
  "map untag xs = untagged ns \<Longrightarrow>
   List.map_filter snd xs = [] \<and> filter (\<lambda>(e, t). t = None) xs = xs \<and>
   filter (\<lambda>(e, t). t \<noteq> None) xs = [] \<and> map fst xs = ns"
proof (induction xs arbitrary: ns)
  case (Cons x xs)
  then obtain n ns' where "ns = n # ns'" by (cases ns) auto
  with Cons show ?case by (cases x) (auto simp: List.map_filter_simps)
qed (auto simp: List.map_filter_simps)

lemma fold_max_fst:
  "fold (\<lambda>(e, t). max (le_seq e)) xs a = fold max (map le_seq (map fst xs)) a"
  by (induction xs arbitrary: a) auto

lemma prefix_props:
  assumes "map untag (cr_entries r) = tagged cs @ untagged ns" and "kept \<le> length cs + length ns"
  shows "map lt_number (List.map_filter snd (take kept (cr_entries r))) = map snd (take kept cs)"
    and "length (filter (\<lambda>(e, t). t \<noteq> None) (cr_entries r)) = length cs"
    and "map fst (filter (\<lambda>(e, t). t = None) (take kept (cr_entries r))) = take (kept - length cs) ns"
    and "map fst (take kept (cr_entries r)) = map fst (take kept cs) @ take (kept - length cs) ns"
    and "length (cr_entries r) = length cs + length ns"
proof -
  obtain xs ys where r: "cr_entries r = xs @ ys" and xs: "map untag xs = tagged cs" and ys: "map untag ys = untagged ns"
    using assms(1) by (auto simp: map_eq_append_conv)
  have len: "length xs = length cs" "length ys = length ns"
    using arg_cong [OF xs, of length] arg_cong [OF ys, of length] by simp_all
  have xk: "map untag (take kept xs) = tagged (take kept cs)"
    using arg_cong [OF xs, of "take kept"] by (simp add: take_map)
  have yk: "map untag (take (kept - length cs) ys) = untagged (take (kept - length cs) ns)"
    using arg_cong [OF ys, of "take (kept - length cs)"] by (simp add: take_map)
  have fst_x: "map fst (take kept xs) = map fst (take kept cs)"
    using arg_cong [OF xk, of "map fst"] by (simp add: case_prod_unfold comp_def)
  show "map lt_number (List.map_filter snd (take kept (cr_entries r))) = map snd (take kept cs)"
    using tagged_props [OF xk] untagged_props [OF yk] by (simp add: r len map_filter_append)
  show "length (filter (\<lambda>(e, t). t \<noteq> None) (cr_entries r)) = length cs"
    using tagged_props [OF xs] untagged_props [OF ys] by (simp add: r len)
  show "map fst (filter (\<lambda>(e, t). t = None) (take kept (cr_entries r))) = take (kept - length cs) ns"
    using tagged_props [OF xk] untagged_props [OF yk] by (simp add: r len)
  show "map fst (take kept (cr_entries r)) = map fst (take kept cs) @ take (kept - length cs) ns"
    using untagged_props [OF yk] fst_x by (simp add: r len)
  show "length (cr_entries r) = length cs + length ns" by (simp add: r len)
qed

lemma advance_all_late:
  assumes "map untag (cr_entries r) = tagged cs @ untagged ns" and "kept \<le> length cs + length ns"
    and "cr_late_exhausted r" and "length cs \<le> kept"
  shows "ca_seq (advance_for kept r) = fold max (map le_seq (take (kept - length cs) ns)) (cp_seq (cr_pos r))"
    and "ca_late_mark (advance_for kept r) = max (cr_late_counter r) (cp_late_mark (cr_pos r))"
proof -
  note p = prefix_props [OF assms(1,2)]
  have "length (List.map_filter snd (take kept (cr_entries r))) = length cs"
    using arg_cong [OF p(1), of length] assms(4) by simp
  moreover have "min kept (length (cr_entries r)) = kept" using p(5) assms(2) by simp
  ultimately show "ca_seq (advance_for kept r) = fold max (map le_seq (take (kept - length cs) ns)) (cp_seq (cr_pos r))"
    and "ca_late_mark (advance_for kept r) = max (cr_late_counter r) (cp_late_mark (cr_pos r))"
    using assms(3) p(2,3) by (simp_all add: advance_for_def Let_def fold_max_fst del: map_map)
qed

lemma advance_some_late:
  assumes "map untag (cr_entries r) = tagged cs @ untagged ns" and "kept \<le> length cs"
    and "kept < length cs \<or> \<not> cr_late_exhausted r"
  shows "ca_seq (advance_for kept r) = cp_seq (cr_pos r)"
    and "ca_late_mark (advance_for kept r) = (if kept = 0 then cp_late_mark (cr_pos r) else snd (cs ! (kept - 1)))"
proof -
  have "kept \<le> length cs + length ns" using assms(2) by simp
  note p = prefix_props [OF assms(1) this]
  let ?lk = "List.map_filter snd (take kept (cr_entries r))"
  have len: "length ?lk = kept" using arg_cong [OF p(1), of length] assms(2) by simp
  have km: "min kept (length (cr_entries r)) = kept" using p(5) assms(2) by simp
  have last: "lt_number (last ?lk) = snd (cs ! (kept - 1))" if "kept \<noteq> 0"
  proof -
    have ne: "?lk \<noteq> []" using that len by auto
    have "lt_number (last ?lk) = last (map lt_number ?lk)" using ne by (simp add: last_map)
    also have "\<dots> = snd (last (take kept cs))"
    proof -
      have "take kept cs \<noteq> []" using that assms(2) by auto
      then show ?thesis unfolding p(1) by (rule last_map)
    qed
    also have "last (take kept cs) = cs ! (kept - 1)"
      using that assms(2) by (cases "take kept cs = []") (auto simp: last_conv_nth)
    finally show ?thesis .
  qed
  have "advance_for kept r = (case ?lk of
       [] \<Rightarrow> \<lparr>ca_seq = cp_seq (cr_pos r), ca_late_mark = cp_late_mark (cr_pos r), ca_late = 0, ca_late_lost = Some 0\<rparr>
     | _ \<Rightarrow> \<lparr>ca_seq = cp_seq (cr_pos r), ca_late_mark = lt_number (last ?lk), ca_late = length ?lk,
           ca_late_lost = Some (lt_number (last ?lk) - cp_late_mark (cr_pos r) - lt_held_through (last ?lk))\<rparr>)"
    using assms(3) len by (simp only: advance_for_def Let_def km p(2)) auto
  then show "ca_seq (advance_for kept r) = cp_seq (cr_pos r)"
    and "ca_late_mark (advance_for kept r) = (if kept = 0 then cp_late_mark (cr_pos r) else snd (cs ! (kept - 1)))"
    using last len by (auto split: list.splits)
qed

section \<open>Exactly once\<close>

text \<open>The position after the first \<open>j\<close> of an ascending list: what is above it is the rest.\<close>

definition mark_after :: "('a \<Rightarrow> nat) \<Rightarrow> nat \<Rightarrow> 'a list \<Rightarrow> nat \<Rightarrow> nat" where
  "mark_after g m0 xs j = (if j = 0 then m0 else g (xs ! (j - 1)))"

lemma above_mark_after:
  assumes "sorted_wrt (<) (map g xs)" and "\<forall>x\<in>set xs. m0 < g x" and "j \<le> length xs"
  shows "{x \<in> set xs. mark_after g m0 xs j < g x} = set (drop j xs)" and "m0 \<le> mark_after g m0 xs j"
proof -
  have asc: "a < b \<Longrightarrow> b < length xs \<Longrightarrow> g (xs ! a) < g (xs ! b)" for a b
    using sorted_wrt_nth_less [OF assms(1), of a b] by simp
  show "m0 \<le> mark_after g m0 xs j"
    using assms(2,3) by (simp add: mark_after_def less_imp_le)
  have iff: "mark_after g m0 xs j < g (xs ! i) \<longleftrightarrow> j \<le> i" if i: "i < length xs" for i
  proof (cases "j = 0")
    case True
    then show ?thesis using i assms(2) by (simp add: mark_after_def)
  next
    case False
    have j: "j - 1 < length xs" using False assms(3) by simp
    consider "i = j - 1" | "i < j - 1" | "j - 1 < i" by linarith
    then have "g (xs ! (j - 1)) < g (xs ! i) \<longleftrightarrow> j - 1 < i"
    proof cases
      case 2
      then show ?thesis using asc [OF 2 j] by simp
    next
      case 3
      then show ?thesis using asc [OF 3 i] by simp
    qed simp
    with False show ?thesis unfolding mark_after_def by (simp only: if_False) linarith
  qed
  show "{x \<in> set xs. mark_after g m0 xs j < g x} = set (drop j xs)"
  proof (intro set_eqI iffI)
    fix x
    assume "x \<in> {x \<in> set xs. mark_after g m0 xs j < g x}"
    then obtain i where i: "i < length xs" "x = xs ! i" "mark_after g m0 xs j < g (xs ! i)"
      by (auto simp: in_set_conv_nth)
    then have "j \<le> i" using iff by blast
    then have "drop j xs ! (i - j) = x" "i - j < length (drop j xs)" using i by simp_all
    then show "x \<in> set (drop j xs)" using nth_mem by blast
  next
    fix x
    assume "x \<in> set (drop j xs)"
    then obtain k where k: "k < length xs - j" "x = xs ! (j + k)" by (auto simp: in_set_conv_nth)
    then have "mark_after g m0 xs j < g x" using iff [of "j + k"] by simp
    then show "x \<in> {x \<in> set xs. mark_after g m0 xs j < g x}" using k by simp
  qed
qed

lemma fold_max_mark:
  assumes "sorted_wrt (<) (map g xs)" and "\<forall>x\<in>set xs. m0 < g x" and "j \<le> length xs"
  shows "fold max (map g (take j xs)) m0 = mark_after g m0 xs j"
  using assms
proof (induction xs arbitrary: j m0)
  case (Cons x xs)
  show ?case
  proof (cases j)
    case (Suc i)
    have "fold max (map g (take i xs)) (g x) = mark_after g (g x) xs i"
      using Cons Suc by simp
    moreover have "max (g x) m0 = g x" using Cons.prems(2) by simp
    ultimately show ?thesis using Suc by (simp add: mark_after_def nth_Cons')
  qed (simp add: mark_after_def)
qed (simp add: mark_after_def)

lemma candidates_numbers:
  "set (map snd (candidates p pos st l)) \<subseteq> fst ` set l"
  "sorted_wrt (<) (keys_of l) \<Longrightarrow> sorted_wrt (<) (map snd (candidates p pos st l))"
proof (induction l)
  case (Cons x l)
  { case 1
    then show ?case using Cons
      by (cases x) (auto simp: late_candidate_def split: option.splits if_splits) }
  { case 2
    then show ?case using Cons
      by (cases x) (force simp: late_candidate_def split: option.splits if_splits) }
qed simp_all

lemma set_candidates: "c \<in> set (candidates p pos st l) \<longleftrightarrow> (\<exists>x\<in>set l. late_candidate p pos st x = Some c)"
  by (induction l) (auto split: option.splits)

lemma late_part_props:
  assumes "log_inv st" and "pos_ok st pos"
  shows "(e, n) \<in> set (late_part env f pos st) \<longleftrightarrow>
      e \<in> set (entries st) \<and> map_of (late_by_seq st) (le_seq e) = Some n \<and> cp_late_mark pos < n \<and>
      cp_floor pos < le_seq e \<and> le_seq e \<le> cp_seq pos \<and> opt_matches_past env f e"
    and "sorted_wrt (<) (map snd (late_part env f pos st))"
proof -
  have mark: "cp_late_mark pos < u64_max" using assms(2) by (simp add: pos_ok_def)
  have above: "(n, s) \<in> set (late_above pos st) \<longleftrightarrow> map_of (late_by_seq st) s = Some n \<and> cp_late_mark pos < n" for n s
    using mark by (auto simp: late_above_def late_pair [OF assms(1)])
  show "(e, n) \<in> set (late_part env f pos st) \<longleftrightarrow>
      e \<in> set (entries st) \<and> map_of (late_by_seq st) (le_seq e) = Some n \<and> cp_late_mark pos < n \<and>
      cp_floor pos < le_seq e \<and> le_seq e \<le> cp_seq pos \<and> opt_matches_past env f e"
  proof
    assume "(e, n) \<in> set (late_part env f pos st)"
    then show "e \<in> set (entries st) \<and> map_of (late_by_seq st) (le_seq e) = Some n \<and> cp_late_mark pos < n \<and>
        cp_floor pos < le_seq e \<and> le_seq e \<le> cp_seq pos \<and> opt_matches_past env f e"
      using lookup_seq_iff [OF assms(1)]
      by (auto simp: late_part_def set_candidates late_candidate_def above split: option.splits if_splits)
  next
    assume e: "e \<in> set (entries st) \<and> map_of (late_by_seq st) (le_seq e) = Some n \<and> cp_late_mark pos < n \<and>
        cp_floor pos < le_seq e \<and> le_seq e \<le> cp_seq pos \<and> opt_matches_past env f e"
    then have "late_candidate (opt_matches_past env f) pos st (n, le_seq e) = Some (e, n)"
      using lookup_seq_iff [OF assms(1), of "le_seq e" e] by (simp add: late_candidate_def)
    then show "(e, n) \<in> set (late_part env f pos st)"
      using e above by (auto simp: late_part_def set_candidates)
  qed
  have "sorted_wrt (<) (keys_of (late_above pos st))"
    using assms(1) by (simp add: late_above_def log_inv_def ring_ok_def late_ok_def)
  then show "sorted_wrt (<) (map snd (late_part env f pos st))"
    unfolding late_part_def by (rule candidates_numbers(2))
qed

lemma normal_part_props:
  assumes "log_inv st" and "cursor_filter f pos"
  shows "set (normal_part env f pos st) = {e \<in> set (entries st). cp_seq pos < le_seq e \<and> opt_matches_past env f e}"
    and "sorted_wrt (<) (map le_seq (normal_part env f pos st))"
  using opt_matches_above [OF assms(2)] log_invD(2) [OF assms(1)]
  by (auto simp: normal_part_def ascending_map_filter)

text \<open>What is wanted at a position that has moved in one of the two ways a commit moves it.\<close>

lemma wanted_after:
  assumes "log_inv st" and "pos_ok st pos" and "cursor_filter f pos"
    and "cp_seq pos \<le> s" and "cp_late_mark pos \<le> m" and "s = cp_seq pos \<or> late_counter st \<le> m"
  shows "wanted env f st (pos\<lparr>cp_seq := s, cp_late_mark := m\<rparr>) =
    {e \<in> set (normal_part env f pos st). s < le_seq e} \<union> {e. \<exists>n. (e, n) \<in> set (late_part env f pos st) \<and> m < n}"
proof -
  have le: "n \<le> late_counter st" if "map_of (late_by_seq st) q = Some n" for n q
    using late_number_le [OF assms(1) that] .
  show ?thesis
    using assms(4-6) le late_part_props(1) [OF assms(1,2)] normal_part_props(1) [OF assms(1,3)]
    by (fastforce simp: wanted_def eligible_def not_less split: option.splits)
qed

lemma wanted_parts:
  assumes "log_inv st" and "pos_ok st pos" and "cursor_filter f pos"
  shows "wanted env f st pos = set (normal_part env f pos st) \<union> fst ` set (late_part env f pos st)"
  using wanted_after [OF assms, of "cp_seq pos" "cp_late_mark pos" env] normal_part_props(1) [OF assms(1,3)]
    late_part_props(1) [OF assms(1,2)]
  by (auto simp: image_iff) (metis fst_conv)+

lemma parts_distinct:
  assumes "log_inv st" and "pos_ok st pos" and "cursor_filter f pos"
  shows "distinct (map fst (late_part env f pos st) @ normal_part env f pos st)"
proof -
  let ?cs = "late_part env f pos st"
  have d: "distinct ?cs"
    using late_part_props(2) [OF assms(1,2), of env f] by (metis distinct_map sorted_less_distinct)
  have inj: "inj_on fst (set ?cs)"
    using late_part_props(1) [OF assms(1,2), of _ _ env f] by (auto simp: inj_on_def)
  have "distinct (normal_part env f pos st)"
    using normal_part_props(2) [OF assms(1,3), of env] by (metis distinct_map sorted_less_distinct)
  moreover have "fst ` set ?cs \<inter> set (normal_part env f pos st) = {}"
    using late_part_props(1) [OF assms(1,2), of _ _ env f] normal_part_props(1) [OF assms(1,3), of env] by auto
  ultimately show ?thesis using d inj by (simp add: distinct_map)
qed

definition kept_records :: "nat \<Rightarrow> cursor_read \<Rightarrow> log_entry list" where
  "kept_records kept r = map fst (take kept (cr_entries r))"

definition move_after :: "nat \<Rightarrow> cursor_read \<Rightarrow> cursor_pos \<Rightarrow> cursor_pos" where
  "move_after kept r pos = move_to (advance_for kept r) pos"

lemma set_take_drop_distinct: "distinct xs \<Longrightarrow> set (drop j xs) = set xs - set (take j xs)"
  by (metis Diff_cancel Un_Diff append_take_drop_id distinct_append Diff_triv inf_commute set_append sup_bot_left)

lemma commit_all_late:
  assumes "log_inv st" and "pos_ok st pos" and "cursor_filter f pos"
    and "map untag (cr_entries r) = tagged (late_part env f pos st) @ untagged (take k (normal_part env f pos st))"
    and "kept \<le> length (cr_entries r)" and "cr_late_exhausted r" and "length (late_part env f pos st) \<le> kept"
    and "cr_pos r = pos" and "cr_late_counter r = late_counter st"
  shows "wanted env f st (move_after kept r pos) = wanted env f st pos - set (kept_records kept r)
    \<and> pos_ok st (move_after kept r pos)"
proof -
  let ?cs = "late_part env f pos st" and ?ns = "normal_part env f pos st"
  let ?j = "kept - length ?cs"
  let ?s = "mark_after le_seq (cp_seq pos) ?ns ?j"
  have len: "length (cr_entries r) = length ?cs + length (take k ?ns)"
    using arg_cong [OF assms(4), of length] by simp
  then have kept: "kept \<le> length ?cs + length (take k ?ns)" using assms(5) by simp
  then have jk: "?j \<le> length (take k ?ns)" by linarith
  note ns = normal_part_props [OF assms(1,3), of env]
  have above: "\<forall>e\<in>set ?ns. cp_seq pos < le_seq e" using ns(1) by auto
  have j: "?j \<le> length ?ns" using jk by simp
  have "?j \<le> k" using jk by simp
  then have take: "take ?j (take k ?ns) = take ?j ?ns" by (simp add: min_absorb1)
  have "ca_seq (advance_for kept r) = ?s"
    using advance_all_late(1) [OF assms(4) kept assms(6,7)] fold_max_mark [OF ns(2) above j]
    unfolding take assms(8) by simp
  moreover have "ca_late_mark (advance_for kept r) = late_counter st"
    using advance_all_late(2) [OF assms(4) kept assms(6,7)] assms(2,8,9) by (simp add: pos_ok_def)
  ultimately have pos': "move_after kept r pos = pos\<lparr>cp_seq := ?s, cp_late_mark := late_counter st\<rparr>"
    by (simp add: move_after_def move_to_def)
  have mono: "cp_seq pos \<le> ?s" by (rule above_mark_after(2) [OF ns(2) above j])
  have le: "n \<le> late_counter st" if "(e, n) \<in> set ?cs" for e n
    using that late_part_props(1) [OF assms(1,2)] late_number_le [OF assms(1)] by blast
  have K: "kept_records kept r = map fst ?cs @ take ?j ?ns"
    unfolding kept_records_def prefix_props(4) [OF assms(4) kept] take using assms(7) by simp
  have "wanted env f st (move_after kept r pos) = set (drop ?j ?ns)"
    unfolding pos' using wanted_after [OF assms(1-3) mono, of "late_counter st" env] assms(2) le
      above_mark_after(1) [OF ns(2) above j] by (force simp: pos_ok_def)
  also have "\<dots> = wanted env f st pos - set (kept_records kept r)"
    using parts_distinct [OF assms(1-3), of env] set_take_drop_distinct [of ?ns ?j]
    unfolding wanted_parts [OF assms(1-3)] K by (auto dest: in_set_takeD)
  finally show ?thesis using assms(2) mono unfolding pos' by (simp add: pos_ok_def)
qed

lemma commit_some_late:
  assumes "log_inv st" and "pos_ok st pos" and "cursor_filter f pos"
    and "map untag (cr_entries r) = tagged (take k (late_part env f pos st)) @ untagged ns"
    and "kept < length (take k (late_part env f pos st)) \<or> \<not> cr_late_exhausted r"
    and "kept \<le> length (take k (late_part env f pos st))" and "cr_pos r = pos"
  shows "wanted env f st (move_after kept r pos) = wanted env f st pos - set (kept_records kept r)
    \<and> pos_ok st (move_after kept r pos)"
proof -
  let ?cs = "late_part env f pos st"
  let ?m = "mark_after snd (cp_late_mark pos) ?cs kept"
  have kk: "kept \<le> length (take k ?cs) + length ns" by (rule trans_le_add1 [OF assms(6)])
  have kept: "kept \<le> length ?cs" using assms(6) by simp
  have mem: "(e, n) \<in> set ?cs \<Longrightarrow> cp_late_mark pos < n \<and> n \<le> late_counter st" for e n
    using late_part_props(1) [OF assms(1,2)] late_number_le [OF assms(1)] by blast
  then have above: "\<forall>c\<in>set ?cs. cp_late_mark pos < snd c" by fastforce
  note asc = late_part_props(2) [OF assms(1,2), of env f]
  have "ca_late_mark (advance_for kept r) = ?m"
    using advance_some_late(2) [OF assms(4,6,5)] assms(6) unfolding assms(7) mark_after_def by auto
  then have pos': "move_after kept r pos = pos\<lparr>cp_seq := cp_seq pos, cp_late_mark := ?m\<rparr>"
    using advance_some_late(1) [OF assms(4,6,5)] assms(7) by (simp add: move_after_def move_to_def)
  have mono: "cp_late_mark pos \<le> ?m" by (rule above_mark_after(2) [OF asc above kept])
  have bound: "?m \<le> late_counter st"
  proof (cases "kept = 0")
    case False
    then have "?cs ! (kept - 1) \<in> set ?cs" using kept by (intro nth_mem) simp
    then show ?thesis using mem [of "fst (?cs ! (kept - 1))"] False by (simp add: mark_after_def)
  qed (use assms(2) in \<open>simp add: mark_after_def pos_ok_def\<close>)
  have K: "kept_records kept r = map fst (take kept ?cs)"
  proof -
    have "kept \<le> k" "kept - length (take k ?cs) = 0" using assms(6) by simp_all
    then show ?thesis
      unfolding kept_records_def prefix_props(4) [OF assms(4) kk] by (simp add: min_absorb1)
  qed
  have late: "{e. \<exists>n. (e, n) \<in> set ?cs \<and> ?m < n} = fst ` set (drop kept ?cs)"
    unfolding above_mark_after(1) [OF asc above kept, symmetric] by force
  have normal: "{e \<in> set (normal_part env f pos st). cp_seq pos < le_seq e} = set (normal_part env f pos st)"
    using normal_part_props(1) [OF assms(1,3)] by auto
  have "wanted env f st (move_after kept r pos) = set (normal_part env f pos st) \<union> set (drop kept (map fst ?cs))"
    unfolding pos' using wanted_after [OF assms(1-3) order_refl mono, of env] late normal by (simp add: drop_map)
  also have "\<dots> = wanted env f st pos - set (kept_records kept r)"
    using parts_distinct [OF assms(1-3), of env] set_take_drop_distinct [of "map fst ?cs" kept]
      set_take_subset [of kept "map fst ?cs"]
    unfolding wanted_parts [OF assms(1-3)] K take_map [symmetric] by auto
  finally show ?thesis using assms(2) bound unfolding pos' by (simp add: pos_ok_def)
qed

lemma kept_records_wanted:
  assumes "log_inv st" and "pos_ok st pos" and "cursor_filter f pos"
  shows "distinct (kept_records kept (cursor_read_log env cnt f pos st))"
    and "set (kept_records kept (cursor_read_log env cnt f pos st)) \<subseteq> wanted env f st pos"
proof -
  let ?cs = "late_part env f pos st" and ?ns = "normal_part env f pos st"
  obtain a b where all: "map fst (cr_entries (cursor_read_log env cnt f pos st)) = take a (map fst ?cs) @ take b ?ns"
  proof (cases "length ?cs < cnt")
    case True
    then have "map fst (map untag (cr_entries (cursor_read_log env cnt f pos st)))
        = map fst ?cs @ take (cnt - length ?cs) ?ns"
      unfolding cursor_read_spec(2) [OF assms(1)] by (simp add: case_prod_unfold comp_def)
    then show ?thesis using that [of "length ?cs" "cnt - length ?cs"] by (simp add: comp_def)
  next
    case False
    then have "map fst (map untag (cr_entries (cursor_read_log env cnt f pos st))) = take cnt (map fst ?cs)"
      unfolding cursor_read_spec(2) [OF assms(1)] by (simp add: case_prod_unfold comp_def take_map)
    then show ?thesis using that [of cnt 0] by (simp add: comp_def)
  qed
  have d: "distinct (take a (map fst ?cs) @ take b ?ns)"
    using parts_distinct [OF assms, of env] set_take_subset [of a "map fst ?cs"] set_take_subset [of b ?ns]
    by auto
  have K: "kept_records kept (cursor_read_log env cnt f pos st) = take kept (take a (map fst ?cs) @ take b ?ns)"
    unfolding kept_records_def take_map [symmetric] all ..
  show "distinct (kept_records kept (cursor_read_log env cnt f pos st))"
    unfolding K using d by (rule distinct_take)
  have "set (kept_records kept (cursor_read_log env cnt f pos st)) \<subseteq> set (take a (map fst ?cs)) \<union> set (take b ?ns)"
    unfolding K using set_take_subset [of kept "take a (map fst ?cs) @ take b ?ns"] by simp
  also have "\<dots> \<subseteq> set (map fst ?cs) \<union> set ?ns"
    by (intro Un_mono set_take_subset)
  finally show "set (kept_records kept (cursor_read_log env cnt f pos st)) \<subseteq> wanted env f st pos"
    unfolding wanted_parts [OF assms] by auto
qed

lemma commit_exact:
  assumes "log_inv st" and "pos_ok st pos" and "cursor_filter f pos"
    and "kept \<le> length (cr_entries (cursor_read_log env cnt f pos st))"
  shows "wanted env f st (move_after kept (cursor_read_log env cnt f pos st) pos)
      = wanted env f st pos - set (kept_records kept (cursor_read_log env cnt f pos st))
    \<and> pos_ok st (move_after kept (cursor_read_log env cnt f pos st) pos)"
proof -
  let ?r = "cursor_read_log env cnt f pos st"
  let ?cs = "late_part env f pos st" and ?ns = "normal_part env f pos st"
  note spec = cursor_read_spec [OF assms(1), of env cnt f pos]
  consider "length ?cs < cnt" "length ?cs \<le> kept" | "length ?cs < cnt" "kept < length ?cs" | "\<not> length ?cs < cnt"
    by linarith
  then show ?thesis
  proof cases
    case 1
    then have "map untag (cr_entries ?r) = tagged ?cs @ untagged (take (cnt - length ?cs) ?ns)"
      using spec(2) by simp
    then show ?thesis
      by (rule commit_all_late [OF assms(1-3) _ assms(4)]) (use 1 spec(1) in simp_all)
  next
    case 2
    then have "map untag (cr_entries ?r) = tagged (take (length ?cs) ?cs) @ untagged (take (cnt - length ?cs) ?ns)"
      using spec(2) by simp
    then show ?thesis
      by (rule commit_some_late [OF assms(1-3)]) (use 2 in simp_all)
  next
    case 3
    then have u: "map untag (cr_entries ?r) = tagged (take cnt ?cs) @ untagged []"
      using spec(2) by simp
    have "kept \<le> length (take cnt ?cs)" using arg_cong [OF u, of length] assms(4) by simp
    then show ?thesis
      by (rule commit_some_late [OF assms(1-3) u, rotated]) (use 3 spec(1) in simp_all)
  qed
qed

text \<open>
  A cursor read delivers exactly once. Whatever the count asked for and whatever prefix of
  the result the caller keeps: the kept records are distinct records the cursor wanted, and after
  the commit the cursor wants exactly what it wanted before less what was kept, so nothing kept is
  delivered again and nothing unkept is skipped, records stored late below the position included.
\<close>

theorem cursor_read_exactly_once:
  assumes "log_inv st" and "pos_ok st pos" and "cursor_filter f pos"
    and "kept \<le> length (cr_entries (cursor_read_log env cnt f pos st))"
  shows "distinct (kept_records kept (cursor_read_log env cnt f pos st))
    \<and> set (kept_records kept (cursor_read_log env cnt f pos st)) \<subseteq> wanted env f st pos
    \<and> wanted env f st (move_after kept (cursor_read_log env cnt f pos st) pos)
        = wanted env f st pos - set (kept_records kept (cursor_read_log env cnt f pos st))"
  using kept_records_wanted [OF assms(1-3)] commit_exact [OF assms] by blast

definition demo_pos :: cursor_pos where
  "demo_pos = \<lparr>cp_seq = 5, cp_late_mark = 0, cp_floor = 1\<rparr>"

definition demo_store :: log_store where
  "demo_store = log_run [OpAppend (demo_entry 5), OpAppend (demo_entry 8), OpInsertSorted [demo_entry 3]] (new_store 4)"

lemma length_dedup_by_key: "length (dedup_by_key f xs) \<le> length xs"
  by (induction f xs rule: dedup_by_key.induct) auto

lemma late_counter_merge:
  assumes "log_inv st"
  shows "late_counter (fst (insert_sorted batch st)) \<le> late_counter st + length batch"
proof -
  have "length (admitted st batch) \<le> length (new_offers st batch)"
    by (simp add: admitted_def)
  also have "\<dots> \<le> length (dedup_by_key le_seq (sort_key le_seq batch))"
    by (simp add: new_offers_def)
  also have "\<dots> \<le> length batch" using length_dedup_by_key [of le_seq "sort_key le_seq batch"] by simp
  finally have adm: "length (admitted st batch) \<le> length batch" .
  have "length (late_seqs_of s b) \<le> length b" for s b
    using length_takeWhile_le [of _ "map le_seq b"] by (auto simp: late_seqs_of_def split: option.splits)
  then have "length (filter P (late_seqs_of s (admitted st batch))) \<le> length batch" for P s
    using adm by (meson length_filter_le order_trans)
  then show ?thesis
    by (simp add: insert_sorted_def merge_locked_eq [OF log_invD(2) [OF assms]] merge_result_def Let_def)
qed

text \<open>Late numbers are handed out to offered records only.\<close>

lemma late_counter_apply:
  assumes "log_inv st" and "valid_op op"
  shows "late_counter (log_apply op st) \<le> late_counter st + length (op_batch op)"
proof (cases "is_store op")
  case True
  then show ?thesis using late_counter_merge [OF assms(1)] by (simp add: apply_as_insert [OF assms True])
next
  case False
  then show ?thesis
    by (cases op) (auto simp: is_store_def clear_def clear_through_def clear_locked_def Let_def increment_malformed_def)
qed

lemma late_counter_run:
  "log_inv st \<Longrightarrow> list_all valid_op ops \<Longrightarrow>
   late_counter (log_run ops st) \<le> late_counter st + sum_list (map (\<lambda>op. length (op_batch op)) ops)"
proof (induction ops arbitrary: st)
  case (Cons op ops)
  have "late_counter (log_run ops (log_apply op st)) \<le>
      late_counter (log_apply op st) + sum_list (map (\<lambda>op. length (op_batch op)) ops)"
    using Cons log_inv_apply by simp
  moreover have "late_counter (log_apply op st) \<le> late_counter st + length (op_batch op)"
    using late_counter_apply Cons.prems by simp
  ultimately show ?case by (simp add: log_run_def)
qed (simp add: log_run_def)

lemma demo_store_inv: "log_inv demo_store"
  unfolding demo_store_def
  by (rule log_inv_run [OF log_inv_new_store]) (simp add: valid_op_def u64_max_def)

lemma cursor_read_exactly_once_witness:
  "set (kept_records 0 (cursor_read_log demo_env 1 None demo_pos demo_store)) \<subseteq> wanted demo_env None demo_store demo_pos"
proof -
  have "late_counter demo_store \<le> 3"
    using late_counter_run [OF log_inv_new_store, of "[OpAppend (demo_entry 5), OpAppend (demo_entry 8), OpInsertSorted [demo_entry 3]]" 4]
    by (simp add: demo_store_def valid_op_def u64_max_def new_store_def)
  then have "pos_ok demo_store demo_pos" by (simp add: pos_ok_def demo_pos_def u64_max_def)
  moreover have "cursor_filter None demo_pos" by (simp add: cursor_filter_def)
  ultimately show ?thesis
    using cursor_read_exactly_once [OF demo_store_inv, of demo_pos None 0 demo_env 1] by simp
qed

end
