(* ===== verification/Cursor_Run.thy ===== *)
theory Cursor_Run
  imports Cursor_Props
begin

text \<open>
  A cursor over a run of the store: writes and reads interleaved in any order. The records
  stored late are the hard case: a cursor that has read past their seq must still see them.
\<close>

section \<open>What a write does to a cursor\<close>

text \<open>
  Where a cursor can be: at the position it was created at, or at a seq it has read. A seq that
  was read is held, or below something held, or it has left the ring and lies below a floor.
\<close>

definition cursor_at :: "log_store \<Rightarrow> cursor_pos \<Rightarrow> bool" where
  "cursor_at st pos \<longleftrightarrow>
     pos_ok st pos \<and>
     (cp_seq pos \<le> cp_floor pos \<or> cp_seq pos < refuse_below st \<or> (\<exists>e\<in>set (entries st). cp_seq pos \<le> le_seq e))"

lemma fold_lose_late:
  "map_of (late_by_seq (fold lose D st)) s = (if s \<in> le_seq ` set D then None else map_of (late_by_seq st) s)"
  by (induction D arbitrary: st) (auto simp: lose_late)

lemma late_by_seq_merge_result:
  assumes "mergeable (entries st) batch" and "s \<in> le_seq ` set (entries (merge_result batch st))"
  shows "if s \<in> set (late_seqs_of st batch)
    then \<exists>n. map_of (late_by_seq (merge_result batch st)) s = Some n \<and> late_counter st < n
    else map_of (late_by_seq (merge_result batch st)) s = map_of (late_by_seq st) s"
proof -
  let ?L = "merged_ring (entries st) batch"
  let ?k = "length ?L - max_capacity st"
  let ?ss = "filter (\<lambda>s. s \<in> le_seq ` set (drop ?k ?L)) (late_seqs_of st batch)"
  let ?st1 = "(fold lose (take ?k ?L) (st\<lparr>trace_index := index_merge batch (trace_index st)\<rparr>))\<lparr>entries := drop ?k ?L\<rparr>"
  have late: "late_by_seq (merge_result batch st) = late_by_seq (fold number_late ?ss ?st1)"
    by (simp add: merge_result_def Let_def)
  have s: "s \<in> le_seq ` set (drop ?k ?L)" using assms(2) by (simp add: merge_result_def Let_def)
  have "sorted_wrt (<) (map le_seq (take ?k ?L) @ map le_seq (drop ?k ?L))"
    unfolding map_append [symmetric] append_take_drop_id by (rule asc_merged [OF assms(1)])
  then have "s \<notin> le_seq ` set (take ?k ?L)" using s unfolding sorted_wrt_append by fastforce
  then have "map_of (late_by_seq ?st1) s = map_of (late_by_seq st) s" by (simp add: fold_lose_late)
  moreover have "distinct ?ss" using late_seqs_of_props(1) [OF assms(1)] by simp
  moreover have "late_counter ?st1 = late_counter st" by simp
  ultimately show ?thesis
    using fold_number_late_number [of ?ss s ?st1] s unfolding late by auto
qed

text \<open>What a write leaves of the late numbers: fresh ones for what came in late, the rest kept.\<close>

lemma late_by_seq_apply:
  assumes "log_inv st" and "valid_op op" and "e \<in> set (entries (log_apply op st))"
  shows "e \<in> set (entries st) \<Longrightarrow> map_of (late_by_seq (log_apply op st)) (le_seq e) = map_of (late_by_seq st) (le_seq e)"
    and "e \<notin> set (entries st) \<Longrightarrow> x \<in> set (entries st) \<Longrightarrow> le_seq e \<le> le_seq x \<Longrightarrow>
      \<exists>n. map_of (late_by_seq (log_apply op st)) (le_seq e) = Some n \<and> late_counter st < n"
proof -
  have sub: "e \<in> set (entries st) \<or> e \<in> set (op_admitted op st)"
    using apply_entries_subset [OF assms(1,2)] assms(3) by blast
  show "e \<in> set (entries st) \<Longrightarrow> map_of (late_by_seq (log_apply op st)) (le_seq e) = map_of (late_by_seq st) (le_seq e)"
    and "e \<notin> set (entries st) \<Longrightarrow> x \<in> set (entries st) \<Longrightarrow> le_seq e \<le> le_seq x \<Longrightarrow>
      \<exists>n. map_of (late_by_seq (log_apply op st)) (le_seq e) = Some n \<and> late_counter st < n"
  proof (atomize (full), cases "is_store op \<and> op_admitted op st \<noteq> []")
    case False
    have "e \<in> set (entries st)" using False sub by auto
    moreover have "late_by_seq (log_apply op st) = late_by_seq st"
      using False assms(3) apply_as_insert [OF assms(1,2)]
      by (cases op) (auto simp: is_store_def op_admitted_def insert_sorted_def clear_def clear_through_def
          clear_locked_def increment_malformed_def Let_def merge_locked_eq [OF log_invD(2) [OF assms(1)]])
    ultimately show "(e \<in> set (entries st) \<longrightarrow> map_of (late_by_seq (log_apply op st)) (le_seq e) = map_of (late_by_seq st) (le_seq e)) \<and>
      (e \<notin> set (entries st) \<longrightarrow> x \<in> set (entries st) \<longrightarrow> le_seq e \<le> le_seq x \<longrightarrow>
        (\<exists>n. map_of (late_by_seq (log_apply op st)) (le_seq e) = Some n \<and> late_counter st < n))" by simp
  next
    case True
    let ?adm = "op_admitted op st"
    let ?st1 = "st\<lparr>total_received := wrap64 (total_received st + length (new_offers st (op_batch op)))\<rparr>"
    have m: "mergeable (entries ?st1) ?adm"
      using mergeable_admitted [OF log_invD(2) [OF assms(1)]] True by (simp add: op_admitted_def)
    have app: "log_apply op st = merge_result ?adm ?st1"
      using True merge_locked_eq [OF log_invD(2) [OF assms(1)], of "op_batch op"]
      by (simp add: apply_as_insert [OF assms(1,2)] insert_sorted_def op_admitted_def Let_def)
    have held: "le_seq e \<in> le_seq ` set (entries (merge_result ?adm ?st1))" using assms(3) app by simp
    note num = late_by_seq_merge_result [OF m held]
    have late: "le_seq e \<in> set (late_seqs_of ?st1 ?adm) \<longleftrightarrow> e \<notin> set (entries st) \<and> (\<exists>x\<in>set (entries st). le_seq e < le_seq x)"
    proof -
      have newest: "newest_seq ?st1 = newest_seq st" by (simp add: newest_seq_def)
      have dis: "le_seq ` set (entries st) \<inter> le_seq ` set ?adm = {}" using m by (simp add: mergeable_def)
      have ex: "(\<exists>newest. newest_seq st = Some newest \<and> le_seq e < newest) \<longleftrightarrow> (\<exists>x\<in>set (entries st). le_seq e < le_seq x)"
      proof (cases "entries st = []")
        case False
        then show ?thesis
          using ascending_last_greatest [OF log_invD(2) [OF assms(1)]] last_in_set [OF False]
          by (auto simp: newest_seq_Some intro: less_le_trans)
      qed (simp add: newest_seq_def last_opt_def)
      have "le_seq e \<in> set (late_seqs_of ?st1 ?adm) \<longleftrightarrow>
          le_seq e \<in> le_seq ` set ?adm \<and> (\<exists>x\<in>set (entries st). le_seq e < le_seq x)"
        unfolding set_late_seqs_of [OF m] newest ex [symmetric] by blast
      moreover have "le_seq e \<in> le_seq ` set ?adm \<longleftrightarrow> e \<notin> set (entries st)"
        using sub dis by blast
      ultimately show ?thesis by blast
    qed
    have neq: "e \<notin> set (entries st) \<Longrightarrow> x \<in> set (entries st) \<Longrightarrow> le_seq e \<noteq> le_seq x" for x
      using sub m by (auto simp: mergeable_def)
    show "(e \<in> set (entries st) \<longrightarrow> map_of (late_by_seq (log_apply op st)) (le_seq e) = map_of (late_by_seq st) (le_seq e)) \<and>
      (e \<notin> set (entries st) \<longrightarrow> x \<in> set (entries st) \<longrightarrow> le_seq e \<le> le_seq x \<longrightarrow>
        (\<exists>n. map_of (late_by_seq (log_apply op st)) (le_seq e) = Some n \<and> late_counter st < n))"
    proof (intro conjI impI)
      assume "e \<in> set (entries st)"
      then show "map_of (late_by_seq (log_apply op st)) (le_seq e) = map_of (late_by_seq st) (le_seq e)"
        using num late unfolding app by simp
    next
      assume e: "e \<notin> set (entries st)" and x: "x \<in> set (entries st)" "le_seq e \<le> le_seq x"
      then have "le_seq e < le_seq x" using neq [OF e x(1)] by simp
      then have "le_seq e \<in> set (late_seqs_of ?st1 ?adm)" unfolding late using e x(1) by blast
      then show "\<exists>n. map_of (late_by_seq (log_apply op st)) (le_seq e) = Some n \<and> late_counter st < n"
        using num unfolding app by simp
    qed
  qed
qed

lemma refuse_below_apply_mono:
  assumes "log_inv st" and "valid_op op"
  shows "refuse_below st \<le> refuse_below (log_apply op st)"
proof -
  have "admit_from st \<le> admit_from (log_apply op st)"
  proof (cases "is_store op")
    case True
    then show ?thesis
      by (simp add: apply_as_insert [OF assms True] insert_sorted_def Let_def merge_result_def
          merge_locked_eq [OF log_invD(2) [OF assms(1)]])
  next
    case False
    then show ?thesis
      by (cases op) (auto simp: is_store_def clear_def clear_through_def clear_locked_def Let_def increment_malformed_def)
  qed
  then show ?thesis
    using lost_below_apply_mono [OF assms] unfolding refuse_below_def by (rule max.mono [rotated])
qed

lemma late_counter_apply_mono:
  assumes "log_inv st" and "valid_op op"
  shows "late_counter st \<le> late_counter (log_apply op st)"
proof (cases "is_store op")
  case True
  then show ?thesis
    by (simp add: apply_as_insert [OF assms True] insert_sorted_def Let_def merge_result_def
        merge_locked_eq [OF log_invD(2) [OF assms(1)]])
next
  case False
  then show ?thesis
    by (cases op) (auto simp: is_store_def clear_def clear_through_def clear_locked_def Let_def increment_malformed_def)
qed

lemma cursor_at_apply:
  assumes "log_inv st" and "valid_op op" and "cursor_at st pos" and "late_counter (log_apply op st) < u64_max"
  shows "cursor_at (log_apply op st) pos"
proof -
  have "pos_ok (log_apply op st) pos"
    using assms late_counter_apply_mono [OF assms(1,2)] by (simp add: cursor_at_def pos_ok_def)
  moreover have "cp_seq pos < refuse_below (log_apply op st) \<or> (\<exists>e\<in>set (entries (log_apply op st)). cp_seq pos \<le> le_seq e)"
    if "e \<in> set (entries st)" "cp_seq pos \<le> le_seq e" for e
    using apply_floor [OF assms(1,2), of e] that by (auto simp: refuse_below_def intro: le_less_trans)
  ultimately show ?thesis
    using assms(3) refuse_below_apply_mono [OF assms(1,2)] unfolding cursor_at_def by (meson less_le_trans)
qed

text \<open>
  The key step: what a cursor wants after a write is what it wanted and is still held, and every
  matching record the write stored above the cursor's floor, wherever the cursor stands.
\<close>

lemma wanted_apply:
  assumes "log_inv st" and "valid_op op" and "cursor_at st pos"
  shows "wanted env f (log_apply op st) pos =
    wanted env f st pos \<inter> set (entries (log_apply op st)) \<union>
    {e \<in> set (entries (log_apply op st)) - set (entries st). cp_floor pos < le_seq e \<and> opt_matches_past env f e}"
proof -
  have floor: "cp_floor pos \<le> cp_seq pos" and mark: "cp_late_mark pos \<le> late_counter st"
    using assms(3) by (auto simp: cursor_at_def pos_ok_def)
  have old: "eligible (log_apply op st) pos e \<longleftrightarrow> eligible st pos e"
    if "e \<in> set (entries st)" "e \<in> set (entries (log_apply op st))" for e
    using that late_by_seq_apply(1) [OF assms(1,2)] by (simp add: eligible_def)
  have new: "eligible (log_apply op st) pos e \<longleftrightarrow> cp_floor pos < le_seq e"
    if e: "e \<notin> set (entries st)" "e \<in> set (entries (log_apply op st))" for e
  proof
    assume "eligible (log_apply op st) pos e"
    then show "cp_floor pos < le_seq e" using floor by (auto simp: eligible_def)
  next
    assume fl: "cp_floor pos < le_seq e"
    show "eligible (log_apply op st) pos e"
    proof (cases "cp_seq pos < le_seq e")
      case True
      then show ?thesis using e by (simp add: eligible_def)
    next
      case False
      have "e \<in> set (op_admitted op st)" using apply_entries_subset [OF assms(1,2)] e by blast
      then have "refuse_below st \<le> le_seq e" by (simp add: op_admitted_def admitted_def)
      then obtain x where "x \<in> set (entries st)" "cp_seq pos \<le> le_seq x"
        using assms(3) False fl by (auto simp: cursor_at_def)
      then obtain n where "map_of (late_by_seq (log_apply op st)) (le_seq e) = Some n" "late_counter st < n"
        using late_by_seq_apply(2) [OF assms(1,2) e(2) e(1)] False by (metis le_trans not_less)
      then show ?thesis using e fl mark by (simp add: eligible_def)
    qed
  qed
  have "e \<in> wanted env f (log_apply op st) pos \<Longrightarrow> e \<in> set (entries (log_apply op st))"
    "e \<in> wanted env f st pos \<Longrightarrow> e \<in> set (entries st)" for e
    by (simp_all add: wanted_def eligible_def)
  then show ?thesis using old new unfolding wanted_def by blast
qed

section \<open>Interleaved writes and reads\<close>

text \<open>
  The query of a cursor: the caller's qualifiers and the cursor's own bound, as the resolver
  writes it. A run keeps the store, the cursor's committed position, the records delivered so
  far, and the records that have become due: those wanted at the start, and every matching
  record stored since above the cursor's floor.
\<close>

definition cursor_query :: "qualifier list \<Rightarrow> cursor_pos \<Rightarrow> parsed_filter option" where
  "cursor_query qs pos = Some (Qualifiers (qs @ [CursorSeq (cp_seq pos)]))"

abbreviation user_filter :: "qualifier list \<Rightarrow> parsed_filter option" where
  "user_filter qs \<equiv> Some (Qualifiers qs)"

record cursor_run =
  run_store :: log_store
  run_pos :: cursor_pos
  run_delivered :: "log_entry list"
  run_due :: "log_entry set"

definition start_run :: "match_env \<Rightarrow> qualifier list \<Rightarrow> log_store \<Rightarrow> cursor_pos \<Rightarrow> cursor_run" where
  "start_run env qs st pos =
     \<lparr>run_store = st, run_pos = pos, run_delivered = [], run_due = wanted env (user_filter qs) st pos\<rparr>"

inductive cursor_step :: "match_env \<Rightarrow> qualifier list \<Rightarrow> cursor_run \<Rightarrow> cursor_run \<Rightarrow> bool"
  for env :: match_env and qs :: "qualifier list"
where
  write_step: "valid_op op \<Longrightarrow> st' = log_apply op (run_store s) \<Longrightarrow> late_counter st' < u64_max \<Longrightarrow>
    cursor_step env qs s
      (s\<lparr>run_store := st', run_due := run_due s \<union>
         {e \<in> set (entries st') - set (entries (run_store s)).
            cp_floor (run_pos s) < le_seq e \<and> opt_matches_past env (user_filter qs) e}\<rparr>)"
| read_step: "r = cursor_read_log env cnt (cursor_query qs (run_pos s)) (run_pos s) (run_store s) \<Longrightarrow>
    kept \<le> length (cr_entries r) \<Longrightarrow>
    cursor_step env qs s
      (s\<lparr>run_pos := move_after kept r (run_pos s), run_delivered := run_delivered s @ kept_records kept r\<rparr>)"

definition run_inv :: "match_env \<Rightarrow> qualifier list \<Rightarrow> cursor_run \<Rightarrow> bool" where
  "run_inv env qs s \<longleftrightarrow>
     log_inv (run_store s) \<and> cursor_at (run_store s) (run_pos s) \<and>
     distinct (map le_seq (run_delivered s)) \<and> set (run_delivered s) \<subseteq> run_due s \<and>
     (\<forall>d\<in>set (run_delivered s). le_seq d < refuse_below (run_store s) \<or> d \<in> set (entries (run_store s))) \<and>
     wanted env (user_filter qs) (run_store s) (run_pos s) =
       run_due s \<inter> set (entries (run_store s)) - set (run_delivered s) \<and>
     (\<forall>e\<in>run_due s. cp_floor (run_pos s) < le_seq e \<and> opt_matches_past env (user_filter qs) e)"

lemma wanted_query: "wanted env (cursor_query qs pos') st pos = wanted env (user_filter qs) st pos"
  by (simp add: wanted_def opt_matches_past_def cursor_query_def matches_entry_past_cursor_def is_cursor_seq_def)

lemma cursor_filter_query: "\<not> list_ex is_cursor_seq qs \<Longrightarrow> cursor_filter (cursor_query qs pos) pos"
  by (auto simp: cursor_filter_def cursor_query_def list_all_iff list_ex_iff is_cursor_seq_def split: qualifier.splits)

lemma move_floor [simp]: "cp_floor (move_after kept r pos) = cp_floor pos"
  by (simp add: move_after_def move_to_def)

text \<open>After a commit the cursor stands where it stood, or at the seq of a record it kept.\<close>

lemma cursor_at_commit:
  assumes "log_inv st" and "cursor_at st pos" and "cursor_filter f pos"
    and "kept \<le> length (cr_entries (cursor_read_log env cnt f pos st))"
  shows "cursor_at st (move_after kept (cursor_read_log env cnt f pos st) pos)"
proof -
  let ?r = "cursor_read_log env cnt f pos st"
  have ok: "pos_ok st pos" using assms(2) by (simp add: cursor_at_def)
  have "fold (\<lambda>(e, t). max (le_seq e)) xs a = a \<or> (\<exists>x\<in>set xs. fold (\<lambda>(e, t). max (le_seq e)) xs a = le_seq (fst x))"
    for xs :: "(log_entry \<times> late_tag option) list" and a
  proof (induction xs arbitrary: a)
    case (Cons x xs)
    show ?case using Cons [of "max (le_seq (fst x)) a"] by (cases x) (auto simp: max_def split: if_splits)
  qed simp
  then have "ca_seq (advance_for kept ?r) = cp_seq pos \<or>
      (\<exists>x\<in>set (take kept (cr_entries ?r)). ca_seq (advance_for kept ?r) = le_seq (fst x))"
    using assms(4) by (fastforce simp: advance_for_def Let_def min_absorb1 split: list.splits)
  moreover have "fst x \<in> set (entries st)" if "x \<in> set (take kept (cr_entries ?r))" for x
    using kept_records_wanted(2) [OF assms(1) ok assms(3), of kept env cnt] that
    by (auto simp: kept_records_def wanted_def eligible_def)
  ultimately have "cp_seq (move_after kept ?r pos) = cp_seq pos \<or>
      (\<exists>e\<in>set (entries st). cp_seq (move_after kept ?r pos) \<le> le_seq e)"
    by (auto simp: move_after_def move_to_def)
  then show ?thesis
    using commit_exact [OF assms(1) ok assms(3,4)] assms(2) by (auto simp: cursor_at_def)
qed

lemma run_inv_write:
  assumes "run_inv env qs s" and "valid_op op" and "st' = log_apply op (run_store s)" and "late_counter st' < u64_max"
  shows "run_inv env qs (s\<lparr>run_store := st', run_due := run_due s \<union>
         {e \<in> set (entries st') - set (entries (run_store s)).
            cp_floor (run_pos s) < le_seq e \<and> opt_matches_past env (user_filter qs) e}\<rparr>)"
proof -
  let ?st = "run_store s" and ?pos = "run_pos s" and ?del = "set (run_delivered s)"
  let ?new = "{e \<in> set (entries st') - set (entries ?st). cp_floor ?pos < le_seq e \<and> opt_matches_past env (user_filter qs) e}"
  have inv: "log_inv ?st" and at: "cursor_at ?st ?pos" using assms(1) by (auto simp: run_inv_def)
  have gone: "le_seq d < refuse_below st' \<or> d \<in> set (entries st')" if "d \<in> ?del" for d
    using assms(1) that apply_floor [OF inv assms(2), of d] refuse_below_apply_mono [OF inv assms(2)]
    unfolding assms(3) run_inv_def by (fastforce simp: refuse_below_def)
  have fresh: "?new \<inter> ?del = {}"
  proof -
    have "e \<notin> ?del" if "e \<in> ?new" for e
    proof -
      have "refuse_below ?st \<le> le_seq e"
        using that apply_entries_subset [OF inv assms(2)] unfolding assms(3)
        by (auto simp: op_admitted_def admitted_def)
      then show ?thesis using assms(1) that unfolding run_inv_def by fastforce
    qed
    then show ?thesis by blast
  qed
  have due: "\<forall>e\<in>run_due s. cp_floor ?pos < le_seq e \<and> opt_matches_past env (user_filter qs) e"
    using assms(1) by (simp add: run_inv_def)
  have "wanted env (user_filter qs) st' ?pos = (run_due s \<union> ?new) \<inter> set (entries st') - ?del"
    using wanted_apply [OF inv assms(2) at, of env "user_filter qs"] fresh due assms(1)
    unfolding assms(3) run_inv_def by blast
  then show ?thesis
    using assms(1) gone cursor_at_apply [OF inv assms(2) at] log_inv_apply [OF inv assms(2)] assms(3,4)
    by (auto simp: run_inv_def)
qed

lemma run_inv_read:
  assumes "run_inv env qs s" and "\<not> list_ex is_cursor_seq qs"
    and "r = cursor_read_log env cnt (cursor_query qs (run_pos s)) (run_pos s) (run_store s)"
    and "kept \<le> length (cr_entries r)"
  shows "run_inv env qs (s\<lparr>run_pos := move_after kept r (run_pos s), run_delivered := run_delivered s @ kept_records kept r\<rparr>)"
proof -
  let ?st = "run_store s" and ?pos = "run_pos s" and ?K = "kept_records kept r"
  have inv: "log_inv ?st" and at: "cursor_at ?st ?pos" and ok: "pos_ok ?st ?pos"
    using assms(1) by (auto simp: run_inv_def cursor_at_def)
  note cf = cursor_filter_query [OF assms(2), of ?pos]
  have W: "wanted env (user_filter qs) ?st ?pos = run_due s \<inter> set (entries ?st) - set (run_delivered s)"
    using assms(1) by (simp add: run_inv_def)
  have K: "distinct ?K" "set ?K \<subseteq> wanted env (user_filter qs) ?st ?pos"
    using kept_records_wanted [OF inv ok cf, of kept env cnt] unfolding assms(3) wanted_query by blast+
  have W': "wanted env (user_filter qs) ?st (move_after kept r ?pos) = wanted env (user_filter qs) ?st ?pos - set ?K"
    using commit_exact [OF inv ok cf, of kept env cnt] assms(4) unfolding assms(3) wanted_query by blast
  have inj: "inj_on le_seq (set (entries ?st))"
    using log_invD(2) [OF inv] by (metis distinct_map sorted_less_distinct)
  have held: "set ?K \<subseteq> set (entries ?st)" using K(2) W by blast
  have "le_seq d \<noteq> le_seq k" if "d \<in> set (run_delivered s)" "k \<in> set ?K" for d k
  proof -
    have k: "k \<in> set (entries ?st)" "k \<notin> set (run_delivered s)" using that(2) K(2) W by blast+
    have "refuse_below ?st \<le> le_seq k" by (rule ring_okD(5) [OF log_invD(1) [OF inv] k(1)])
    moreover have "le_seq d < refuse_below ?st \<or> d \<in> set (entries ?st)" using assms(1) that(1) by (simp add: run_inv_def)
    ultimately show ?thesis using k inj that(1) by (metis inj_onD not_less)
  qed
  then have d: "distinct (map le_seq (run_delivered s @ ?K))"
    using assms(1) K(1) held inj by (auto simp: run_inv_def distinct_map intro: inj_on_subset)
  have "cursor_at ?st (move_after kept r ?pos)"
    unfolding assms(3) by (rule cursor_at_commit [OF inv at cf assms(4) [unfolded assms(3)]])
  then show ?thesis
    using assms(1) d W W' K(2) held by (auto simp: run_inv_def)
qed

lemma run_inv_step:
  assumes "cursor_step env qs s s'" and "run_inv env qs s" and "\<not> list_ex is_cursor_seq qs"
  shows "run_inv env qs s'"
  using assms(1)
proof cases
  case (write_step op st')
  show ?thesis unfolding write_step(1) by (rule run_inv_write [OF assms(2) write_step(2-4)])
next
  case (read_step r cnt kept)
  show ?thesis unfolding read_step(1) by (rule run_inv_read [OF assms(2,3) read_step(2,3)])
qed

lemma run_inv_steps:
  assumes "(cursor_step env qs)\<^sup>*\<^sup>* s s'" and "run_inv env qs s" and "\<not> list_ex is_cursor_seq qs"
  shows "run_inv env qs s'"
  using assms by (induction rule: rtranclp_induct) (auto intro: run_inv_step)

lemma run_inv_start:
  assumes "log_inv st" and "cursor_at st pos"
  shows "run_inv env qs (start_run env qs st pos)"
proof -
  have "wanted env (user_filter qs) st pos \<subseteq> set (entries st)" by (auto simp: wanted_def eligible_def)
  moreover have "cp_floor pos < le_seq e" if "e \<in> wanted env (user_filter qs) st pos" for e
    using that assms(2) by (auto simp: wanted_def eligible_def cursor_at_def pos_ok_def)
  moreover have "opt_matches_past env (user_filter qs) e" if "e \<in> wanted env (user_filter qs) st pos" for e
    using that by (simp add: wanted_def)
  ultimately show ?thesis using assms by (auto simp: run_inv_def start_run_def)
qed

text \<open>
  (C3) Exactly once over a whole run. Interleave, in any order, writes of any records (late ones, a
  trigger's pre-window merged below the cursor, clears and evictions included) with reads that
  keep any prefix and commit: no seq is ever delivered twice, only due records are delivered, and
  at every moment the cursor still wants exactly the due records that are held and undelivered.
\<close>

theorem cursor_run_exactly_once:
  assumes "log_inv st" and "cursor_at st pos" and "\<not> list_ex is_cursor_seq qs"
    and "(cursor_step env qs)\<^sup>*\<^sup>* (start_run env qs st pos) s"
  shows "distinct (map le_seq (run_delivered s)) \<and> set (run_delivered s) \<subseteq> run_due s
    \<and> wanted env (user_filter qs) (run_store s) (run_pos s)
        = run_due s \<inter> set (entries (run_store s)) - set (run_delivered s)"
  using run_inv_steps [OF assms(4) run_inv_start [OF assms(1,2)] assms(3)] by (simp add: run_inv_def)

definition origin_pos :: cursor_pos where
  "origin_pos = \<lparr>cp_seq = 0, cp_late_mark = 0, cp_floor = 0\<rparr>"

lemma origin_at_new_store: "cursor_at (new_store n) origin_pos" "pos_ok (new_store n) origin_pos"
  by (simp_all add: cursor_at_def pos_ok_def new_store_def origin_pos_def)

text \<open>A run of one write and one read that keeps what it took.\<close>

lemma demo_run:
  "\<exists>s. (cursor_step demo_env [])\<^sup>*\<^sup>* (start_run demo_env [] (new_store 2) origin_pos) s
     \<and> run_store s = append (demo_entry 5) (new_store 2)"
proof -
  let ?st = "append (demo_entry 5) (new_store 2)"
  let ?s0 = "start_run demo_env [] (new_store 2) origin_pos"
  have "late_counter ?st < u64_max"
    by (simp add: append_def new_store_def newest_seq_def last_opt_def refuse_below_def Let_def)
  then obtain s1 where s1: "cursor_step demo_env [] ?s0 s1" "run_store s1 = ?st"
    using write_step [of "OpAppend (demo_entry 5)" ?st ?s0 demo_env "[]"]
    by (fastforce simp: valid_op_def u64_max_def start_run_def)
  obtain s2 where s2: "cursor_step demo_env [] s1 s2" "run_store s2 = ?st"
    using read_step [of "cursor_read_log demo_env 3 (cursor_query [] (run_pos s1)) (run_pos s1) (run_store s1)" demo_env 3 "[]" s1,
        OF refl order_refl] s1(2) by fastforce
  show ?thesis using s1(1) s2 by (meson converse_rtranclp_into_rtranclp r_into_rtranclp)
qed

lemma cursor_run_exactly_once_witness:
  "\<exists>s :: cursor_run. run_store s = append (demo_entry 5) (new_store 2) \<and> distinct (map le_seq (run_delivered s))
     \<and> wanted demo_env (user_filter []) (run_store s) (run_pos s) = run_due s \<inter> set (entries (run_store s)) - set (run_delivered s)"
proof -
  obtain s where s: "(cursor_step demo_env [])\<^sup>*\<^sup>* (start_run demo_env [] (new_store 2) origin_pos) s"
    "run_store s = append (demo_entry 5) (new_store 2)" using demo_run by blast
  show ?thesis
    by (rule exI [of _ s])
       (use cursor_run_exactly_once [OF log_inv_new_store origin_at_new_store(1) _ s(1)] s(2) in simp)
qed

text \<open>
  (C8) A cursor catches up: a read asking for more records than are wanted, all of which the caller
  keeps, delivers everything wanted and leaves nothing wanted.
\<close>

theorem cursor_catches_up:
  assumes "log_inv st" and "pos_ok st pos" and "cursor_filter f pos"
    and "length (late_part env f pos st) + length (normal_part env f pos st) < cnt"
    and "r = cursor_read_log env cnt f pos st"
  shows "set (kept_records (length (cr_entries r)) r) = wanted env f st pos
    \<and> wanted env f st (move_after (length (cr_entries r)) r pos) = {}"
proof -
  have "map untag (cr_entries r) = tagged (late_part env f pos st) @ untagged (normal_part env f pos st)"
    using assms(4) unfolding assms(5) cursor_read_spec(2) [OF assms(1)] by simp
  then have "map fst (map untag (cr_entries r)) = map fst (late_part env f pos st) @ normal_part env f pos st"
    by (simp add: case_prod_unfold comp_def)
  then have all: "set (kept_records (length (cr_entries r)) r) = wanted env f st pos"
    unfolding kept_records_def wanted_parts [OF assms(1-3)] by (auto simp: comp_def simp flip: set_map)
  then show ?thesis
    using commit_exact [OF assms(1-3), of "length (cr_entries r)" env cnt] assms(5) by simp
qed

text \<open>
  A store that took record 5, then record 3 late, then record 7, and a cursor at 5 that has not seen
  the late one: it wants 3 and 7.
\<close>

definition late_store :: log_store where
  "late_store = append (demo_entry 7) (fst (insert_sorted [demo_entry 3] (append (demo_entry 5) (new_store 4))))"

definition past_five :: cursor_pos where
  "past_five = \<lparr>cp_seq = 5, cp_late_mark = 0, cp_floor = 0\<rparr>"

lemma late_store_inv: "log_inv late_store"
proof -
  have "log_inv (append (demo_entry 5) (new_store 4))"
    using log_inv_apply [OF log_inv_new_store, of "OpAppend (demo_entry 5)"] by (simp add: valid_op_def u64_max_def)
  then have "log_inv (fst (insert_sorted [demo_entry 3] (append (demo_entry 5) (new_store 4))))"
    using log_inv_apply [of _ "OpInsertSorted [demo_entry 3]"] by (simp add: valid_op_def u64_max_def)
  then show ?thesis
    using log_inv_apply [of _ "OpAppend (demo_entry 7)"] by (simp add: late_store_def valid_op_def u64_max_def)
qed

lemma late_store_eq:
  "entries late_store = [demo_entry 3, demo_entry 5, demo_entry 7]" "late late_store = [(1, 3)]" "late_counter late_store = 1"
  by (simp_all add: late_store_def append_def new_store_def newest_seq_def last_opt_def refuse_below_def Let_def
      insert_sorted_def merge_locked_def new_offers_def holds_def position_def binary_search_by_key_def bsearch.simps
      merge_batch_def late_seqs_of_def partition_point_def number_late_def wrap64_def)

lemma cursor_catches_up_witness:
  "set (kept_records (length (cr_entries (cursor_read_log demo_env 9 None past_five late_store)))
      (cursor_read_log demo_env 9 None past_five late_store)) = {demo_entry 3, demo_entry 7}
   \<and> wanted demo_env None late_store
       (move_after (length (cr_entries (cursor_read_log demo_env 9 None past_five late_store)))
         (cursor_read_log demo_env 9 None past_five late_store) past_five) = {}"
proof -
  have pos: "pos_ok late_store past_five" "cursor_filter None past_five"
    by (simp_all add: pos_ok_def past_five_def late_store_eq cursor_filter_def u64_max_def)
  have parts: "late_part demo_env None past_five late_store = [(demo_entry 3, 1)]"
    "normal_part demo_env None past_five late_store = [demo_entry 7]"
    by (simp_all add: late_part_def normal_part_def late_above_def late_candidate_def candidates_def List.map_filter_def
        opt_matches_def opt_matches_past_def lookup_seq_def late_store_eq past_five_def position_def binary_search_by_key_def bsearch.simps sat_add_def u64_max_def)
  then have "wanted demo_env None late_store past_five = {demo_entry 3, demo_entry 7}"
    using wanted_parts [OF late_store_inv pos, of demo_env] by auto
  then show ?thesis using cursor_catches_up [OF late_store_inv pos _ refl, of demo_env 9] parts by simp
qed

end
