(* ===== verification/Pre_Buffer.thy ===== *)
theory Pre_Buffer
  imports Seq_Ring Filter_Matcher
begin

text \<open>
  The pre-trigger buffer (\<open>engine/pre_buffer.rs\<close>): the last \<open>capacity\<close> arrivals less what a
  trigger has flushed, with an index of each trace's buffered arrivals. Every operation runs
  under the buffer's lock.
\<close>

record pre_buffer =
  pb_entries :: "(u64 \<times> log_entry) list"
  pb_arrivals :: u64
  pb_capacity :: nat
  pb_by_trace :: "u128 \<rightharpoonup> u64 list"

definition pb_new :: "nat \<Rightarrow> pre_buffer" where
  "pb_new capacity = \<lparr>pb_entries = [], pb_arrivals = 0, pb_capacity = capacity, pb_by_trace = Map.empty\<rparr>"

text \<open>The index forgets one entry of a trace, its oldest or its newest.\<close>

definition forget :: "u128 option \<Rightarrow> bool \<Rightarrow> (u128 \<rightharpoonup> u64 list) \<Rightarrow> (u128 \<rightharpoonup> u64 list)" where
  "forget tid front m =
     (case tid of None \<Rightarrow> m
      | Some t \<Rightarrow>
          (case m t of None \<Rightarrow> m
           | Some l \<Rightarrow> (let l' = (if front then tl l else butlast l)
                        in if l' = [] then m(t := None) else m(t \<mapsto> l'))))"

text \<open>The loop of \<open>expire\<close>: front entries below the oldest kept arrival leave.\<close>

fun expire_loop :: "u64 \<Rightarrow> (u64 \<times> log_entry) list \<Rightarrow> (u128 \<rightharpoonup> u64 list) \<Rightarrow> (u64 \<times> log_entry) list \<times> (u128 \<rightharpoonup> u64 list)" where
  "expire_loop oldest_kept [] m = ([], m)"
| "expire_loop oldest_kept ((a, e) # es) m =
     (if a < oldest_kept then expire_loop oldest_kept es (forget (le_trace_id e) True m) else ((a, e) # es, m))"

definition expire :: "nat \<Rightarrow> pre_buffer \<Rightarrow> pre_buffer" where
  "expire cap b =
     (let (es, m) = expire_loop (pb_arrivals b - cap) (pb_entries b) (pb_by_trace b)
      in b\<lparr>pb_entries := es, pb_by_trace := m\<rparr>)"

definition pb_append :: "log_entry \<Rightarrow> pre_buffer \<Rightarrow> pre_buffer" where
  "pb_append e b =
     (if pb_capacity b = 0 then b
      else let arrival = pb_arrivals b;
               by_trace = (case le_trace_id e of None \<Rightarrow> pb_by_trace b
                 | Some t \<Rightarrow> (pb_by_trace b)(t \<mapsto> (case pb_by_trace b t of None \<Rightarrow> [] | Some l \<Rightarrow> l) @ [arrival]))
           in expire (pb_capacity b)
                (b\<lparr>pb_arrivals := arrival + 1, pb_by_trace := by_trace, pb_entries := pb_entries b @ [(arrival, e)]\<rparr>))"

definition pb_flush :: "nat \<Rightarrow> pre_buffer \<Rightarrow> log_entry list \<times> pre_buffer" where
  "pb_flush pre_window b =
     (let len = length (pb_entries b)
      in if len = 0 \<or> pre_window = 0 then ([], b)
         else let n = min pre_window len; tail = drop (len - n) (pb_entries b)
              in (map snd tail,
                  b\<lparr>pb_entries := take (len - n) (pb_entries b),
                    pb_by_trace := fold (\<lambda>x. forget (le_trace_id (snd x)) False) tail (pb_by_trace b)\<rparr>))"

definition pb_resize :: "nat \<Rightarrow> pre_buffer \<Rightarrow> pre_buffer" where
  "pb_resize new_capacity b = expire new_capacity (b\<lparr>pb_capacity := new_capacity\<rparr>)"

definition entries_by_trace_id :: "u128 \<Rightarrow> pre_buffer \<Rightarrow> log_entry list" where
  "entries_by_trace_id tid b =
     (case pb_by_trace b tid of None \<Rightarrow> []
      | Some arrivals \<Rightarrow> map snd (ring_lookup fst (pb_entries b) arrivals))"

section \<open>The invariant\<close>

abbreviation pb_trace :: "u64 \<times> log_entry \<Rightarrow> u128 option" where
  "pb_trace x \<equiv> le_trace_id (snd x)"

definition pb_inv :: "pre_buffer \<Rightarrow> bool" where
  "pb_inv b \<longleftrightarrow>
     sorted_wrt (<) (map fst (pb_entries b)) \<and>
     (\<forall>x\<in>set (pb_entries b). fst x < pb_arrivals b \<and> pb_arrivals b - pb_capacity b \<le> fst x) \<and>
     pb_by_trace b = index_of fst pb_trace (pb_entries b)"

lemma forget_front:
  "forget (tr x) True (index_of key tr (x # xs)) = index_of key tr xs"
  by (cases "tr x") (auto simp: forget_def index_of_def Let_def fun_eq_iff)

lemma forget_back:
  "forget (tr x) False (index_of key tr (xs @ [x])) = index_of key tr xs"
  by (cases "tr x") (auto simp: forget_def index_of_def Let_def fun_eq_iff butlast_append)

lemma expire_loop_eq:
  "expire_loop k es (index_of fst pb_trace es) =
     (dropWhile (\<lambda>x. fst x < k) es, index_of fst pb_trace (dropWhile (\<lambda>x. fst x < k) es))"
proof (induction es)
  case (Cons x es)
  obtain a e where x: "x = (a, e)" by (cases x)
  then show ?case using Cons forget_front [of pb_trace x fst es] by simp
qed simp

lemma expire_eq:
  assumes "sorted_wrt (<) (map fst (pb_entries b))" and "pb_by_trace b = index_of fst pb_trace (pb_entries b)"
  shows "expire cap b =
    (let es = filter (\<lambda>x. pb_arrivals b - cap \<le> fst x) (pb_entries b)
     in b\<lparr>pb_entries := es, pb_by_trace := index_of fst pb_trace es\<rparr>)"
  using assms by (simp add: expire_def expire_loop_eq dropWhile_ascending Let_def)

text \<open>
  A flush pops the newest of each trace while it walks the flushed entries oldest first. The
  entries popped are not the entry at hand, but their number per trace is right, and all of
  them go.
\<close>

definition list_of :: "('k \<rightharpoonup> 'v list) \<Rightarrow> 'k \<Rightarrow> 'v list" where
  "list_of m k = (case m k of None \<Rightarrow> [] | Some l \<Rightarrow> l)"

definition no_empty :: "('k \<rightharpoonup> 'v list) \<Rightarrow> bool" where
  "no_empty m \<longleftrightarrow> (\<forall>k. m k \<noteq> Some [])"

lemma no_empty_ext:
  assumes "no_empty m" and "no_empty m'" and "\<And>k. list_of m k = list_of m' k"
  shows "m = m'"
proof
  fix k
  show "m k = m' k"
    using assms(3) [of k] assms(1,2) unfolding no_empty_def list_of_def
    by (cases "m k"; cases "m' k") auto
qed

lemma forget_back_list:
  assumes "no_empty m"
  shows "no_empty (forget t False m)"
    and "list_of (forget t False m) k = (if t = Some k then butlast (list_of m k) else list_of m k)"
  using assms by (auto simp: forget_def no_empty_def list_of_def Let_def split: option.splits)

lemma fold_forget_back:
  "no_empty m \<Longrightarrow>
   no_empty (fold (\<lambda>x. forget (tr x) False) xs m) \<and>
   list_of (fold (\<lambda>x. forget (tr x) False) xs m) k =
     take (length (list_of m k) - length (filter (\<lambda>x. tr x = Some k) xs)) (list_of m k)"
proof (induction xs arbitrary: m)
  case (Cons x xs)
  let ?m = "forget (tr x) False m"
  have ne: "no_empty ?m" by (rule forget_back_list(1) [OF Cons.prems])
  have "take (length (list_of ?m k) - c) (list_of ?m k) =
      take (length (list_of m k) - (if tr x = Some k then Suc c else c)) (list_of m k)" for c
    unfolding forget_back_list(2) [OF Cons.prems] by (simp add: butlast_conv_take min_absorb1)
  then show ?case using Cons.IH [OF ne] by simp
qed simp

lemma flush_index:
  "fold (\<lambda>x. forget (tr x) False) ys (index_of key tr (xs @ ys)) = index_of key tr xs"
proof (rule no_empty_ext)
  have ne: "no_empty (index_of key tr zs)" for zs by (simp add: no_empty_def index_of_def Let_def)
  show "no_empty (index_of key tr xs)" by (rule ne)
  show "no_empty (fold (\<lambda>x. forget (tr x) False) ys (index_of key tr (xs @ ys)))"
    using fold_forget_back [OF ne] by blast
  have "list_of (index_of key tr zs) k = map key (filter (\<lambda>e. tr e = Some k) zs)" for zs k
    by (auto simp: list_of_def index_of_def Let_def)
  then show "list_of (fold (\<lambda>x. forget (tr x) False) ys (index_of key tr (xs @ ys))) k = list_of (index_of key tr xs) k" for k
    using fold_forget_back [OF ne, of tr ys "xs @ ys" k] by simp
qed

section \<open>Every operation keeps it\<close>

lemma pb_inv_new: "pb_inv (pb_new c)"
  by (simp add: pb_inv_def pb_new_def)

lemma pb_append_eq:
  assumes "pb_inv b" and "pb_capacity b \<noteq> 0"
  shows "pb_append e b =
    (let es = filter (\<lambda>x. Suc (pb_arrivals b) - pb_capacity b \<le> fst x) (pb_entries b @ [(pb_arrivals b, e)])
     in b\<lparr>pb_arrivals := Suc (pb_arrivals b), pb_by_trace := index_of fst pb_trace es, pb_entries := es\<rparr>)"
proof -
  let ?es = "pb_entries b @ [(pb_arrivals b, e)]"
  have idx: "pb_by_trace b = index_of fst pb_trace (pb_entries b)" using assms(1) by (simp add: pb_inv_def)
  have "(case le_trace_id e of None \<Rightarrow> pb_by_trace b
      | Some t \<Rightarrow> (pb_by_trace b)(t \<mapsto> (case pb_by_trace b t of None \<Rightarrow> [] | Some l \<Rightarrow> l) @ [pb_arrivals b]))
      = index_of fst pb_trace ?es"
    unfolding idx index_of_snoc fst_conv snd_conv ..
  then have app: "pb_append e b = expire (pb_capacity b)
      (b\<lparr>pb_arrivals := pb_arrivals b + 1, pb_by_trace := index_of fst pb_trace ?es, pb_entries := ?es\<rparr>)"
    using assms(2) by (simp add: pb_append_def Let_def)
  have asc: "sorted_wrt (<) (map fst ?es)" using assms(1) by (auto simp: pb_inv_def sorted_wrt_append)
  show ?thesis unfolding app by (subst expire_eq) (use asc in \<open>simp_all add: Let_def\<close>)
qed

lemma pb_inv_append:
  assumes "pb_inv b"
  shows "pb_inv (pb_append e b)"
proof (cases "pb_capacity b = 0")
  case True
  then show ?thesis using assms by (simp add: pb_append_def)
next
  case False
  have asc: "sorted_wrt (<) (map fst (pb_entries b @ [(pb_arrivals b, e)]))"
    using assms by (auto simp: pb_inv_def sorted_wrt_append)
  define es where "es = filter (\<lambda>x. Suc (pb_arrivals b) - pb_capacity b \<le> fst x) (pb_entries b @ [(pb_arrivals b, e)])"
  have app: "pb_append e b = b\<lparr>pb_arrivals := Suc (pb_arrivals b), pb_by_trace := index_of fst pb_trace es, pb_entries := es\<rparr>"
    unfolding es_def by (rule pb_append_eq [OF assms False, unfolded Let_def])
  have "sorted_wrt (<) (map fst es)" unfolding es_def by (rule ascending_map_filter [OF asc])
  moreover have "\<forall>x\<in>set es. fst x < Suc (pb_arrivals b) \<and> Suc (pb_arrivals b) - pb_capacity b \<le> fst x"
    using assms by (auto simp: pb_inv_def es_def)
  ultimately show ?thesis unfolding app pb_inv_def by simp
qed

lemma pb_inv_flush:
  assumes "pb_inv b"
  shows "pb_inv (snd (pb_flush n b))"
proof -
  let ?k = "length (pb_entries b) - min n (length (pb_entries b))"
  have "fold (\<lambda>x. forget (pb_trace x) False) (drop ?k (pb_entries b)) (index_of fst pb_trace (pb_entries b))
      = index_of fst pb_trace (take ?k (pb_entries b))"
    using flush_index [of pb_trace "drop ?k (pb_entries b)" fst "take ?k (pb_entries b)"] by simp
  then show ?thesis
    using assms ascending_take [of fst "pb_entries b" ?k]
    by (auto simp: pb_flush_def pb_inv_def Let_def dest: in_set_takeD)
qed

lemma pb_inv_resize:
  assumes "pb_inv b"
  shows "pb_inv (pb_resize n b)"
proof -
  have asc: "sorted_wrt (<) (map fst (pb_entries (b\<lparr>pb_capacity := n\<rparr>)))"
    and idx: "pb_by_trace (b\<lparr>pb_capacity := n\<rparr>) = index_of fst pb_trace (pb_entries (b\<lparr>pb_capacity := n\<rparr>))"
    using assms by (simp_all add: pb_inv_def)
  show ?thesis
    unfolding pb_resize_def expire_eq [OF asc idx] using assms ascending_map_filter [OF asc]
    by (auto simp: pb_inv_def Let_def)
qed

interpretation pb: traced_store fst pb_entries "\<lambda>b. pb_arrivals b - pb_capacity b" pb_inv pb_trace pb_by_trace
  by unfold_locales (auto simp: pb_inv_def)

section \<open>Runs of the buffer\<close>

datatype pb_op = PbAppend log_entry | PbFlush nat | PbResize nat

fun pb_apply :: "pb_op \<Rightarrow> pre_buffer \<Rightarrow> pre_buffer" where
  "pb_apply (PbAppend e) b = pb_append e b"
| "pb_apply (PbFlush n) b = snd (pb_flush n b)"
| "pb_apply (PbResize n) b = pb_resize n b"

lemma pb_inv_run: "pb_inv b \<Longrightarrow> pb_inv (fold pb_apply ops b)"
proof (induction ops arbitrary: b)
  case (Cons op ops)
  then show ?case by (cases op) (simp_all add: pb_inv_append pb_inv_flush pb_inv_resize)
qed simp

lemma pb_trace_scan:
  assumes "pb_inv b"
  shows "entries_by_trace_id tid b = filter (\<lambda>e. le_trace_id e = Some tid) (map snd (pb_entries b))"
proof -
  have "entries_by_trace_id tid b = map snd (ring_lookup fst (pb_entries b) (case pb_by_trace b tid of None \<Rightarrow> [] | Some l \<Rightarrow> l))"
    by (simp add: entries_by_trace_id_def ring_lookup_def List.map_filter_def split: option.splits)
  then show ?thesis unfolding pb.by_trace_correct [OF assms] by (simp add: filter_map comp_def)
qed

text \<open>
  After any sequence of appends, flushes and resizes, the buffer reaches back at most its
  capacity in arrivals and never holds more entries than that, and a trace's lookup through the
  index returns exactly what a scan of the buffer would, in arrival order.
\<close>

theorem pre_buffer_bounded_and_indexed:
  assumes "b = fold pb_apply ops (pb_new capacity)"
  shows "length (pb_entries b) \<le> pb_capacity b
    \<and> list_all (\<lambda>x. pb_arrivals b \<le> fst x + pb_capacity b) (pb_entries b)
    \<and> entries_by_trace_id tid b = filter (\<lambda>e. le_trace_id e = Some tid) (map snd (pb_entries b))"
proof -
  have inv: "pb_inv b" unfolding assms by (rule pb_inv_run [OF pb_inv_new])
  have sub: "set (map fst (pb_entries b)) \<subseteq> {pb_arrivals b - pb_capacity b ..< pb_arrivals b}"
    using inv by (auto simp: pb_inv_def)
  have "distinct (map fst (pb_entries b))" using inv by (simp add: pb_inv_def sorted_less_distinct)
  then have "length (pb_entries b) = card (set (map fst (pb_entries b)))" by (metis distinct_card length_map)
  also have "\<dots> \<le> card {pb_arrivals b - pb_capacity b ..< pb_arrivals b}" by (rule card_mono [OF _ sub]) simp
  finally have "length (pb_entries b) \<le> pb_capacity b" by simp
  moreover have "list_all (\<lambda>x. pb_arrivals b \<le> fst x + pb_capacity b) (pb_entries b)"
    using inv by (auto simp: pb_inv_def list_all_iff)
  ultimately show ?thesis using pb_trace_scan [OF inv] by blast
qed

lemma pre_buffer_bounded_and_indexed_witness:
  "length (pb_entries (fold pb_apply [PbAppend (demo_entry 1), PbFlush 1, PbAppend (demo_entry 2)] (pb_new 1))) \<le> 1"
  using pre_buffer_bounded_and_indexed [OF refl, of "[PbAppend (demo_entry 1), PbFlush 1, PbAppend (demo_entry 2)]" 1]
  by (simp add: pb_append_def pb_flush_def expire_def pb_new_def Let_def demo_entry_def synthetic_def)

section \<open>The buffer as the last arrivals less the flushed\<close>

text \<open>
  The abstract buffer of a fixed capacity: every arrival so far with its index, and the indices
  that a flush has taken.
\<close>

record arrivals_spec =
  all_arrivals :: "log_entry list"
  taken :: "nat set"

definition spec_content :: "nat \<Rightarrow> arrivals_spec \<Rightarrow> (nat \<times> log_entry) list" where
  "spec_content cap s =
     filter (\<lambda>x. length (all_arrivals s) - cap \<le> fst x \<and> fst x \<notin> taken s)
       (zip [0..<length (all_arrivals s)] (all_arrivals s))"

fun spec_apply :: "nat \<Rightarrow> pb_op \<Rightarrow> arrivals_spec \<Rightarrow> arrivals_spec" where
  "spec_apply cap (PbAppend e) s = s\<lparr>all_arrivals := all_arrivals s @ [e]\<rparr>"
| "spec_apply cap (PbFlush n) s =
     (let c = spec_content cap s in s\<lparr>taken := taken s \<union> fst ` set (drop (length c - n) c)\<rparr>)"
| "spec_apply cap (PbResize n) s = s"

definition spec_flush :: "nat \<Rightarrow> nat \<Rightarrow> arrivals_spec \<Rightarrow> log_entry list" where
  "spec_flush cap n s = (let c = spec_content cap s in map snd (drop (length c - n) c))"

definition refines :: "nat \<Rightarrow> pre_buffer \<Rightarrow> arrivals_spec \<Rightarrow> bool" where
  "refines cap b s \<longleftrightarrow>
     pb_inv b \<and> pb_capacity b = cap \<and> 0 < cap \<and> pb_arrivals b = length (all_arrivals s) \<and>
     pb_entries b = spec_content cap s \<and> (\<forall>i\<in>taken s. i < length (all_arrivals s))"

lemma asc_spec_content: "sorted_wrt (<) (map fst (spec_content cap s))"
  unfolding spec_content_def by (rule ascending_map_filter) simp

lemma spec_content_taken:
  "spec_content cap (s\<lparr>taken := taken s \<union> X\<rparr>) = filter (\<lambda>x. fst x \<notin> X) (spec_content cap s)"
  by (auto simp: spec_content_def intro!: filter_cong)

lemma refines_append:
  assumes "refines cap b s"
  shows "refines cap (pb_append e b) (spec_apply cap (PbAppend e) s)"
proof -
  have inv: "pb_inv b" and cap: "pb_capacity b = cap" "0 < cap" and n: "pb_arrivals b = length (all_arrivals s)"
    and es: "pb_entries b = spec_content cap s" and tk: "\<forall>i\<in>taken s. i < length (all_arrivals s)"
    using assms by (auto simp: refines_def)
  have nz: "pb_capacity b \<noteq> 0" using cap by simp
  have "pb_entries (pb_append e b) = filter (\<lambda>x. Suc (pb_arrivals b) - cap \<le> fst x) (pb_entries b @ [(pb_arrivals b, e)])"
    unfolding pb_append_eq [OF inv nz] cap(1) by (simp add: Let_def)
  also have "\<dots> = spec_content cap (spec_apply cap (PbAppend e) s)"
    using cap(2) tk unfolding es n by (auto simp: spec_content_def intro!: filter_cong)
  finally have content: "pb_entries (pb_append e b) = spec_content cap (spec_apply cap (PbAppend e) s)" .
  have "pb_capacity (pb_append e b) = cap" "pb_arrivals (pb_append e b) = Suc (pb_arrivals b)"
    unfolding pb_append_eq [OF inv nz] using cap by (simp_all add: Let_def)
  then show ?thesis
    using content pb_inv_append [OF inv, of e] cap n tk by (auto simp: refines_def)
qed

lemma filter_not_drop: "distinct xs \<Longrightarrow> filter (\<lambda>x. x \<notin> set (drop k xs)) xs = take k xs"
proof -
  assume "distinct xs"
  then have d: "distinct (take k xs @ drop k xs)" by simp
  then have "filter (\<lambda>x. x \<notin> set (drop k xs)) (take k xs) = take k xs"
    by (intro filter_True) (auto simp del: append_take_drop_id)
  moreover have "filter (\<lambda>x. x \<notin> set (drop k xs)) (drop k xs) = []" by simp
  ultimately have "filter (\<lambda>x. x \<notin> set (drop k xs)) (take k xs @ drop k xs) = take k xs"
    unfolding filter_append by simp
  then show ?thesis by simp
qed

lemma refines_flush:
  assumes "refines cap b s"
  shows "refines cap (snd (pb_flush n b)) (spec_apply cap (PbFlush n) s)"
    and "fst (pb_flush n b) = spec_flush cap n s"
proof -
  let ?c = "spec_content cap s"
  let ?k = "length ?c - n"
  have inv: "pb_inv b" and es: "pb_entries b = ?c" using assms by (auto simp: refines_def)
  have k: "length ?c - min n (length ?c) = ?k" by simp
  show "fst (pb_flush n b) = spec_flush cap n s"
    using k by (auto simp: pb_flush_def spec_flush_def es Let_def)
  have d: "distinct ?c" using asc_spec_content by (metis distinct_map sorted_less_distinct)
  have inj: "inj_on fst (set ?c)" using asc_spec_content by (metis distinct_map sorted_less_distinct)
  have "spec_content cap (spec_apply cap (PbFlush n) s) = filter (\<lambda>x. fst x \<notin> fst ` set (drop ?k ?c)) ?c"
    by (simp add: Let_def spec_content_taken)
  also have "\<dots> = filter (\<lambda>x. x \<notin> set (drop ?k ?c)) ?c"
    using inj set_drop_subset [of ?k ?c] by (intro filter_cong) (auto dest: inj_onD)
  also have "\<dots> = take ?k ?c" by (rule filter_not_drop [OF d])
  finally have content: "spec_content cap (spec_apply cap (PbFlush n) s) = take ?k ?c" .
  have "\<forall>x\<in>set ?c. fst x < length (all_arrivals s)" by (auto simp: spec_content_def dest: set_zip_leftD)
  then have "\<forall>i\<in>taken (spec_apply cap (PbFlush n) s). i < length (all_arrivals s)"
    using assms by (auto simp: refines_def Let_def dest: in_set_dropD)
  then show "refines cap (snd (pb_flush n b)) (spec_apply cap (PbFlush n) s)"
    using content assms pb_inv_flush [OF inv, of n] k
    by (auto simp: refines_def pb_flush_def es Let_def)
qed

text \<open>Whatever the buffer is asked, each arrival is handed out once at most.\<close>

fun pb_outputs :: "pb_op list \<Rightarrow> pre_buffer \<Rightarrow> log_entry list list" where
  "pb_outputs [] b = []"
| "pb_outputs (PbFlush n # ops) b = fst (pb_flush n b) # pb_outputs ops (snd (pb_flush n b))"
| "pb_outputs (op # ops) b = pb_outputs ops (pb_apply op b)"

fun spec_outputs :: "nat \<Rightarrow> pb_op list \<Rightarrow> arrivals_spec \<Rightarrow> log_entry list list" where
  "spec_outputs cap [] s = []"
| "spec_outputs cap (PbFlush n # ops) s = spec_flush cap n s # spec_outputs cap ops (spec_apply cap (PbFlush n) s)"
| "spec_outputs cap (op # ops) s = spec_outputs cap ops (spec_apply cap op s)"

definition no_resize :: "pb_op list \<Rightarrow> bool" where
  "no_resize ops = list_all (\<lambda>op. case op of PbResize _ \<Rightarrow> False | _ \<Rightarrow> True) ops"

lemma refines_run:
  "refines cap b s \<Longrightarrow> no_resize ops \<Longrightarrow>
   refines cap (fold pb_apply ops b) (fold (spec_apply cap) ops s) \<and> pb_outputs ops b = spec_outputs cap ops s"
proof (induction ops arbitrary: b s)
  case (Cons op ops)
  then show ?case
    by (cases op) (auto simp: no_resize_def refines_append refines_flush simp del: spec_apply.simps)
qed simp

text \<open>
  (C21) The buffer refines its abstract specification: whatever sequence of appends and flushes a
  buffer of nonzero capacity serves, it holds exactly those of the last \<open>capacity\<close> arrivals that
  no flush has taken, and every flush returns the newest of them, oldest first.
\<close>

theorem pre_buffer_refines_last_arrivals:
  assumes "0 < capacity" and "no_resize ops"
  shows "pb_entries (fold pb_apply ops (pb_new capacity))
      = spec_content capacity (fold (spec_apply capacity) ops \<lparr>all_arrivals = [], taken = {}\<rparr>)
    \<and> pb_outputs ops (pb_new capacity) = spec_outputs capacity ops \<lparr>all_arrivals = [], taken = {}\<rparr>"
proof -
  have "refines capacity (pb_new capacity) \<lparr>all_arrivals = [], taken = {}\<rparr>"
    using assms(1) pb_inv_new [of capacity] by (simp add: refines_def pb_new_def spec_content_def)
  from refines_run [OF this assms(2)] show ?thesis by (simp add: refines_def)
qed

lemma pre_buffer_refines_last_arrivals_witness:
  "pb_outputs [PbAppend (demo_entry 1), PbAppend (demo_entry 2), PbFlush 1] (pb_new 2)
     = spec_outputs 2 [PbAppend (demo_entry 1), PbAppend (demo_entry 2), PbFlush 1] \<lparr>all_arrivals = [], taken = {}\<rparr>"
  using pre_buffer_refines_last_arrivals [of 2 "[PbAppend (demo_entry 1), PbAppend (demo_entry 2), PbFlush 1]"]
  by (simp add: no_resize_def)

end
