(* ===== verification/Trigger.thy ===== *)
theory Trigger
  imports Admission
begin

text \<open>
  Triggers (\<open>engine/trigger.rs\<close>): a session's conditions on records, each with its own debounce
  window. A trigger manager holds them in order; the atomics of a trigger are fields of its
  record, and one evaluation is one step over all triggers.
\<close>

record trigger =
  tr_id :: u32
  tr_condition :: parsed_filter
  tr_filter_string :: string
  tr_pre_window :: u32
  tr_post_window :: u32
  tr_notify_context :: u32
  tr_description :: "string option"
  tr_oneshot :: bool
  tr_match_count :: u64
  tr_post_remaining :: u32

record trigger_info =
  ti_id :: u32
  ti_filter_string :: string
  ti_pre_window :: u32
  ti_post_window :: u32
  ti_notify_context :: u32
  ti_description :: "string option"
  ti_match_count :: u64
  ti_oneshot :: bool
  ti_post_remaining :: u32

record trigger_match =
  tm_id :: u32
  tm_description :: "string option"
  tm_filter_string :: string
  tm_pre_window :: u32
  tm_post_window :: u32
  tm_notify_context :: u32
  tm_oneshot :: bool

record trigger_manager =
  triggers :: "trigger list"
  next_id :: u32

datatype trigger_error = TriggerNotFound u32 | InvalidFilter filter_parse_error

definition default_trigger_pre_window :: u32 where "default_trigger_pre_window = 500"
definition default_trigger_post_window :: u32 where "default_trigger_post_window = 200"
definition default_trigger_notify_context :: u32 where "default_trigger_notify_context = 5"

definition to_info :: "trigger \<Rightarrow> trigger_info" where
  "to_info t =
     \<lparr>ti_id = tr_id t, ti_filter_string = tr_filter_string t, ti_pre_window = tr_pre_window t,
      ti_post_window = tr_post_window t, ti_notify_context = tr_notify_context t,
      ti_description = tr_description t, ti_match_count = tr_match_count t, ti_oneshot = tr_oneshot t,
      ti_post_remaining = tr_post_remaining t\<rparr>"

definition to_match :: "trigger \<Rightarrow> trigger_match" where
  "to_match t =
     \<lparr>tm_id = tr_id t, tm_description = tr_description t, tm_filter_string = tr_filter_string t,
      tm_pre_window = tr_pre_window t, tm_post_window = tr_post_window t,
      tm_notify_context = tr_notify_context t, tm_oneshot = tr_oneshot t\<rparr>"

definition fresh_trigger ::
  "u32 \<Rightarrow> parsed_filter \<Rightarrow> string \<Rightarrow> u32 \<Rightarrow> u32 \<Rightarrow> u32 \<Rightarrow> string option \<Rightarrow> bool \<Rightarrow> trigger" where
  "fresh_trigger i c fs pre post ctx desc os =
     \<lparr>tr_id = i, tr_condition = c, tr_filter_string = fs, tr_pre_window = pre, tr_post_window = post,
      tr_notify_context = ctx, tr_description = desc, tr_oneshot = os, tr_match_count = 0,
      tr_post_remaining = 0\<rparr>"

text \<open>\<open>TriggerManager::new\<close>: the two seeded triggers; \<open>None\<close> is the panic of \<open>expect\<close>.\<close>

definition manager_new :: "(string \<Rightarrow> bool) \<Rightarrow> trigger_manager option" where
  "manager_new rx =
     (case (parse_filter rx ''l>=ERROR'', parse_filter rx ''/panic|unwrap failed|stack backtrace/'') of
        (Inr c1, Inr c2) \<Rightarrow>
          Some \<lparr>triggers =
            [fresh_trigger 1 c1 ''l>=ERROR'' default_trigger_pre_window default_trigger_post_window
               default_trigger_notify_context (Some ''Error-level log detected'') False,
             fresh_trigger 2 c2 ''/panic|unwrap failed|stack backtrace/'' default_trigger_pre_window
               default_trigger_post_window default_trigger_notify_context
               (Some ''Panic or unwrap failure detected'') False],
            next_id = 3\<rparr>
      | _ \<Rightarrow> None)"

definition manager_list :: "trigger_manager \<Rightarrow> trigger_info list" where
  "manager_list tm = map to_info (triggers tm)"

definition manager_get :: "u32 \<Rightarrow> trigger_manager \<Rightarrow> trigger_info option" where
  "manager_get i tm = map_option to_info (find (\<lambda>t. tr_id t = i) (triggers tm))"

definition manager_add ::
  "(string \<Rightarrow> bool) \<Rightarrow> string \<Rightarrow> u32 \<Rightarrow> u32 \<Rightarrow> u32 \<Rightarrow> string option \<Rightarrow> bool \<Rightarrow> trigger_manager
     \<Rightarrow> trigger_error + (u32 \<times> trigger_manager)" where
  "manager_add rx fs pre post ctx desc os tm =
     (case parse_filter rx fs of
        Inl e \<Rightarrow> Inl (InvalidFilter e)
      | Inr c \<Rightarrow>
          Inr (next_id tm,
               tm\<lparr>triggers := triggers tm @ [fresh_trigger (next_id tm) c fs pre post ctx desc os],
                  next_id := wrap32 (next_id tm + 1)\<rparr>))"

text \<open>The fields of an edit, each applied when given.\<close>

record trigger_edit =
  ed_filter :: "string option"
  ed_pre_window :: "u32 option"
  ed_post_window :: "u32 option"
  ed_notify_context :: "u32 option"
  ed_description :: "string option"
  ed_oneshot :: "bool option"

definition apply_edit :: "(string \<times> parsed_filter) option \<Rightarrow> trigger_edit \<Rightarrow> trigger \<Rightarrow> trigger" where
  "apply_edit nc ed t0 =
     (let t1 = (case nc of None \<Rightarrow> t0
                | Some (fs, c) \<Rightarrow> t0\<lparr>tr_filter_string := fs, tr_condition := c, tr_post_remaining := 0\<rparr>);
          t2 = (case ed_pre_window ed of None \<Rightarrow> t1 | Some pw \<Rightarrow> t1\<lparr>tr_pre_window := pw\<rparr>);
          t3 = (case ed_post_window ed of None \<Rightarrow> t2
                | Some pw \<Rightarrow> (let t = t2\<lparr>tr_post_window := pw\<rparr>
                              in if pw < tr_post_remaining t then t\<lparr>tr_post_remaining := pw\<rparr> else t));
          t4 = (case ed_notify_context ed of None \<Rightarrow> t3 | Some c \<Rightarrow> t3\<lparr>tr_notify_context := c\<rparr>);
          t5 = (case ed_description ed of None \<Rightarrow> t4 | Some d \<Rightarrow> t4\<lparr>tr_description := Some d\<rparr>)
      in (case ed_oneshot ed of None \<Rightarrow> t5 | Some os \<Rightarrow> t5\<lparr>tr_oneshot := os\<rparr>))"

text \<open>Updating the first trigger with an id.\<close>

fun update_first :: "u32 \<Rightarrow> (trigger \<Rightarrow> trigger) \<Rightarrow> trigger list \<Rightarrow> (trigger \<times> trigger list) option" where
  "update_first i g [] = None"
| "update_first i g (t # ts) =
     (if tr_id t = i then Some (g t, g t # ts)
      else map_option (\<lambda>(t', ts'). (t', t # ts')) (update_first i g ts))"

definition manager_edit ::
  "(string \<Rightarrow> bool) \<Rightarrow> u32 \<Rightarrow> trigger_edit \<Rightarrow> trigger_manager \<Rightarrow> trigger_error + (trigger_info \<times> trigger_manager)" where
  "manager_edit rx i ed tm =
     bind_res
       (case ed_filter ed of None \<Rightarrow> Inr None
        | Some fs \<Rightarrow> (case parse_filter rx fs of Inl e \<Rightarrow> Inl (InvalidFilter e) | Inr c \<Rightarrow> Inr (Some (fs, c))))
       (\<lambda>nc. case update_first i (apply_edit nc ed) (triggers tm) of
               None \<Rightarrow> Inl (TriggerNotFound i)
             | Some (t, ts) \<Rightarrow> Inr (to_info t, tm\<lparr>triggers := ts\<rparr>))"

definition manager_remove :: "u32 \<Rightarrow> trigger_manager \<Rightarrow> trigger_error + trigger_manager" where
  "manager_remove i tm =
     (if list_ex (\<lambda>t. tr_id t = i) (triggers tm)
      then (let pos = length (takeWhile (\<lambda>t. tr_id t \<noteq> i) (triggers tm))
            in Inr (tm\<lparr>triggers := take pos (triggers tm) @ drop (Suc pos) (triggers tm)\<rparr>))
      else Inl (TriggerNotFound i))"

section \<open>Evaluation\<close>

definition eval_span_trigger :: "match_env \<Rightarrow> span_entry \<Rightarrow> trigger \<Rightarrow> trigger \<times> trigger_match option" where
  "eval_span_trigger env sp t =
     (if is_span_filter (tr_condition t) \<and> matches_span env (tr_condition t) sp
      then (t\<lparr>tr_match_count := wrap64 (tr_match_count t + 1)\<rparr>, Some (to_match t))
      else (t, None))"

definition evaluate_span :: "match_env \<Rightarrow> span_entry \<Rightarrow> trigger_manager \<Rightarrow> trigger_manager \<times> trigger_match list" where
  "evaluate_span env sp tm =
     (tm\<lparr>triggers := map (fst \<circ> eval_span_trigger env sp) (triggers tm)\<rparr>,
      List.map_filter (snd \<circ> eval_span_trigger env sp) (triggers tm))"

definition reset_post_windows :: "trigger_manager \<Rightarrow> trigger_manager" where
  "reset_post_windows tm = tm\<lparr>triggers := map (\<lambda>t. t\<lparr>tr_post_remaining := 0\<rparr>) (triggers tm)\<rparr>"

definition max_pre_window :: "trigger_manager \<Rightarrow> u32" where
  "max_pre_window tm = fold max (map tr_pre_window (triggers tm)) 0"

text \<open>\<open>decrement_if_active\<close>: the new counter, and whether a window was active.\<close>

definition decrement_if_active :: "u32 \<Rightarrow> u32 \<times> bool" where
  "decrement_if_active n = (if n = 0 then (0, False) else (n - 1, True))"

definition eval_trigger :: "match_env \<Rightarrow> log_entry \<Rightarrow> trigger \<Rightarrow> trigger \<times> trigger_match option" where
  "eval_trigger env e t =
     (let (rem, active) = decrement_if_active (tr_post_remaining t); t1 = t\<lparr>tr_post_remaining := rem\<rparr>
      in if active then (t1, None)
         else if matches_entry env (tr_condition t) e
         then (t1\<lparr>tr_match_count := wrap64 (tr_match_count t + 1), tr_post_remaining := tr_post_window t\<rparr>, Some (to_match t))
         else (t1, None))"

definition evaluate :: "match_env \<Rightarrow> log_entry \<Rightarrow> trigger_manager \<Rightarrow> trigger_manager \<times> trigger_match list" where
  "evaluate env e tm =
     (tm\<lparr>triggers := map (fst \<circ> eval_trigger env e) (triggers tm)\<rparr>,
      List.map_filter (snd \<circ> eval_trigger env e) (triggers tm))"

section \<open>The invariant of a manager\<close>

definition trigger_ok :: "(string \<Rightarrow> bool) \<Rightarrow> trigger \<Rightarrow> bool" where
  "trigger_ok rx t \<longleftrightarrow>
     parse_filter rx (tr_filter_string t) = Inr (tr_condition t) \<and> tr_post_remaining t \<le> tr_post_window t"

definition manager_ok :: "(string \<Rightarrow> bool) \<Rightarrow> trigger_manager \<Rightarrow> bool" where
  "manager_ok rx tm \<longleftrightarrow>
     distinct (map tr_id (triggers tm)) \<and> list_all (trigger_ok rx) (triggers tm) \<and>
     list_all (\<lambda>t. tr_id t < next_id tm) (triggers tm) \<and> next_id tm \<le> u32_max"

datatype manager_op =
    MAdd string u32 u32 u32 "string option" bool
  | MEdit u32 trigger_edit
  | MRemove u32
  | MEvaluate log_entry
  | MEvaluateSpan span_entry
  | MReset

text \<open>An operation on the manager; a failed one leaves it as it was.\<close>

fun manager_apply :: "(string \<Rightarrow> bool) \<Rightarrow> match_env \<Rightarrow> manager_op \<Rightarrow> trigger_manager \<Rightarrow> trigger_manager" where
  "manager_apply rx env (MAdd fs pre post ctx desc os) tm =
     (case manager_add rx fs pre post ctx desc os tm of Inl _ \<Rightarrow> tm | Inr (_, tm') \<Rightarrow> tm')"
| "manager_apply rx env (MEdit i ed) tm = (case manager_edit rx i ed tm of Inl _ \<Rightarrow> tm | Inr (_, tm') \<Rightarrow> tm')"
| "manager_apply rx env (MRemove i) tm = (case manager_remove i tm of Inl _ \<Rightarrow> tm | Inr tm' \<Rightarrow> tm')"
| "manager_apply rx env (MEvaluate e) tm = fst (evaluate env e tm)"
| "manager_apply rx env (MEvaluateSpan sp) tm = fst (evaluate_span env sp tm)"
| "manager_apply rx env MReset tm = reset_post_windows tm"

definition manager_run :: "(string \<Rightarrow> bool) \<Rightarrow> match_env \<Rightarrow> manager_op list \<Rightarrow> trigger_manager \<Rightarrow> trigger_manager" where
  "manager_run rx env ops tm = fold (manager_apply rx env) ops tm"

lemma trigger_ok_fresh: "parse_filter rx fs = Inr c \<Longrightarrow> trigger_ok rx (fresh_trigger i c fs pre post ctx desc os)"
  by (simp add: trigger_ok_def fresh_trigger_def)

lemma fresh_trigger_id [simp]: "tr_id (fresh_trigger i c fs pre post ctx desc os) = i"
  by (simp add: fresh_trigger_def)

lemma apply_edit_id [simp]: "tr_id (apply_edit nc ed t) = tr_id t"
  by (simp add: apply_edit_def Let_def split: option.split prod.split)

lemma trigger_ok_apply_edit:
  assumes "trigger_ok rx t" and "\<And>fs c. nc = Some (fs, c) \<Longrightarrow> parse_filter rx fs = Inr c"
  shows "trigger_ok rx (apply_edit nc ed t)"
  using assms by (auto simp: trigger_ok_def apply_edit_def Let_def split: option.split prod.split)

lemma eval_trigger_fields [simp]:
  "tr_id (fst (eval_trigger env e t)) = tr_id t"
  "tr_condition (fst (eval_trigger env e t)) = tr_condition t"
  "tr_filter_string (fst (eval_trigger env e t)) = tr_filter_string t"
  "tr_post_window (fst (eval_trigger env e t)) = tr_post_window t"
  by (simp_all add: eval_trigger_def decrement_if_active_def Let_def)

lemma trigger_ok_eval: "trigger_ok rx t \<Longrightarrow> trigger_ok rx (fst (eval_trigger env e t))"
  by (auto simp: trigger_ok_def eval_trigger_def decrement_if_active_def Let_def)

lemma trigger_ok_eval_span: "trigger_ok rx t \<Longrightarrow> trigger_ok rx (fst (eval_span_trigger env sp t))"
  by (simp add: trigger_ok_def eval_span_trigger_def)

lemma eval_span_trigger_id [simp]: "tr_id (fst (eval_span_trigger env sp t)) = tr_id t"
  by (simp add: eval_span_trigger_def)

lemma manager_ok_map:
  assumes "manager_ok rx tm" and "\<And>t. tr_id (g t) = tr_id t"
    and "\<And>t. trigger_ok rx t \<Longrightarrow> trigger_ok rx (g t)"
  shows "manager_ok rx (tm\<lparr>triggers := map g (triggers tm)\<rparr>)"
  using assms by (auto simp: manager_ok_def list_all_iff comp_def)

text \<open>With distinct ids, the first trigger with an id is the only one.\<close>

lemma update_first_eq:
  "distinct (map tr_id ts) \<Longrightarrow>
   update_first i g ts =
     (case find (\<lambda>t. tr_id t = i) ts of None \<Rightarrow> None
      | Some t \<Rightarrow> Some (g t, map (\<lambda>t. if tr_id t = i then g t else t) ts))"
proof (induction ts)
  case (Cons t ts)
  show ?case
  proof (cases "tr_id t = i")
    case True
    then have "map (\<lambda>t. if tr_id t = i then g t else t) ts = ts"
      using Cons.prems by (intro map_idI) (auto simp: image_iff)
    with True show ?thesis by simp
  next
    case False
    with Cons show ?thesis by (simp split: option.split)
  qed
qed simp

lemma drop_first_eq_filter:
  "distinct (map tr_id ts) \<Longrightarrow> list_ex (\<lambda>t. tr_id t = i) ts \<Longrightarrow>
   take (length (takeWhile (\<lambda>t. tr_id t \<noteq> i) ts)) ts @ drop (Suc (length (takeWhile (\<lambda>t. tr_id t \<noteq> i) ts))) ts
     = filter (\<lambda>t. tr_id t \<noteq> i) ts"
proof (induction ts)
  case (Cons t ts)
  then show ?case by (auto simp: image_iff list_ex_iff intro!: filter_True [symmetric])
qed simp

lemma manager_remove_eq:
  "manager_ok rx tm \<Longrightarrow>
   manager_remove i tm =
     (if i \<in> tr_id ` set (triggers tm) then Inr (tm\<lparr>triggers := filter (\<lambda>t. tr_id t \<noteq> i) (triggers tm)\<rparr>)
      else Inl (TriggerNotFound i))"
  by (auto simp: manager_remove_def Let_def drop_first_eq_filter manager_ok_def list_ex_iff)

lemma manager_ok_add:
  "manager_ok rx tm \<Longrightarrow> next_id tm < u32_max \<Longrightarrow> manager_add rx fs pre post ctx desc os tm = Inr (i, tm')
     \<Longrightarrow> manager_ok rx tm'"
  by (force simp: manager_add_def manager_ok_def list_all_iff trigger_ok_fresh wrap32_def u32_max_def
      split: sum.splits)

lemma manager_ok_edit:
  assumes ok: "manager_ok rx tm" and ed: "manager_edit rx i ed tm = Inr (info, tm')"
  shows "manager_ok rx tm'"
proof -
  obtain nc where nc: "\<And>fs c. nc = Some (fs, c) \<Longrightarrow> parse_filter rx fs = Inr c"
    and up: "(case update_first i (apply_edit nc ed) (triggers tm) of None \<Rightarrow> Inl (TriggerNotFound i)
             | Some (t, ts) \<Rightarrow> Inr (to_info t, tm\<lparr>triggers := ts\<rparr>)) = Inr (info, tm')"
    using ed unfolding manager_edit_def bind_res_Inr by (fastforce split: option.splits sum.splits)
  have "tm' = tm\<lparr>triggers := map (\<lambda>t. if tr_id t = i then apply_edit nc ed t else t) (triggers tm)\<rparr>"
    using up ok by (auto simp: update_first_eq manager_ok_def split: option.splits)
  then show ?thesis using ok nc by (auto intro!: manager_ok_map trigger_ok_apply_edit)
qed

lemma manager_ok_apply [inv_intros]:
  assumes "manager_ok rx tm" and "next_id tm < u32_max"
  shows "manager_ok rx (manager_apply rx env oper tm)"
proof (cases oper)
  case (MAdd fs pre post ctx desc os)
  then show ?thesis using assms by (auto split: sum.splits intro: manager_ok_add)
next
  case (MEdit i ed)
  then show ?thesis using assms by (auto split: sum.splits intro: manager_ok_edit)
next
  case (MRemove i)
  show ?thesis using assms
    unfolding MRemove manager_apply.simps manager_remove_eq [OF assms(1)]
    by (auto simp: manager_ok_def list_all_iff distinct_map_filter)
next
  case (MEvaluate e)
  then show ?thesis using assms by (simp add: evaluate_def manager_ok_map trigger_ok_eval)
next
  case (MEvaluateSpan sp)
  then show ?thesis using assms by (simp add: evaluate_span_def manager_ok_map trigger_ok_eval_span)
next
  case MReset
  then show ?thesis using assms
    by (auto simp: reset_post_windows_def trigger_ok_def intro!: manager_ok_map)
qed

lemma next_id_apply:
  "next_id tm < u32_max \<Longrightarrow> next_id (manager_apply rx env oper tm) \<in> {next_id tm, Suc (next_id tm)}"
  by (cases oper)
     (auto simp: manager_add_def manager_edit_def bind_res_def manager_remove_def Let_def evaluate_def
        evaluate_span_def reset_post_windows_def wrap32_def u32_max_def split: sum.split option.split)

lemma manager_ok_run:
  "manager_ok rx tm \<Longrightarrow> next_id tm + length ops \<le> u32_max \<Longrightarrow>
   manager_ok rx (manager_run rx env ops tm) \<and> next_id tm \<le> next_id (manager_run rx env ops tm)"
proof (induction ops arbitrary: tm)
  case Nil
  then show ?case by (simp add: manager_run_def)
next
  case (Cons oper ops)
  have lt: "next_id tm < u32_max" using Cons.prems by simp
  let ?tm = "manager_apply rx env oper tm"
  have step: "next_id tm \<le> next_id ?tm" "next_id ?tm \<le> Suc (next_id tm)"
    using next_id_apply [OF lt, of rx env oper] by auto
  then have "next_id ?tm + length ops \<le> u32_max" using Cons.prems(2) by simp
  from Cons.IH [OF manager_ok_apply [OF Cons.prems(1) lt] this] step(1)
  show ?case by (auto simp: manager_run_def)
qed

lemma manager_ok_new: "manager_new rx = Some tm \<Longrightarrow> manager_ok rx tm \<and> next_id tm = 3"
  by (auto simp: manager_new_def manager_ok_def trigger_ok_fresh u32_max_def split: sum.splits)

section \<open>The debounce window\<close>

text \<open>Whether a trigger fires on each of a sequence of records.\<close>

fun trigger_fires :: "match_env \<Rightarrow> log_entry list \<Rightarrow> trigger \<Rightarrow> bool list" where
  "trigger_fires env [] t = []"
| "trigger_fires env (e # es) t =
     (snd (eval_trigger env e t) \<noteq> None) # trigger_fires env es (fst (eval_trigger env e t))"

fun evaluations :: "match_env \<Rightarrow> log_entry list \<Rightarrow> trigger_manager \<Rightarrow> trigger_match list list" where
  "evaluations env [] tm = []"
| "evaluations env (e # es) tm = snd (evaluate env e tm) # evaluations env es (fst (evaluate env e tm))"

lemma eval_trigger_active:
  "0 < tr_post_remaining t \<Longrightarrow>
   eval_trigger env e t = (t\<lparr>tr_post_remaining := tr_post_remaining t - 1\<rparr>, None)"
  by (simp add: eval_trigger_def decrement_if_active_def Let_def)

lemma eval_trigger_armed:
  "tr_post_remaining t = 0 \<Longrightarrow>
   snd (eval_trigger env e t) = (if matches_entry env (tr_condition t) e then Some (to_match t) else None) \<and>
   tr_post_remaining (fst (eval_trigger env e t))
     = (if matches_entry env (tr_condition t) e then tr_post_window t else 0)"
  by (simp add: eval_trigger_def decrement_if_active_def Let_def)

lemma all_less_Suc_shift: "(\<forall>i<Suc k. P i) \<longleftrightarrow> P 0 \<and> (\<forall>i<k. P (Suc i))"
  by (auto simp: less_Suc_eq_0_disj)

lemma trigger_fires_iff:
  "j < length es \<Longrightarrow>
   trigger_fires env es t ! j \<longleftrightarrow>
     matches_entry env (tr_condition t) (es ! j) \<and> tr_post_remaining t \<le> j \<and>
     (\<forall>i<j. trigger_fires env es t ! i \<longrightarrow> tr_post_window t < j - i)"
proof (induction es arbitrary: t j)
  case (Cons e es)
  let ?t = "fst (eval_trigger env e t)"
  have shift: "(\<forall>i<Suc k. trigger_fires env (e # es) t ! i \<longrightarrow> tr_post_window t < Suc k - i) \<longleftrightarrow>
      (snd (eval_trigger env e t) \<noteq> None \<longrightarrow> tr_post_window t < Suc k) \<and>
      (\<forall>i<k. trigger_fires env es ?t ! i \<longrightarrow> tr_post_window t < k - i)" for k
    by (subst all_less_Suc_shift) simp
  show ?case
  proof (cases j)
    case 0
    then show ?thesis
      using eval_trigger_active [of t env e] eval_trigger_armed [of t env e]
      by (cases "tr_post_remaining t = 0") auto
  next
    case (Suc k)
    then have k: "k < length es" using Cons.prems by simp
    show ?thesis
      unfolding Suc shift using Cons.IH [OF k, of ?t] eval_trigger_active [of t env e]
        eval_trigger_armed [of t env e]
      by (cases "tr_post_remaining t = 0") (auto simp: less_Suc_eq_le)
  qed
qed simp

lemma tm_id_to_match [simp]: "tm_id (to_match t) = tr_id t"
  by (simp add: to_match_def)

lemma eval_trigger_match: "snd (eval_trigger env e t) = Some m \<Longrightarrow> tm_id m = tr_id t"
  by (auto simp: eval_trigger_def decrement_if_active_def Let_def split: if_splits)

lemma evaluate_ids:
  "distinct (map tr_id (triggers tm)) \<Longrightarrow> t \<in> set (triggers tm) \<Longrightarrow>
   tr_id t \<in> tm_id ` set (snd (evaluate env e tm)) \<longleftrightarrow> snd (eval_trigger env e t) \<noteq> None"
proof -
  assume d: "distinct (map tr_id (triggers tm))" and t: "t \<in> set (triggers tm)"
  have "t' = t" if "t' \<in> set (triggers tm)" "tr_id t' = tr_id t" for t'
    using d t that by (meson distinct_map inj_onD)
  then show ?thesis
    using t eval_trigger_match [of env e] unfolding evaluate_def
    by (force simp: List.map_filter_def image_iff)
qed

lemma evaluations_fire:
  "distinct (map tr_id (triggers tm)) \<Longrightarrow> t \<in> set (triggers tm) \<Longrightarrow> j < length es \<Longrightarrow>
   tr_id t \<in> tm_id ` set (evaluations env es tm ! j) \<longleftrightarrow> trigger_fires env es t ! j"
proof (induction es arbitrary: tm t j)
  case (Cons e es)
  let ?tm = "fst (evaluate env e tm)" and ?t = "fst (eval_trigger env e t)"
  have "distinct (map tr_id (triggers ?tm))" using Cons.prems(1) by (simp add: evaluate_def comp_def)
  moreover have "?t \<in> set (triggers ?tm)" using Cons.prems(2) by (simp add: evaluate_def)
  ultimately have IH: "k < length es \<Longrightarrow>
      tr_id t \<in> tm_id ` set (evaluations env es ?tm ! k) \<longleftrightarrow> trigger_fires env es ?t ! k" for k
    using Cons.IH [of ?tm ?t k] by simp
  show ?case
    using IH Cons.prems evaluate_ids [OF Cons.prems(1,2), of env e] by (cases j) auto
qed simp

lemma find_append_fresh:
  "\<forall>t\<in>set ts. tr_id t < i \<Longrightarrow> tr_id n = i \<Longrightarrow>
   find (\<lambda>t. tr_id t = j) (ts @ [n]) = (if j = i then Some n else find (\<lambda>t. tr_id t = j) ts)"
  by (induction ts) auto

lemma find_map_upd:
  "(\<And>t. tr_id (g t) = tr_id t) \<Longrightarrow>
   find (\<lambda>t. tr_id t = j) (map (\<lambda>t. if tr_id t = i then g t else t) ts)
     = (if j = i then map_option g (find (\<lambda>t. tr_id t = i) ts) else find (\<lambda>t. tr_id t = j) ts)"
  by (induction ts) auto

lemma find_filter_neq:
  "find (\<lambda>t. tr_id t = j) (filter (\<lambda>t. tr_id t \<noteq> i) ts) = (if j = i then None else find (\<lambda>t. tr_id t = j) ts)"
  by (induction ts) auto

lemma get_after_add:
  assumes "manager_ok rx tm" and "manager_add rx fs pre post ctx desc os tm = Inr (i, tm')"
  shows "\<exists>c. parse_filter rx fs = Inr c \<and>
    manager_get j tm' = (if j = i then Some (to_info (fresh_trigger i c fs pre post ctx desc os)) else manager_get j tm)"
proof -
  obtain c where c: "parse_filter rx fs = Inr c" "i = next_id tm"
    "tm' = tm\<lparr>triggers := triggers tm @ [fresh_trigger i c fs pre post ctx desc os], next_id := wrap32 (i + 1)\<rparr>"
    using assms(2) by (auto simp: manager_add_def split: sum.splits)
  have "\<forall>t\<in>set (triggers tm). tr_id t < i" using assms(1) c(2) by (simp add: manager_ok_def list_all_iff)
  then show ?thesis using c by (simp add: manager_get_def find_append_fresh)
qed

lemma get_after_edit:
  assumes "manager_ok rx tm" and "manager_edit rx i ed tm = Inr (info, tm')"
  shows "manager_get j tm' = (if j = i then Some info else manager_get j tm) \<and> manager_get i tm \<noteq> None"
proof -
  obtain nc where "(case update_first i (apply_edit nc ed) (triggers tm) of None \<Rightarrow> Inl (TriggerNotFound i)
             | Some (t, ts) \<Rightarrow> Inr (to_info t, tm\<lparr>triggers := ts\<rparr>)) = Inr (info, tm')"
    using assms(2) unfolding manager_edit_def bind_res_Inr by blast
  then show ?thesis using assms(1)
    by (auto simp: update_first_eq manager_ok_def manager_get_def find_map_upd split: option.splits)
qed

lemma get_None: "manager_get i tm = None \<longleftrightarrow> i \<notin> tr_id ` set (triggers tm)"
  by (auto simp: manager_get_def find_None_iff)

lemma get_after_remove:
  assumes "manager_ok rx tm" and "manager_remove i tm = Inr tm'"
  shows "manager_get j tm' = (if j = i then None else manager_get j tm) \<and> manager_get i tm \<noteq> None"
  using assms unfolding manager_remove_eq [OF assms(1)] get_None
  by (auto simp: manager_get_def find_filter_neq split: if_splits)

lemma manager_edit_refusals:
  assumes ok: "manager_ok rx tm"
  shows "manager_edit rx i ed tm = Inl x \<longleftrightarrow>
    (\<exists>fs e. ed_filter ed = Some fs \<and> parse_filter rx fs = Inl e \<and> x = InvalidFilter e) \<or>
    ((\<forall>fs. ed_filter ed = Some fs \<longrightarrow> is_ok (parse_filter rx fs)) \<and> manager_get i tm = None \<and> x = TriggerNotFound i)"
  using ok
  by (auto simp: manager_edit_def bind_res_def update_first_eq manager_ok_def manager_get_def is_ok_def
      split: option.splits sum.splits)

section \<open>Properties\<close>

text \<open>
  The trigger table stays well-formed. From the two seeded triggers of \<open>TriggerManager::new\<close>,
  after any sequence of additions, edits, removals, evaluations of records and spans and window
  resets (fewer operations than there are 32-bit ids), the ids of the held triggers are distinct and
  below the next id to be given out, every trigger's condition is the parse of the filter string
  it shows, and no trigger has more of its debounce window left than its post-window is long.
\<close>

theorem trigger_manager_invariant:
  assumes "manager_new rx = Some tm" and "3 + length ops \<le> u32_max"
  shows "manager_ok rx (manager_run rx env ops tm)"
  using manager_ok_run [of rx tm ops env] manager_ok_new [OF assms(1)] assms(2) by simp

theorem trigger_manager_invariant_witness:
  "\<exists>tm. manager_new (\<lambda>_. True) = Some tm \<and>
     manager_ok (\<lambda>_. True) (manager_run (\<lambda>_. True) demo_env
       [MRemove 1, MAdd ''fn=x'' 1 2 3 None True, MEvaluate (demo_entry 3)] tm)"
proof -
  have "manager_new (\<lambda>_. True) \<noteq> None" by code_simp
  then obtain tm where tm: "manager_new (\<lambda>_. True) = Some tm" by blast
  with trigger_manager_invariant [OF tm, of "[MRemove 1, MAdd ''fn=x'' 1 2 3 None True, MEvaluate (demo_entry 3)]"]
  show ?thesis by (auto simp: u32_max_def)
qed

text \<open>
  (C17) The debounce of a trigger. Over any sequence of records a manager evaluates, a trigger fires
  on record \<open>j\<close> exactly when its condition matches the record, the window it started with has run
  out, and more than \<open>post_window\<close> records have passed since every record it fired on before.
  The right-hand side names no other trigger: none is blinded by a sibling's window, and a burst
  of matches gives one firing per window.
\<close>

theorem trigger_debounce:
  assumes "manager_ok rx tm" and "t \<in> set (triggers tm)" and "j < length es"
  shows "tr_id t \<in> tm_id ` set (evaluations env es tm ! j) \<longleftrightarrow>
    matches_entry env (tr_condition t) (es ! j) \<and> tr_post_remaining t \<le> j \<and>
    (\<forall>i<j. tr_id t \<in> tm_id ` set (evaluations env es tm ! i) \<longrightarrow> tr_post_window t < j - i)"
proof -
  have d: "distinct (map tr_id (triggers tm))" using assms(1) by (simp add: manager_ok_def)
  note fires = evaluations_fire [OF d assms(2), of _ es env]
  show ?thesis using fires [OF assms(3)] fires trigger_fires_iff [OF assms(3), of env t] assms(3) by auto
qed

definition demo_manager :: trigger_manager where
  "demo_manager = \<lparr>triggers = [fresh_trigger 1 FAll ''ALL'' 5 1 5 None False], next_id = 2\<rparr>"

lemma manager_ok_demo: "manager_ok (\<lambda>_. True) demo_manager"
proof -
  have "parse_filter (\<lambda>_. True) ''ALL'' = Inr FAll" by code_simp
  then show ?thesis by (simp add: manager_ok_def demo_manager_def trigger_ok_def fresh_trigger_def u32_max_def)
qed

theorem trigger_debounce_witness:
  "1 \<in> tm_id ` set (evaluations demo_env [demo_entry 1, demo_entry 2, demo_entry 3] demo_manager ! 2)"
proof -
  let ?t = "fresh_trigger 1 FAll ''ALL'' 5 1 5 None False"
  have "?t \<in> set (triggers demo_manager)" by (simp add: demo_manager_def)
  with manager_ok_demo have "1 \<in> tm_id ` set (evaluations demo_env [demo_entry 1, demo_entry 2, demo_entry 3] demo_manager ! j)
      \<longleftrightarrow> (\<forall>i<j. 1 \<in> tm_id ` set (evaluations demo_env [demo_entry 1, demo_entry 2, demo_entry 3] demo_manager ! i)
            \<longrightarrow> 1 < j - i)" if "j < 3" for j
    using trigger_debounce [of "\<lambda>_. True" demo_manager ?t j "[demo_entry 1, demo_entry 2, demo_entry 3]" demo_env] that
    by (simp add: fresh_trigger_def matches_entry_def)
  from this [of 0] this [of 1] this [of 2] show ?thesis by (auto simp: numeral_2_eq_2 less_Suc_eq)
qed

text \<open> Looking a trigger up after a change. After an addition the new id shows the given fields
  with a zero count and an armed window, after an edit the edited id shows what the edit returned,
  after a removal the id is gone, and no other id shows anything different. An edit is refused
  only for a filter that does not parse, before anything is changed, or for an unknown id.
\<close>

theorem trigger_lookup_after_change:
  assumes ok: "manager_ok rx tm"
  shows "(manager_add rx fs pre post ctx desc os tm = Inr (i, tm') \<longrightarrow>
      (\<exists>c. parse_filter rx fs = Inr c \<and> manager_get j tm' =
        (if j = i then Some (to_info (fresh_trigger i c fs pre post ctx desc os)) else manager_get j tm)))
    \<and> (manager_edit rx i ed tm = Inr (info, tm') \<longrightarrow>
        manager_get j tm' = (if j = i then Some info else manager_get j tm))
    \<and> (manager_remove i tm = Inr tm' \<longrightarrow> manager_get j tm' = (if j = i then None else manager_get j tm))
    \<and> (manager_edit rx i ed tm = Inl x \<longrightarrow>
        x = TriggerNotFound i \<and> manager_get i tm = None \<or> (\<exists>fs e. ed_filter ed = Some fs \<and> parse_filter rx fs = Inl e \<and> x = InvalidFilter e))"
  using get_after_add [OF ok, of fs pre post ctx desc os i tm' j] get_after_edit [OF ok, of i ed info tm' j]
    get_after_remove [OF ok, of i tm' j] manager_edit_refusals [OF ok, of i ed x]
  by (intro conjI impI) (simp_all, blast)

theorem trigger_lookup_after_change_witness:
  "\<exists>tm'. manager_remove 1 demo_manager = Inr tm' \<and> manager_get 1 tm' = None"
proof -
  obtain tm' where "manager_remove 1 demo_manager = Inr tm'"
    by (simp add: manager_remove_def demo_manager_def fresh_trigger_def)
  with trigger_lookup_after_change [OF manager_ok_demo, of undefined 0 0 0 None False 1 tm' 1] show ?thesis by auto
qed

end
