(* ===== verification/Epoch.thy ===== *)
theory Epoch
  imports Prelude
begin

text \<open>
  The epoch log of a domain (\<open>engine/epoch.rs\<close>) and its seq counter (\<open>engine/seq_counter.rs\<close>):
  which storage policy decided each stretch of the domain's seqs, what a range read can claim from
  that, and the verdict on a range.
\<close>

section \<open>The seq counter\<close>

type_synonym seq_counter = u64

definition seq_counter_new :: seq_counter where "seq_counter_new = 0"

definition new_with_initial :: "u64 \<Rightarrow> seq_counter" where "new_with_initial initial = initial"

text \<open>\<open>fetch_add(1) + 1\<close>: the number handed out, and the counter after it.\<close>

definition seq_next :: "seq_counter \<Rightarrow> u64 \<times> seq_counter" where
  "seq_next c = (wrap64 (c + 1), wrap64 (c + 1))"

definition seq_current :: "seq_counter \<Rightarrow> u64" where "seq_current c = c"

section \<open>Policies and epochs\<close>

record filter_policy =
  fp_filters :: "string list"

definition policy_new :: "string list \<Rightarrow> filter_policy" where
  "policy_new fs = \<lparr>fp_filters = remdups_adj (sort fs)\<rparr>"

definition is_filtered :: "filter_policy \<Rightarrow> bool" where
  "is_filtered p = (fp_filters p \<noteq> [])"

record epoch =
  seq_at_flip :: u64
  ep_policy :: filter_policy

record narrowed_span =
  ns_from_seq :: u64
  ns_to_seq :: u64
  ns_filters :: "string list"

record epoch_coverage =
  covered :: bool
  narrowed :: "narrowed_span list"

record epoch_log =
  epochs :: "epoch list"
  origin_seq :: u64

definition epoch_capacity :: nat where "epoch_capacity = 1024"

definition epoch_log_new :: "u64 \<Rightarrow> epoch_log" where
  "epoch_log_new origin = \<lparr>epochs = [], origin_seq = origin\<rparr>"

text \<open>The loop \<open>while log.len() > EPOCH_CAPACITY { log.pop_front(); }\<close>.\<close>

fun trim_front :: "nat \<Rightarrow> 'a list \<Rightarrow> 'a list" where
  "trim_front n [] = []"
| "trim_front n (x # xs) = (if n < length (x # xs) then trim_front n xs else x # xs)"

definition observe :: "u64 \<Rightarrow> filter_policy \<Rightarrow> epoch_log \<Rightarrow> epoch_log" where
  "observe s p log =
     (if epochs log \<noteq> [] \<and> ep_policy (last (epochs log)) = p then log
      else (let flip = (if epochs log = [] then origin_seq log else max s (seq_at_flip (last (epochs log))))
            in log\<lparr>epochs := trim_front epoch_capacity (epochs log @ [\<lparr>seq_at_flip = flip, ep_policy = p\<rparr>])\<rparr>))"

text \<open>The loop of \<open>coverage\<close>: the narrowed stretches, each clamped to the range.\<close>

fun narrowed_spans :: "u64 \<Rightarrow> u64 \<Rightarrow> epoch list \<Rightarrow> narrowed_span list" where
  "narrowed_spans lo hi [] = []"
| "narrowed_spans lo hi (e # es) =
     (let stop = (case es of [] \<Rightarrow> u64_max | n # _ \<Rightarrow> seq_at_flip n - 1)
      in if hi < seq_at_flip e \<or> stop < lo then narrowed_spans lo hi es
         else if is_filtered (ep_policy e)
         then \<lparr>ns_from_seq = max (seq_at_flip e) lo, ns_to_seq = min stop hi, ns_filters = fp_filters (ep_policy e)\<rparr>
              # narrowed_spans lo hi es
         else narrowed_spans lo hi es)"

definition coverage :: "u64 \<Rightarrow> u64 \<Rightarrow> epoch_log \<Rightarrow> epoch_coverage" where
  "coverage lo hi log =
     (case epochs log of
        [] \<Rightarrow> \<lparr>covered = False, narrowed = []\<rparr>
      | e # _ \<Rightarrow> \<lparr>covered = (seq_at_flip e \<le> lo), narrowed = narrowed_spans lo hi (epochs log)\<rparr>)"

datatype evidence_verdict = Complete | Evicted | Filtered | CannotVerify

definition verdict_of :: "epoch_coverage option \<Rightarrow> bool \<Rightarrow> bool \<Rightarrow> evidence_verdict" where
  "verdict_of cov evicted capped =
     (case cov of
        None \<Rightarrow> CannotVerify
      | Some c \<Rightarrow>
          if \<not> covered c \<or> capped then CannotVerify
          else if narrowed c \<noteq> [] then Filtered
          else if evicted then Evicted
          else Complete)"

section \<open>Policies\<close>

lemma remdups_adj_sorted: "sorted xs \<Longrightarrow> sorted (remdups_adj (xs :: 'a::linorder list))"
  by (induction xs rule: remdups_adj.induct) auto

lemma distinct_remdups_adj_sorted: "sorted xs \<Longrightarrow> distinct (remdups_adj (xs :: 'a::linorder list))"
proof (induction xs rule: remdups_adj.induct)
  case (3 x y xs)
  then show ?case by force
qed auto

lemma policy_new_eq_iff: "policy_new fs = policy_new gs \<longleftrightarrow> set fs = set gs"
proof
  assume "set fs = set gs"
  then have "remdups_adj (sort fs) = remdups_adj (sort gs)"
    by (intro sorted_distinct_set_unique) (auto intro: remdups_adj_sorted distinct_remdups_adj_sorted)
  then show "policy_new fs = policy_new gs" by (simp add: policy_new_def)
next
  assume "policy_new fs = policy_new gs"
  then have "set (remdups_adj (sort fs)) = set (remdups_adj (sort gs))"
    by (simp add: policy_new_def)
  then show "set fs = set gs" by simp
qed

lemma is_filtered_new [simp]: "is_filtered (policy_new fs) \<longleftrightarrow> fs \<noteq> []"
proof -
  have "remdups_adj (sort fs) = [] \<longleftrightarrow> fs = []"
    by (metis remdups_adj_Nil_iff length_0_conv length_sort)
  then show ?thesis by (simp add: is_filtered_def policy_new_def)
qed

section \<open>The epoch in force at a seq\<close>

text \<open>The policy of the last epoch that opened at or below a seq.\<close>

definition policy_at :: "u64 \<Rightarrow> epoch list \<Rightarrow> filter_policy" where
  "policy_at s es = ep_policy (last (takeWhile (\<lambda>e. seq_at_flip e \<le> s) es))"

lemma trim_front_eq: "trim_front n xs = drop (length xs - n) xs"
  by (induction xs) (auto simp: Suc_diff_le not_less)

lemma policy_at_Cons:
  "sorted_wrt (<) (map seq_at_flip (e # n # es)) \<Longrightarrow> seq_at_flip e \<le> s \<Longrightarrow>
   policy_at s (e # n # es) = (if seq_at_flip n \<le> s then policy_at s (n # es) else ep_policy e)"
  by (simp add: policy_at_def)

lemma policy_at_single: "seq_at_flip e \<le> s \<Longrightarrow> policy_at s [e] = ep_policy e"
  by (simp add: policy_at_def)

lemma policy_at_drop:
  "sorted_wrt (<) (map seq_at_flip es) \<Longrightarrow> n < length es \<Longrightarrow> seq_at_flip (es ! n) \<le> s \<Longrightarrow>
   policy_at s (drop n es) = policy_at s es"
proof (induction n arbitrary: es)
  case (Suc n)
  then obtain e f es' where es: "es = e # f # es'" by (cases es; cases "tl es") auto
  have "seq_at_flip f \<le> seq_at_flip (es ! Suc n)"
    using Suc.prems ascending_hd_least [of seq_at_flip "f # es'" "es ! Suc n"] es nth_mem [of n "f # es'"] by simp
  then have f: "seq_at_flip f \<le> s" using Suc.prems by simp
  then have "seq_at_flip e \<le> s" using Suc.prems(1) es by simp
  from policy_at_Cons [of e f es' s, OF _ this] Suc.prems(1) f es
  have "policy_at s es = policy_at s (f # es')" by simp
  also have "\<dots> = policy_at s (drop n (f # es'))" using Suc.IH [of "f # es'"] Suc.prems es by simp
  finally show ?case using es by simp
qed simp

lemma policy_at_snoc_old:
  "es \<noteq> [] \<Longrightarrow> s < seq_at_flip n \<Longrightarrow> policy_at s (es @ [n]) = policy_at s es"
proof -
  assume n: "s < seq_at_flip n"
  have "takeWhile (\<lambda>e. seq_at_flip e \<le> s) (es @ [n]) = takeWhile (\<lambda>e. seq_at_flip e \<le> s) es"
    using n by (induction es) auto
  then show ?thesis by (simp add: policy_at_def)
qed

lemma policy_at_last:
  "es \<noteq> [] \<Longrightarrow> sorted_wrt (<) (map seq_at_flip es) \<Longrightarrow> seq_at_flip (last es) \<le> s \<Longrightarrow>
   policy_at s es = ep_policy (last es)"
proof -
  assume es: "es \<noteq> []" "sorted_wrt (<) (map seq_at_flip es)" "seq_at_flip (last es) \<le> s"
  have "seq_at_flip e \<le> s" if "e \<in> set es" for e
    using ascending_last_greatest [OF es(2) that] es(3) by simp
  then have "takeWhile (\<lambda>e. seq_at_flip e \<le> s) es = es" by (simp add: takeWhile_eq_all_conv)
  then show ?thesis unfolding policy_at_def by (rule arg_cong)
qed

lemma narrowed_spans_above:
  "sorted_wrt (<) (map seq_at_flip (e # es)) \<Longrightarrow> n \<in> set (narrowed_spans lo hi (e # es)) \<Longrightarrow>
   seq_at_flip e \<le> ns_from_seq n"
proof (induction es arbitrary: e)
  case Nil
  then show ?case by (auto simp: Let_def split: if_splits)
next
  case (Cons f es)
  then show ?case by (force simp: Let_def split: if_splits)
qed

text \<open>The narrowed stretches that hold a seq are those of the epoch in force there.\<close>

lemma narrowed_spans_at:
  "sorted_wrt (<) (map seq_at_flip es) \<Longrightarrow> es \<noteq> [] \<Longrightarrow> seq_at_flip (hd es) \<le> s \<Longrightarrow> s \<le> u64_max \<Longrightarrow>
   lo \<le> s \<Longrightarrow> s \<le> hi \<Longrightarrow>
   (\<exists>n\<in>set (narrowed_spans lo hi es). ns_from_seq n \<le> s \<and> s \<le> ns_to_seq n \<and> ns_filters n = fs)
     \<longleftrightarrow> is_filtered (policy_at s es) \<and> fs = fp_filters (policy_at s es)"
proof (induction es)
  case (Cons e es)
  show ?case
  proof (cases es)
    case Nil
    then show ?thesis using Cons.prems by (auto simp: policy_at_single)
  next
    case (Cons f es')
    note es = Cons
    show ?thesis
    proof (cases "seq_at_flip f \<le> s")
      case True
      have out: "\<not> s \<le> seq_at_flip f - 1"
        using True \<open>sorted_wrt (<) (map seq_at_flip (e # es))\<close> es by auto
      have "(\<exists>n\<in>set (narrowed_spans lo hi (e # es)). ns_from_seq n \<le> s \<and> s \<le> ns_to_seq n \<and> ns_filters n = fs)
        \<longleftrightarrow> (\<exists>n\<in>set (narrowed_spans lo hi es). ns_from_seq n \<le> s \<and> s \<le> ns_to_seq n \<and> ns_filters n = fs)"
        unfolding narrowed_spans.simps(2) [of lo hi e es] using out
        by (auto simp: es Let_def simp del: narrowed_spans.simps)
      also have "\<dots> \<longleftrightarrow> is_filtered (policy_at s es) \<and> fs = fp_filters (policy_at s es)"
        using Cons.IH Cons.prems es True by simp
      also have "policy_at s es = policy_at s (e # es)"
        using policy_at_Cons [of e f es' s] Cons.prems es True by simp
      finally show ?thesis .
    next
      case False
      have none: "\<not> ns_from_seq n \<le> s" if "n \<in> set (narrowed_spans lo hi es)" for n
        using narrowed_spans_above [of f es' n lo hi] that Cons.prems es False by force
      have at: "policy_at s (e # es) = ep_policy e"
        using policy_at_Cons [of e f es' s] Cons.prems es False by simp
      show ?thesis
        unfolding at narrowed_spans.simps(2) [of lo hi e es]
        using none False Cons.prems es by (force simp: Let_def simp del: narrowed_spans.simps)
    qed
  qed
qed simp

section \<open>A log fed by the decisions of a domain\<close>

text \<open>The log after a sequence of decisions, each a seq and the policy that decided it.\<close>

definition observe_all :: "(u64 \<times> filter_policy) list \<Rightarrow> epoch_log \<Rightarrow> epoch_log" where
  "observe_all obs log = fold (\<lambda>(s, p). observe s p) obs log"

text \<open>
  The invariant over the decisions seen so far: the boundaries ascend and none lies past the last
  decision, and from the first retained boundary on every decision is attributed to its own policy.
\<close>

definition epoch_inv :: "(u64 \<times> filter_policy) list \<Rightarrow> epoch_log \<Rightarrow> bool" where
  "epoch_inv obs log \<longleftrightarrow>
     sorted_wrt (<) (map seq_at_flip (epochs log)) \<and> length (epochs log) \<le> epoch_capacity \<and>
     (epochs log = [] \<longleftrightarrow> obs = []) \<and>
     (\<forall>e\<in>set (epochs log). origin_seq log \<le> seq_at_flip e) \<and>
     (obs \<noteq> [] \<longrightarrow> seq_at_flip (last (epochs log)) \<le> fst (last obs) \<and> ep_policy (last (epochs log)) = snd (last obs)) \<and>
     (\<forall>(s, p)\<in>set obs. seq_at_flip (hd (epochs log)) \<le> s \<longrightarrow> policy_at s (epochs log) = p)"

lemma epoch_inv_new: "epoch_inv [] (epoch_log_new origin)"
  by (simp add: epoch_inv_def epoch_log_new_def)

lemma trim_front_snoc:
  "length es \<le> epoch_capacity \<Longrightarrow>
   trim_front epoch_capacity (es @ [n]) = (if length es < epoch_capacity then es @ [n] else tl es @ [n])"
  by (auto simp: trim_front_eq epoch_capacity_def drop_Suc)

lemma epoch_inv_observe [inv_intros]:
  assumes inv: "epoch_inv obs log" and asc: "sorted_wrt (<) (map fst (obs @ [(s, p)]))"
    and org: "origin_seq log \<le> s"
  shows "epoch_inv (obs @ [(s, p)]) (observe s p log)"
proof (cases "obs = []")
  case True
  then have "epochs log = []" using inv by (simp add: epoch_inv_def)
  then show ?thesis using True org
    by (simp add: epoch_inv_def observe_def epoch_capacity_def policy_at_single)
next
  case False
  define es where "es = epochs log"
  have es: "es \<noteq> []" "sorted_wrt (<) (map seq_at_flip es)" "length es \<le> epoch_capacity"
    "seq_at_flip (last es) \<le> fst (last obs)" "\<forall>e\<in>set es. origin_seq log \<le> seq_at_flip e"
    "\<forall>(s, p)\<in>set obs. seq_at_flip (hd es) \<le> s \<longrightarrow> policy_at s es = p"
    using inv False by (auto simp: epoch_inv_def es_def)
  have past: "s' < s" if "(s', p') \<in> set obs" for s' p'
    using asc that by (force simp: sorted_wrt_append)
  have lt: "seq_at_flip (last es) < s"
    using es(4) past [of "fst (last obs)" "snd (last obs)"] False by simp
  show ?thesis
  proof (cases "ep_policy (last es) = p")
    case True
    then have same: "observe s p log = log" using es by (simp add: observe_def es_def)
    have "policy_at s es = p" using policy_at_last [OF es(1,2)] lt True by simp
    then show ?thesis
      unfolding same using inv False True lt by (auto simp: epoch_inv_def es_def)
  next
    case False
    define n where "n = \<lparr>seq_at_flip = s, ep_policy = p\<rparr>"
    define es' where "es' = (if length es < epoch_capacity then es @ [n] else tl es @ [n])"
    have obs: "observe s p log = log\<lparr>epochs := es'\<rparr>"
      using False es(1) lt trim_front_snoc [OF es(3), of n]
      by (simp add: observe_def es_def [symmetric] Let_def n_def es'_def max_def)
    have all_lt: "seq_at_flip e < s" if "e \<in> set es" for e
      using ascending_last_greatest [OF es(2) that] lt by simp
    have asc': "sorted_wrt (<) (map seq_at_flip (es @ [n]))"
      using es(2) all_lt by (simp add: sorted_wrt_append n_def)
    define k where "k = (if length es < epoch_capacity then 0 else 1::nat)"
    have es': "es' = drop k (es @ [n])"
      using es(1) by (cases es) (auto simp: es'_def k_def)
    have k: "k < length (es @ [n])" using es(1) by (simp add: k_def)
    have hd: "hd es' = (es @ [n]) ! k" unfolding es' using k by (rule hd_drop_conv_nth)
    have old: "policy_at s' es' = p'" if m: "(s', p') \<in> set obs" and le: "seq_at_flip (hd es') \<le> s'" for s' p'
    proof -
      have "seq_at_flip (hd es) \<le> seq_at_flip (hd es')"
        using es(1) ascending_hd_least [OF asc' nth_mem [OF k]] unfolding hd by simp
      then have "policy_at s' es = p'" using es(6) m le by fastforce
      moreover have "policy_at s' es' = policy_at s' (es @ [n])"
        unfolding es' by (rule policy_at_drop [OF asc' k]) (use le hd in simp)
      ultimately show ?thesis using policy_at_snoc_old [OF es(1), of s' n] past [OF m] by (simp add: n_def)
    qed
    have last: "last es' = n" and ne: "es' \<noteq> []" by (simp_all add: es'_def)
    have asc'': "sorted_wrt (<) (map seq_at_flip es')" unfolding es' by (rule ascending_drop [OF asc'])
    have new: "policy_at s es' = p"
      using policy_at_last [OF ne asc'', of s] unfolding last by (simp add: n_def)
    have len: "length es' \<le> epoch_capacity"
      using es(1,3) by (cases es) (auto simp: es'_def)
    have lo: "\<forall>e\<in>set es'. origin_seq log \<le> seq_at_flip e"
      using es(5) org by (auto simp: es' n_def dest!: in_set_dropD)
    show ?thesis
      unfolding obs epoch_inv_def using asc'' len ne last lo old new by (auto simp: n_def)
  qed
qed

lemma origin_observe [simp]: "origin_seq (observe s p log) = origin_seq log"
  by (simp add: observe_def Let_def)

lemma epoch_inv_observe_all:
  "epoch_inv obs0 log \<Longrightarrow> sorted_wrt (<) (map fst (obs0 @ obs)) \<Longrightarrow>
   \<forall>(s, p)\<in>set obs. origin_seq log \<le> s \<Longrightarrow> epoch_inv (obs0 @ obs) (observe_all obs log)"
proof (induction obs arbitrary: obs0 log)
  case (Cons o1 obs)
  obtain s p where o1: "o1 = (s, p)" by force
  have "epoch_inv (obs0 @ [(s, p)]) (observe s p log)"
    using Cons.prems by (intro epoch_inv_observe) (auto simp: o1 sorted_wrt_append)
  from Cons.IH [OF this] Cons.prems show ?case by (simp add: o1 observe_all_def)
qed (simp add: observe_all_def)

lemma coverage_at:
  assumes inv: "epoch_inv obs log" and cov: "covered (coverage lo hi log)"
    and m: "(s, p) \<in> set obs" and "lo \<le> s" "s \<le> hi" "s \<le> u64_max"
  shows "(\<exists>n\<in>set (narrowed (coverage lo hi log)). ns_from_seq n \<le> s \<and> s \<le> ns_to_seq n \<and> ns_filters n = fs)
    \<longleftrightarrow> is_filtered p \<and> fs = fp_filters p"
proof -
  have ne: "epochs log \<noteq> []" using inv m by (auto simp: epoch_inv_def)
  then have hd: "seq_at_flip (hd (epochs log)) \<le> s"
    using cov assms(4) by (cases "epochs log") (auto simp: coverage_def)
  then have p: "policy_at s (epochs log) = p" using inv m by (auto simp: epoch_inv_def)
  have "narrowed (coverage lo hi log) = narrowed_spans lo hi (epochs log)"
    using ne by (cases "epochs log") (auto simp: coverage_def)
  then show ?thesis
    using narrowed_spans_at [of "epochs log" s lo hi fs] inv ne hd assms p by (simp add: epoch_inv_def)
qed

section \<open>Properties\<close>

text \<open>
  (C18) What the log says of a range is exact. After any sequence of storage decisions in ascending
  seq order at or above the origin, and however many epochs were dropped to keep the log bounded,
  a range the log calls covered reports a decided seq inside a narrowed stretch with filters
  \<open>fs\<close> exactly when the policy that decided that seq was \<open>fs\<close> and narrowed storage. No boundary
  attributes a decision to another policy.
\<close>

theorem epoch_coverage_exact:
  assumes "sorted_wrt (<) (map fst obs)" and "\<forall>(s, p)\<in>set obs. origin \<le> s \<and> s \<le> u64_max"
    and "covered (coverage lo hi (observe_all obs (epoch_log_new origin)))"
    and "(s, p) \<in> set obs" and "lo \<le> s" and "s \<le> hi"
  shows "(\<exists>n\<in>set (narrowed (coverage lo hi (observe_all obs (epoch_log_new origin)))).
      ns_from_seq n \<le> s \<and> s \<le> ns_to_seq n \<and> ns_filters n = fs)
    \<longleftrightarrow> is_filtered p \<and> fs = fp_filters p"
proof -
  have "epoch_inv ([] @ obs) (observe_all obs (epoch_log_new origin))"
    using assms(1,2) by (intro epoch_inv_observe_all epoch_inv_new) (auto simp: epoch_log_new_def)
  from coverage_at [OF _ assms(3-6), of fs] this assms(2,4) show ?thesis by auto
qed

theorem epoch_coverage_exact_witness:
  "\<exists>n\<in>set (narrowed (coverage 2 9 (observe_all [(1, policy_new []), (4, policy_new [''a''])] (epoch_log_new 0)))).
     ns_from_seq n \<le> 4 \<and> 4 \<le> ns_to_seq n \<and> ns_filters n = [''a'']"
  using epoch_coverage_exact [of "[(1, policy_new []), (4, policy_new [''a''])]" 0 2 9 4 "policy_new [''a'']" "[''a'']"]
  by (simp add: observe_all_def observe_def epoch_log_new_def coverage_def epoch_capacity_def policy_new_def
      u64_max_def is_filtered_def)

text \<open> The epoch log stays ordered and bounded, and equal policies make one epoch. Under the same
  decisions it holds at most \<open>EPOCH_CAPACITY\<close> epochs, in strictly ascending order of their first
  seq, none below the origin; the policy of the last epoch is the policy of the last decision.
  Two filter sets make the same policy exactly when they are equal as sets, so neither order nor
  a duplicate held by another session opens an epoch.
\<close>

theorem epoch_log_bounded_and_ordered:
  assumes "sorted_wrt (<) (map fst obs)" and "\<forall>(s, p)\<in>set obs. origin \<le> s" and "obs \<noteq> []"
  shows "length (epochs (observe_all obs (epoch_log_new origin))) \<le> 1024
    \<and> sorted_wrt (<) (map seq_at_flip (epochs (observe_all obs (epoch_log_new origin))))
    \<and> (\<forall>e\<in>set (epochs (observe_all obs (epoch_log_new origin))). origin \<le> seq_at_flip e)
    \<and> ep_policy (last (epochs (observe_all obs (epoch_log_new origin)))) = snd (last obs)
    \<and> (\<forall>fs gs. policy_new fs = policy_new gs \<longleftrightarrow> set fs = set gs)"
proof -
  have org: "origin_seq (observe_all obs (epoch_log_new origin)) = origin" for obs
    unfolding observe_all_def
    by (rule fold_invariant [where Q = "\<lambda>_. True" and P = "\<lambda>log. origin_seq log = origin"])
      (auto simp: epoch_log_new_def)
  have "epoch_inv ([] @ obs) (observe_all obs (epoch_log_new origin))"
    using assms(1,2) by (intro epoch_inv_observe_all epoch_inv_new) (auto simp: epoch_log_new_def)
  then show ?thesis using assms(3) org by (auto simp: epoch_inv_def epoch_capacity_def policy_new_eq_iff)
qed

theorem epoch_log_bounded_and_ordered_witness:
  "length (epochs (observe_all [(1, policy_new []), (4, policy_new [''a''])] (epoch_log_new 0))) \<le> 1024"
  using epoch_log_bounded_and_ordered [of "[(1, policy_new []), (4, policy_new [''a''])]" 0] by simp

end
