(* ===== verification/Bookmarks.thy ===== *)
theory Bookmarks
  imports Filter_Matcher
begin

text \<open>
  Bookmarks and cursors (\<open>store/bookmarks.rs\<close>) and their resolution in a filter
  (\<open>filter/bookmark_resolver.rs\<close>). The store's hash map is an association list, the set of
  recently evicted names a list whose order stands for the set's iteration order, and the wall
  clock is an argument of the operations that read it. A commit handle is a value; committing it
  is an operation of the store.
\<close>

record bookmark =
  bm_qualified_name :: string
  bm_name :: string
  bm_session :: string
  bm_seq :: u64
  bm_created_at :: int
  bm_description :: "string option"
  bm_late_mark :: u64
  bm_floor :: u64

datatype bookmark_error = InvalidName string | AlreadyExists string | BookmarkNotFound string

record cursor_commit =
  cc_qualified_name :: string
  cc_session :: string
  cc_name :: string
  cc_lower_bound :: u64
  cc_late_mark :: u64
  cc_floor :: u64

record bookmark_store =
  bookmarks :: "(string \<times> bookmark) list"
  recently_evicted :: "string list"

definition max_recently_evicted :: nat where "max_recently_evicted = 1024"

definition bookmark_store_new :: bookmark_store where
  "bookmark_store_new = \<lparr>bookmarks = [], recently_evicted = []\<rparr>"

text \<open>\<open>format!("{session}/{name}")\<close>.\<close>

definition qualified_name :: "string \<Rightarrow> string \<Rightarrow> string" where
  "qualified_name session name = session @ CHR ''/'' # name"

definition is_valid_bookmark_name :: "string \<Rightarrow> bool" where
  "is_valid_bookmark_name name =
     (if name = [] \<or> length name > 64 then False
      else list_all (\<lambda>b. is_ascii_alphanumeric b \<or> b = CHR ''-'' \<or> b = CHR ''_'') name)"

definition should_evict :: "u64 \<Rightarrow> u64 \<Rightarrow> u64 \<Rightarrow> bool" where
  "should_evict bookmark_seq log_lost_below span_lost_below =
     (let window_start = sat_add bookmark_seq 1;
          log_gone = (evicted_below window_start log_lost_below \<noteq> None);
          span_gone = (evicted_below window_start span_lost_below \<noteq> None)
      in log_gone \<and> span_gone)"

definition qualify :: "string \<Rightarrow> string \<Rightarrow> string" where
  "qualify name current_session =
     (if CHR ''/'' \<in> set name then name else qualified_name current_session name)"

definition bookmark_get :: "string \<Rightarrow> bookmark_store \<Rightarrow> bookmark option" where
  "bookmark_get q st = map_of (bookmarks st) q"

definition commit_cursor :: "cursor_commit \<Rightarrow> u64 \<Rightarrow> u64 \<Rightarrow> int \<Rightarrow> bookmark_store \<Rightarrow> bookmark_store" where
  "commit_cursor h s late now st =
     (if s = cc_lower_bound h \<and> late = cc_late_mark h then st
      else (case map_of (bookmarks st) (cc_qualified_name h) of
          Some b \<Rightarrow>
            if bm_seq b = cc_lower_bound h \<and> bm_late_mark b = cc_late_mark h
            then st\<lparr>bookmarks := hm_update (cc_qualified_name h) (\<lambda>b. b\<lparr>bm_seq := s, bm_late_mark := late\<rparr>) (bookmarks st)\<rparr>
            else st
        | None \<Rightarrow>
            if s \<noteq> cc_lower_bound h
            then st\<lparr>bookmarks := hm_insert (cc_qualified_name h)
                      \<lparr>bm_qualified_name = cc_qualified_name h, bm_name = cc_name h, bm_session = cc_session h,
                       bm_seq = s, bm_created_at = now, bm_description = None, bm_late_mark = late,
                       bm_floor = cc_floor h\<rparr> (bookmarks st)\<rparr>
            else st))"

definition add_at ::
  "string \<Rightarrow> string \<Rightarrow> u64 \<Rightarrow> u64 \<Rightarrow> string option \<Rightarrow> bool \<Rightarrow> int \<Rightarrow> bookmark_store
     \<Rightarrow> bookmark_error + ((bookmark \<times> bool) \<times> bookmark_store)" where
  "add_at session name s late desc replace now st =
     (if \<not> is_valid_bookmark_name name then Inl (InvalidName name)
      else (let q = qualified_name session name;
                b = \<lparr>bm_qualified_name = q, bm_name = name, bm_session = session, bm_seq = s,
                     bm_created_at = now, bm_description = desc, bm_late_mark = late, bm_floor = s\<rparr>;
                existed = (map_of (bookmarks st) q \<noteq> None)
            in if existed \<and> \<not> replace then Inl (AlreadyExists q)
               else Inr ((b, existed), st\<lparr>bookmarks := hm_insert q b (bookmarks st)\<rparr>)))"

definition add_bookmark ::
  "string \<Rightarrow> string \<Rightarrow> u64 \<Rightarrow> string option \<Rightarrow> bool \<Rightarrow> int \<Rightarrow> bookmark_store
     \<Rightarrow> bookmark_error + ((bookmark \<times> bool) \<times> bookmark_store)" where
  "add_bookmark session name s desc replace now st = add_at session name s 0 desc replace now st"

definition insert_persisted :: "bookmark \<Rightarrow> bookmark_store \<Rightarrow> bookmark_store" where
  "insert_persisted b st = st\<lparr>bookmarks := hm_insert (bm_qualified_name b) b (bookmarks st)\<rparr>"

text \<open>Newest seq first, equal seqs by name: two stable sorts, the name first.\<close>

definition bookmark_list :: "bookmark_store \<Rightarrow> bookmark list" where
  "bookmark_list st =
     sort_key (\<lambda>b. - int (bm_seq b)) (sort_key bm_qualified_name (map snd (bookmarks st)))"

definition bookmark_remove :: "string \<Rightarrow> bookmark_store \<Rightarrow> bookmark_error + bookmark_store" where
  "bookmark_remove q st =
     (if map_of (bookmarks st) q = None then Inl (BookmarkNotFound q)
      else Inr (st\<lparr>bookmarks := hm_remove q (bookmarks st)\<rparr>))"

text \<open>Inserting into a set, and the loop of \<open>sweep\<close> that records the evicted names.\<close>

definition set_insert :: "'a \<Rightarrow> 'a list \<Rightarrow> 'a list" where
  "set_insert x xs = (if x \<in> set xs then xs else xs @ [x])"

definition set_remove :: "'a \<Rightarrow> 'a list \<Rightarrow> 'a list" where
  "set_remove x xs = filter (\<lambda>y. y \<noteq> x) xs"

definition record_evicted :: "string \<Rightarrow> string list \<Rightarrow> string list" where
  "record_evicted q recent =
     (let r = (if max_recently_evicted \<le> length recent
               then (case recent of [] \<Rightarrow> recent | victim # _ \<Rightarrow> set_remove victim recent)
               else recent)
      in set_insert q r)"

definition sweep :: "u64 \<Rightarrow> u64 \<Rightarrow> bookmark_store \<Rightarrow> bookmark_store" where
  "sweep log_lost_below span_lost_below st =
     (let gone = (\<lambda>kb. should_evict (bm_seq (snd kb)) log_lost_below span_lost_below);
          evicted = map fst (filter gone (bookmarks st))
      in st\<lparr>bookmarks := filter (\<lambda>kb. \<not> gone kb) (bookmarks st),
            recently_evicted := fold record_evicted evicted (recently_evicted st)\<rparr>)"

definition clear_session :: "string \<Rightarrow> bookmark_store \<Rightarrow> nat \<times> bookmark_store" where
  "clear_session session st =
     (let kept = filter (\<lambda>kb. bm_session (snd kb) \<noteq> session) (bookmarks st)
      in (length (bookmarks st) - length kept,
          st\<lparr>bookmarks := kept,
             recently_evicted := filter (\<lambda>q. \<not> starts_with q (session @ ''/'')) (recently_evicted st)\<rparr>))"

text \<open>One bookmark moved to the session's new name; \<open>None\<close> is the \<open>expect\<close> on the removal.\<close>

definition move_bookmark :: "string \<Rightarrow> string \<Rightarrow> (string \<times> bookmark) list \<Rightarrow> (string \<times> bookmark) list option" where
  "move_bookmark new key m =
     (case map_of m key of
        None \<Rightarrow> None
      | Some b \<Rightarrow>
          let b' = b\<lparr>bm_session := new, bm_qualified_name := qualified_name new (bm_name b)\<rparr>
          in Some (hm_insert (bm_qualified_name b') b' (hm_remove key m)))"

fun move_bookmarks :: "string \<Rightarrow> string list \<Rightarrow> (string \<times> bookmark) list \<Rightarrow> (string \<times> bookmark) list option" where
  "move_bookmarks new [] m = Some m"
| "move_bookmarks new (key # keys) m = Option.bind (move_bookmark new key m) (move_bookmarks new keys)"

definition move_evicted :: "string \<Rightarrow> string \<Rightarrow> string \<Rightarrow> string list \<Rightarrow> string list" where
  "move_evicted old_prefix new q recent =
     set_insert (qualified_name new (drop (length old_prefix) q)) (set_remove q recent)"

definition rename_session :: "string \<Rightarrow> string \<Rightarrow> bookmark_store \<Rightarrow> (nat \<times> bookmark_store) option" where
  "rename_session old new st =
     (if old = new then Some (0, st)
      else (let keys = map fst (filter (\<lambda>kb. bm_session (snd kb) = old) (bookmarks st))
            in case move_bookmarks new keys (bookmarks st) of
                 None \<Rightarrow> None
               | Some m \<Rightarrow>
                   (let old_prefix = old @ ''/'';
                        moved = filter (\<lambda>q. starts_with q old_prefix) (recently_evicted st)
                    in Some (length keys,
                         st\<lparr>bookmarks := m,
                            recently_evicted := fold (move_evicted old_prefix new) moved (recently_evicted st)\<rparr>))))"

definition cursor_read_and_advance_at ::
  "string \<Rightarrow> string \<Rightarrow> u64 \<Rightarrow> int \<Rightarrow> bookmark_store \<Rightarrow> (u64 \<times> cursor_commit) \<times> bookmark_store" where
  "cursor_read_and_advance_at session name late_counter now st =
     (let q = qualified_name session name;
          handle = (\<lambda>lb late fl. \<lparr>cc_qualified_name = q, cc_session = session, cc_name = name,
                                   cc_lower_bound = lb, cc_late_mark = late, cc_floor = fl\<rparr>)
      in case map_of (bookmarks st) q of
           Some b \<Rightarrow> ((bm_seq b, handle (bm_seq b) (bm_late_mark b) (bm_floor b)), st)
         | None \<Rightarrow>
             ((0, handle 0 late_counter 0),
              st\<lparr>bookmarks := hm_insert q
                   \<lparr>bm_qualified_name = q, bm_name = name, bm_session = session, bm_seq = 0, bm_created_at = now,
                    bm_description = None, bm_late_mark = late_counter, bm_floor = 0\<rparr> (bookmarks st),
                 recently_evicted := set_remove q (recently_evicted st)\<rparr>))"

definition cursor_read_and_advance ::
  "string \<Rightarrow> string \<Rightarrow> int \<Rightarrow> bookmark_store \<Rightarrow> (u64 \<times> cursor_commit) \<times> bookmark_store" where
  "cursor_read_and_advance session name now st = cursor_read_and_advance_at session name 0 now st"

section \<open>Resolving bookmarks and cursors in a filter\<close>

datatype bookmark_resolution_error = ResolveNotFound string | CrossSessionCursorAdvance string | NoSlash

record resolved_filter =
  rf_filter :: parsed_filter
  rf_cursor_commit :: "cursor_commit option"

definition bookmark_seq_op :: "bookmark_op \<Rightarrow> seq_op" where
  "bookmark_seq_op op = (case op of BGte \<Rightarrow> Gt | BLte \<Rightarrow> Lt)"

text \<open>
  The loop of \<open>resolve_bookmarks_at\<close>: the qualifiers so far, the commit handle, the store. An
  error leaves the store as the qualifiers before it left it. \<open>NoSlash\<close> is the panic of
  \<open>split_qualified\<close> (never reached: see \<open>resolve_never_panics\<close>).
\<close>

fun resolve_loop ::
  "string \<Rightarrow> u64 \<Rightarrow> int \<Rightarrow> qualifier list \<Rightarrow> qualifier list \<Rightarrow> cursor_commit option \<Rightarrow> bookmark_store
     \<Rightarrow> (bookmark_resolution_error + (qualifier list \<times> cursor_commit option)) \<times> bookmark_store" where
  "resolve_loop cs late now [] out c st = (Inr (out, c), st)"
| "resolve_loop cs late now (BookmarkFilter op name # qs) out c st =
     (case bookmark_get (qualify name cs) st of
        None \<Rightarrow> (Inl (ResolveNotFound (qualify name cs)), st)
      | Some b \<Rightarrow> resolve_loop cs late now qs (out @ [SeqFilter (bookmark_seq_op op) (bm_seq b)]) c st)"
| "resolve_loop cs late now (CursorFilter name # qs) out c st =
     (case split_once (CHR ''/'') (qualify name cs) of
        None \<Rightarrow> (Inl NoSlash, st)
      | Some (target_session, target_name) \<Rightarrow>
          if target_session \<noteq> cs then (Inl (CrossSessionCursorAdvance (qualify name cs)), st)
          else (case cursor_read_and_advance_at target_session target_name late now st of
                  ((lower, commit), st') \<Rightarrow>
                    resolve_loop cs late now qs (out @ [CursorSeq lower]) (Some commit) st'))"
| "resolve_loop cs late now (q # qs) out c st = resolve_loop cs late now qs (out @ [q]) c st"

definition resolve_bookmarks_at ::
  "parsed_filter \<Rightarrow> string \<Rightarrow> u64 \<Rightarrow> int \<Rightarrow> bookmark_store
     \<Rightarrow> (bookmark_resolution_error + resolved_filter) \<times> bookmark_store" where
  "resolve_bookmarks_at f cs late now st =
     (case f of
        Qualifiers qs \<Rightarrow>
          (case resolve_loop cs late now qs [] None st of
             (Inl e, st') \<Rightarrow> (Inl e, st')
           | (Inr (out, c), st') \<Rightarrow> (Inr \<lparr>rf_filter = Qualifiers out, rf_cursor_commit = c\<rparr>, st'))
      | _ \<Rightarrow> (Inr \<lparr>rf_filter = f, rf_cursor_commit = None\<rparr>, st))"

definition resolve_bookmarks ::
  "parsed_filter \<Rightarrow> string \<Rightarrow> int \<Rightarrow> bookmark_store
     \<Rightarrow> (bookmark_resolution_error + resolved_filter) \<times> bookmark_store" where
  "resolve_bookmarks f cs now st = resolve_bookmarks_at f cs 0 now st"

end
