(* ===== verification/Bookmark_Props.thy ===== *)
theory Bookmark_Props
  imports Bookmarks
begin

text \<open>
  What the bookmark store guarantees: its invariant over any run of operations, which bookmarks a
  sweep removes, that a session rename takes its bookmarks along, that of two racing cursor reads
  one commit lands, and that resolution rewrites a filter to the window it names.
\<close>

section \<open>Qualified names\<close>

lemma qualified_name_inj:
  "CHR ''/'' \<notin> set s \<Longrightarrow> CHR ''/'' \<notin> set s' \<Longrightarrow> qualified_name s n = qualified_name s' n' \<longleftrightarrow> s = s' \<and> n = n'"
  unfolding qualified_name_def by (metis split_once_append option.inject prod.inject)

lemma starts_with_session:
  "CHR ''/'' \<notin> set s \<Longrightarrow> CHR ''/'' \<notin> set s' \<Longrightarrow> starts_with (qualified_name s n) (s' @ ''/'') \<longleftrightarrow> s = s'"
proof
  assume sl: "CHR ''/'' \<notin> set s" "CHR ''/'' \<notin> set s'" and "starts_with (qualified_name s n) (s' @ ''/'')"
  then obtain r where "qualified_name s n = qualified_name s' r"
    by (auto simp: starts_with_iff qualified_name_def)
  then show "s = s'" using qualified_name_inj sl by simp
qed (auto simp: starts_with_iff qualified_name_def)

section \<open>The invariant\<close>

definition bookmark_wf :: "string \<times> bookmark \<Rightarrow> bool" where
  "bookmark_wf kb \<longleftrightarrow>
     fst kb = bm_qualified_name (snd kb) \<and> fst kb = qualified_name (bm_session (snd kb)) (bm_name (snd kb)) \<and>
     CHR ''/'' \<notin> set (bm_session (snd kb))"

definition bookmarks_inv :: "bookmark_store \<Rightarrow> bool" where
  "bookmarks_inv st \<longleftrightarrow>
     distinct (keys_of (bookmarks st)) \<and> list_all bookmark_wf (bookmarks st) \<and>
     distinct (recently_evicted st) \<and> length (recently_evicted st) \<le> max_recently_evicted"

datatype bookmark_action =
    BAdd string string u64 u64 "string option" bool int
  | BPersist bookmark
  | BRemove string
  | BSweep u64 u64
  | BClear string
  | BRename string string
  | BRead string string u64 int
  | BCommit cursor_commit u64 u64 int

text \<open>Session names hold no slash; a persisted bookmark and a handle carry their own name.\<close>

fun action_ok :: "bookmark_action \<Rightarrow> bool" where
  "action_ok (BAdd session _ _ _ _ _ _) = (CHR ''/'' \<notin> set session)"
| "action_ok (BPersist b) = bookmark_wf (bm_qualified_name b, b)"
| "action_ok (BRename old new) = (CHR ''/'' \<notin> set old \<and> CHR ''/'' \<notin> set new)"
| "action_ok (BRead session _ _ _) = (CHR ''/'' \<notin> set session)"
| "action_ok (BCommit h _ _ _) =
     (cc_qualified_name h = qualified_name (cc_session h) (cc_name h) \<and> CHR ''/'' \<notin> set (cc_session h))"
| "action_ok _ = True"

fun bookmark_apply :: "bookmark_action \<Rightarrow> bookmark_store \<Rightarrow> bookmark_store" where
  "bookmark_apply (BAdd session name s late desc replace now) st =
     (case add_at session name s late desc replace now st of Inl _ \<Rightarrow> st | Inr (_, st') \<Rightarrow> st')"
| "bookmark_apply (BPersist b) st = insert_persisted b st"
| "bookmark_apply (BRemove q) st = (case bookmark_remove q st of Inl _ \<Rightarrow> st | Inr st' \<Rightarrow> st')"
| "bookmark_apply (BSweep l s) st = sweep l s st"
| "bookmark_apply (BClear session) st = snd (clear_session session st)"
| "bookmark_apply (BRename old new) st = (case rename_session old new st of None \<Rightarrow> st | Some (_, st') \<Rightarrow> st')"
| "bookmark_apply (BRead session name late now) st = snd (cursor_read_and_advance_at session name late now st)"
| "bookmark_apply (BCommit h s late now) st = commit_cursor h s late now st"

lemma list_all_hm_insert: "list_all P m \<Longrightarrow> P (k, v) \<Longrightarrow> list_all P (hm_insert k v m)"
  by (induction k v m rule: hm_insert.induct) auto

lemma set_insert_set [simp]: "set (set_insert x xs) = insert x (set xs)"
  by (auto simp: set_insert_def)

lemma set_remove_set [simp]: "set (set_remove x xs) = set xs - {x}"
  by (auto simp: set_remove_def)

lemma distinct_set_insert [simp]: "distinct xs \<Longrightarrow> distinct (set_insert x xs)"
  by (simp add: set_insert_def)

lemma distinct_set_remove [simp]: "distinct xs \<Longrightarrow> distinct (set_remove x xs)"
  by (simp add: set_remove_def)

lemma length_set_insert: "length (set_insert x xs) \<le> Suc (length xs)"
  by (simp add: set_insert_def)

lemma length_set_remove: "x \<in> set xs \<Longrightarrow> length (set_remove x xs) < length xs"
  by (auto simp: set_remove_def intro: length_filter_less)

lemma record_evicted_ok:
  assumes "distinct r" and "length r \<le> max_recently_evicted"
  shows "distinct (record_evicted q r) \<and> length (record_evicted q r) \<le> max_recently_evicted"
proof (cases "max_recently_evicted \<le> length r")
  case True
  then obtain v vs where r: "r = v # vs" by (cases r) (auto simp: max_recently_evicted_def)
  have "length (set_remove v r) < max_recently_evicted"
    using length_set_remove [of v r] assms(2) by (simp add: r)
  then show ?thesis
    using True assms length_set_insert [of q "set_remove v r"] by (simp add: record_evicted_def r)
next
  case False
  then show ?thesis using assms length_set_insert [of q r] by (simp add: record_evicted_def)
qed

lemma record_evicted_all:
  "distinct r \<Longrightarrow> length r \<le> max_recently_evicted \<Longrightarrow>
   distinct (fold record_evicted qs r) \<and> length (fold record_evicted qs r) \<le> max_recently_evicted"
  by (induction qs arbitrary: r) (simp_all add: record_evicted_ok)

lemma move_evicted_ok:
  assumes "distinct r" and "length r \<le> n" and "q \<in> set r"
  shows "distinct (move_evicted p new q r) \<and> length (move_evicted p new q r) \<le> n"
  using assms length_set_insert [of "qualified_name new (drop (length p) q)" "set_remove q r"]
    length_set_remove [OF assms(3)] by (simp add: move_evicted_def)

definition rehome :: "string \<Rightarrow> bookmark \<Rightarrow> bookmark" where
  "rehome new b = b\<lparr>bm_session := new, bm_qualified_name := qualified_name new (bm_name b)\<rparr>"

lemma move_bookmark_Some:
  "map_of m key = Some b \<Longrightarrow>
   move_bookmark new key m = Some (hm_insert (qualified_name new (bm_name b)) (rehome new b) (hm_remove key m))"
  by (simp add: move_bookmark_def Let_def rehome_def)

lemma list_all_filter: "list_all P xs \<Longrightarrow> list_all P (filter Q xs)"
  by (simp add: list_all_iff)

lemma move_bookmark_ok:
  assumes "distinct (keys_of m)" and "list_all bookmark_wf m" and "CHR ''/'' \<notin> set new"
    and "move_bookmark new key m = Some m'"
  shows "distinct (keys_of m') \<and> list_all bookmark_wf m'"
proof -
  obtain b where b: "map_of m key = Some b" using assms(4) by (auto simp: move_bookmark_def split: option.splits)
  have m': "m' = hm_insert (qualified_name new (bm_name b)) (rehome new b) (hm_remove key m)"
    using assms(4) move_bookmark_Some [OF b] by simp
  have "bookmark_wf (qualified_name new (bm_name b), rehome new b)"
    using assms(3) by (simp add: bookmark_wf_def rehome_def)
  then show ?thesis
    unfolding m' hm_remove_def using assms(1,2) by (simp add: list_all_hm_insert list_all_filter)
qed

lemma move_bookmarks_ok:
  "distinct (keys_of m) \<Longrightarrow> list_all bookmark_wf m \<Longrightarrow> CHR ''/'' \<notin> set new \<Longrightarrow>
   move_bookmarks new keys m = Some m' \<Longrightarrow> distinct (keys_of m') \<and> list_all bookmark_wf m'"
proof (induction keys arbitrary: m)
  case (Cons k keys)
  then obtain m1 where "move_bookmark new k m = Some m1" "move_bookmarks new keys m1 = Some m'"
    by (auto simp: bind_eq_Some_conv)
  then show ?case using Cons move_bookmark_ok by blast
qed simp

lemma fold_move_evicted_ok:
  "distinct r \<Longrightarrow> length r \<le> n \<Longrightarrow> distinct qs \<Longrightarrow> set qs \<subseteq> set r \<Longrightarrow>
   distinct (fold (move_evicted p new) qs r) \<and> length (fold (move_evicted p new) qs r) \<le> n"
proof (induction qs arbitrary: r)
  case (Cons q qs)
  have "set qs \<subseteq> set (move_evicted p new q r)" using Cons.prems by (auto simp: move_evicted_def)
  then show ?case using Cons move_evicted_ok [of r n q p new] by simp
qed simp

lemma bookmarks_inv_rename:
  assumes "bookmarks_inv st" and "CHR ''/'' \<notin> set new" and "rename_session old new st = Some (k, st')"
  shows "bookmarks_inv st'"
proof (cases "old = new")
  case True
  then show ?thesis using assms by (simp add: rename_session_def)
next
  case False
  let ?keys = "map fst (filter (\<lambda>kb. bm_session (snd kb) = old) (bookmarks st))"
  let ?moved = "filter (\<lambda>q. starts_with q (old @ ''/'')) (recently_evicted st)"
  obtain m where m: "move_bookmarks new ?keys (bookmarks st) = Some m"
    and st': "st' = st\<lparr>bookmarks := m, recently_evicted := fold (move_evicted (old @ ''/'') new) ?moved (recently_evicted st)\<rparr>"
    using assms(3) False by (auto simp: rename_session_def Let_def split: option.splits)
  show ?thesis
    using assms(1) move_bookmarks_ok [OF _ _ assms(2) m]
      fold_move_evicted_ok [of "recently_evicted st" max_recently_evicted ?moved "old @ ''/''" new]
    unfolding st' bookmarks_inv_def by auto
qed

lemma length_filter_bound: "length xs \<le> n \<Longrightarrow> length (filter P xs) \<le> n"
  by (meson length_filter_le le_trans)

lemma list_all_hm_update:
  "list_all P m \<Longrightarrow> (\<And>b. P (k, b) \<Longrightarrow> P (k, g b)) \<Longrightarrow> list_all P (hm_update k g m)"
  by (auto simp: list_all_iff hm_update_def)

lemma bookmarks_inv_apply [inv_intros]:
  assumes inv: "bookmarks_inv st" and ok: "action_ok a"
  shows "bookmarks_inv (bookmark_apply a st)"
proof (cases a)
  case (BAdd session name s late desc replace now)
  then show ?thesis using assms
    by (auto simp: add_at_def Let_def bookmarks_inv_def bookmark_wf_def intro!: list_all_hm_insert)
next
  case (BPersist b)
  then show ?thesis using assms
    by (auto simp: insert_persisted_def bookmarks_inv_def intro!: list_all_hm_insert)
next
  case (BRemove q)
  then show ?thesis using assms
    by (auto simp: bookmark_remove_def bookmarks_inv_def hm_remove_def list_all_filter)
next
  case (BSweep l s)
  then show ?thesis using assms
    by (simp add: sweep_def Let_def bookmarks_inv_def list_all_filter record_evicted_all)
next
  case (BClear session)
  then show ?thesis using assms
    by (simp add: clear_session_def Let_def bookmarks_inv_def list_all_filter length_filter_bound)
next
  case (BRename old new)
  then show ?thesis using assms by (auto split: option.split intro: bookmarks_inv_rename)
next
  case (BRead session name late now)
  have "length (set_remove q (recently_evicted st)) \<le> max_recently_evicted" for q
    using inv by (simp add: set_remove_def bookmarks_inv_def length_filter_bound)
  with BRead show ?thesis using assms
    by (auto simp: cursor_read_and_advance_at_def Let_def bookmarks_inv_def bookmark_wf_def
        intro!: list_all_hm_insert split: option.split)
next
  case (BCommit h s late now)
  have "bookmark_wf (k, b) \<Longrightarrow> bookmark_wf (k, b\<lparr>bm_seq := s, bm_late_mark := late\<rparr>)" for k b
    by (auto simp: bookmark_wf_def)
  with BCommit show ?thesis using assms
    by (auto simp: commit_cursor_def bookmarks_inv_def bookmark_wf_def
        intro!: list_all_hm_insert list_all_hm_update split: option.split)
qed

lemma bookmarks_inv_run:
  "bookmarks_inv st \<Longrightarrow> list_all action_ok acts \<Longrightarrow> bookmarks_inv (fold bookmark_apply acts st)"
  by (induction acts arbitrary: st) (simp_all add: bookmarks_inv_apply)

lemma bookmarks_inv_new: "bookmarks_inv bookmark_store_new"
  by (simp add: bookmarks_inv_def bookmark_store_new_def)

section \<open>Renaming a session\<close>

lemma move_bookmarks_effect:
  assumes "CHR ''/'' \<notin> set old" and "CHR ''/'' \<notin> set new" and "old \<noteq> new"
  shows "distinct ns \<Longrightarrow> \<forall>n\<in>set ns. \<exists>b. map_of m (qualified_name old n) = Some b \<and> bm_name b = n \<Longrightarrow>
    \<exists>m'. move_bookmarks new (map (qualified_name old) ns) m = Some m' \<and>
      (\<forall>n\<in>set ns. map_of m' (qualified_name new n) = map_option (rehome new) (map_of m (qualified_name old n))) \<and>
      (\<forall>n\<in>set ns. map_of m' (qualified_name old n) = None) \<and>
      (\<forall>q. q \<notin> qualified_name new ` set ns \<union> qualified_name old ` set ns \<longrightarrow> map_of m' q = map_of m q)"
proof (induction ns arbitrary: m)
  case (Cons n ns)
  note qn = qualified_name_inj [OF assms(1,1)] qualified_name_inj [OF assms(2,2)] qualified_name_inj [OF assms(1,2)]
    qualified_name_inj [OF assms(2,1)]
  obtain b where b: "map_of m (qualified_name old n) = Some b" "bm_name b = n" using Cons.prems by auto
  define m1 where "m1 = hm_insert (qualified_name new n) (rehome new b) (hm_remove (qualified_name old n) m)"
  have m1: "move_bookmark new (qualified_name old n) m = Some m1"
    using move_bookmark_Some [OF b(1), of new] b(2) by (simp add: m1_def)
  have at1: "map_of m1 q = (if q = qualified_name new n then Some (rehome new b)
      else if q = qualified_name old n then None else map_of m q)" for q
    by (simp add: m1_def)
  have "\<forall>k\<in>set ns. \<exists>b. map_of m1 (qualified_name old k) = Some b \<and> bm_name b = k"
    using Cons.prems assms(3) by (auto simp: at1 qn)
  with Cons.IH [of m1] Cons.prems(1) obtain m' where m': "move_bookmarks new (map (qualified_name old) ns) m1 = Some m'"
    "\<forall>k\<in>set ns. map_of m' (qualified_name new k) = map_option (rehome new) (map_of m1 (qualified_name old k))"
    "\<forall>k\<in>set ns. map_of m' (qualified_name old k) = None"
    "\<forall>q. q \<notin> qualified_name new ` set ns \<union> qualified_name old ` set ns \<longrightarrow> map_of m' q = map_of m1 q"
    by auto
  have nn: "n \<notin> set ns" using Cons.prems(1) by simp
  have out: "qualified_name new n \<notin> qualified_name new ` set ns \<union> qualified_name old ` set ns"
    "qualified_name old n \<notin> qualified_name new ` set ns \<union> qualified_name old ` set ns"
    using nn assms(3) by (auto simp: qn)
  show ?case
  proof (intro exI conjI)
    show "move_bookmarks new (map (qualified_name old) (n # ns)) m = Some m'" using m1 m'(1) by simp
    show "\<forall>k\<in>set (n # ns). map_of m' (qualified_name new k) = map_option (rehome new) (map_of m (qualified_name old k))"
      using m'(2,4) out(1) nn assms(3) b by (auto simp: at1 qn)
    show "\<forall>k\<in>set (n # ns). map_of m' (qualified_name old k) = None"
      using m'(3,4) out(2) assms(3) by (auto simp: at1 qn)
    show "\<forall>q. q \<notin> qualified_name new ` set (n # ns) \<union> qualified_name old ` set (n # ns) \<longrightarrow> map_of m' q = map_of m q"
      using m'(4) by (simp add: at1)
  qed
qed simp

lemma session_keys:
  assumes "bookmarks_inv st"
  shows "map fst (filter (\<lambda>kb. bm_session (snd kb) = old) (bookmarks st))
    = map (qualified_name old) (map (bm_name \<circ> snd) (filter (\<lambda>kb. bm_session (snd kb) = old) (bookmarks st)))"
  using assms by (auto simp: bookmarks_inv_def list_all_iff bookmark_wf_def)

lemma get_wf:
  assumes "bookmarks_inv st" and "bookmark_get q st = Some b"
  shows "q = qualified_name (bm_session b) (bm_name b) \<and> CHR ''/'' \<notin> set (bm_session b)"
  using assms map_of_SomeD [of "bookmarks st" q b]
  by (fastforce simp: bookmarks_inv_def bookmark_get_def list_all_iff bookmark_wf_def)

lemma get_named:
  assumes "bookmarks_inv st" and "CHR ''/'' \<notin> set s" and "bookmark_get (qualified_name s n) st = Some b"
  shows "bm_session b = s \<and> bm_name b = n"
  using get_wf [OF assms(1,3)] qualified_name_inj [OF assms(2), of "bm_session b" n "bm_name b"] by simp

definition names_in :: "string \<Rightarrow> bookmark_store \<Rightarrow> string list" where
  "names_in session st = map (bm_name \<circ> snd) (filter (\<lambda>kb. bm_session (snd kb) = session) (bookmarks st))"

lemma names_in_get:
  assumes inv: "bookmarks_inv st" and sl: "CHR ''/'' \<notin> set s"
  shows "n \<in> set (names_in s st) \<longleftrightarrow> bookmark_get (qualified_name s n) st \<noteq> None"
proof
  assume "n \<in> set (names_in s st)"
  then obtain kb where kb: "kb \<in> set (bookmarks st)" "bm_session (snd kb) = s" "bm_name (snd kb) = n"
    by (auto simp: names_in_def)
  then have "bookmark_wf kb" using inv by (simp add: bookmarks_inv_def list_all_iff)
  then have "fst kb = qualified_name s n" using kb by (auto simp: bookmark_wf_def)
  then have "qualified_name s n \<in> fst ` set (bookmarks st)" using kb(1) by (metis image_eqI)
  then show "bookmark_get (qualified_name s n) st \<noteq> None" by (simp add: bookmark_get_def map_of_eq_None_iff)
next
  assume "bookmark_get (qualified_name s n) st \<noteq> None"
  then obtain b where b: "bookmark_get (qualified_name s n) st = Some b" by blast
  have "bm_session b = s" "bm_name b = n" using get_named [OF inv sl b] by simp_all
  moreover have "(qualified_name s n, b) \<in> set (bookmarks st)" using b by (simp add: bookmark_get_def map_of_SomeD)
  ultimately show "n \<in> set (names_in s st)" by (force simp: names_in_def)
qed

lemma names_in_named:
  assumes inv: "bookmarks_inv st" and sl: "CHR ''/'' \<notin> set s" and n: "n \<in> set (names_in s st)"
  shows "\<exists>b. map_of (bookmarks st) (qualified_name s n) = Some b \<and> bm_name b = n"
proof -
  obtain b where b: "bookmark_get (qualified_name s n) st = Some b"
    using names_in_get [OF inv sl] n by blast
  from get_named [OF inv sl b] b show ?thesis by (simp add: bookmark_get_def)
qed

lemma distinct_names_in: "bookmarks_inv st \<Longrightarrow> distinct (names_in s st)"
proof -
  assume inv: "bookmarks_inv st"
  then have "distinct (map fst (filter (\<lambda>kb. bm_session (snd kb) = s) (bookmarks st)))"
    by (simp add: bookmarks_inv_def)
  then have "distinct (map (qualified_name s) (names_in s st))"
    unfolding session_keys [OF inv] names_in_def .
  then show ?thesis using distinct_map by blast
qed

lemma rename_moves:
  assumes inv: "bookmarks_inv st" and sl: "CHR ''/'' \<notin> set old" "CHR ''/'' \<notin> set new" and ne: "old \<noteq> new"
  obtains st' where "rename_session old new st = Some (length (names_in old st), st')"
    and "\<forall>n\<in>set (names_in old st). bookmark_get (qualified_name new n) st' = map_option (rehome new) (bookmark_get (qualified_name old n) st)"
    and "\<forall>n\<in>set (names_in old st). bookmark_get (qualified_name old n) st' = None"
    and "\<forall>q. q \<notin> qualified_name new ` set (names_in old st) \<union> qualified_name old ` set (names_in old st)
           \<longrightarrow> bookmark_get q st' = bookmark_get q st"
proof -
  have "\<forall>n\<in>set (names_in old st). \<exists>b. map_of (bookmarks st) (qualified_name old n) = Some b \<and> bm_name b = n"
    using names_in_named [OF inv sl(1)] by blast
  from move_bookmarks_effect [OF sl ne distinct_names_in [OF inv] this]
  obtain m' where m': "move_bookmarks new (map (qualified_name old) (names_in old st)) (bookmarks st) = Some m'"
    "\<forall>n\<in>set (names_in old st). map_of m' (qualified_name new n) = map_option (rehome new) (map_of (bookmarks st) (qualified_name old n))"
    "\<forall>n\<in>set (names_in old st). map_of m' (qualified_name old n) = None"
    "\<forall>q. q \<notin> qualified_name new ` set (names_in old st) \<union> qualified_name old ` set (names_in old st) \<longrightarrow> map_of m' q = map_of (bookmarks st) q"
    by blast
  have keys: "map fst (filter (\<lambda>kb. bm_session (snd kb) = old) (bookmarks st)) = map (qualified_name old) (names_in old st)"
    unfolding names_in_def by (rule session_keys [OF inv])
  show ?thesis
    by (rule that [of "st\<lparr>bookmarks := m', recently_evicted := fold (move_evicted (old @ ''/'') new)
          (filter (\<lambda>q. starts_with q (old @ ''/'')) (recently_evicted st)) (recently_evicted st)\<rparr>"])
      (unfold rename_session_def Let_def keys m'(1) bookmark_get_def, use ne m'(2-4) in simp_all)
qed

lemma rename_effect:
  assumes inv: "bookmarks_inv st" and sl: "CHR ''/'' \<notin> set old" "CHR ''/'' \<notin> set new" and ne: "old \<noteq> new"
  obtains st' where "rename_session old new st = Some (length (names_in old st), st')"
    and "\<And>n. bookmark_get (qualified_name new n) st' =
      (case bookmark_get (qualified_name old n) st of Some b \<Rightarrow> Some (rehome new b)
       | None \<Rightarrow> bookmark_get (qualified_name new n) st)"
    and "\<And>n. bookmark_get (qualified_name old n) st' = None"
    and "\<And>s n. CHR ''/'' \<notin> set s \<Longrightarrow> s \<noteq> old \<Longrightarrow> s \<noteq> new \<Longrightarrow>
       bookmark_get (qualified_name s n) st' = bookmark_get (qualified_name s n) st"
proof -
  from rename_moves [OF assms] obtain st' where st': "rename_session old new st = Some (length (names_in old st), st')"
    and moved: "\<And>n. n \<in> set (names_in old st) \<Longrightarrow>
      bookmark_get (qualified_name new n) st' = map_option (rehome new) (bookmark_get (qualified_name old n) st)"
    and gone: "\<And>n. n \<in> set (names_in old st) \<Longrightarrow> bookmark_get (qualified_name old n) st' = None"
    and other: "\<And>q. q \<notin> qualified_name new ` set (names_in old st) \<union> qualified_name old ` set (names_in old st)
           \<Longrightarrow> bookmark_get q st' = bookmark_get q st"
    by metis
  have out: "qualified_name s n \<notin> qualified_name new ` set (names_in old st) \<union> qualified_name old ` set (names_in old st)"
    if "CHR ''/'' \<notin> set s" "s \<noteq> old \<and> s \<noteq> new \<or> n \<notin> set (names_in old st)" for s n
    using that by (auto simp: qualified_name_inj sl)
  show ?thesis
  proof (rule that [OF st'])
    fix n
    show "bookmark_get (qualified_name new n) st' =
      (case bookmark_get (qualified_name old n) st of Some b \<Rightarrow> Some (rehome new b)
       | None \<Rightarrow> bookmark_get (qualified_name new n) st)"
      using moved [of n] other [OF out [OF sl(2), of n]] names_in_get [OF inv sl(1), of n]
      by (cases "bookmark_get (qualified_name old n) st") simp_all
    show "bookmark_get (qualified_name old n) st' = None"
      using gone [of n] other [OF out [OF sl(1), of n]] names_in_get [OF inv sl(1), of n]
      by (cases "n \<in> set (names_in old st)") simp_all
  next
    fix s n
    assume "CHR ''/'' \<notin> set s" "s \<noteq> old" "s \<noteq> new"
    then show "bookmark_get (qualified_name s n) st' = bookmark_get (qualified_name s n) st"
      using other [OF out] by blast
  qed
qed

section \<open>Sweeping\<close>

lemma sweep_effect:
  assumes "bookmarks_inv st"
  shows "bookmark_get q (sweep l s st) =
    (case bookmark_get q st of None \<Rightarrow> None
     | Some b \<Rightarrow> if should_evict (bm_seq b) l s then None else Some b)"
  using assms map_of_filter_distinct [of "bookmarks st" "\<lambda>kb. \<not> should_evict (bm_seq (snd kb)) l s" q]
  by (auto simp: bookmark_get_def sweep_def Let_def bookmarks_inv_def split: option.split)

lemma should_evict_iff:
  "should_evict s l sp \<longleftrightarrow> sat_add s 1 < l \<and> sat_add s 1 < sp"
  by (simp add: should_evict_def Let_def evicted_below_def)

section \<open>Commits\<close>

definition position_of :: "string \<Rightarrow> bookmark_store \<Rightarrow> (u64 \<times> u64 \<times> u64) option" where
  "position_of q st = map_option (\<lambda>b. (bm_seq b, bm_late_mark b, bm_floor b)) (bookmark_get q st)"

lemma commit_effect:
  "bookmark_get q (commit_cursor h s late now st) =
     (if q \<noteq> cc_qualified_name h \<or> (s = cc_lower_bound h \<and> late = cc_late_mark h) then bookmark_get q st
      else case bookmark_get q st of
        Some b \<Rightarrow> Some (if bm_seq b = cc_lower_bound h \<and> bm_late_mark b = cc_late_mark h
                         then b\<lparr>bm_seq := s, bm_late_mark := late\<rparr> else b)
      | None \<Rightarrow> if s = cc_lower_bound h then None else
          Some \<lparr>bm_qualified_name = cc_qualified_name h, bm_name = cc_name h, bm_session = cc_session h,
                bm_seq = s, bm_created_at = now, bm_description = None, bm_late_mark = late, bm_floor = cc_floor h\<rparr>)"
  by (auto simp: bookmark_get_def commit_cursor_def split: option.split)

lemma read_effect:
  assumes "cursor_read_and_advance_at session name late now st = ((lb, h), st')"
  shows "cc_qualified_name h = qualified_name session name \<and> cc_session h = session \<and> cc_name h = name \<and>
    lb = cc_lower_bound h \<and> position_of (qualified_name session name) st' = Some (lb, cc_late_mark h, cc_floor h) \<and>
    (q \<noteq> qualified_name session name \<longrightarrow> bookmark_get q st' = bookmark_get q st) \<and>
    (bookmark_get (qualified_name session name) st \<noteq> None \<longrightarrow> st' = st)"
  using assms
  by (auto simp: cursor_read_and_advance_at_def Let_def position_of_def bookmark_get_def split: option.splits)

section \<open>Resolution\<close>

lemma qualify_has_slash: "CHR ''/'' \<in> set (qualify name cs)"
  by (simp add: qualify_def qualified_name_def)

lemma split_qualify:
  assumes "CHR ''/'' \<notin> set cs"
  obtains s n where "split_once (CHR ''/'') (qualify name cs) = Some (s, n)"
    and "CHR ''/'' \<notin> set s" and "qualify name cs = qualified_name s n"
proof -
  obtain i where "str_find (CHR ''/'') (qualify name cs) = Some i"
    using qualify_has_slash str_find_None by (metis not_None_eq)
  then obtain s n where sn: "split_once (CHR ''/'') (qualify name cs) = Some (s, n)" by (simp add: split_once_def)
  from split_once_Some [OF this] show ?thesis by (intro that [OF sn]) (auto simp: qualified_name_def)
qed

text \<open>
  What a qualifier of a written filter means for a record: \<open>b>=name\<close> is strictly after the
  bookmark, \<open>b<=name\<close> strictly before it, a cursor strictly after its position.
\<close>

definition meaning :: "string \<Rightarrow> bookmark_store \<Rightarrow> match_env \<Rightarrow> log_entry \<Rightarrow> qualifier \<Rightarrow> bool" where
  "meaning cs st env e q =
     (case q of
        BookmarkFilter op name \<Rightarrow>
          (case bookmark_get (qualify name cs) st of None \<Rightarrow> False
           | Some b \<Rightarrow> (case op of BGte \<Rightarrow> bm_seq b < le_seq e | BLte \<Rightarrow> le_seq e < bm_seq b))
      | CursorFilter name \<Rightarrow>
          (case bookmark_get (qualify name cs) st of None \<Rightarrow> False | Some b \<Rightarrow> bm_seq b < le_seq e)
      | _ \<Rightarrow> matches_qualifier env q e)"

definition is_unresolved :: "qualifier \<Rightarrow> bool" where
  "is_unresolved q = (case q of BookmarkFilter _ _ \<Rightarrow> True | CursorFilter _ \<Rightarrow> True | _ \<Rightarrow> False)"

definition own_session :: "string \<Rightarrow> string \<Rightarrow> bool" where
  "own_session cs q \<longleftrightarrow> (\<exists>n. q = qualified_name cs n)"

lemma resolve_loop_plain:
  "\<not> is_unresolved q \<Longrightarrow> resolve_loop cs late now (q # qs) out c st = resolve_loop cs late now qs (out @ [q]) c st"
  by (cases q) (simp_all add: is_unresolved_def)

text \<open>The cases of one iteration of the loop.\<close>

lemma resolve_loop_Cons:
  assumes cs: "CHR ''/'' \<notin> set cs" and loop: "resolve_loop cs late now (q # qs) out c st = (r, st')"
  obtains (error) err where "r = Inl err" "st' = st" "err \<noteq> NoSlash"
      "(\<exists>op name. q = BookmarkFilter op name \<and> err = ResolveNotFound (qualify name cs) \<and> bookmark_get (qualify name cs) st = None)
       \<or> (\<exists>name. q = CursorFilter name \<and> err = CrossSessionCursorAdvance (qualify name cs) \<and> \<not> own_session cs (qualify name cs))"
  | (bookmark) op name b where "q = BookmarkFilter op name" "bookmark_get (qualify name cs) st = Some b"
      "resolve_loop cs late now qs (out @ [SeqFilter (bookmark_seq_op op) (bm_seq b)]) c st = (r, st')"
  | (cursor) name n lower h st1 where "q = CursorFilter name" "qualify name cs = qualified_name cs n"
      "cursor_read_and_advance_at cs n late now st = ((lower, h), st1)"
      "resolve_loop cs late now qs (out @ [CursorSeq lower]) (Some h) st1 = (r, st')"
  | (plain) "\<not> is_unresolved q" "resolve_loop cs late now qs (out @ [q]) c st = (r, st')"
proof (cases "is_unresolved q")
  case False
  then show ?thesis using plain loop resolve_loop_plain by simp
next
  case True
  then consider (b) op name where "q = BookmarkFilter op name" | (c) name where "q = CursorFilter name"
    by (cases q) (auto simp: is_unresolved_def)
  then show ?thesis
  proof cases
    case (b op name)
    show ?thesis
    proof (cases "bookmark_get (qualify name cs) st")
      case None
      then show ?thesis using error loop b by simp
    next
      case (Some bm)
      then show ?thesis using bookmark loop b by simp
    qed
  next
    case (c name)
    obtain s n where sn: "split_once (CHR ''/'') (qualify name cs) = Some (s, n)"
      "CHR ''/'' \<notin> set s" "qualify name cs = qualified_name s n" by (rule split_qualify [OF cs])
    show ?thesis
    proof (cases "s = cs")
      case True
      obtain lower h st1 where "cursor_read_and_advance_at cs n late now st = ((lower, h), st1)"
        by (metis prod.collapse)
      then show ?thesis using cursor [of name n] loop c sn True by simp
    next
      case False
      then have "\<not> own_session cs (qualify name cs)"
        using sn(2,3) cs by (auto simp: own_session_def qualified_name_inj)
      then show ?thesis using error loop c sn False by simp
    qed
  qed
qed

lemma resolve_loop_store:
  "CHR ''/'' \<notin> set cs \<Longrightarrow> resolve_loop cs late now qs out c st = (r, st') \<Longrightarrow>
   (\<forall>q b. bookmark_get q st = Some b \<longrightarrow> bookmark_get q st' = Some b) \<and>
   (\<forall>q. \<not> own_session cs q \<longrightarrow> bookmark_get q st' = bookmark_get q st)"
proof (induction qs arbitrary: out c st)
  case (Cons q qs)
  from Cons.prems(1,2) show ?case
  proof (cases rule: resolve_loop_Cons)
    case (cursor name n lower h st1)
    have "bookmark_get k st = Some b \<Longrightarrow> bookmark_get k st1 = Some b" for k b
      using read_effect [OF cursor(3)] by (metis option.discI)
    moreover have "\<not> own_session cs k \<Longrightarrow> bookmark_get k st1 = bookmark_get k st" for k
      using read_effect [OF cursor(3), of k] by (auto simp: own_session_def)
    ultimately show ?thesis using Cons.IH [OF Cons.prems(1) cursor(4)] by metis
  qed (use Cons in auto)
qed simp

lemma resolve_loop_error:
  "CHR ''/'' \<notin> set cs \<Longrightarrow> resolve_loop cs late now qs out c st = (Inl err, st') \<Longrightarrow>
   (\<exists>op name. BookmarkFilter op name \<in> set qs \<and> err = ResolveNotFound (qualify name cs) \<and> bookmark_get (qualify name cs) st = None)
   \<or> (\<exists>name. CursorFilter name \<in> set qs \<and> err = CrossSessionCursorAdvance (qualify name cs) \<and> \<not> own_session cs (qualify name cs))"
proof (induction qs arbitrary: out c st)
  case (Cons q qs)
  from Cons.prems(1,2) show ?case
  proof (cases rule: resolve_loop_Cons)
    case (cursor name n lower h st1)
    have "bookmark_get k st1 = None \<Longrightarrow> bookmark_get k st = None" for k
      using read_effect [OF cursor(3)] by (metis not_None_eq)
    then show ?thesis using Cons.IH [OF Cons.prems(1) cursor(4)] by auto
  next
    case (bookmark op name b)
    then show ?thesis using Cons.IH [OF Cons.prems(1) bookmark(3)] by auto
  next
    case plain
    then show ?thesis using Cons.IH [OF Cons.prems(1) plain(2)] by auto
  qed auto
qed simp

lemma bookmark_meaning:
  "bookmark_get (qualify name cs) st = Some b \<Longrightarrow>
   matches_qualifier env (SeqFilter (bookmark_seq_op op) (bm_seq b)) e = meaning cs st env e (BookmarkFilter op name)"
  by (cases op) (simp_all add: meaning_def matches_qualifier_def bookmark_seq_op_def matches_seq_def)

lemma resolve_loop_matches:
  "CHR ''/'' \<notin> set cs \<Longrightarrow> resolve_loop cs late now qs out c st = (Inr (res, c'), st') \<Longrightarrow>
   (list_all (\<lambda>q. matches_qualifier env q e) res \<longleftrightarrow>
      list_all (\<lambda>q. matches_qualifier env q e) out \<and> list_all (meaning cs st' env e) qs)
   \<and> (\<not> list_ex is_unresolved out \<longrightarrow> \<not> list_ex is_unresolved res)"
proof (induction qs arbitrary: out c st)
  case (Cons q qs)
  note keep = resolve_loop_store [OF Cons.prems(1)]
  from Cons.prems(1,2) show ?case
  proof (cases rule: resolve_loop_Cons)
    case (bookmark op name b)
    then have "bookmark_get (qualify name cs) st' = Some b" using keep by blast
    from bookmark_meaning [OF this] Cons.IH [OF Cons.prems(1) bookmark(3)] bookmark(1) show ?thesis
      by (auto simp: is_unresolved_def)
  next
    case (cursor name n lower h st1)
    obtain b where b: "bookmark_get (qualify name cs) st1 = Some b" "bm_seq b = lower"
      using read_effect [OF cursor(3), of undefined] cursor(2) by (auto simp: position_of_def)
    then have "bookmark_get (qualify name cs) st' = Some b" using keep [OF cursor(4)] by blast
    then have "matches_qualifier env (CursorSeq lower) e = meaning cs st' env e q"
      using b(2) cursor(1) by (simp add: meaning_def matches_qualifier_def)
    then show ?thesis using Cons.IH [OF Cons.prems(1) cursor(4)] by (auto simp: is_unresolved_def)
  next
    case plain
    then have "matches_qualifier env q e = meaning cs st' env e q"
      by (cases q) (simp_all add: meaning_def is_unresolved_def)
    then show ?thesis using Cons.IH [OF Cons.prems(1) plain(2)] plain(1) by auto
  qed simp
qed simp

lemma resolve_loop_commit:
  "CHR ''/'' \<notin> set cs \<Longrightarrow> resolve_loop cs late now qs out None st = (Inr (res, c'), st') \<Longrightarrow>
   \<not> list_ex is_cursor qs \<Longrightarrow> c' = None \<and> st' = st"
proof (induction qs arbitrary: out st)
  case (Cons q qs)
  from Cons.prems(1,2) show ?case
    by (cases rule: resolve_loop_Cons) (use Cons in \<open>auto simp: is_cursor_def\<close>)
qed simp

section \<open>Properties\<close>

text \<open>
  The bookmark store stays consistent. After any run of additions, restores, removals,
  sweeps, session clears and renames, cursor reads and commits, no two entries share a name,
  every entry stands under its own session's qualified name, and the record of evicted names
  holds no duplicate and at most \<open>MAX_RECENTLY_EVICTED\<close> of them.
\<close>

theorem bookmark_store_invariant:
  assumes "list_all action_ok acts"
  shows "bookmarks_inv (fold bookmark_apply acts bookmark_store_new)"
  by (rule bookmarks_inv_run [OF bookmarks_inv_new assms])

theorem bookmark_store_invariant_witness:
  "bookmarks_inv (fold bookmark_apply
     [BAdd ''A'' ''x'' 5 0 None False 0, BRead ''B'' ''c'' 3 0, BRename ''A'' ''B'', BSweep 9 9] bookmark_store_new)"
  using bookmark_store_invariant
    [of "[BAdd ''A'' ''x'' 5 0 None False 0, BRead ''B'' ''c'' 3 0, BRename ''A'' ''B'', BSweep 9 9]"] by simp

text \<open>
  A rename takes the session's bookmarks along (C36). In a consistent store, renaming \<open>old\<close> to \<open>new\<close> never hits the
  \<open>expect\<close> of the move; afterwards each bookmark of \<open>old\<close> is found under \<open>new\<close> with its seq, late
  mark, floor and description unchanged, \<open>old\<close> has none, a bookmark \<open>new\<close> already had stays
  unless one of the same name moved onto it, and no other session is touched.
\<close>

theorem rename_moves_bookmarks:
  assumes "bookmarks_inv st" and "CHR ''/'' \<notin> set old" and "CHR ''/'' \<notin> set new" and "old \<noteq> new"
  shows "\<exists>k st'. rename_session old new st = Some (k, st') \<and>
    bookmark_get (qualified_name new n) st' =
      (case bookmark_get (qualified_name old n) st of
         Some b \<Rightarrow> Some (b\<lparr>bm_session := new, bm_qualified_name := qualified_name new n\<rparr>)
       | None \<Rightarrow> bookmark_get (qualified_name new n) st) \<and>
    bookmark_get (qualified_name old n) st' = None \<and>
    (\<forall>s. CHR ''/'' \<notin> set s \<and> s \<noteq> old \<and> s \<noteq> new \<longrightarrow>
       bookmark_get (qualified_name s n) st' = bookmark_get (qualified_name s n) st)"
proof -
  from rename_effect [OF assms] obtain st' where st': "rename_session old new st = Some (length (names_in old st), st')"
    "bookmark_get (qualified_name new n) st' = (case bookmark_get (qualified_name old n) st of Some b \<Rightarrow> Some (rehome new b)
       | None \<Rightarrow> bookmark_get (qualified_name new n) st)"
    "bookmark_get (qualified_name old n) st' = None"
    "\<And>s. CHR ''/'' \<notin> set s \<Longrightarrow> s \<noteq> old \<Longrightarrow> s \<noteq> new \<Longrightarrow> bookmark_get (qualified_name s n) st' = bookmark_get (qualified_name s n) st"
    by metis
  have "rehome new b = b\<lparr>bm_session := new, bm_qualified_name := qualified_name new n\<rparr>"
    if "bookmark_get (qualified_name old n) st = Some b" for b
    using get_named [OF assms(1,2) that] by (simp add: rehome_def)
  with st' show ?thesis by (intro exI [of _ "length (names_in old st)"] exI [of _ st']) (auto split: option.split)
qed

definition demo_bookmarks :: bookmark_store where
  "demo_bookmarks = fold bookmark_apply [BAdd ''A'' ''x'' 5 0 None False 0] bookmark_store_new"

lemma demo_bookmarks_ok:
  "bookmarks_inv demo_bookmarks" "map_option bm_seq (bookmark_get ''A/x'' demo_bookmarks) = Some 5"
  unfolding demo_bookmarks_def
  by (rule bookmarks_inv_run [OF bookmarks_inv_new], simp, code_simp)

theorem rename_moves_bookmarks_witness:
  "\<exists>k st'. rename_session ''A'' ''B'' demo_bookmarks = Some (k, st') \<and> bookmark_get (qualified_name ''A'' ''x'') st' = None
     \<and> map_option bm_seq (bookmark_get (qualified_name ''B'' ''x'') st') = Some 5"
proof -
  have "map_option bm_seq (bookmark_get (qualified_name ''A'' ''x'') demo_bookmarks) = Some 5"
    using demo_bookmarks_ok(2) by (simp add: qualified_name_def)
  then show ?thesis using rename_moves_bookmarks [OF demo_bookmarks_ok(1), of "''A''" "''B''" "''x''"] by auto
qed

text \<open>
  (C19) Racing cursor reads. When two reads of one cursor begin at the same position and both move
  it, the commit that comes first decides: the cursor stands where that read left it, the other
  commit changes nothing, and the cursor's floor and every other bookmark are as they were.
\<close>

theorem racing_commits_land_once:
  assumes "cursor_read_and_advance_at session name late now st = ((lb1, h1), st1)"
    and "cursor_read_and_advance_at session name late' now' st1 = ((lb2, h2), st2)"
    and "s1 \<noteq> lb1 \<or> m1 \<noteq> cc_late_mark h1" and "s2 \<noteq> lb2 \<or> m2 \<noteq> cc_late_mark h2"
  shows "position_of (qualified_name session name) (commit_cursor h2 s2 m2 t2 (commit_cursor h1 s1 m1 t1 st2))
      = Some (s1, m1, cc_floor h1)
    \<and> position_of (qualified_name session name) (commit_cursor h1 s1 m1 t1 (commit_cursor h2 s2 m2 t2 st2))
      = Some (s2, m2, cc_floor h1)
    \<and> (q \<noteq> qualified_name session name \<longrightarrow>
        bookmark_get q (commit_cursor h2 s2 m2 t2 (commit_cursor h1 s1 m1 t1 st2)) = bookmark_get q st)"
proof -
  let ?q = "qualified_name session name"
  note r1 = read_effect [OF assms(1), of q] and r2 = read_effect [OF assms(2), of q]
  obtain b where b: "bookmark_get ?q st1 = Some b" "bm_seq b = lb1" "bm_late_mark b = cc_late_mark h1" "bm_floor b = cc_floor h1"
    using r1 by (auto simp: position_of_def)
  have st2: "st2 = st1" using r2 b(1) by simp
  have same: "lb2 = lb1" "cc_late_mark h2 = cc_late_mark h1" "cc_floor h2 = cc_floor h1"
    using r2 b unfolding st2 by (auto simp: position_of_def)
  show ?thesis
    using r1 r2 b same assms(3,4) unfolding st2 position_of_def commit_effect by auto
qed

definition demo_handle :: cursor_commit where
  "demo_handle = \<lparr>cc_qualified_name = ''A/x'', cc_session = ''A'', cc_name = ''x'', cc_lower_bound = 5,
     cc_late_mark = 0, cc_floor = 5\<rparr>"

theorem racing_commits_land_once_witness:
  "position_of (qualified_name ''A'' ''x'') (commit_cursor demo_handle 9 2 0 (commit_cursor demo_handle 7 1 0 demo_bookmarks))
     = Some (7, 1, 5)"
proof -
  have v: "cursor_read_and_advance_at ''A'' ''x'' 0 0 demo_bookmarks = ((5, demo_handle), demo_bookmarks)"
    by code_simp
  show ?thesis using racing_commits_land_once [OF v v, of 7 1 9 2] by (simp add: demo_handle_def)
qed

text \<open>
  (C20) Resolution keeps the meaning of a filter. A resolved filter holds no bookmark or cursor
  qualifier, and it matches a record exactly when every qualifier of the written filter holds of
  it, \<open>b>=\<close> and \<open>b<=\<close> as strictly after and before the bookmark's seq and \<open>c>=\<close> as strictly
  after the cursor's, in the store as resolution left it. Resolution changes or moves no existing
  bookmark and touches no other session's name, also when it fails; it fails only for a bookmark
  that is not there or a cursor of another session, and never panics.
\<close>

theorem resolution_correct:
  assumes "CHR ''/'' \<notin> set cs" and "resolve_bookmarks_at (Qualifiers qs) cs late now st = (r, st')"
  shows "(case r of
      Inr rf \<Rightarrow> (matches_entry env (rf_filter rf) e \<longleftrightarrow> list_all (meaning cs st' env e) qs)
        \<and> (\<exists>res. rf_filter rf = Qualifiers res \<and> \<not> list_ex is_unresolved res)
    | Inl err \<Rightarrow>
        (\<exists>op name. BookmarkFilter op name \<in> set qs \<and> err = ResolveNotFound (qualify name cs) \<and> bookmark_get (qualify name cs) st = None)
        \<or> (\<exists>name. CursorFilter name \<in> set qs \<and> err = CrossSessionCursorAdvance (qualify name cs) \<and> \<not> own_session cs (qualify name cs)))
    \<and> (\<forall>q b. bookmark_get q st = Some b \<longrightarrow> bookmark_get q st' = Some b)
    \<and> (\<forall>q. \<not> own_session cs q \<longrightarrow> bookmark_get q st' = bookmark_get q st)"
proof -
  obtain x where x: "resolve_loop cs late now qs [] None st = (x, st')"
    "r = (case x of Inl e \<Rightarrow> Inl e | Inr (out, c) \<Rightarrow> Inr \<lparr>rf_filter = Qualifiers out, rf_cursor_commit = c\<rparr>)"
    using assms(2) by (auto simp: resolve_bookmarks_at_def split: prod.splits sum.splits)
  show ?thesis
  proof (cases x)
    case (Inl err)
    then show ?thesis
      using x resolve_loop_store [OF assms(1) x(1)] resolve_loop_error [OF assms(1)] by auto
  next
    case (Inr oc)
    then obtain out c where oc: "x = Inr (out, c)" by (cases oc) auto
    then show ?thesis
      using x resolve_loop_store [OF assms(1) x(1)] resolve_loop_matches [OF assms(1), of late now qs "[]" None st out c st' env e]
      by (auto simp: matches_entry_def)
  qed
qed

theorem resolution_correct_witness:
  "\<exists>rf st'. resolve_bookmarks_at (Qualifiers [BookmarkFilter BGte ''x'']) ''A'' 0 0 demo_bookmarks = (Inr rf, st')
     \<and> matches_entry demo_env (rf_filter rf) (demo_entry 6)"
proof -
  have v: "resolve_bookmarks_at (Qualifiers [BookmarkFilter BGte ''x'']) ''A'' 0 0 demo_bookmarks
    = (Inr \<lparr>rf_filter = Qualifiers [SeqFilter Gt 5], rf_cursor_commit = None\<rparr>, demo_bookmarks)" by code_simp
  have "bookmark_get (qualify ''x'' ''A'') demo_bookmarks = bookmark_get ''A/x'' demo_bookmarks"
    by (simp add: qualify_def qualified_name_def)
  then have "list_all (meaning ''A'' demo_bookmarks demo_env (demo_entry 6)) [BookmarkFilter BGte ''x'']"
    using demo_bookmarks_ok(2) by (auto simp: meaning_def)
  with resolution_correct [OF _ v, of demo_env "demo_entry 6"] show ?thesis unfolding v by auto
qed

end
