(* ===== verification/Span_Store.thy ===== *)
theory Span_Store
  imports Seq_Ring Filter_Matcher Epoch
begin

text \<open>
  The span ring of a domain (\<open>span/store.rs\<close>). The seq counter is shared with the log pipeline, so
  it is an argument and a result of \<open>span_insert\<close>; every other part of the state is in the record.
  Each operation runs under the ring's lock. The index is a function on trace ids. Reserving the
  ring's memory on the first insert has no effect on what the store holds.
\<close>

record span_store =
  sp_buffer :: "span_entry list"
  sp_index :: "u128 \<rightharpoonup> u64 list"
  sp_capacity :: nat
  sp_lost_below :: u64

record span_store_stats =
  ss_total_stored :: nat
  ss_total_traces :: nat
  ss_avg_duration_ms :: f64

definition span_position :: "u64 \<Rightarrow> span_store \<Rightarrow> nat option" where
  "span_position s st = binary_search_by_key sp_seq (sp_buffer st) s"

definition span_store_new :: "nat \<Rightarrow> span_store" where
  "span_store_new capacity = \<lparr>sp_buffer = [], sp_index = Map.empty, sp_capacity = capacity, sp_lost_below = 0\<rparr>"

definition span_index_push :: "u128 \<Rightarrow> u64 \<Rightarrow> (u128 \<rightharpoonup> u64 list) \<Rightarrow> (u128 \<rightharpoonup> u64 list)" where
  "span_index_push t s m = m(t \<mapsto> (case m t of None \<Rightarrow> [] | Some l \<Rightarrow> l) @ [s])"

text \<open>\<open>from_records\<close>; \<open>None\<close> is the failed assertion on the order of the spans.\<close>

definition span_from_records :: "nat \<Rightarrow> span_entry list \<Rightarrow> u64 \<Rightarrow> span_store option" where
  "span_from_records capacity spans lost_below =
     (if sorted_wrt (<) (map sp_seq spans)
      then Some \<lparr>sp_buffer = spans, sp_index = fold (\<lambda>s. span_index_push (sp_trace_id s) (sp_seq s)) spans Map.empty,
                 sp_capacity = max capacity (length spans), sp_lost_below = lost_below\<rparr>
      else None)"

text \<open>The evicted span leaves the index: \<open>retain(|&s| s != evicted.seq)\<close>, and an empty list goes.\<close>

definition index_evict :: "u128 \<Rightarrow> u64 \<Rightarrow> (u128 \<rightharpoonup> u64 list) \<Rightarrow> (u128 \<rightharpoonup> u64 list)" where
  "index_evict t s m =
     (case m t of None \<Rightarrow> m
      | Some l \<Rightarrow> (let l' = filter (\<lambda>x. x \<noteq> s) l in if l' = [] then m(t := None) else m(t \<mapsto> l')))"

definition evict_span :: "span_store \<Rightarrow> span_store" where
  "evict_span st =
     (if sp_capacity st \<le> length (sp_buffer st)
      then (case sp_buffer st of
              [] \<Rightarrow> st
            | ev # rest \<Rightarrow>
                st\<lparr>sp_buffer := rest, sp_lost_below := max (sp_lost_below st) (sat_add (sp_seq ev) 1),
                   sp_index := index_evict (sp_trace_id ev) (sp_seq ev) (sp_index st)\<rparr>)
      else st)"

definition span_insert :: "span_entry \<Rightarrow> seq_counter \<Rightarrow> span_store \<Rightarrow> u64 \<times> seq_counter \<times> span_store" where
  "span_insert sp0 c st =
     (let (s, c') = seq_next c; sp = sp0\<lparr>sp_seq := s\<rparr>
      in if sp_capacity st = 0
         then (s, c', st\<lparr>sp_lost_below := max (sp_lost_below st) (sat_add s 1)\<rparr>)
         else let st1 = evict_span st
              in (s, c', st1\<lparr>sp_index := span_index_push (sp_trace_id sp) s (sp_index st1),
                             sp_buffer := sp_buffer st1 @ [sp]\<rparr>))"

definition trace_spans :: "u128 \<Rightarrow> span_store \<Rightarrow> span_entry list" where
  "trace_spans t st =
     sort_key sp_start_time
       (case sp_index st t of None \<Rightarrow> [] | Some seqs \<Rightarrow> ring_lookup sp_seq (sp_buffer st) seqs)"

definition get_trace :: "u128 \<Rightarrow> span_store \<Rightarrow> span_entry list" where
  "get_trace t st = trace_spans t st"

definition opt_matches_span :: "match_env \<Rightarrow> parsed_filter option \<Rightarrow> span_entry \<Rightarrow> bool" where
  "opt_matches_span env f sp = (case f of None \<Rightarrow> True | Some p \<Rightarrow> matches_span env p sp)"

text \<open>
  \<open>sort_by\<close> with a comparison: a stable sort. For comparisons that are no total preorder (a NaN
  duration) the library promises no order; insertion is one.
\<close>

fun insert_by :: "('a \<Rightarrow> 'a \<Rightarrow> bool) \<Rightarrow> 'a \<Rightarrow> 'a list \<Rightarrow> 'a list" where
  "insert_by before x [] = [x]"
| "insert_by before x (y # ys) = (if before y x then y # insert_by before x ys else x # y # ys)"

definition sort_by :: "('a \<Rightarrow> 'a \<Rightarrow> bool) \<Rightarrow> 'a list \<Rightarrow> 'a list" where
  "sort_by before xs = foldr (insert_by before) xs []"

text \<open>\<open>b.partial_cmp(a)\<close> descending: \<open>y\<close> strictly before \<open>x\<close> when it is longer.\<close>

definition slow_spans :: "match_env \<Rightarrow> f64 \<Rightarrow> nat \<Rightarrow> parsed_filter option \<Rightarrow> span_store \<Rightarrow> span_entry list" where
  "slow_spans env min_duration_ms cnt f st =
     take cnt (sort_by (\<lambda>y x. f64_lt (sp_duration_ms x) (sp_duration_ms y))
       (filter (opt_matches_span env f) (filter (\<lambda>s. f64_le min_duration_ms (sp_duration_ms s)) (sp_buffer st))))"

text \<open>The spans \<open>for_each_matching\<close> hands to its closure; it returns their number.\<close>

definition span_for_each_matching :: "match_env \<Rightarrow> parsed_filter option \<Rightarrow> (span_entry \<Rightarrow> 'a \<Rightarrow> 'a) \<Rightarrow> 'a \<Rightarrow> span_store \<Rightarrow> 'a \<times> nat" where
  "span_for_each_matching env f g a st =
     fold (\<lambda>s (a, n). (g s a, n + 1)) (filter (opt_matches_span env f) (sp_buffer st)) (a, 0)"

definition duration_by_name :: "match_env \<Rightarrow> parsed_filter option \<Rightarrow> span_store \<Rightarrow> (string \<times> f64 list) list" where
  "duration_by_name env f st =
     fold (\<lambda>s m. case map_of m (sp_name s) of
             Some v \<Rightarrow> hm_update (sp_name s) (\<lambda>v. v @ [sp_duration_ms s]) m
           | None \<Rightarrow> hm_insert (sp_name s) [sp_duration_ms s] m)
       (filter (opt_matches_span env f) (sp_buffer st)) []"

text \<open>The first loop of \<open>recent_traces\<close>: the newest matching seq of each trace.\<close>

definition note_trace :: "span_entry \<Rightarrow> (u128 \<times> u64) list \<Rightarrow> (u128 \<times> u64) list" where
  "note_trace s m =
     (let m1 = (case map_of m (sp_trace_id s) of None \<Rightarrow> hm_insert (sp_trace_id s) 0 m | Some _ \<Rightarrow> m)
      in hm_update (sp_trace_id s) (\<lambda>e. if e < sp_seq s then sp_seq s else e) m1)"

definition is_error_status :: "span_status \<Rightarrow> bool" where
  "is_error_status st = (case st of SError _ \<Rightarrow> True | _ \<Rightarrow> False)"

text \<open>The summary of a trace from its spans in start order (never empty where it is asked).\<close>

definition summarize :: "string \<Rightarrow> u128 \<Rightarrow> span_entry list \<Rightarrow> u32 \<Rightarrow> trace_summary" where
  "summarize no_root t spans linked =
     (let root = find (\<lambda>s. sp_parent_span_id s = None) spans
      in \<lparr>ts_trace_id = t,
          ts_root_span_name = (case root of None \<Rightarrow> no_root | Some r \<Rightarrow> sp_name r),
          ts_service_name = (case root of None \<Rightarrow> ''unknown'' | Some r \<Rightarrow> sp_service_name r),
          ts_start_time = (case root of None \<Rightarrow> sp_start_time (hd spans) | Some r \<Rightarrow> sp_start_time r),
          ts_total_duration_ms = (case root of None \<Rightarrow> Fin 0 | Some r \<Rightarrow> sp_duration_ms r),
          ts_span_count = wrap32 (length spans),
          ts_has_errors = list_ex (\<lambda>s. is_error_status (sp_status s)) spans,
          ts_linked_log_count = linked\<rparr>)"

definition recent_traces ::
  "match_env \<Rightarrow> nat \<Rightarrow> parsed_filter option \<Rightarrow> (u128 \<Rightarrow> u32) \<Rightarrow> span_store \<Rightarrow> trace_summary list" where
  "recent_traces env cnt f linked st =
     (let newest = fold note_trace (filter (opt_matches_span env f) (sp_buffer st)) [];
          traces = take cnt (sort_by (\<lambda>y x. snd x < snd y) newest)
      in map (\<lambda>(t, _). summarize ''[no root]'' t (trace_spans t st) (linked t)) traces)"

definition span_range_with_floor :: "u64 \<Rightarrow> u64 \<Rightarrow> span_store \<Rightarrow> span_entry list \<times> u64" where
  "span_range_with_floor lo hi st = (ring_range sp_seq (sp_buffer st) lo hi, sp_lost_below st)"

definition span_context_by_seq :: "u64 \<Rightarrow> nat \<Rightarrow> nat \<Rightarrow> span_store \<Rightarrow> span_entry list option" where
  "span_context_by_seq s before after st = ring_context sp_seq (sp_buffer st) s before after"

text \<open>The size of the index is the number of traces that have an entry.\<close>

definition span_stats :: "span_store \<Rightarrow> span_store_stats" where
  "span_stats st =
     (let total = length (sp_buffer st)
      in \<lparr>ss_total_stored = total,
          ss_total_traces = length (remdups (filter (\<lambda>t. sp_index st t \<noteq> None) (map sp_trace_id (sp_buffer st)))),
          ss_avg_duration_ms =
            (if 0 < total then f64_div_nat (fold (\<lambda>s a. f64_add a (sp_duration_ms s)) (sp_buffer st) (Fin 0)) total
             else Fin 0)\<rparr>)"

definition span_clear :: "span_store \<Rightarrow> nat \<times> span_store" where
  "span_clear st =
     (length (sp_buffer st),
      st\<lparr>sp_lost_below := (if sp_buffer st = [] then sp_lost_below st
                            else max (sp_lost_below st) (sat_add (sp_seq (last (sp_buffer st))) 1)),
         sp_buffer := [], sp_index := Map.empty\<rparr>)"

definition span_newest_seq :: "span_store \<Rightarrow> u64 option" where
  "span_newest_seq st = (if sp_buffer st = [] then None else Some (sp_seq (last (sp_buffer st))))"

definition span_oldest_seq :: "span_store \<Rightarrow> u64 option" where
  "span_oldest_seq st = (case sp_buffer st of [] \<Rightarrow> None | s # _ \<Rightarrow> Some (sp_seq s))"

definition span_oldest_timestamp :: "span_store \<Rightarrow> int option" where
  "span_oldest_timestamp st = (case sp_buffer st of [] \<Rightarrow> None | s # _ \<Rightarrow> Some (sp_start_time s))"

section \<open>The invariant\<close>

definition span_inv :: "seq_counter \<Rightarrow> span_store \<Rightarrow> bool" where
  "span_inv c st \<longleftrightarrow>
     sorted_wrt (<) (map sp_seq (sp_buffer st)) \<and>
     sp_index st = index_of sp_seq (Some \<circ> sp_trace_id) (sp_buffer st) \<and>
     length (sp_buffer st) \<le> sp_capacity st \<and>
     (\<forall>s\<in>set (sp_buffer st). sp_lost_below st \<le> sp_seq s \<and> sp_seq s \<le> c) \<and>
     sp_lost_below st \<le> Suc c"

lemma index_push_snoc:
  "span_index_push (sp_trace_id s) (sp_seq s) (index_of sp_seq (Some \<circ> sp_trace_id) xs)
     = index_of sp_seq (Some \<circ> sp_trace_id) (xs @ [s])"
  by (simp add: span_index_push_def index_of_snoc)

lemma index_fold_push:
  "fold (\<lambda>s. span_index_push (sp_trace_id s) (sp_seq s)) ys (index_of sp_seq (Some \<circ> sp_trace_id) xs)
     = index_of sp_seq (Some \<circ> sp_trace_id) (xs @ ys)"
  by (induction ys arbitrary: xs) (simp_all add: index_push_snoc)

lemma index_evict_head:
  assumes "sorted_wrt (<) (map sp_seq (s # xs))"
  shows "index_evict (sp_trace_id s) (sp_seq s) (index_of sp_seq (Some \<circ> sp_trace_id) (s # xs))
    = index_of sp_seq (Some \<circ> sp_trace_id) xs"
proof (rule ext)
  fix t
  have "filter (\<lambda>x. x \<noteq> sp_seq s) (map sp_seq (filter (\<lambda>e. sp_trace_id e = sp_trace_id s) xs))
      = map sp_seq (filter (\<lambda>e. sp_trace_id e = sp_trace_id s) xs)"
    using assms by (intro filter_True) auto
  then show "index_evict (sp_trace_id s) (sp_seq s) (index_of sp_seq (Some \<circ> sp_trace_id) (s # xs)) t
      = index_of sp_seq (Some \<circ> sp_trace_id) xs t"
    by (auto simp: index_evict_def index_of_def Let_def)
qed

lemma span_inv_evict:
  assumes "span_inv c st" and "c < u64_max"
  shows "span_inv c (evict_span st)
    \<and> (0 < sp_capacity st \<longrightarrow> length (sp_buffer (evict_span st)) < sp_capacity (evict_span st))
    \<and> sp_capacity (evict_span st) = sp_capacity st"
proof (cases "sp_capacity st \<le> length (sp_buffer st)")
  case True
  show ?thesis
  proof (cases "sp_buffer st")
    case Nil
    then show ?thesis using assms by (auto simp: evict_span_def)
  next
    case (Cons ev rest)
    then have le: "sp_seq ev \<le> c" using assms(1) by (simp add: span_inv_def)
    then have sat: "sat_add (sp_seq ev) 1 = Suc (sp_seq ev)" using assms(2) by simp
    have ev: "evict_span st = st\<lparr>sp_buffer := rest, sp_lost_below := max (sp_lost_below st) (Suc (sp_seq ev)),
        sp_index := index_of sp_seq (Some \<circ> sp_trace_id) rest\<rparr>"
      using True Cons assms(1) index_evict_head [of ev rest] sat
      by (simp add: evict_span_def span_inv_def)
    show ?thesis unfolding ev using assms(1) Cons le by (auto simp: span_inv_def)
  qed
qed (use assms in \<open>auto simp: evict_span_def\<close>)

lemma span_inv_insert [inv_intros]:
  assumes inv: "span_inv c st" and c: "c < u64_max"
  shows "span_inv (Suc c) (snd (snd (span_insert sp c st)))
    \<and> fst (span_insert sp c st) = Suc c \<and> fst (snd (span_insert sp c st)) = Suc c"
proof -
  have w: "wrap64 (c + 1) = Suc c" using c by simp
  show ?thesis
  proof (cases "sp_capacity st = 0")
    case True
    then have "sp_buffer st = []" using inv by (simp add: span_inv_def)
    then show ?thesis using True inv w c
      by (auto simp: span_insert_def seq_next_def span_inv_def Let_def sat_add_def)
  next
    case False
    have e: "span_inv c (evict_span st)" "length (sp_buffer (evict_span st)) < sp_capacity (evict_span st)"
      using span_inv_evict [OF inv c] False by auto
    let ?sp = "sp\<lparr>sp_seq := Suc c\<rparr>"
    have push: "span_index_push (sp_trace_id sp) (Suc c) (index_of sp_seq (Some \<circ> sp_trace_id) (sp_buffer (evict_span st)))
        = index_of sp_seq (Some \<circ> sp_trace_id) (sp_buffer (evict_span st) @ [?sp])"
      using index_push_snoc [of ?sp] by simp
    show ?thesis using False e push w
      by (auto simp: span_insert_def seq_next_def span_inv_def Let_def sorted_wrt_append)
  qed
qed

lemma span_inv_clear [inv_intros]: "span_inv c st \<Longrightarrow> c < u64_max \<Longrightarrow> span_inv c (snd (span_clear st))"
  by (auto simp: span_clear_def span_inv_def sat_add_def min.coboundedI2)

lemma span_inv_mono: "span_inv c st \<Longrightarrow> c \<le> c' \<Longrightarrow> span_inv c' st"
  by (auto simp: span_inv_def)

lemma span_inv_new: "span_inv c (span_store_new capacity)"
  by (simp add: span_inv_def span_store_new_def)

lemma span_inv_from_records:
  assumes "span_from_records capacity spans lb = Some st"
    and "\<forall>s\<in>set spans. lb \<le> sp_seq s \<and> sp_seq s \<le> c" and "lb \<le> Suc c"
  shows "span_inv c st"
  using assms index_fold_push [of spans "[]"]
  by (auto simp: span_from_records_def span_inv_def split: if_splits)

interpretation ss: traced_store sp_seq sp_buffer sp_lost_below "span_inv u64_max" "Some \<circ> sp_trace_id" sp_index
  by unfold_locales (auto simp: span_inv_def)

section \<open>Runs of the store\<close>

text \<open>
  What changes a store and the shared counter: a span arrives, the ring is cleared, or the log
  pipeline takes a number. The run also collects every span ever numbered, as it was stored.
\<close>

datatype span_op = SInsert span_entry | SClear | STick

record span_run =
  sr_counter :: seq_counter
  sr_store :: span_store
  sr_stored :: "span_entry list"

fun span_apply :: "span_op \<Rightarrow> span_run \<Rightarrow> span_run" where
  "span_apply (SInsert sp) r =
     (let (s, c, st) = span_insert sp (sr_counter r) (sr_store r)
      in \<lparr>sr_counter = c, sr_store = st, sr_stored = sr_stored r @ [sp\<lparr>sp_seq := s\<rparr>]\<rparr>)"
| "span_apply SClear r = r\<lparr>sr_store := snd (span_clear (sr_store r))\<rparr>"
| "span_apply STick r = r\<lparr>sr_counter := snd (seq_next (sr_counter r))\<rparr>"

definition span_run_inv :: "span_run \<Rightarrow> bool" where
  "span_run_inv r \<longleftrightarrow>
     span_inv (sr_counter r) (sr_store r) \<and>
     (\<forall>s\<in>set (sr_stored r). sp_seq s \<le> sr_counter r) \<and>
     set (sp_buffer (sr_store r)) = {s \<in> set (sr_stored r). sp_lost_below (sr_store r) \<le> sp_seq s} \<and>
     (sp_lost_below (sr_store r) = 0 \<or> (\<exists>s\<in>set (sr_stored r). sp_lost_below (sr_store r) = Suc (sp_seq s)))"

lemma evict_span_exact:
  assumes inv: "span_inv c st" and c: "c < u64_max"
  shows "set (sp_buffer (evict_span st)) = {s \<in> set (sp_buffer st). sp_lost_below (evict_span st) \<le> sp_seq s}
    \<and> sp_lost_below st \<le> sp_lost_below (evict_span st)
    \<and> (sp_lost_below (evict_span st) = sp_lost_below st \<or> (\<exists>s\<in>set (sp_buffer st). sp_lost_below (evict_span st) = Suc (sp_seq s)))"
proof (cases "sp_buffer st")
  case Nil
  then show ?thesis by (simp add: evict_span_def)
next
  case (Cons ev rest)
  have "sp_seq ev \<le> c" "sp_lost_below st \<le> sp_seq ev" using inv Cons by (simp_all add: span_inv_def)
  then have sat: "sat_add (sp_seq ev) 1 = Suc (sp_seq ev)" "max (sp_lost_below st) (Suc (sp_seq ev)) = Suc (sp_seq ev)"
    using c by auto
  have "\<forall>s\<in>set rest. sp_seq ev < sp_seq s \<and> sp_lost_below st \<le> sp_seq s" using inv Cons by (auto simp: span_inv_def)
  then show ?thesis using Cons sat inv by (auto simp: evict_span_def span_inv_def)
qed

lemma span_run_inv_apply:
  assumes inv: "span_run_inv r" and c1: "Suc (sr_counter r) < u64_max"
  shows "span_run_inv (span_apply op r) \<and> sr_counter (span_apply op r) \<le> Suc (sr_counter r)"
proof (cases op)
  case (SInsert sp)
  note c = Suc_lessD [OF c1]
  let ?c = "sr_counter r" and ?st = "sr_store r" and ?sp = "sp\<lparr>sp_seq := Suc (sr_counter r)\<rparr>"
  have si: "span_inv ?c ?st" using inv by (simp add: span_run_inv_def)
  have new: "span_inv (Suc ?c) (snd (snd (span_insert sp ?c ?st)))" "fst (span_insert sp ?c ?st) = Suc ?c"
    "fst (snd (span_insert sp ?c ?st)) = Suc ?c" using span_inv_insert [OF si c, of sp] by auto
  then obtain st' where ins: "span_insert sp ?c ?st = (Suc ?c, Suc ?c, st')" by (metis prod.collapse)
  have lb: "sp_lost_below ?st \<le> Suc ?c" using si by (simp add: span_inv_def)
  have exact: "set (sp_buffer st') = {s \<in> insert ?sp (set (sr_stored r)). sp_lost_below st' \<le> sp_seq s}
    \<and> (sp_lost_below st' = 0 \<or> (\<exists>s\<in>insert ?sp (set (sr_stored r)). sp_lost_below st' = Suc (sp_seq s)))"
  proof (cases "sp_capacity ?st = 0")
    case True
    have "st' = ?st\<lparr>sp_lost_below := max (sp_lost_below ?st) (sat_add (Suc ?c) 1)\<rparr>"
      using ins True c by (auto simp: span_insert_def seq_next_def Let_def)
    moreover have "sp_buffer ?st = []" using si True by (simp add: span_inv_def)
    ultimately show ?thesis using lb inv c1 by (auto simp: span_run_inv_def)
  next
    case False
    then have st': "st' = (evict_span ?st)\<lparr>sp_index := span_index_push (sp_trace_id sp) (Suc ?c) (sp_index (evict_span ?st)),
        sp_buffer := sp_buffer (evict_span ?st) @ [?sp]\<rparr>"
      using ins c by (auto simp: span_insert_def seq_next_def Let_def)
    have "sp_lost_below (evict_span ?st) \<le> Suc ?c" using span_inv_evict [OF si c] by (simp add: span_inv_def)
    then show ?thesis unfolding st' using evict_span_exact [OF si c] inv by (auto simp: span_run_inv_def)
  qed
  show ?thesis unfolding SInsert using ins new exact inv by (auto simp: span_run_inv_def)
next
  case SClear
  note c = Suc_lessD [OF c1]
  have si: "span_inv (sr_counter r) (sr_store r)" using inv by (simp add: span_run_inv_def)
  let ?b = "sp_buffer (sr_store r)"
  have "?b \<noteq> [] \<Longrightarrow> sp_seq (last ?b) \<le> sr_counter r \<and> sp_lost_below (sr_store r) \<le> sp_seq (last ?b)"
    using si by (simp add: span_inv_def)
  moreover have "sp_seq s \<le> sp_seq (last ?b)" if "s \<in> set ?b" for s
    using si ascending_last_greatest that by (auto simp: span_inv_def)
  ultimately show ?thesis
    using inv span_inv_clear [OF si c] c unfolding SClear
    by (cases "?b = []") (fastforce simp: span_run_inv_def span_clear_def)+
next
  case STick
  then show ?thesis
    using inv Suc_lessD [OF c1] span_inv_mono by (fastforce simp: span_run_inv_def seq_next_def)
qed

definition span_start :: "nat \<Rightarrow> u64 \<Rightarrow> span_run" where
  "span_start capacity c = \<lparr>sr_counter = c, sr_store = span_store_new capacity, sr_stored = []\<rparr>"

lemma span_run_inv_run:
  "span_run_inv r \<Longrightarrow> Suc (sr_counter r) + length ops < u64_max \<Longrightarrow> span_run_inv (fold span_apply ops r)"
proof (induction ops arbitrary: r)
  case (Cons op ops)
  have "Suc (sr_counter r) < u64_max" using Cons.prems by simp
  from span_run_inv_apply [OF Cons.prems(1) this, of op] Cons show ?case by simp
qed simp

lemma span_run_inv_start: "span_run_inv (span_start capacity c)"
  by (simp add: span_run_inv_def span_start_def span_inv_new) (simp add: span_store_new_def)

section \<open>Recent traces\<close>

lemma sort_by_simps [simp]: "sort_by b [] = []" "sort_by b (x # xs) = insert_by b x (sort_by b xs)"
  by (simp_all add: sort_by_def)

lemma set_insert_by [simp]: "set (insert_by b x ys) = insert x (set ys)"
  by (induction ys) auto

lemma set_sort_by [simp]: "set (sort_by b xs) = set xs"
  by (induction xs) simp_all

lemma mset_insert_by: "mset (insert_by b x ys) = add_mset x (mset ys)"
  by (induction ys) auto

lemma mset_sort_by: "mset (sort_by b xs) = mset xs"
  by (induction xs) (simp_all add: mset_insert_by)

text \<open>A descending sort on distinct keys is the one descending list of the elements.\<close>

lemma sorted_insert_by:
  "sorted_wrt (\<lambda>x y. (f y :: nat) < f x) ys \<Longrightarrow> f x \<notin> f ` set ys \<Longrightarrow>
   sorted_wrt (\<lambda>x y. f y < f x) (insert_by (\<lambda>y x. f x < f y) x ys)"
  by (induction ys) (auto simp: not_less order_le_less)

lemma sorted_sort_by:
  "distinct (map f xs) \<Longrightarrow> sorted_wrt (\<lambda>x y. (f y :: nat) < f x) (sort_by (\<lambda>y x. f x < f y) xs)"
  by (induction xs) (auto intro!: sorted_insert_by)

lemma descending_unique:
  "sorted_wrt (\<lambda>x y. (f y :: nat) < f x) xs \<Longrightarrow> sorted_wrt (\<lambda>x y. f y < f x) ys \<Longrightarrow> set xs = set ys \<Longrightarrow> xs = ys"
proof -
  assume xs: "sorted_wrt (\<lambda>x y. f y < f x) xs" and ys: "sorted_wrt (\<lambda>x y. f y < f x) ys" and eq: "set xs = set ys"
  have "sorted_wrt (<) (map f (rev xs))" "sorted_wrt (<) (map f (rev ys))"
    using xs ys by (simp_all add: sorted_wrt_map sorted_wrt_rev)
  then show "xs = ys" using ascending_keys_unique [of f "rev xs" "rev ys"] eq by simp
qed

text \<open>The newest seq noted for a trace, and the traces in the order of their newest span.\<close>

definition newest_of :: "span_entry list \<Rightarrow> u128 \<Rightarrow> u64" where
  "newest_of xs t = sp_seq (last (filter (\<lambda>s. sp_trace_id s = t) xs))"

lemma note_trace_map:
  "map_of (note_trace s m) = (map_of m)(sp_trace_id s \<mapsto>
     (case map_of m (sp_trace_id s) of None \<Rightarrow> max 0 (sp_seq s) | Some e \<Rightarrow> max e (sp_seq s)))"
  by (cases "map_of m (sp_trace_id s)") (simp_all add: note_trace_def max_def)

lemma note_trace_distinct: "distinct (keys_of m) \<Longrightarrow> distinct (keys_of (note_trace s m))"
  by (auto simp: note_trace_def split: option.split)

lemma noted_traces:
  "sorted_wrt (<) (map sp_seq xs) \<Longrightarrow>
   distinct (keys_of (fold note_trace xs [])) \<and>
   map_of (fold note_trace xs []) = (\<lambda>t. if t \<in> sp_trace_id ` set xs then Some (newest_of xs t) else None)"
proof (induction xs rule: rev_induct)
  case (snoc s xs)
  have IH: "distinct (keys_of (fold note_trace xs []))"
    "map_of (fold note_trace xs []) = (\<lambda>t. if t \<in> sp_trace_id ` set xs then Some (newest_of xs t) else None)"
    using snoc.IH snoc.prems by (auto simp: sorted_wrt_append)
  have le: "newest_of xs (sp_trace_id s) \<le> sp_seq s" if "sp_trace_id s \<in> sp_trace_id ` set xs"
  proof -
    have "filter (\<lambda>x. sp_trace_id x = sp_trace_id s) xs \<noteq> []" using that by (auto simp: filter_empty_conv image_iff)
    from last_in_set [OF this] have "last (filter (\<lambda>x. sp_trace_id x = sp_trace_id s) xs) \<in> set xs" by simp
    then show ?thesis using snoc.prems unfolding newest_of_def by (simp add: sorted_wrt_append less_imp_le)
  qed
  have n: "newest_of (xs @ [s]) t = (if t = sp_trace_id s then sp_seq s else newest_of xs t)" for t
    by (simp add: newest_of_def)
  have "map_of (note_trace s (fold note_trace xs [])) t
      = (if t \<in> sp_trace_id ` set (xs @ [s]) then Some (newest_of (xs @ [s]) t) else None)" for t
    unfolding note_trace_map IH(2) n using le by (cases "t = sp_trace_id s") (auto simp: max_def)
  then show ?case using note_trace_distinct [OF IH(1), of s] by (simp add: fun_eq_iff)
qed (simp add: fun_eq_iff)

lemma newest_descending:
  "sorted_wrt (<) (map sp_seq xs) \<Longrightarrow>
   sorted_wrt (\<lambda>a b. newest_of xs b < newest_of xs a) (rev (remdups (map sp_trace_id xs)))"
proof (induction xs)
  case (Cons s xs)
  have IH: "sorted_wrt (\<lambda>a b. newest_of xs b < newest_of xs a) (rev (remdups (map sp_trace_id xs)))"
    using Cons by simp
  have same: "newest_of (s # xs) t = newest_of xs t" if "t \<in> sp_trace_id ` set xs" for t
    using that by (auto simp: newest_of_def filter_empty_conv)
  have "sorted_wrt (\<lambda>a b. newest_of (s # xs) b < newest_of (s # xs) a) (rev (remdups (map sp_trace_id xs)))"
    by (rule sorted_wrt_mono_rel [OF _ IH]) (auto simp: same)
  moreover have "newest_of (s # xs) (sp_trace_id s) < newest_of (s # xs) t"
    if "t \<in> sp_trace_id ` set xs" "sp_trace_id s \<notin> sp_trace_id ` set xs" for t
  proof -
    have "filter (\<lambda>x. sp_trace_id x = t) xs \<noteq> []" using that(1) by (auto simp: filter_empty_conv)
    from last_in_set [OF this] have "sp_seq s < newest_of xs t" using Cons.prems by (auto simp: newest_of_def)
    moreover have "newest_of (s # xs) (sp_trace_id s) = sp_seq s"
      using that(2) by (auto simp: newest_of_def filter_empty_conv image_iff)
    ultimately show ?thesis using same [OF that(1)] by simp
  qed
  ultimately show ?case by (auto simp: sorted_wrt_append)
qed simp

lemma recent_trace_ids:
  assumes asc: "sorted_wrt (<) (map sp_seq (sp_buffer st))"
  shows "map ts_trace_id (recent_traces env cnt f linked st)
    = take cnt (rev (remdups (map sp_trace_id (filter (opt_matches_span env f) (sp_buffer st)))))"
proof -
  define xs where "xs = filter (opt_matches_span env f) (sp_buffer st)"
  define m where "m = fold note_trace xs []"
  define ids where "ids = rev (remdups (map sp_trace_id xs))"
  have axs: "sorted_wrt (<) (map sp_seq xs)" unfolding xs_def by (rule ascending_map_filter [OF asc])
  note nt = noted_traces [OF axs, folded m_def]
  have desc: "sorted_wrt (\<lambda>a b. newest_of xs b < newest_of xs a) ids"
    unfolding ids_def by (rule newest_descending [OF axs])
  have set_m: "set m = (\<lambda>t. (t, newest_of xs t)) ` set ids"
  proof -
    have "(t, v) \<in> set m \<longleftrightarrow> map_of m t = Some v" for t v using conjunct1 [OF nt] by simp
    then show ?thesis using nt by (auto simp: ids_def split: if_splits)
  qed
  have "inj_on (newest_of xs) (set ids)"
    using desc by (intro inj_onI) (metis ids_def in_set_conv_nth less_irrefl linorder_neqE_nat sorted_wrt_nth_less)
  then have "inj_on snd (set m)" unfolding set_m by (auto simp: inj_on_def)
  then have "distinct (map snd m)" using nt by (simp add: distinct_map)
  then have "sorted_wrt (\<lambda>x y. snd y < snd x) (sort_by (\<lambda>y x. snd x < snd y) m)" by (rule sorted_sort_by)
  moreover have "sorted_wrt (\<lambda>x y. snd y < snd x) (map (\<lambda>t. (t, newest_of xs t)) ids)"
    using desc by (simp add: sorted_wrt_map)
  ultimately have "sort_by (\<lambda>y x. snd x < snd y) m = map (\<lambda>t. (t, newest_of xs t)) ids"
    by (rule descending_unique) (simp add: set_m)
  then show ?thesis
    by (simp add: recent_traces_def Let_def summarize_def case_prod_unfold comp_def take_map
        flip: xs_def m_def ids_def)
qed

lemma get_trace_eq:
  assumes "span_inv c st" and "c \<le> u64_max"
  shows "get_trace t st = sort_key sp_start_time (filter (\<lambda>s. sp_trace_id s = t) (sp_buffer st))"
proof -
  have inv: "span_inv u64_max st" by (rule span_inv_mono [OF assms])
  have "(case sp_index st t of None \<Rightarrow> [] | Some seqs \<Rightarrow> ring_lookup sp_seq (sp_buffer st) seqs)
      = ring_lookup sp_seq (sp_buffer st) (case sp_index st t of None \<Rightarrow> [] | Some l \<Rightarrow> l)"
    by (simp add: ring_lookup_def List.map_filter_def split: option.split)
  then show ?thesis using ss.by_trace_correct [OF inv, of t] by (simp add: get_trace_def trace_spans_def)
qed

section \<open>Properties\<close>

text \<open>
  (C16) The span ring tells exactly what it lost. Over any run of arriving spans, clears and
  numbers taken by the log pipeline, the ring stays in ascending seq order within its capacity
  with an exact trace index; it holds exactly those spans ever stored whose seq is at or above
  the loss floor, and the floor is 0 or one past a span that was stored.
\<close>

theorem span_loss_floor_exact:
  assumes "Suc c + length ops < u64_max"
  shows "span_inv (sr_counter (fold span_apply ops (span_start capacity c))) (sr_store (fold span_apply ops (span_start capacity c)))
    \<and> set (sp_buffer (sr_store (fold span_apply ops (span_start capacity c))))
        = {s \<in> set (sr_stored (fold span_apply ops (span_start capacity c))).
             sp_lost_below (sr_store (fold span_apply ops (span_start capacity c))) \<le> sp_seq s}
    \<and> (sp_lost_below (sr_store (fold span_apply ops (span_start capacity c))) = 0
       \<or> (\<exists>s\<in>set (sr_stored (fold span_apply ops (span_start capacity c))).
            sp_lost_below (sr_store (fold span_apply ops (span_start capacity c))) = Suc (sp_seq s)))"
  using span_run_inv_run [OF span_run_inv_start, of capacity c ops] assms
  by (simp add: span_run_inv_def span_start_def)

definition plain_span :: "u64 \<Rightarrow> u128 \<Rightarrow> span_entry" where
  "plain_span s t =
     \<lparr>sp_seq = s, sp_trace_id = t, sp_span_id = 1, sp_parent_span_id = None, sp_start_time = 0,
      sp_end_time = 0, sp_duration_ms = Fin 1, sp_name = ''op'', sp_kind = Server,
      sp_service_name = ''svc'', sp_status = Ok, sp_attributes = [], sp_events = []\<rparr>"

theorem span_loss_floor_exact_witness:
  "span_inv (sr_counter (fold span_apply [SInsert (plain_span 0 1), STick, SInsert (plain_span 0 2)] (span_start 1 0)))
     (sr_store (fold span_apply [SInsert (plain_span 0 1), STick, SInsert (plain_span 0 2)] (span_start 1 0)))"
  using span_loss_floor_exact [of 0 "[SInsert (plain_span 0 1), STick, SInsert (plain_span 0 2)]" 1]
  by (simp add: u64_max_def)

text \<open>
  The reads of the span ring (C40). Under the invariant a trace is its held spans sorted by start
  time (ties in seq order), a range is the slice of the ring it names, a context the slice around its
  span whenever the ring's length and the number asked for after it fit in 64 bits, and the
  recent traces are the distinct traces of the matching spans in the order of their newest
  matching span, newest first, cut at the count asked for.
\<close>

theorem span_reads_correct:
  assumes "span_inv c st" and "c \<le> u64_max"
  shows "get_trace t st = sort_key sp_start_time (filter (\<lambda>s. sp_trace_id s = t) (sp_buffer st))
    \<and> span_range_with_floor lo hi st = (filter (\<lambda>s. lo \<le> sp_seq s \<and> sp_seq s \<le> hi) (sp_buffer st), sp_lost_below st)
    \<and> (i < length (sp_buffer st) \<and> length (sp_buffer st) + after \<le> u64_max \<longrightarrow>
         span_context_by_seq (sp_seq (sp_buffer st ! i)) before after st
           = Some (map ((!) (sp_buffer st)) [i - before ..< min (Suc (i + after)) (length (sp_buffer st))]))
    \<and> map ts_trace_id (recent_traces env cnt f linked st)
        = take cnt (rev (remdups (map sp_trace_id (filter (opt_matches_span env f) (sp_buffer st)))))"
proof -
  have inv: "span_inv u64_max st" by (rule span_inv_mono [OF assms])
  have asc: "sorted_wrt (<) (map sp_seq (sp_buffer st))" by (rule ss.ascending [OF inv])
  show ?thesis
    using get_trace_eq [OF assms] ss.range_correct [OF inv] ss.context_correct [OF inv] recent_trace_ids [OF asc]
    by (simp add: span_range_with_floor_def span_context_by_seq_def)
qed

definition demo_spans :: span_store where
  "demo_spans = the (span_from_records 3 [plain_span 1 7, plain_span 2 8, plain_span 3 7] 0)"

lemma demo_spans_ok: "span_inv 3 demo_spans" "sp_buffer demo_spans = [plain_span 1 7, plain_span 2 8, plain_span 3 7]"
proof -
  have eq: "span_from_records 3 [plain_span 1 7, plain_span 2 8, plain_span 3 7] 0 = Some demo_spans"
    by (simp add: demo_spans_def span_from_records_def plain_span_def)
  show "span_inv 3 demo_spans" by (rule span_inv_from_records [OF eq]) (simp_all add: plain_span_def)
  show "sp_buffer demo_spans = [plain_span 1 7, plain_span 2 8, plain_span 3 7]"
    by (simp add: demo_spans_def span_from_records_def plain_span_def)
qed

theorem span_reads_correct_witness:
  "get_trace 8 demo_spans = [plain_span 2 8]
   \<and> span_context_by_seq 2 1 0 demo_spans = Some [plain_span 1 7, plain_span 2 8]
   \<and> map ts_trace_id (recent_traces demo_env 2 None (\<lambda>_. 0) demo_spans) = [7, 8]"
  using span_reads_correct [OF demo_spans_ok(1), of 8 0 0 1 0 1 demo_env 2 None "\<lambda>_. 0"]
  by (simp add: u64_max_def demo_spans_ok(2)) (simp add: plain_span_def opt_matches_span_def upt_rec)

end
