(* ===== verification/Session.thy ===== *)
theory Session
  imports Trigger Epoch Bookmarks
begin

text \<open>
  The session registry (\<open>daemon/session.rs\<close>) with the trigger event (\<open>engine/pipeline.rs\<close>) and the
  persisted form of a session (\<open>daemon/persistence.rs\<close>). The registry's hash map is an association
  list; each operation is one step under the registry's lock. The monotonic clock is an argument
  of the operations that read it, a fresh UUID of \<open>create_anonymous\<close>, and the closures the
  registry runs under its lock (\<open>transfer\<close>, \<open>cleanup\<close>) are functions on a state of their own.
\<close>

section \<open>Data\<close>

datatype session_id = Anonymous string | Named string

definition session_display :: "session_id \<Rightarrow> string" where
  "session_display sid = (case sid of Anonymous i \<Rightarrow> i | Named n \<Rightarrow> n)"

record pipeline_event =
  pe_session_id :: string
  pe_trigger_id :: u32
  pe_trigger_description :: "string option"
  pe_filter_string :: string
  pe_matched_entry :: log_entry
  pe_context_before :: "log_entry list"
  pe_pre_trigger_flushed :: nat
  pe_pre_window :: u32
  pe_post_window_size :: u32
  pe_notify_context :: u32
  pe_oneshot :: bool
  pe_trace_id :: "u128 option"
  pe_trace_summary :: "trace_summary option"

record session_info =
  si_id :: session_id
  si_name :: "string option"
  si_connected :: bool
  si_trigger_count :: nat
  si_filter_count :: nat
  si_queue_size :: nat
  si_last_seen_secs_ago :: u64
  si_client_info :: "json option"

record buffer_filter_entry =
  bf_id :: u32
  bf_condition :: parsed_filter
  bf_filter_string :: string
  bf_description :: "string option"

record filter_info =
  fi_id :: u32
  fi_filter_string :: string
  fi_description :: "string option"

record storage_decision =
  sd_should_store :: bool
  sd_matched_descriptions :: "string list"
  sd_policy :: filter_policy

text \<open>\<open>SPanic\<close> is the panic of \<open>TriggerManager::new\<close> when a seeded filter does not parse.\<close>

datatype session_error =
    SInvalidName string
  | SAlreadyConnected string
  | SAlreadyExists string
  | SNotFound string
  | SFilterError filter_parse_error
  | STriggerError trigger_error
  | SPanic

datatype dispose_outcome = Disposed | NotAbandoned | Gone

record session_state =
  se_name :: "string option"
  se_triggers :: trigger_manager
  se_filters :: "buffer_filter_entry list"
  se_next_filter_id :: u32
  se_queue :: "pipeline_event list"
  se_max_queue_size :: nat
  se_post_window :: u32
  se_connected :: bool
  se_last_seen :: nat
  se_client_info :: "json option"
  se_domain :: string
  se_touched :: "string list"

type_synonym registry = "(session_id \<times> session_state) list"

definition default_domain :: string where "default_domain = ''default''"

definition fresh_session :: "(string \<Rightarrow> bool) \<Rightarrow> string option \<Rightarrow> nat \<Rightarrow> session_state option" where
  "fresh_session rx name now =
     map_option (\<lambda>tm.
       \<lparr>se_name = name, se_triggers = tm, se_filters = [], se_next_filter_id = 1, se_queue = [],
        se_max_queue_size = 1000, se_post_window = 0, se_connected = True, se_last_seen = now,
        se_client_info = None, se_domain = default_domain, se_touched = [default_domain]\<rparr>) (manager_new rx)"

definition new_anonymous :: "(string \<Rightarrow> bool) \<Rightarrow> nat \<Rightarrow> session_state option" where
  "new_anonymous rx now = fresh_session rx None now"

definition new_named :: "(string \<Rightarrow> bool) \<Rightarrow> string \<Rightarrow> nat \<Rightarrow> session_state option" where
  "new_named rx name now = fresh_session rx (Some name) now"

definition session_to_info :: "nat \<Rightarrow> session_id \<Rightarrow> session_state \<Rightarrow> session_info" where
  "session_to_info now sid s =
     \<lparr>si_id = sid, si_name = se_name s, si_connected = se_connected s,
      si_trigger_count = length (manager_list (se_triggers s)), si_filter_count = length (se_filters s),
      si_queue_size = length (se_queue s), si_last_seen_secs_ago = (now - se_last_seen s) div 10 ^ 9,
      si_client_info = se_client_info s\<rparr>"

definition touch :: "nat \<Rightarrow> session_state \<Rightarrow> session_state" where
  "touch now s = s\<lparr>se_last_seen := now\<rparr>"

definition is_in_domain :: "string \<Rightarrow> session_state \<Rightarrow> bool" where
  "is_in_domain d s = (se_domain s = d)"

definition is_valid_name :: "string \<Rightarrow> bool" where
  "is_valid_name name =
     (if name = [] then False
      else list_all (\<lambda>b. is_ascii_alphanumeric b \<or> b = CHR ''_'' \<or> b = CHR ''-'') name)"

definition refuse_an_anonymous_id :: "registry \<Rightarrow> string \<Rightarrow> session_error + unit" where
  "refuse_an_anonymous_id reg name =
     (if map_of reg (Anonymous name) \<noteq> None then Inl (SAlreadyConnected name) else Inr ())"

section \<open>Lifecycle\<close>

definition registry_new :: registry where "registry_new = []"

definition create_anonymous :: "(string \<Rightarrow> bool) \<Rightarrow> string \<Rightarrow> nat \<Rightarrow> registry \<Rightarrow> (session_id \<times> registry) option" where
  "create_anonymous rx uuid now reg =
     map_option (\<lambda>s. (Anonymous uuid, hm_insert (Anonymous uuid) s reg)) (new_anonymous rx now)"

definition create_named :: "(string \<Rightarrow> bool) \<Rightarrow> string \<Rightarrow> nat \<Rightarrow> registry \<Rightarrow> session_error + (session_id \<times> registry)" where
  "create_named rx name now reg =
     (if \<not> is_valid_name name then Inl (SInvalidName name)
      else bind_res (refuse_an_anonymous_id reg name) (\<lambda>_.
        case map_of reg (Named name) of
          Some existing \<Rightarrow> if se_connected existing then Inl (SAlreadyConnected name) else Inl (SAlreadyExists name)
        | None \<Rightarrow>
            (case new_named rx name now of
               None \<Rightarrow> Inl SPanic
             | Some s \<Rightarrow> Inr (Named name, hm_insert (Named name) s reg))))"

definition claim_named ::
  "(string \<Rightarrow> bool) \<Rightarrow> string \<Rightarrow> nat \<Rightarrow> registry \<Rightarrow> session_error + ((session_id \<times> bool) \<times> registry)" where
  "claim_named rx name now reg =
     (if \<not> is_valid_name name then Inl (SInvalidName name)
      else bind_res (refuse_an_anonymous_id reg name) (\<lambda>_.
        case map_of reg (Named name) of
          Some existing \<Rightarrow>
            if se_connected existing then Inl (SAlreadyConnected name)
            else Inr ((Named name, False), hm_update (Named name) (\<lambda>s. touch now (s\<lparr>se_connected := True\<rparr>)) reg)
        | None \<Rightarrow>
            (case new_named rx name now of
               None \<Rightarrow> Inl SPanic
             | Some s \<Rightarrow> Inr ((Named name, True), hm_insert (Named name) s reg))))"

definition reconnect :: "session_id \<Rightarrow> nat \<Rightarrow> registry \<Rightarrow> session_error + registry" where
  "reconnect sid now reg =
     (case map_of reg sid of
        None \<Rightarrow> Inl (SNotFound (session_display sid))
      | Some s \<Rightarrow>
          if se_connected s then Inl (SAlreadyConnected (session_display sid))
          else (case sid of
                  Anonymous _ \<Rightarrow> Inl (SNotFound (session_display sid))
                | Named _ \<Rightarrow> Inr (hm_update sid (\<lambda>s. touch now (s\<lparr>se_connected := True\<rparr>)) reg)))"

definition disconnect :: "session_id \<Rightarrow> nat \<Rightarrow> registry \<Rightarrow> registry" where
  "disconnect sid now reg =
     (case sid of
        Anonymous _ \<Rightarrow> hm_remove sid reg
      | Named _ \<Rightarrow> hm_update sid (\<lambda>s. touch now (s\<lparr>se_connected := False\<rparr>)) reg)"

definition set_client_info :: "session_id \<Rightarrow> json option \<Rightarrow> registry \<Rightarrow> registry" where
  "set_client_info sid info reg = hm_update sid (\<lambda>s. s\<lparr>se_client_info := info\<rparr>) reg"

definition rename ::
  "session_id \<Rightarrow> string \<Rightarrow> (session_id \<Rightarrow> bool \<Rightarrow> 'w \<Rightarrow> 'w) \<Rightarrow> nat \<Rightarrow> 'w \<Rightarrow> registry
     \<Rightarrow> session_error + ((session_id \<times> bool) \<times> 'w \<times> registry)" where
  "rename old new_name transfer now w reg =
     (if \<not> is_valid_name new_name then Inl (SInvalidName new_name)
      else let new_id = Named new_name
        in if old = new_id then Inr ((new_id, False), w, reg)
           else (case map_of reg old of
                   None \<Rightarrow> Inl (SNotFound (session_display old))
                 | Some state \<Rightarrow>
                     bind_res (if old \<noteq> Anonymous new_name then refuse_an_anonymous_id reg new_name else Inr ()) (\<lambda>_.
                     bind_res
                       (case map_of reg new_id of
                          Some existing \<Rightarrow>
                            if se_connected existing then Inl (SAlreadyConnected new_name)
                            else Inr (True, hm_remove new_id reg)
                        | None \<Rightarrow> Inr (False, reg)) (\<lambda>(displaced, reg1).
                     Inr ((new_id, displaced), transfer new_id displaced w,
                          hm_insert new_id (touch now (state\<lparr>se_name := Some new_name\<rparr>)) (hm_remove old reg1))))))"

definition abandoned :: "nat \<Rightarrow> nat \<Rightarrow> session_state \<Rightarrow> bool" where
  "abandoned ttl now s = (\<not> se_connected s \<and> ttl < now - se_last_seen s)"

definition dispose_if_expired ::
  "session_id \<Rightarrow> nat \<Rightarrow> ('w \<Rightarrow> 'w) \<Rightarrow> nat \<Rightarrow> 'w \<Rightarrow> registry \<Rightarrow> dispose_outcome \<times> 'w \<times> registry" where
  "dispose_if_expired sid ttl cleanup now w reg =
     (case map_of reg sid of
        None \<Rightarrow> (Gone, w, reg)
      | Some s \<Rightarrow> if \<not> abandoned ttl now s then (NotAbandoned, w, reg) else (Disposed, cleanup w, hm_remove sid reg))"

definition expired_disconnected :: "nat \<Rightarrow> nat \<Rightarrow> registry \<Rightarrow> session_id list" where
  "expired_disconnected ttl now reg = map fst (filter (\<lambda>p. abandoned ttl now (snd p)) reg)"

text \<open>Connected first, then by label: two stable sorts, the label first.\<close>

definition sessions_bound_to :: "string \<Rightarrow> registry \<Rightarrow> string list" where
  "sessions_bound_to d reg =
     (let bound = map (\<lambda>(sid, s). (se_connected s,
            if se_connected s then session_display sid else session_display sid @ '' (disconnected)''))
          (filter (\<lambda>p. se_domain (snd p) = d) reg)
      in map snd (sort_key (\<lambda>p. if fst p then 0 else 1 :: nat) (sort_key snd bound)))"

definition domain_of :: "session_id \<Rightarrow> registry \<Rightarrow> string" where
  "domain_of sid reg = (case map_of reg sid of Some s \<Rightarrow> se_domain s | None \<Rightarrow> default_domain)"

definition touched_domains :: "session_id \<Rightarrow> registry \<Rightarrow> string list" where
  "touched_domains sid reg = (case map_of reg sid of Some s \<Rightarrow> se_touched s | None \<Rightarrow> [])"

definition set_domain :: "session_id \<Rightarrow> string \<Rightarrow> registry \<Rightarrow> registry" where
  "set_domain sid d reg =
     hm_update sid (\<lambda>s.
       let s1 = s\<lparr>se_touched := set_insert d (se_touched s)\<rparr>
       in if se_domain s1 \<noteq> d
          then s1\<lparr>se_domain := d, se_queue := [], se_post_window := 0,
                  se_triggers := reset_post_windows (se_triggers s1)\<rparr>
          else s1) reg"

definition drop_session ::
  "string \<Rightarrow> (bool \<Rightarrow> 'w \<Rightarrow> 'w) \<Rightarrow> 'w \<Rightarrow> registry \<Rightarrow> (session_error + unit) \<times> 'w \<times> registry" where
  "drop_session name cleanup w reg =
     (case map_of reg (Named name) of
        None \<Rightarrow> (Inl (SNotFound name), cleanup False w, reg)
      | Some s \<Rightarrow>
          if se_connected s then (Inl (SAlreadyConnected name), w, reg)
          else (Inr (), cleanup True w, hm_remove (Named name) reg))"

definition is_connected :: "session_id \<Rightarrow> registry \<Rightarrow> bool" where
  "is_connected sid reg = (case map_of reg sid of Some s \<Rightarrow> se_connected s | None \<Rightarrow> False)"

definition session_get :: "session_id \<Rightarrow> nat \<Rightarrow> registry \<Rightarrow> session_info option" where
  "session_get sid now reg = map_option (session_to_info now sid) (map_of reg sid)"

definition session_list :: "nat \<Rightarrow> registry \<Rightarrow> session_info list" where
  "session_list now reg = map (\<lambda>(sid, s). session_to_info now sid s) reg"

section \<open>Triggers and filters of a session\<close>

definition update_triggers :: "session_id \<Rightarrow> trigger_manager \<Rightarrow> registry \<Rightarrow> registry" where
  "update_triggers sid tm reg = hm_update sid (\<lambda>s. s\<lparr>se_triggers := tm\<rparr>) reg"

definition evaluate_triggers :: "match_env \<Rightarrow> session_id \<Rightarrow> log_entry \<Rightarrow> registry \<Rightarrow> trigger_match list \<times> registry" where
  "evaluate_triggers env sid e reg =
     (case map_of reg sid of
        Some s \<Rightarrow> (let (tm, ms) = evaluate env e (se_triggers s) in (ms, update_triggers sid tm reg))
      | None \<Rightarrow> ([], reg))"

definition evaluate_span_triggers :: "match_env \<Rightarrow> session_id \<Rightarrow> span_entry \<Rightarrow> registry \<Rightarrow> trigger_match list \<times> registry" where
  "evaluate_span_triggers env sid sp reg =
     (case map_of reg sid of
        Some s \<Rightarrow> (let (tm, ms) = evaluate_span env sp (se_triggers s) in (ms, update_triggers sid tm reg))
      | None \<Rightarrow> ([], reg))"

definition list_triggers :: "session_id \<Rightarrow> registry \<Rightarrow> trigger_info list" where
  "list_triggers sid reg = (case map_of reg sid of Some s \<Rightarrow> manager_list (se_triggers s) | None \<Rightarrow> [])"

definition map_error :: "('e \<Rightarrow> 'f) \<Rightarrow> 'e + 'a \<Rightarrow> 'f + 'a" where
  "map_error g r = (case r of Inl e \<Rightarrow> Inl (g e) | Inr a \<Rightarrow> Inr a)"

definition add_trigger ::
  "(string \<Rightarrow> bool) \<Rightarrow> session_id \<Rightarrow> string \<Rightarrow> u32 \<Rightarrow> u32 \<Rightarrow> u32 \<Rightarrow> string option \<Rightarrow> bool \<Rightarrow> registry
     \<Rightarrow> session_error + (u32 \<times> registry)" where
  "add_trigger rx sid f pre post ctx desc oneshot reg =
     (case map_of reg sid of
        None \<Rightarrow> Inl (SNotFound (session_display sid))
      | Some s \<Rightarrow>
          bind_res (map_error STriggerError (manager_add rx f pre post ctx desc oneshot (se_triggers s)))
            (\<lambda>(i, tm). Inr (i, update_triggers sid tm reg)))"

definition edit_trigger ::
  "(string \<Rightarrow> bool) \<Rightarrow> session_id \<Rightarrow> u32 \<Rightarrow> trigger_edit \<Rightarrow> registry \<Rightarrow> session_error + (trigger_info \<times> registry)" where
  "edit_trigger rx sid i ed reg =
     (case map_of reg sid of
        None \<Rightarrow> Inl (SNotFound (session_display sid))
      | Some s \<Rightarrow>
          bind_res (map_error STriggerError (manager_edit rx i ed (se_triggers s)))
            (\<lambda>(info, tm). Inr (info, update_triggers sid tm reg)))"

definition remove_trigger :: "session_id \<Rightarrow> u32 \<Rightarrow> registry \<Rightarrow> session_error + registry" where
  "remove_trigger sid i reg =
     (case map_of reg sid of
        None \<Rightarrow> Inl (SNotFound (session_display sid))
      | Some s \<Rightarrow>
          bind_res (map_error STriggerError (manager_remove i (se_triggers s)))
            (\<lambda>tm. Inr (update_triggers sid tm reg)))"

definition filter_to_info :: "buffer_filter_entry \<Rightarrow> filter_info" where
  "filter_to_info f = \<lparr>fi_id = bf_id f, fi_filter_string = bf_filter_string f, fi_description = bf_description f\<rparr>"

definition list_filters :: "session_id \<Rightarrow> registry \<Rightarrow> filter_info list" where
  "list_filters sid reg = (case map_of reg sid of Some s \<Rightarrow> map filter_to_info (se_filters s) | None \<Rightarrow> [])"

definition add_filter ::
  "(string \<Rightarrow> bool) \<Rightarrow> session_id \<Rightarrow> string \<Rightarrow> string option \<Rightarrow> registry \<Rightarrow> session_error + (u32 \<times> registry)" where
  "add_filter rx sid f desc reg =
     bind_res (map_error SFilterError (parse_filter rx f)) (\<lambda>c.
       case map_of reg sid of
         None \<Rightarrow> Inl (SNotFound (session_display sid))
       | Some s \<Rightarrow>
           Inr (se_next_filter_id s,
             hm_update sid (\<lambda>s. s\<lparr>se_next_filter_id := wrap32 (se_next_filter_id s + 1),
                se_filters := se_filters s @
                  [\<lparr>bf_id = se_next_filter_id s, bf_condition = c, bf_filter_string = f, bf_description = desc\<rparr>]\<rparr>) reg))"

text \<open>\<open>format!("filter {filter_id}")\<close>.\<close>

definition filter_label :: "u32 \<Rightarrow> string" where
  "filter_label i = ''filter '' @ nat_to_string i"

definition edit_entry :: "(string \<times> parsed_filter) option \<Rightarrow> string option \<Rightarrow> buffer_filter_entry \<Rightarrow> buffer_filter_entry" where
  "edit_entry nc desc f0 =
     (let f1 = (case nc of None \<Rightarrow> f0 | Some (fs, c) \<Rightarrow> f0\<lparr>bf_filter_string := fs, bf_condition := c\<rparr>)
      in (case desc of None \<Rightarrow> f1 | Some d \<Rightarrow> f1\<lparr>bf_description := Some d\<rparr>))"

fun update_first_filter :: "u32 \<Rightarrow> (buffer_filter_entry \<Rightarrow> buffer_filter_entry) \<Rightarrow> buffer_filter_entry list
    \<Rightarrow> (buffer_filter_entry \<times> buffer_filter_entry list) option" where
  "update_first_filter i g [] = None"
| "update_first_filter i g (f # fs) =
     (if bf_id f = i then Some (g f, g f # fs)
      else map_option (\<lambda>(f', fs'). (f', f # fs')) (update_first_filter i g fs))"

definition edit_filter ::
  "(string \<Rightarrow> bool) \<Rightarrow> session_id \<Rightarrow> u32 \<Rightarrow> string option \<Rightarrow> string option \<Rightarrow> registry
     \<Rightarrow> session_error + (filter_info \<times> registry)" where
  "edit_filter rx sid i f desc reg =
     bind_res
       (case f of None \<Rightarrow> Inr None
        | Some fs \<Rightarrow> bind_res (map_error SFilterError (parse_filter rx fs)) (\<lambda>c. Inr (Some (fs, c))))
       (\<lambda>nc. case map_of reg sid of
          None \<Rightarrow> Inl (SNotFound (session_display sid))
        | Some s \<Rightarrow>
            (case update_first_filter i (edit_entry nc desc) (se_filters s) of
               None \<Rightarrow> Inl (SNotFound (filter_label i))
             | Some (fe, fes) \<Rightarrow> Inr (filter_to_info fe, hm_update sid (\<lambda>s. s\<lparr>se_filters := fes\<rparr>) reg)))"

definition remove_filter :: "session_id \<Rightarrow> u32 \<Rightarrow> registry \<Rightarrow> session_error + registry" where
  "remove_filter sid i reg =
     (case map_of reg sid of
        None \<Rightarrow> Inl (SNotFound (session_display sid))
      | Some s \<Rightarrow>
          if list_ex (\<lambda>f. bf_id f = i) (se_filters s)
          then (let pos = length (takeWhile (\<lambda>f. bf_id f \<noteq> i) (se_filters s))
                in Inr (hm_update sid (\<lambda>s. s\<lparr>se_filters := take pos (se_filters s) @ drop (Suc pos) (se_filters s)\<rparr>) reg))
          else Inl (SNotFound (filter_label i)))"

section \<open>Post-windows and notifications\<close>

definition decrement_post_window :: "session_id \<Rightarrow> registry \<Rightarrow> bool \<times> registry" where
  "decrement_post_window sid reg =
     (case map_of reg sid of
        Some s \<Rightarrow>
          (case decrement_if_active (se_post_window s) of
             (rem, active) \<Rightarrow> (active, hm_update sid (\<lambda>s. s\<lparr>se_post_window := rem\<rparr>) reg))
      | None \<Rightarrow> (False, reg))"

definition set_post_window :: "session_id \<Rightarrow> u32 \<Rightarrow> registry \<Rightarrow> registry" where
  "set_post_window sid n reg = hm_update sid (\<lambda>s. s\<lparr>se_post_window := n\<rparr>) reg"

definition extend_post_window :: "session_id \<Rightarrow> u32 \<Rightarrow> registry \<Rightarrow> registry" where
  "extend_post_window sid n reg = hm_update sid (\<lambda>s. s\<lparr>se_post_window := max (se_post_window s) n\<rparr>) reg"

definition send_or_queue_notification :: "session_id \<Rightarrow> pipeline_event \<Rightarrow> registry \<Rightarrow> registry" where
  "send_or_queue_notification sid ev reg =
     hm_update sid (\<lambda>s.
       if \<not> se_connected s \<and> se_name s \<noteq> None \<and> length (se_queue s) < se_max_queue_size s
       then s\<lparr>se_queue := se_queue s @ [ev]\<rparr> else s) reg"

definition drain_notifications :: "session_id \<Rightarrow> registry \<Rightarrow> pipeline_event list \<times> registry" where
  "drain_notifications sid reg =
     (case map_of reg sid of
        Some s \<Rightarrow> (se_queue s, hm_update sid (\<lambda>s. s\<lparr>se_queue := []\<rparr>) reg)
      | None \<Rightarrow> ([], reg))"

text \<open>\<open>fmt_f64\<close> is the rendering of a duration by \<open>format!\<close>.\<close>

definition build_span_event ::
  "(f64 \<Rightarrow> string) \<Rightarrow> session_id \<Rightarrow> span_entry \<Rightarrow> trigger_match \<Rightarrow> trace_summary option \<Rightarrow> pipeline_event" where
  "build_span_event fmt_f64 sid sp m summary =
     \<lparr>pe_session_id = session_display sid, pe_trigger_id = tm_id m, pe_trigger_description = tm_description m,
      pe_filter_string = tm_filter_string m,
      pe_matched_entry =
        \<lparr>le_seq = sp_seq sp, le_timestamp = sp_start_time sp,
         le_level = (case sp_status sp of SError _ \<Rightarrow> Error | _ \<Rightarrow> Info),
         le_message = ''[span] '' @ sp_name sp @ '' ('' @ fmt_f64 (sp_duration_ms sp) @ ''ms)'',
         le_full_message = None, le_host = sp_service_name sp, le_facility = Some (sp_service_name sp),
         le_file = None, le_line = None, le_additional_fields = [], le_trace_id = Some (sp_trace_id sp),
         le_span_id = Some (sp_span_id sp), le_matched_filters = [], le_source = Filter\<rparr>,
      pe_context_before = [], pe_pre_trigger_flushed = 0, pe_pre_window = tm_pre_window m,
      pe_post_window_size = 0, pe_notify_context = tm_notify_context m, pe_oneshot = tm_oneshot m,
      pe_trace_id = Some (sp_trace_id sp), pe_trace_summary = summary\<rparr>"

section \<open>The scans of a domain\<close>

text \<open>The loop of \<open>evaluate_filters_for_domain\<close> over the filters of one session.\<close>

definition judge_filter ::
  "match_env \<Rightarrow> log_entry \<Rightarrow> buffer_filter_entry \<Rightarrow> bool \<times> string list \<times> string list \<Rightarrow> bool \<times> string list \<times> string list" where
  "judge_filter env e f acc =
     (case acc of (matched, descs, policy) \<Rightarrow>
       if matches_entry env (bf_condition f) e
       then (True, (case bf_description f of None \<Rightarrow> descs | Some d \<Rightarrow> descs @ [d]), policy @ [bf_filter_string f])
       else (matched, descs, policy @ [bf_filter_string f]))"

definition evaluate_filters_for_domain :: "match_env \<Rightarrow> string \<Rightarrow> log_entry \<Rightarrow> registry \<Rightarrow> storage_decision" where
  "evaluate_filters_for_domain env d e reg =
     (let (matched, descs, policy) =
          fold (\<lambda>(sid, s) acc.
            if \<not> is_in_domain d s \<or> se_filters s = [] then acc
            else fold (judge_filter env e) (se_filters s) acc) reg (False, [], []);
          pol = policy_new policy
      in \<lparr>sd_should_store = (matched \<or> \<not> is_filtered pol), sd_matched_descriptions = descs, sd_policy = pol\<rparr>)"

definition is_named :: "session_id \<Rightarrow> bool" where
  "is_named sid = (case sid of Named _ \<Rightarrow> True | Anonymous _ \<Rightarrow> False)"

definition active_session_ids_sorted_by_pre_window_for_domain :: "string \<Rightarrow> registry \<Rightarrow> session_id list" where
  "active_session_ids_sorted_by_pre_window_for_domain d reg =
     map fst (sort_key (\<lambda>p. - int (snd p))
       (map (\<lambda>(sid, s). (sid, max_pre_window (se_triggers s)))
         (filter (\<lambda>(sid, s). (se_connected s \<or> is_named sid) \<and> is_in_domain d s) reg)))"

definition active_session_ids_for_domain :: "string \<Rightarrow> registry \<Rightarrow> session_id list" where
  "active_session_ids_for_domain d reg = map fst (filter (\<lambda>(sid, s). is_in_domain d s) reg)"

definition max_pre_window_for_domain :: "string \<Rightarrow> registry \<Rightarrow> u32" where
  "max_pre_window_for_domain d reg =
     fold max (map (\<lambda>(sid, s). max_pre_window (se_triggers s)) (filter (\<lambda>(sid, s). is_in_domain d s) reg)) 0"

section \<open>Persistence\<close>

record persisted_bookmark =
  pbm_name :: string
  pbm_seq :: u64
  pbm_created_at :: int
  pbm_description :: "string option"

record persisted_trigger =
  pt_filter :: string
  pt_pre_window :: u32
  pt_post_window :: u32
  pt_notify_context :: u32
  pt_description :: "string option"
  pt_oneshot :: bool

record persisted_filter =
  pf_filter :: string
  pf_description :: "string option"

record persisted_session =
  ps_triggers :: "persisted_trigger list"
  ps_filters :: "persisted_filter list"
  ps_client_info :: "json option"
  ps_bookmarks :: "persisted_bookmark list"

definition max_buffer_size :: nat where "max_buffer_size = 10000000"

definition carries_bookmark :: "(string \<Rightarrow> bool) \<Rightarrow> string \<Rightarrow> bool" where
  "carries_bookmark rx f = (case parse_filter rx f of Inl _ \<Rightarrow> False | Inr p \<Rightarrow> contains_bookmark_qualifier p)"

definition restore_trigger :: "(string \<Rightarrow> bool) \<Rightarrow> persisted_trigger \<Rightarrow> trigger_manager \<Rightarrow> trigger_manager" where
  "restore_trigger rx pt tm =
     (if max_buffer_size < pt_pre_window pt \<or> carries_bookmark rx (pt_filter pt) then tm
      else (case manager_add rx (pt_filter pt) (pt_pre_window pt) (pt_post_window pt) (pt_notify_context pt)
                   (pt_description pt) (pt_oneshot pt) tm of
              Inl _ \<Rightarrow> tm | Inr (_, tm') \<Rightarrow> tm'))"

definition restore_filter :: "(string \<Rightarrow> bool) \<Rightarrow> persisted_filter \<Rightarrow> session_state \<Rightarrow> session_state" where
  "restore_filter rx pf s =
     (if carries_bookmark rx (pf_filter pf) then s
      else (case parse_filter rx (pf_filter pf) of
              Inl _ \<Rightarrow> s
            | Inr c \<Rightarrow>
                s\<lparr>se_next_filter_id := wrap32 (se_next_filter_id s + 1),
                  se_filters := se_filters s @
                    [\<lparr>bf_id = se_next_filter_id s, bf_condition = c, bf_filter_string = pf_filter pf,
                      bf_description = pf_description pf\<rparr>]\<rparr>))"

definition restore_bookmark :: "string \<Rightarrow> persisted_bookmark \<Rightarrow> bookmark_store \<Rightarrow> bookmark_store" where
  "restore_bookmark name pb st =
     insert_persisted
       \<lparr>bm_qualified_name = qualified_name name (pbm_name pb), bm_name = pbm_name pb, bm_session = name,
        bm_seq = pbm_seq pb, bm_created_at = pbm_created_at pb, bm_description = pbm_description pb,
        bm_late_mark = 0, bm_floor = pbm_seq pb\<rparr> st"

text \<open>The state \<open>restore_named\<close> registers: the seeded triggers removed, the persisted ones added.\<close>

definition restored_state :: "(string \<Rightarrow> bool) \<Rightarrow> persisted_session \<Rightarrow> session_state \<Rightarrow> session_state" where
  "restored_state rx p s0 =
     (let s1 = s0\<lparr>se_connected := False\<rparr>;
          tm1 = fold (\<lambda>ti tm. case manager_remove (ti_id ti) tm of Inl _ \<Rightarrow> tm | Inr tm' \<Rightarrow> tm')
                  (manager_list (se_triggers s1)) (se_triggers s1);
          s2 = s1\<lparr>se_triggers := fold (restore_trigger rx) (ps_triggers p) tm1\<rparr>;
          s3 = fold (restore_filter rx) (ps_filters p) s2
      in (case ps_client_info p of None \<Rightarrow> s3 | Some ci \<Rightarrow> s3\<lparr>se_client_info := Some ci\<rparr>))"

definition restore_named ::
  "(string \<Rightarrow> bool) \<Rightarrow> string \<Rightarrow> persisted_session \<Rightarrow> nat \<Rightarrow> bookmark_store \<Rightarrow> registry \<Rightarrow> (bookmark_store \<times> registry) option" where
  "restore_named rx name p now bst reg =
     (case new_named rx name now of
        None \<Rightarrow> None
      | Some s0 \<Rightarrow> Some (fold (restore_bookmark name) (ps_bookmarks p) bst,
                           hm_insert (Named name) (restored_state rx p s0) reg))"

definition persist_bookmark :: "bookmark \<Rightarrow> persisted_bookmark" where
  "persist_bookmark b =
     \<lparr>pbm_name = bm_name b, pbm_seq = bm_seq b, pbm_created_at = bm_created_at b, pbm_description = bm_description b\<rparr>"

definition persist_trigger :: "trigger_info \<Rightarrow> persisted_trigger" where
  "persist_trigger t =
     \<lparr>pt_filter = ti_filter_string t, pt_pre_window = ti_pre_window t, pt_post_window = ti_post_window t,
      pt_notify_context = ti_notify_context t, pt_description = ti_description t, pt_oneshot = ti_oneshot t\<rparr>"

definition persist_filter :: "buffer_filter_entry \<Rightarrow> persisted_filter" where
  "persist_filter f = \<lparr>pf_filter = bf_filter_string f, pf_description = bf_description f\<rparr>"

definition persist_state :: "persisted_bookmark list \<Rightarrow> session_state \<Rightarrow> persisted_session" where
  "persist_state bms s =
     \<lparr>ps_triggers = map persist_trigger (manager_list (se_triggers s)),
      ps_filters = map persist_filter (se_filters s), ps_client_info = se_client_info s, ps_bookmarks = bms\<rparr>"

text \<open>Bucketing by session: the bookmarks of a session in the order of the whole list.\<close>

definition bookmarks_by_session :: "bookmark_store \<Rightarrow> (string \<times> persisted_bookmark list) list" where
  "bookmarks_by_session bst =
     fold (\<lambda>b m. hm_insert (bm_session b)
             ((case map_of m (bm_session b) of None \<Rightarrow> [] | Some v \<Rightarrow> v) @ [persist_bookmark b]) m)
       (bookmark_list bst) []"

definition snapshot_named_for_persistence :: "bookmark_store \<Rightarrow> registry \<Rightarrow> (string \<times> persisted_session) list" where
  "snapshot_named_for_persistence bst reg =
     List.map_filter (\<lambda>(sid, s).
       case sid of
         Anonymous _ \<Rightarrow> None
       | Named name \<Rightarrow>
           Some (name, persist_state (case map_of (bookmarks_by_session bst) name of None \<Rightarrow> [] | Some v \<Rightarrow> v) s)) reg"

end
