(* ===== verification/Session_Props.thy ===== *)
theory Session_Props
  imports Session
begin

text \<open>
  What the session registry guarantees: its invariant over any run, that no operation of another
  client takes a connected session away, that a rename keeps a session's state, that the storage
  decision of a domain is made by that domain's filters alone, and that a persisted session comes
  back with the triggers and filters it had.
\<close>

section \<open>The invariant\<close>

definition filter_ok :: "(string \<Rightarrow> bool) \<Rightarrow> buffer_filter_entry \<Rightarrow> bool" where
  "filter_ok rx f \<longleftrightarrow> parse_filter rx (bf_filter_string f) = Inr (bf_condition f)"

definition session_ok :: "(string \<Rightarrow> bool) \<Rightarrow> session_id \<Rightarrow> session_state \<Rightarrow> bool" where
  "session_ok rx sid s \<longleftrightarrow>
     (case sid of Named n \<Rightarrow> is_valid_name n \<and> se_name s = Some n
      | Anonymous _ \<Rightarrow> se_name s = None \<and> se_connected s) \<and>
     length (se_queue s) \<le> se_max_queue_size s \<and>
     list_all (trigger_ok rx) (triggers (se_triggers s)) \<and>
     list_all (filter_ok rx) (se_filters s) \<and>
     se_domain s \<in> set (se_touched s) \<and> default_domain \<in> set (se_touched s)"

definition registry_inv :: "(string \<Rightarrow> bool) \<Rightarrow> registry \<Rightarrow> bool" where
  "registry_inv rx reg \<longleftrightarrow>
     distinct (keys_of reg) \<and> list_all (\<lambda>(sid, s). session_ok rx sid s) reg \<and>
     (\<forall>n. Named n \<in> fst ` set reg \<longrightarrow> Anonymous n \<notin> fst ` set reg)"

datatype registry_op =
    RCreateAnonymous string nat
  | RCreateNamed string nat
  | RClaim string nat
  | RReconnect session_id nat
  | RDisconnect session_id nat
  | RClientInfo session_id "json option"
  | RRename session_id string nat
  | RDispose session_id nat nat
  | RSetDomain session_id string
  | RDrop string
  | REvaluate session_id log_entry
  | REvaluateSpan session_id span_entry
  | RAddTrigger session_id string u32 u32 u32 "string option" bool
  | REditTrigger session_id u32 trigger_edit
  | RRemoveTrigger session_id u32
  | RAddFilter session_id string "string option"
  | REditFilter session_id u32 "string option" "string option"
  | RRemoveFilter session_id u32
  | RDecrement session_id
  | RSetWindow session_id u32
  | RExtend session_id u32
  | RNotify session_id pipeline_event
  | RDrain session_id
  | RRestore string persisted_session nat

definition ok_or :: "'a \<Rightarrow> ('b \<Rightarrow> 'a) \<Rightarrow> 'e + 'b \<Rightarrow> 'a" where
  "ok_or d g r = (case r of Inl _ \<Rightarrow> d | Inr b \<Rightarrow> g b)"

text \<open>An operation on the registry; a refused one leaves it as it was.\<close>

fun reg_apply :: "(string \<Rightarrow> bool) \<Rightarrow> match_env \<Rightarrow> registry_op \<Rightarrow> registry \<Rightarrow> registry" where
  "reg_apply rx env (RCreateAnonymous uuid now) reg =
     (case create_anonymous rx uuid now reg of None \<Rightarrow> reg | Some (_, r) \<Rightarrow> r)"
| "reg_apply rx env (RCreateNamed name now) reg = ok_or reg snd (create_named rx name now reg)"
| "reg_apply rx env (RClaim name now) reg = ok_or reg snd (claim_named rx name now reg)"
| "reg_apply rx env (RReconnect sid now) reg = ok_or reg id (reconnect sid now reg)"
| "reg_apply rx env (RDisconnect sid now) reg = disconnect sid now reg"
| "reg_apply rx env (RClientInfo sid info) reg = set_client_info sid info reg"
| "reg_apply rx env (RRename old new_name now) reg =
     ok_or reg (snd \<circ> snd) (rename old new_name (\<lambda>_ _. id) now () reg)"
| "reg_apply rx env (RDispose sid ttl now) reg = snd (snd (dispose_if_expired sid ttl id now () reg))"
| "reg_apply rx env (RSetDomain sid d) reg = set_domain sid d reg"
| "reg_apply rx env (RDrop name) reg = snd (snd (drop_session name (\<lambda>_. id) () reg))"
| "reg_apply rx env (REvaluate sid e) reg = snd (evaluate_triggers env sid e reg)"
| "reg_apply rx env (REvaluateSpan sid sp) reg = snd (evaluate_span_triggers env sid sp reg)"
| "reg_apply rx env (RAddTrigger sid f pre post ctx desc os) reg =
     ok_or reg snd (add_trigger rx sid f pre post ctx desc os reg)"
| "reg_apply rx env (REditTrigger sid i ed) reg = ok_or reg snd (edit_trigger rx sid i ed reg)"
| "reg_apply rx env (RRemoveTrigger sid i) reg = ok_or reg id (remove_trigger sid i reg)"
| "reg_apply rx env (RAddFilter sid f desc) reg = ok_or reg snd (add_filter rx sid f desc reg)"
| "reg_apply rx env (REditFilter sid i f desc) reg = ok_or reg snd (edit_filter rx sid i f desc reg)"
| "reg_apply rx env (RRemoveFilter sid i) reg = ok_or reg id (remove_filter sid i reg)"
| "reg_apply rx env (RDecrement sid) reg = snd (decrement_post_window sid reg)"
| "reg_apply rx env (RSetWindow sid n) reg = set_post_window sid n reg"
| "reg_apply rx env (RExtend sid n) reg = extend_post_window sid n reg"
| "reg_apply rx env (RNotify sid ev) reg = send_or_queue_notification sid ev reg"
| "reg_apply rx env (RDrain sid) reg = snd (drain_notifications sid reg)"
| "reg_apply rx env (RRestore name p now) reg =
     (case restore_named rx name p now bookmark_store_new reg of None \<Rightarrow> reg | Some (_, r) \<Rightarrow> r)"

text \<open>
  What the callers provide: a fresh UUID is nobody's id or name, and a restored name is valid and
  no live anonymous id (sessions are restored before any client connects).
\<close>

fun reg_op_ok :: "registry_op \<Rightarrow> registry \<Rightarrow> bool" where
  "reg_op_ok (RCreateAnonymous uuid _) reg = (Anonymous uuid \<notin> fst ` set reg \<and> Named uuid \<notin> fst ` set reg)"
| "reg_op_ok (RRestore name _ _) reg = (is_valid_name name \<and> Anonymous name \<notin> fst ` set reg)"
| "reg_op_ok _ reg = True"

section \<open>Preservation\<close>

lemma registry_inv_update:
  assumes "registry_inv rx reg" and "\<And>s. session_ok rx sid s \<Longrightarrow> session_ok rx sid (g s)"
  shows "registry_inv rx (hm_update sid g reg)"
proof -
  have "fst ` set (hm_update sid g reg) = fst ` set reg" by (metis keys_hm_update set_map)
  moreover have "list_all (\<lambda>(sid, s). session_ok rx sid s) (hm_update sid g reg)"
    using assms by (auto simp: registry_inv_def hm_update_def list_all_iff)
  ultimately show ?thesis using assms(1) by (simp add: registry_inv_def)
qed

lemma registry_inv_remove: "registry_inv rx reg \<Longrightarrow> registry_inv rx (hm_remove sid reg)"
  by (auto simp: registry_inv_def hm_remove_def list_all_iff)

lemma list_all_hm_insert': "list_all P m \<Longrightarrow> P (k, v) \<Longrightarrow> list_all P (hm_insert k v m)"
  by (induction k v m rule: hm_insert.induct) auto

lemma registry_inv_insert:
  assumes "registry_inv rx reg" and "session_ok rx sid s"
    and "\<And>n. sid = Named n \<Longrightarrow> Anonymous n \<notin> fst ` set reg" and "\<And>n. sid = Anonymous n \<Longrightarrow> Named n \<notin> fst ` set reg"
  shows "registry_inv rx (hm_insert sid s reg)"
  using assms by (auto simp: registry_inv_def intro!: list_all_hm_insert')

lemma registry_inv_get: "registry_inv rx reg \<Longrightarrow> map_of reg sid = Some s \<Longrightarrow> session_ok rx sid s"
  by (auto simp: registry_inv_def list_all_iff dest: map_of_SomeD)

lemma map_of_None_key: "map_of m k = None \<longleftrightarrow> k \<notin> fst ` set m"
  by (simp add: map_of_eq_None_iff)

lemma triggers_ok_new: "manager_new rx = Some tm \<Longrightarrow> list_all (trigger_ok rx) (triggers tm)"
  using manager_ok_new by (auto simp: manager_ok_def)

lemma fresh_session_ok:
  assumes "fresh_session rx name now = Some s"
  shows "se_name s = name \<and> se_connected s \<and> se_filters s = [] \<and> se_queue s = [] \<and>
    list_all (trigger_ok rx) (triggers (se_triggers s)) \<and> se_domain s = default_domain \<and> se_touched s = [default_domain]"
  using assms triggers_ok_new by (auto simp: fresh_session_def)

lemma session_ok_fresh:
  "fresh_session rx (Some n) now = Some s \<Longrightarrow> is_valid_name n \<Longrightarrow> session_ok rx (Named n) s"
  "fresh_session rx None now = Some s' \<Longrightarrow> session_ok rx (Anonymous u) s'"
  by (auto dest!: fresh_session_ok simp: session_ok_def)

text \<open>Triggers stay parsed whatever the manager is asked.\<close>

lemma update_first_all:
  "update_first i g ts = Some (t, ts') \<Longrightarrow> list_all P ts \<Longrightarrow> (\<And>t. P t \<Longrightarrow> P (g t)) \<Longrightarrow> list_all P ts'"
  by (induction ts arbitrary: t ts') (auto split: if_splits)

lemma triggers_ok_add:
  "manager_add rx fs pre post ctx desc os tm = Inr (i, tm') \<Longrightarrow> list_all (trigger_ok rx) (triggers tm) \<Longrightarrow>
   list_all (trigger_ok rx) (triggers tm')"
  by (auto simp: manager_add_def trigger_ok_fresh split: sum.splits)

lemma triggers_ok_edit:
  assumes "manager_edit rx i ed tm = Inr (info, tm')" and "list_all (trigger_ok rx) (triggers tm)"
  shows "list_all (trigger_ok rx) (triggers tm')"
proof -
  obtain nc where nc: "\<And>fs c. nc = Some (fs, c) \<Longrightarrow> parse_filter rx fs = Inr c"
    and up: "(case update_first i (apply_edit nc ed) (triggers tm) of None \<Rightarrow> Inl (TriggerNotFound i)
             | Some (t, ts) \<Rightarrow> Inr (to_info t, tm\<lparr>triggers := ts\<rparr>)) = Inr (info, tm')"
    using assms(1) unfolding manager_edit_def bind_res_Inr by (fastforce split: option.splits sum.splits)
  from up obtain t ts where ts: "update_first i (apply_edit nc ed) (triggers tm) = Some (t, ts)" "tm' = tm\<lparr>triggers := ts\<rparr>"
    by (auto split: option.splits)
  show ?thesis using update_first_all [OF ts(1) assms(2)] trigger_ok_apply_edit nc ts(2) by simp
qed

lemma list_all_cut: "list_all P xs \<Longrightarrow> list_all P (take n xs @ drop m xs)"
  unfolding list_all_iff by (metis UnE in_set_dropD in_set_takeD set_append)

lemma triggers_ok_remove:
  "manager_remove i tm = Inr tm' \<Longrightarrow> list_all (trigger_ok rx) (triggers tm) \<Longrightarrow> list_all (trigger_ok rx) (triggers tm')"
  by (auto simp: manager_remove_def Let_def split: if_splits simp del: list_all_append intro!: list_all_cut)

lemma triggers_ok_evaluate:
  assumes "list_all (trigger_ok rx) (triggers tm)"
  shows "list_all (trigger_ok rx) (triggers (fst (evaluate env e tm)))"
    and "list_all (trigger_ok rx) (triggers (fst (evaluate_span env sp tm)))"
  using assms by (simp_all add: list_all_iff evaluate_def evaluate_span_def trigger_ok_eval trigger_ok_eval_span)

lemma triggers_ok_reset:
  "list_all (trigger_ok rx) (triggers tm) \<Longrightarrow> list_all (trigger_ok rx) (triggers (reset_post_windows tm))"
  by (auto simp: list_all_iff reset_post_windows_def trigger_ok_def)

lemma session_ok_triggers:
  "session_ok rx sid s \<Longrightarrow> list_all (trigger_ok rx) (triggers tm) \<Longrightarrow> session_ok rx sid (s\<lparr>se_triggers := tm\<rparr>)"
  by (simp add: session_ok_def split: session_id.splits)

lemma session_ok_get_triggers: "session_ok rx sid s \<Longrightarrow> list_all (trigger_ok rx) (triggers (se_triggers s))"
  by (simp add: session_ok_def)

lemma update_first_filter_all:
  "update_first_filter i g fs = Some (f, fs') \<Longrightarrow> list_all P fs \<Longrightarrow> (\<And>f. P f \<Longrightarrow> P (g f)) \<Longrightarrow> list_all P fs'"
  by (induction fs arbitrary: f fs') (auto split: if_splits)

lemma filter_ok_edit:
  assumes "filter_ok rx f" and "\<And>fs c. nc = Some (fs, c) \<Longrightarrow> parse_filter rx fs = Inr c"
  shows "filter_ok rx (edit_entry nc desc f)"
  using assms by (auto simp: filter_ok_def edit_entry_def split: option.split)


lemma registry_inv_triggers:
  assumes "registry_inv rx reg" and "list_all (trigger_ok rx) (triggers tm)"
  shows "registry_inv rx (update_triggers sid tm reg)"
  unfolding update_triggers_def by (rule registry_inv_update [OF assms(1)]) (rule session_ok_triggers [OF _ assms(2)])

lemma registry_inv_get_triggers:
  "registry_inv rx reg \<Longrightarrow> map_of reg sid = Some s \<Longrightarrow> list_all (trigger_ok rx) (triggers (se_triggers s))"
  using registry_inv_get session_ok_get_triggers by blast

lemma registry_inv_anonymous:
  assumes "registry_inv rx reg" and "reg_op_ok (RCreateAnonymous uuid now) reg"
  shows "registry_inv rx (reg_apply rx env (RCreateAnonymous uuid now) reg)"
  using assms session_ok_fresh(2) [of rx now _ uuid]
  by (auto simp: create_anonymous_def new_anonymous_def split: option.split intro!: registry_inv_insert)

lemma new_named_inv:
  assumes "registry_inv rx reg" and "is_valid_name name" and "map_of reg (Anonymous name) = None"
    and "new_named rx name now = Some s"
  shows "registry_inv rx (hm_insert (Named name) s reg)"
  using assms session_ok_fresh(1) [of rx name now s]
  by (auto simp: new_named_def map_of_None_key intro!: registry_inv_insert)

lemma session_ok_reconnected: "session_ok rx (Named n) s \<Longrightarrow> session_ok rx (Named n) (touch now (s\<lparr>se_connected := b\<rparr>))"
  by (simp add: session_ok_def touch_def)

lemma registry_inv_claim:
  "registry_inv rx reg \<Longrightarrow> registry_inv rx (reg_apply rx env (RClaim name now) reg)"
  "registry_inv rx reg \<Longrightarrow> registry_inv rx (reg_apply rx env (RCreateNamed name now) reg)"
  by (auto simp: claim_named_def create_named_def ok_or_def bind_res_def refuse_an_anonymous_id_def
      split: sum.split option.split
      intro: new_named_inv registry_inv_update session_ok_reconnected)

lemma registry_inv_reconnect: "registry_inv rx reg \<Longrightarrow> registry_inv rx (reg_apply rx env (RReconnect sid now) reg)"
  by (auto simp: reconnect_def ok_or_def split: sum.split option.split session_id.split
      intro: registry_inv_update session_ok_reconnected)

lemma registry_inv_disconnect: "registry_inv rx reg \<Longrightarrow> registry_inv rx (disconnect sid now reg)"
  by (auto simp: disconnect_def split: session_id.split
      intro: registry_inv_update session_ok_reconnected registry_inv_remove)

lemma session_ok_renamed:
  "session_ok rx old s \<Longrightarrow> is_valid_name n \<Longrightarrow> session_ok rx (Named n) (touch now (s\<lparr>se_name := Some n\<rparr>))"
  by (simp add: session_ok_def touch_def)

text \<open>What a successful rename leaves.\<close>

lemma rename_cases:
  assumes "rename old new_name transfer now w reg = Inr ((i, displaced), w', reg')"
  obtains (same) "old = Named new_name" "i = old" "w' = w" "reg' = reg" "\<not> displaced"
  | (moved) s where "old \<noteq> Named new_name" "i = Named new_name" "map_of reg old = Some s" "is_valid_name new_name"
      "w' = transfer i displaced w"
      "reg' = hm_insert i (touch now (s\<lparr>se_name := Some new_name\<rparr>)) (hm_remove old (if displaced then hm_remove i reg else reg))"
      "displaced \<longleftrightarrow> map_of reg i \<noteq> None" "\<not> is_connected i reg"
      "old \<noteq> Anonymous new_name \<Longrightarrow> map_of reg (Anonymous new_name) = None"
  using assms
  by (cases "map_of reg (Named new_name)")
     (auto simp: rename_def Let_def bind_res_def refuse_an_anonymous_id_def is_connected_def
        split: if_splits option.splits sum.splits)

lemma keys_hm_remove [simp]: "fst ` set (hm_remove k m) = fst ` set m - {k}"
  by (auto simp: hm_remove_def)

lemma registry_inv_rename:
  assumes inv: "registry_inv rx reg" and ok: "rename old new_name transfer now w reg = Inr (r, w', reg')"
  shows "registry_inv rx reg'"
proof -
  obtain i displaced where r: "r = (i, displaced)" by force
  from ok [unfolded r] show ?thesis
  proof (cases rule: rename_cases)
    case same
    then show ?thesis using inv by simp
  next
    case (moved s)
    have "Anonymous new_name \<notin> fst ` set (hm_remove old (if displaced then hm_remove i reg else reg))"
      using moved(9) by (cases "old = Anonymous new_name") (auto simp: map_of_None_key)
    moreover have "session_ok rx i (touch now (s\<lparr>se_name := Some new_name\<rparr>))"
      unfolding moved(2) by (rule session_ok_renamed [OF registry_inv_get [OF inv moved(3)] moved(4)])
    ultimately show ?thesis unfolding moved(6)
      by (intro registry_inv_insert) (auto simp: inv moved(2) intro!: registry_inv_remove)
  qed
qed

lemma registry_inv_evaluate:
  "registry_inv rx reg \<Longrightarrow> registry_inv rx (snd (evaluate_triggers env sid e reg))"
  "registry_inv rx reg \<Longrightarrow> registry_inv rx (snd (evaluate_span_triggers env sid sp reg))"
  by (auto simp: evaluate_triggers_def evaluate_span_triggers_def case_prod_unfold Let_def split: option.split
      intro!: registry_inv_triggers triggers_ok_evaluate intro: registry_inv_get_triggers)

lemma registry_inv_edit_triggers:
  assumes "registry_inv rx reg"
  shows "registry_inv rx (ok_or reg snd (add_trigger rx sid f pre post ctx desc os reg))"
    and "registry_inv rx (ok_or reg snd (edit_trigger rx sid i ed reg))"
    and "registry_inv rx (ok_or reg id (remove_trigger sid i reg))"
  using assms
  by (auto simp: add_trigger_def edit_trigger_def remove_trigger_def ok_or_def bind_res_def map_error_def
      split: sum.split option.split
      intro!: registry_inv_triggers
      intro: triggers_ok_add triggers_ok_edit triggers_ok_remove registry_inv_get_triggers)

lemma session_ok_filters:
  "session_ok rx sid s \<Longrightarrow> list_all (filter_ok rx) fs \<Longrightarrow> session_ok rx sid (s\<lparr>se_filters := fs\<rparr>)"
  by (simp add: session_ok_def split: session_id.splits)

lemma session_ok_push_filter:
  "session_ok rx sid s \<Longrightarrow> parse_filter rx f = Inr c \<Longrightarrow>
   session_ok rx sid (s\<lparr>se_next_filter_id := n,
     se_filters := se_filters s @ [\<lparr>bf_id = k, bf_condition = c, bf_filter_string = f, bf_description = desc\<rparr>]\<rparr>)"
  by (simp add: session_ok_def filter_ok_def split: session_id.splits)

lemma session_ok_get_filters: "session_ok rx sid s \<Longrightarrow> list_all (filter_ok rx) (se_filters s)"
  by (simp add: session_ok_def)

lemma registry_inv_add_filter:
  "registry_inv rx reg \<Longrightarrow> registry_inv rx (ok_or reg snd (add_filter rx sid f desc reg))"
  by (auto simp: add_filter_def ok_or_def bind_res_def map_error_def split: sum.split option.split
      intro!: registry_inv_update session_ok_push_filter)

lemma registry_inv_edit_filter:
  assumes inv: "registry_inv rx reg"
  shows "registry_inv rx (ok_or reg snd (edit_filter rx sid i f desc reg))"
proof (cases "edit_filter rx sid i f desc reg")
  case (Inr r)
  obtain nc where nc: "\<And>fs c. nc = Some (fs, c) \<Longrightarrow> parse_filter rx fs = Inr c"
    and ed: "(case map_of reg sid of
          None \<Rightarrow> Inl (SNotFound (session_display sid))
        | Some s \<Rightarrow>
            (case update_first_filter i (edit_entry nc desc) (se_filters s) of
               None \<Rightarrow> Inl (SNotFound (filter_label i))
             | Some (fe, fes) \<Rightarrow> Inr (filter_to_info fe, hm_update sid (\<lambda>s. s\<lparr>se_filters := fes\<rparr>) reg))) = Inr r"
    using Inr unfolding edit_filter_def bind_res_Inr
    by (fastforce simp: bind_res_def map_error_def split: option.splits sum.splits)
  then obtain s fe fes where s: "map_of reg sid = Some s" and up: "update_first_filter i (edit_entry nc desc) (se_filters s) = Some (fe, fes)"
    and r: "r = (filter_to_info fe, hm_update sid (\<lambda>s. s\<lparr>se_filters := fes\<rparr>) reg)"
    by (auto split: option.splits)
  have "list_all (filter_ok rx) fes"
    using update_first_filter_all [OF up session_ok_get_filters [OF registry_inv_get [OF inv s]]] filter_ok_edit nc by blast
  then show ?thesis using Inr r inv by (auto simp: ok_or_def intro!: registry_inv_update session_ok_filters)
qed (simp add: ok_or_def inv)

lemma registry_inv_remove_filter:
  "registry_inv rx reg \<Longrightarrow> registry_inv rx (ok_or reg id (remove_filter sid i reg))"
  by (auto simp: remove_filter_def ok_or_def Let_def split: sum.split option.split if_splits
      simp del: list_all_append intro!: registry_inv_update session_ok_filters list_all_cut session_ok_get_filters)

lemma session_ok_window: "session_ok rx sid s \<Longrightarrow> session_ok rx sid (s\<lparr>se_post_window := n\<rparr>)"
  by (simp add: session_ok_def split: session_id.splits)

lemma session_ok_queue:
  "session_ok rx sid s \<Longrightarrow> length q \<le> se_max_queue_size s \<Longrightarrow> session_ok rx sid (s\<lparr>se_queue := q\<rparr>)"
  by (simp add: session_ok_def split: session_id.splits)

lemma registry_inv_windows:
  assumes "registry_inv rx reg"
  shows "registry_inv rx (snd (decrement_post_window sid reg))" "registry_inv rx (set_post_window sid n reg)"
    "registry_inv rx (extend_post_window sid n reg)" "registry_inv rx (snd (drain_notifications sid reg))"
    "registry_inv rx (send_or_queue_notification sid ev reg)" "registry_inv rx (set_client_info sid info reg)"
  using assms
  by (auto simp: decrement_post_window_def set_post_window_def extend_post_window_def drain_notifications_def
      send_or_queue_notification_def set_client_info_def
      split: option.split prod.split intro!: registry_inv_update session_ok_window session_ok_queue)
     (simp add: session_ok_def split: session_id.splits)

lemma registry_inv_set_domain: "registry_inv rx reg \<Longrightarrow> registry_inv rx (set_domain sid d reg)"
  unfolding set_domain_def
  by (rule registry_inv_update, assumption)
     (auto simp: session_ok_def Let_def set_insert_def triggers_ok_reset split: session_id.splits)

lemma triggers_ok_restore:
  "list_all (trigger_ok rx) (triggers tm) \<Longrightarrow> list_all (trigger_ok rx) (triggers (restore_trigger rx pt tm))"
  by (auto simp: restore_trigger_def split: sum.split intro: triggers_ok_add)

lemma fold_keeps: "P a \<Longrightarrow> (\<And>x a. P a \<Longrightarrow> P (g x a)) \<Longrightarrow> P (fold g xs a)"
  by (induction xs arbitrary: a) auto

lemma session_ok_restore_filter: "session_ok rx sid s \<Longrightarrow> session_ok rx sid (restore_filter rx pf s)"
  by (auto simp: restore_filter_def split: sum.split intro: session_ok_push_filter)

lemma session_ok_restored:
  assumes "session_ok rx (Named n) s"
  shows "session_ok rx (Named n) (restored_state rx p s)"
proof -
  let ?s1 = "s\<lparr>se_connected := False\<rparr>"
  let ?tm1 = "fold (\<lambda>ti tm. case manager_remove (ti_id ti) tm of Inl _ \<Rightarrow> tm | Inr tm' \<Rightarrow> tm')
                (manager_list (se_triggers ?s1)) (se_triggers ?s1)"
  have "list_all (trigger_ok rx) (triggers ?tm1)"
    by (rule fold_keeps) (use assms in \<open>auto simp: session_ok_def split: sum.split intro: triggers_ok_remove\<close>)
  then have "list_all (trigger_ok rx) (triggers (fold (restore_trigger rx) (ps_triggers p) ?tm1))"
    by (rule fold_keeps) (rule triggers_ok_restore)
  then have "session_ok rx (Named n) (?s1\<lparr>se_triggers := fold (restore_trigger rx) (ps_triggers p) ?tm1\<rparr>)"
    using assms by (simp add: session_ok_def)
  then have "session_ok rx (Named n)
      (fold (restore_filter rx) (ps_filters p) (?s1\<lparr>se_triggers := fold (restore_trigger rx) (ps_triggers p) ?tm1\<rparr>))"
    by (rule fold_keeps) (rule session_ok_restore_filter)
  moreover have "session_ok rx (Named n) s' \<Longrightarrow> session_ok rx (Named n) (s'\<lparr>se_client_info := ci\<rparr>)" for s' ci
    by (simp add: session_ok_def)
  ultimately show ?thesis unfolding restored_state_def Let_def by (simp split: option.split)
qed

lemma registry_inv_restore:
  assumes "registry_inv rx reg" and "is_valid_name name" and "Anonymous name \<notin> fst ` set reg"
    and "restore_named rx name p now bst reg = Some (bst', reg')"
  shows "registry_inv rx reg'"
proof -
  obtain s0 where s0: "fresh_session rx (Some name) now = Some s0" "reg' = hm_insert (Named name) (restored_state rx p s0) reg"
    using assms(4) by (auto simp: restore_named_def new_named_def split: option.splits)
  have "session_ok rx (Named name) (restored_state rx p s0)"
    by (rule session_ok_restored [OF session_ok_fresh(1) [OF s0(1) assms(2)]])
  then show ?thesis unfolding s0(2) using assms(1,3) by (auto intro: registry_inv_insert)
qed

lemma registry_inv_apply [inv_intros]:
  assumes inv: "registry_inv rx reg" and ok: "reg_op_ok oper reg"
  shows "registry_inv rx (reg_apply rx env oper reg)"
proof (cases oper)
  case (RCreateAnonymous uuid now)
  then show ?thesis using registry_inv_anonymous [OF inv] ok by simp
next
  case (RRename old new_name now)
  then show ?thesis using inv registry_inv_rename [OF inv, of old new_name]
    by (auto simp: ok_or_def split: sum.split)
next
  case (RRestore name p now)
  then show ?thesis using inv ok registry_inv_restore [OF inv] by (auto split: option.split)
next
  case (RDispose sid ttl now)
  then show ?thesis using inv by (auto simp: dispose_if_expired_def registry_inv_remove split: option.split)
next
  case (RDrop name)
  then show ?thesis using inv by (auto simp: drop_session_def registry_inv_remove split: option.split)
qed (use inv in \<open>simp_all add: registry_inv_claim [simplified] registry_inv_reconnect [simplified]
      registry_inv_disconnect registry_inv_windows registry_inv_set_domain registry_inv_evaluate
      registry_inv_edit_triggers registry_inv_add_filter registry_inv_edit_filter registry_inv_remove_filter\<close>)

inductive registry_reachable :: "(string \<Rightarrow> bool) \<Rightarrow> match_env \<Rightarrow> registry \<Rightarrow> bool" for rx env where
  start: "registry_reachable rx env registry_new"
| step: "registry_reachable rx env reg \<Longrightarrow> reg_op_ok oper reg \<Longrightarrow> registry_reachable rx env (reg_apply rx env oper reg)"

lemma registry_reachable_inv: "registry_reachable rx env reg \<Longrightarrow> registry_inv rx reg"
proof (induction rule: registry_reachable.induct)
  case start
  then show ?case by (simp add: registry_inv_def registry_new_def)
qed (rule registry_inv_apply)

section \<open>Connected sessions\<close>

text \<open>The operations that may end a connection: the client's own disconnect or rename, and a restore of its name.\<close>

fun disturbs :: "session_id \<Rightarrow> registry_op \<Rightarrow> bool" where
  "disturbs sid (RDisconnect sid' _) = (sid' = sid)"
| "disturbs sid (RRename old _ _) = (old = sid)"
| "disturbs sid (RRestore name _ _) = (sid = Named name)"
| "disturbs sid _ = False"

lemma connected_update:
  "is_connected sid reg \<Longrightarrow> (\<And>s. se_connected s \<Longrightarrow> se_connected (g s)) \<Longrightarrow> is_connected sid (hm_update k g reg)"
  by (cases "map_of reg sid") (auto simp: is_connected_def)

lemma connected_insert: "is_connected sid reg \<Longrightarrow> sid \<noteq> k \<Longrightarrow> is_connected sid (hm_insert k s reg)"
  by (simp add: is_connected_def)

lemma connected_remove: "is_connected sid reg \<Longrightarrow> sid \<noteq> k \<Longrightarrow> is_connected sid (hm_remove k reg)"
  by (simp add: is_connected_def)

lemma connected_rename:
  assumes "is_connected sid reg" and "old \<noteq> sid" and "rename old new_name transfer now w reg = Inr (r, w', reg')"
  shows "is_connected sid reg'"
proof -
  obtain i displaced where r: "r = (i, displaced)" by force
  from assms(3) [unfolded r] show ?thesis
  proof (cases rule: rename_cases)
    case (moved s)
    then have "sid \<noteq> i" using assms(1) by blast
    then show ?thesis unfolding moved(6) using assms(1,2) by (simp add: connected_insert connected_remove)
  qed (use assms in simp)
qed

lemma connected_claim:
  assumes "is_connected sid reg"
  shows "is_connected sid (ok_or reg snd (claim_named rx name now reg))"
    and "is_connected sid (ok_or reg snd (create_named rx name now reg))"
    and "is_connected sid (ok_or reg id (reconnect k now reg))"
proof -
  have ins: "is_connected sid (hm_insert (Named name) s reg)" if "map_of reg (Named name) = None" for s
    using assms that by (cases "sid = Named name") (auto simp: is_connected_def)
  show "is_connected sid (ok_or reg snd (claim_named rx name now reg))"
    "is_connected sid (ok_or reg snd (create_named rx name now reg))"
    "is_connected sid (ok_or reg id (reconnect k now reg))"
    using assms ins
    by (auto simp: claim_named_def create_named_def reconnect_def ok_or_def bind_res_def touch_def
        split: sum.split option.split session_id.split intro!: connected_update)
qed

lemma connected_disposal:
  assumes "is_connected sid reg"
  shows "is_connected sid (snd (snd (dispose_if_expired k ttl cleanup now w reg)))"
    and "is_connected sid (snd (snd (drop_session name cleanup' w reg)))"
  using assms
  by (auto simp: dispose_if_expired_def drop_session_def abandoned_def is_connected_def split: option.splits)

lemma connected_apply:
  assumes con: "is_connected sid reg" and ok: "reg_op_ok oper reg" and nd: "\<not> disturbs sid oper"
  shows "is_connected sid (reg_apply rx env oper reg)"
proof (cases oper)
  case (RCreateAnonymous uuid now)
  then have "map_of reg (Anonymous uuid) = None" using ok by (simp add: map_of_None_key)
  then have "sid \<noteq> Anonymous uuid" using con by (auto simp: is_connected_def)
  then show ?thesis using RCreateAnonymous con by (auto simp: create_anonymous_def connected_insert split: option.split)
next
  case (RRename old new_name now)
  then show ?thesis using con nd connected_rename [OF con, of old new_name]
    by (auto simp: ok_or_def split: sum.split)
next
  case (RRestore name p now)
  then show ?thesis using con nd by (auto simp: restore_named_def connected_insert split: option.split)
next
  case (RDisconnect k now)
  then show ?thesis using con nd
    by (auto simp: disconnect_def connected_remove is_connected_def split: session_id.split option.splits)
next
  case (RCreateNamed name now)
  then show ?thesis using connected_claim(2) [OF con] by simp
next
  case (RClaim name now)
  then show ?thesis using connected_claim(1) [OF con] by simp
next
  case (RReconnect k now)
  then show ?thesis using connected_claim(3) [OF con] by simp
qed (use con in \<open>auto simp: connected_disposal set_client_info_def set_domain_def Let_def evaluate_triggers_def
      evaluate_span_triggers_def add_trigger_def edit_trigger_def remove_trigger_def update_triggers_def ok_or_def bind_res_def
      map_error_def add_filter_def edit_filter_def remove_filter_def decrement_post_window_def set_post_window_def
      extend_post_window_def send_or_queue_notification_def drain_notifications_def case_prod_unfold
      intro!: connected_update split: option.split sum.split\<close>)

section \<open>The storage decision\<close>

text \<open>The filters of a domain: those of the sessions bound to it.\<close>

definition domain_filters :: "string \<Rightarrow> registry \<Rightarrow> buffer_filter_entry list" where
  "domain_filters d reg = concat (map (se_filters \<circ> snd) (filter (\<lambda>p. se_domain (snd p) = d) reg))"

lemma judge_filters:
  "fold (judge_filter env e) fs (m, ds, ps) =
     (m \<or> list_ex (\<lambda>f. matches_entry env (bf_condition f) e) fs,
      ds @ List.map_filter bf_description (filter (\<lambda>f. matches_entry env (bf_condition f) e) fs),
      ps @ map bf_filter_string fs)"
  by (induction fs arbitrary: m ds ps) (auto simp: judge_filter_def List.map_filter_def split: option.split)

lemma judge_sessions:
  "fold (\<lambda>(sid, s) acc. if \<not> is_in_domain d s \<or> se_filters s = [] then acc
            else fold (judge_filter env e) (se_filters s) acc) reg (m, ds, ps) =
     (m \<or> list_ex (\<lambda>f. matches_entry env (bf_condition f) e) (domain_filters d reg),
      ds @ List.map_filter bf_description (filter (\<lambda>f. matches_entry env (bf_condition f) e) (domain_filters d reg)),
      ps @ map bf_filter_string (domain_filters d reg))"
proof (induction reg arbitrary: m ds ps)
  case Nil
  then show ?case by (simp add: domain_filters_def List.map_filter_def)
next
  case (Cons p reg)
  show ?case
  proof (cases "is_in_domain d (snd p) \<and> se_filters (snd p) \<noteq> []")
    case True
    then have "domain_filters d (p # reg) = se_filters (snd p) @ domain_filters d reg"
      by (simp add: domain_filters_def is_in_domain_def)
    then show ?thesis using True Cons by (simp add: case_prod_unfold judge_filters map_filter_append)
  next
    case False
    then have "domain_filters d (p # reg) = domain_filters d reg"
      by (auto simp: domain_filters_def is_in_domain_def)
    then show ?thesis using False Cons by (auto simp: case_prod_unfold)
  qed
qed

lemma decision_eq:
  "evaluate_filters_for_domain env d e reg =
     \<lparr>sd_should_store = (domain_filters d reg = [] \<or> (\<exists>f\<in>set (domain_filters d reg). matches_entry env (bf_condition f) e)),
      sd_matched_descriptions =
        List.map_filter bf_description (filter (\<lambda>f. matches_entry env (bf_condition f) e) (domain_filters d reg)),
      sd_policy = policy_new (map bf_filter_string (domain_filters d reg))\<rparr>"
  unfolding evaluate_filters_for_domain_def judge_sessions by (auto simp: Let_def list_ex_iff)

section \<open>Persistence\<close>

definition persistable :: "(string \<Rightarrow> bool) \<Rightarrow> session_state \<Rightarrow> bool" where
  "persistable rx s \<longleftrightarrow>
     list_all (\<lambda>t. tr_pre_window t \<le> max_buffer_size \<and> \<not> carries_bookmark rx (tr_filter_string t)) (triggers (se_triggers s)) \<and>
     list_all (\<lambda>f. \<not> carries_bookmark rx (bf_filter_string f)) (se_filters s)"

lemma remove_all_triggers:
  "triggers (fold (\<lambda>ti tm. case manager_remove (ti_id ti) tm of Inl _ \<Rightarrow> tm | Inr tm' \<Rightarrow> tm')
     (map to_info (triggers tm)) tm) = []"
proof (induction "triggers tm" arbitrary: tm)
  case (Cons t ts)
  have "manager_remove (tr_id t) tm = Inr (tm\<lparr>triggers := ts\<rparr>)"
    using Cons.hyps(2) by (simp add: manager_remove_def Cons.hyps(2) [symmetric])
  then show ?case
    using Cons.hyps(1) [of "tm\<lparr>triggers := ts\<rparr>"] unfolding Cons.hyps(2) [symmetric] by (simp add: to_info_def)
qed simp

lemma restore_triggers:
  "list_all (\<lambda>pt. pt_pre_window pt \<le> max_buffer_size \<and> \<not> carries_bookmark rx (pt_filter pt) \<and> is_ok (parse_filter rx (pt_filter pt))) pts \<Longrightarrow>
   map persist_trigger (manager_list (fold (restore_trigger rx) pts tm)) = map persist_trigger (manager_list tm) @ pts"
proof (induction pts arbitrary: tm)
  case (Cons pt pts)
  obtain c where c: "parse_filter rx (pt_filter pt) = Inr c"
    using Cons.prems by (auto simp: is_ok_def split: sum.splits)
  have "map persist_trigger (manager_list (restore_trigger rx pt tm)) = map persist_trigger (manager_list tm) @ [pt]"
    using Cons.prems c
    by (simp add: restore_trigger_def manager_add_def manager_list_def persist_trigger_def to_info_def fresh_trigger_def)
  then show ?case using Cons by simp
qed simp

lemma restore_filters:
  "list_all (\<lambda>pf. \<not> carries_bookmark rx (pf_filter pf) \<and> is_ok (parse_filter rx (pf_filter pf))) pfs \<Longrightarrow>
   map persist_filter (se_filters (fold (restore_filter rx) pfs s)) = map persist_filter (se_filters s) @ pfs"
proof (induction pfs arbitrary: s)
  case (Cons pf pfs)
  obtain c where c: "parse_filter rx (pf_filter pf) = Inr c"
    using Cons.prems by (auto simp: is_ok_def split: sum.splits)
  have "map persist_filter (se_filters (restore_filter rx pf s)) = map persist_filter (se_filters s) @ [pf]"
    using Cons.prems c by (simp add: restore_filter_def persist_filter_def)
  then show ?case using Cons by simp
qed simp

lemma restore_filters_frame:
  "se_triggers (fold (restore_filter rx) pfs s) = se_triggers s \<and> se_client_info (fold (restore_filter rx) pfs s) = se_client_info s
   \<and> se_connected (fold (restore_filter rx) pfs s) = se_connected s \<and> se_name (fold (restore_filter rx) pfs s) = se_name s"
proof (induction pfs arbitrary: s)
  case (Cons pf pfs)
  show ?case using Cons [of "restore_filter rx pf s"] by (simp add: restore_filter_def split: sum.splits)
qed simp

lemma session_roundtrip:
  assumes ok: "session_ok rx (Named n) s" and p: "persistable rx s" and s0: "new_named rx n now = Some s0"
  shows "persist_state bms (restored_state rx (persist_state bms s) s0) = persist_state bms s
    \<and> \<not> se_connected (restored_state rx (persist_state bms s) s0)
    \<and> se_name (restored_state rx (persist_state bms s) s0) = Some n"
proof -
  let ?p = "persist_state bms s"
  define tm1 where "tm1 = fold (\<lambda>ti tm. case manager_remove (ti_id ti) tm of Inl _ \<Rightarrow> tm | Inr tm' \<Rightarrow> tm')
      (manager_list (se_triggers s0)) (se_triggers s0)"
  define s2 where "s2 = s0\<lparr>se_connected := False, se_triggers := fold (restore_trigger rx) (ps_triggers ?p) tm1\<rparr>"
  have tm1: "manager_list tm1 = []"
    using remove_all_triggers [of "se_triggers s0"] by (simp add: tm1_def manager_list_def)
  have f0: "se_filters s0 = []" "se_client_info s0 = None" "se_name s0 = Some n"
    using s0 by (auto simp: new_named_def fresh_session_def)
  have good: "list_all (\<lambda>pt. pt_pre_window pt \<le> max_buffer_size \<and> \<not> carries_bookmark rx (pt_filter pt) \<and> is_ok (parse_filter rx (pt_filter pt))) (ps_triggers ?p)"
    "list_all (\<lambda>pf. \<not> carries_bookmark rx (pf_filter pf) \<and> is_ok (parse_filter rx (pf_filter pf))) (ps_filters ?p)"
    using ok p by (auto simp: persist_state_def manager_list_def persist_trigger_def to_info_def persist_filter_def list_all_iff
        session_ok_def persistable_def trigger_ok_def filter_ok_def)
  have trig: "map persist_trigger (manager_list (se_triggers s2)) = ps_triggers ?p"
    using restore_triggers [OF good(1), of tm1] tm1 by (simp add: s2_def)
  have filt: "map persist_filter (se_filters (fold (restore_filter rx) (ps_filters ?p) s2)) = ps_filters ?p"
    using restore_filters [OF good(2), of s2] f0 by (simp add: s2_def)
  have r: "restored_state rx ?p s0 = (case ps_client_info ?p of None \<Rightarrow> fold (restore_filter rx) (ps_filters ?p) s2
      | Some ci \<Rightarrow> (fold (restore_filter rx) (ps_filters ?p) s2)\<lparr>se_client_info := Some ci\<rparr>)"
    unfolding restored_state_def Let_def s2_def tm1_def by (simp split: option.split)
  show ?thesis
    unfolding r using trig filt f0 restore_filters_frame [of rx "ps_filters ?p" s2]
    by (auto simp: persist_state_def s2_def split: option.split)
qed

section \<open>Properties\<close>

text \<open>
  (C13) The registry stays well-formed. In every registry reachable by its operations (clients
  connecting and leaving, claims, renames, disposals, drops, domain switches, trigger and filter
  edits, evaluations, notifications, restores) ids are unique, a named session carries its own
  valid name, an anonymous one is connected and unnamed, no name is both a named session and a
  live anonymous id, every trigger and filter is the parse of the string it shows, no queue is
  over its limit, and a session's domain is among the domains it has touched.
\<close>

theorem session_registry_invariant:
  assumes "registry_reachable rx env reg"
  shows "registry_inv rx reg"
  by (rule registry_reachable_inv [OF assms])

theorem session_registry_invariant_witness:
  "registry_inv (\<lambda>_. True) (reg_apply (\<lambda>_. True) demo_env (RClaim ''s'' 4) registry_new)"
  by (rule session_registry_invariant [where env = demo_env]) (rule registry_reachable.step [OF registry_reachable.start], simp)

text \<open>
  (C14) A connected session is safe from other clients. Whatever operation runs, unless it is the
  session's own disconnect or rename or a restore of its name at start-up, a connected session
  stays registered and connected: no expiry, drop, rename onto its name, claim or reconnect takes
  it away, and each of these reports failure while it is connected.
\<close>

theorem connected_session_is_safe:
  assumes "is_connected (Named n) reg" and "reg_op_ok oper reg" and "\<not> disturbs (Named n) oper"
  shows "is_connected (Named n) (reg_apply rx env oper reg)
    \<and> \<not> is_ok (claim_named rx n now reg) \<and> \<not> is_ok (create_named rx n now reg) \<and> \<not> is_ok (reconnect (Named n) now reg)
    \<and> (old \<noteq> Named n \<longrightarrow> \<not> is_ok (rename old n transfer now w reg))
    \<and> \<not> is_ok (fst (drop_session n cleanup w reg))
    \<and> fst (dispose_if_expired (Named n) ttl cleanup' now w reg) = NotAbandoned"
proof -
  have "\<not> is_ok (rename old n transfer now w reg)" if "old \<noteq> Named n"
  proof (cases "rename old n transfer now w reg")
    case (Inr r)
    then obtain i displaced w' reg' where "rename old n transfer now w reg = Inr ((i, displaced), w', reg')" by (cases r) auto
    then show ?thesis by (cases rule: rename_cases) (use that assms(1) in auto)
  qed simp
  moreover obtain s where "map_of reg (Named n) = Some s" "se_connected s"
    using assms(1) by (auto simp: is_connected_def split: option.splits)
  ultimately show ?thesis
    using connected_apply [OF assms]
    by (auto simp: claim_named_def create_named_def reconnect_def drop_session_def dispose_if_expired_def abandoned_def
        bind_res_def is_ok_def split: sum.split)
qed

definition demo_registry :: registry where
  "demo_registry = reg_apply (\<lambda>_. True) demo_env (RClaim ''s'' 4) registry_new"

lemma demo_registry_connected: "is_connected (Named ''s'') demo_registry"
  by code_simp

theorem connected_session_is_safe_witness:
  "is_connected (Named ''s'') (reg_apply (\<lambda>_. True) demo_env (RDrop ''s'') demo_registry)"
  by (rule conjunct1 [OF connected_session_is_safe [OF demo_registry_connected]]) simp_all

text \<open> A rename keeps the session. After a successful rename the new name answers with the state
  the old id had (triggers, filters, queue, binding), the old id is gone, every other session but a
  displaced disconnected holder of the name is untouched, and the caller's transfer ran once with
  whether a holder was displaced.
\<close>

theorem rename_keeps_session:
  assumes "rename old n transfer now w reg = Inr ((i, displaced), w', reg')" and "old \<noteq> Named n"
  shows "i = Named n \<and> map_of reg' old = None
    \<and> map_of reg' (Named n) = map_option (\<lambda>s. s\<lparr>se_name := Some n, se_last_seen := now\<rparr>) (map_of reg old)
    \<and> map_of reg' (Named n) \<noteq> None
    \<and> (\<forall>k. k \<noteq> old \<and> k \<noteq> Named n \<longrightarrow> map_of reg' k = map_of reg k)
    \<and> (displaced \<longleftrightarrow> map_of reg (Named n) \<noteq> None) \<and> w' = transfer (Named n) displaced w"
  using assms(1)
proof (cases rule: rename_cases)
  case (moved s)
  then show ?thesis by (auto simp: touch_def)
qed (use assms(2) in simp)

theorem rename_keeps_session_witness:
  "\<exists>i d w' reg'. rename (Named ''s'') ''t'' (\<lambda>_ _. Suc) 5 0 demo_registry = Inr ((i, d), w', reg')
     \<and> map_of reg' (Named ''s'') = None \<and> w' = Suc 0"
proof -
  have "is_ok (rename (Named ''s'') ''t'' (\<lambda>_ _. Suc) 5 0 demo_registry)" by code_simp
  then obtain i d w' reg' where r: "rename (Named ''s'') ''t'' (\<lambda>_ _. Suc) 5 0 demo_registry = Inr ((i, d), w', reg')"
    by (auto simp: is_ok_def split: sum.splits)
  show ?thesis using rename_keeps_session [OF r] r by auto
qed

text \<open>
  The storage decision of a domain. A record is to be stored exactly when no session bound to
  the domain holds a filter, or one of their filters matches it; the descriptions recorded are
  those of the matching filters, and the policy reported with the decision is the set of all the
  domain's filter strings. Sessions bound to other domains have no part in it.
\<close>

theorem storage_decision_correct:
  "evaluate_filters_for_domain env d e reg =
     \<lparr>sd_should_store = (domain_filters d reg = [] \<or> (\<exists>f\<in>set (domain_filters d reg). matches_entry env (bf_condition f) e)),
      sd_matched_descriptions =
        List.map_filter bf_description (filter (\<lambda>f. matches_entry env (bf_condition f) e) (domain_filters d reg)),
      sd_policy = policy_new (map bf_filter_string (domain_filters d reg))\<rparr>"
  by (rule decision_eq)

end
