(* ===== verification/Session_Restart.thy ===== *)
theory Session_Restart
  imports Session_Props Bookmark_Props "HOL-Library.Multiset"
begin

text \<open>
  A restart of the daemon as the sessions see it: what \<open>snapshot_named_for_persistence\<close> wrote is
  read again by \<open>restore_named\<close>, session by session, into an empty registry and an empty bookmark
  store (the loop of \<open>daemon/server.rs\<close>). Taken again, the snapshot is the same.
\<close>

definition restart_one ::
  "(string \<Rightarrow> bool) \<Rightarrow> nat \<Rightarrow> string \<times> persisted_session \<Rightarrow> (bookmark_store \<times> registry) option \<Rightarrow> (bookmark_store \<times> registry) option" where
  "restart_one rx now saved acc =
     (case acc of None \<Rightarrow> None | Some (bst, reg) \<Rightarrow> restore_named rx (fst saved) (snd saved) now bst reg)"

definition restart_sessions ::
  "(string \<Rightarrow> bool) \<Rightarrow> nat \<Rightarrow> (string \<times> persisted_session) list \<Rightarrow> (bookmark_store \<times> registry) option" where
  "restart_sessions rx now saved = fold (restart_one rx now) saved (Some (bookmark_store_new, registry_new))"

section \<open>The bookmarks of a session\<close>

definition session_bookmarks :: "string \<Rightarrow> bookmark list \<Rightarrow> bookmark list" where
  "session_bookmarks n bs = filter (\<lambda>b. bm_session b = n) bs"

lemma bookmarks_by_session_fold:
  "(case map_of (fold (\<lambda>b m. hm_insert (bm_session b)
        ((case map_of m (bm_session b) of None \<Rightarrow> [] | Some v \<Rightarrow> v) @ [persist_bookmark b]) m) bs m) n of
      None \<Rightarrow> [] | Some v \<Rightarrow> v)
   = (case map_of m n of None \<Rightarrow> [] | Some v \<Rightarrow> v) @ map persist_bookmark (session_bookmarks n bs)"
  by (induction bs arbitrary: m) (auto simp: session_bookmarks_def split: option.split)

lemma bookmarks_of_session:
  "(case map_of (bookmarks_by_session bst) n of None \<Rightarrow> [] | Some v \<Rightarrow> v)
   = map persist_bookmark (session_bookmarks n (bookmark_list bst))"
  unfolding bookmarks_by_session_def bookmarks_by_session_fold by simp

text \<open>The listing: newest seq first, then by qualified name.\<close>

definition listing :: "bookmark list \<Rightarrow> bookmark list" where
  "listing bs = sort_key (\<lambda>b. - int (bm_seq b)) (sort_key bm_qualified_name bs)"

lemma bookmark_list_listing: "bookmark_list bst = listing (map snd (bookmarks bst))"
  by (simp add: bookmark_list_def listing_def)

lemma set_listing [simp]: "set (listing bs) = set bs"
  by (simp add: listing_def)

lemma filter_listing: "filter P (listing bs) = listing (filter P bs)"
  by (simp add: listing_def filter_sort)

lemma sort_key_map_same: "(\<And>x. k (g x) = k x) \<Longrightarrow> sort_key k (map g xs) = map g (sort_key k xs)"
proof (induction xs)
  case (Cons x xs)
  have "insort_key k (g x) (map g ys) = map g (insort_key k x ys)" for ys
    using Cons.prems by (induction ys) auto
  then show ?case using Cons by simp
qed simp

lemma listing_map:
  "(\<And>b. bm_seq (g b) = bm_seq b) \<Longrightarrow> (\<And>b. bm_qualified_name (g b) = bm_qualified_name b) \<Longrightarrow>
   listing (map g bs) = map g (listing bs)"
  by (simp add: listing_def sort_key_map_same)

lemma listing_again:
  assumes "inj_on bm_qualified_name (set bs)"
  shows "listing (listing bs) = listing bs"
proof -
  have "sort_key bm_qualified_name (listing bs) = sort_key bm_qualified_name bs"
    by (rule sort_key_inj_key_eq) (use assms in \<open>simp_all add: listing_def\<close>)
  then show ?thesis by (simp add: listing_def)
qed

section \<open>Restoring bookmarks and sessions\<close>

definition as_restored :: "bookmark \<Rightarrow> bookmark" where
  "as_restored b = b\<lparr>bm_late_mark := 0, bm_floor := bm_seq b\<rparr>"

lemma as_restored_sel [simp]:
  "bm_qualified_name (as_restored b) = bm_qualified_name b" "bm_session (as_restored b) = bm_session b"
  "bm_seq (as_restored b) = bm_seq b" "persist_bookmark (as_restored b) = persist_bookmark b"
  by (simp_all add: as_restored_def persist_bookmark_def)

lemma restore_persisted:
  "bookmark_wf (k, b) \<Longrightarrow> restore_bookmark (bm_session b) (persist_bookmark b) st = insert_persisted (as_restored b) st"
  by (cases b) (simp add: restore_bookmark_def persist_bookmark_def as_restored_def bookmark_wf_def)

lemma hm_insert_new: "k \<notin> fst ` set m \<Longrightarrow> hm_insert k v m = m @ [(k, v)]"
  by (induction k v m rule: hm_insert.induct) auto

lemma map_of_by_key: "inj_on k (set xs) \<Longrightarrow> x \<in> set xs \<Longrightarrow> map_of (map (\<lambda>x. (k x, v x)) xs) (k x) = Some (v x)"
  by (induction xs) (auto simp: inj_on_def)

lemma restore_bookmarks:
  assumes "\<forall>b\<in>set bs. bm_session b = n \<and> bookmark_wf (bm_qualified_name b, b)"
    and "distinct (map bm_qualified_name bs)" and "bm_qualified_name ` set bs \<inter> fst ` set (bookmarks st) = {}"
  shows "fold (restore_bookmark n) (map persist_bookmark bs) st =
    st\<lparr>bookmarks := bookmarks st @ map (\<lambda>b. (bm_qualified_name b, as_restored b)) bs\<rparr>"
  using assms
proof (induction bs arbitrary: st)
  case (Cons b bs)
  let ?st = "st\<lparr>bookmarks := bookmarks st @ [(bm_qualified_name b, as_restored b)]\<rparr>"
  have "restore_bookmark n (persist_bookmark b) st = insert_persisted (as_restored b) st"
    using restore_persisted [of "bm_qualified_name b" b st] Cons.prems(1) by auto
  also have "\<dots> = ?st" using Cons.prems(3) by (simp add: insert_persisted_def hm_insert_new)
  finally have b: "restore_bookmark n (persist_bookmark b) st = ?st" .
  have "fold (restore_bookmark n) (map persist_bookmark bs) ?st =
    ?st\<lparr>bookmarks := bookmarks ?st @ map (\<lambda>b. (bm_qualified_name b, as_restored b)) bs\<rparr>"
    by (rule Cons.IH) (use Cons.prems in auto)
  then show ?case by (simp add: b)
qed simp

text \<open>The named sessions of a registry, in its order, and the document of each.\<close>

definition named_sessions :: "registry \<Rightarrow> (string \<times> session_state) list" where
  "named_sessions reg = List.map_filter (\<lambda>(sid, s). case sid of Named n \<Rightarrow> Some (n, s) | Anonymous _ \<Rightarrow> None) reg"

lemma named_sessions_simps [simp]:
  "named_sessions [] = []"
  "named_sessions ((Named n, s) # reg) = (n, s) # named_sessions reg"
  "named_sessions ((Anonymous n, s) # reg) = named_sessions reg"
  by (simp_all add: named_sessions_def List.map_filter_def)

lemma set_named_sessions: "(n, s) \<in> set (named_sessions reg) \<longleftrightarrow> (Named n, s) \<in> set reg"
proof (induction reg)
  case (Cons p reg)
  then show ?case by (cases p; cases "fst p") auto
qed simp

lemma distinct_named_sessions: "distinct (keys_of reg) \<Longrightarrow> distinct (keys_of (named_sessions reg))"
proof (induction reg)
  case (Cons p reg)
  obtain sid s where p: "p = (sid, s)" by force
  have "n \<notin> fst ` set (named_sessions reg)" if "sid = Named n" for n
    using Cons.prems that by (force simp: p set_named_sessions)
  then show ?case using Cons by (cases sid) (auto simp: p)
qed simp

definition document :: "bookmark_store \<Rightarrow> string \<times> session_state \<Rightarrow> string \<times> persisted_session" where
  "document bst = (\<lambda>(n, s). (n, persist_state (map persist_bookmark (session_bookmarks n (bookmark_list bst))) s))"

lemma snapshot_documents: "snapshot_named_for_persistence bst reg = map (document bst) (named_sessions reg)"
  unfolding snapshot_named_for_persistence_def bookmarks_of_session
  by (induction reg) (auto simp: document_def List.map_filter_def split: session_id.splits)

text \<open>Under the store's invariant a session's bookmarks carry their own names, each once, and no other session's.\<close>

lemma session_bookmarks_wf:
  "bookmarks_inv bst \<Longrightarrow> \<forall>b\<in>set (session_bookmarks n (bookmark_list bst)). bm_session b = n \<and> bookmark_wf (bm_qualified_name b, b)"
  by (fastforce simp: session_bookmarks_def bookmark_list_listing bookmarks_inv_def list_all_iff bookmark_wf_def)

lemma bookmark_names_distinct:
  assumes "bookmarks_inv bst"
  shows "distinct (map snd (bookmarks bst))" and "inj_on bm_qualified_name (set (map snd (bookmarks bst)))"
proof -
  have keys: "map bm_qualified_name (map snd (bookmarks bst)) = keys_of (bookmarks bst)"
    using assms by (auto simp: bookmarks_inv_def list_all_iff bookmark_wf_def)
  define bs where "bs = map snd (bookmarks bst)"
  have "distinct (map bm_qualified_name bs)" using assms unfolding bs_def keys by (simp add: bookmarks_inv_def)
  then show "distinct (map snd (bookmarks bst))" "inj_on bm_qualified_name (set (map snd (bookmarks bst)))"
    unfolding bs_def [symmetric] distinct_map by blast+
qed

lemma session_bookmarks_distinct:
  assumes "bookmarks_inv bst"
  shows "distinct (map bm_qualified_name (session_bookmarks n (bookmark_list bst)))"
proof -
  define bs where "bs = map snd (bookmarks bst)"
  have d: "distinct bs" "inj_on bm_qualified_name (set bs)" unfolding bs_def by (rule bookmark_names_distinct [OF assms])+
  then have "distinct (listing bs)" by (simp add: listing_def)
  then show ?thesis
    using d(2) unfolding session_bookmarks_def bookmark_list_listing bs_def [symmetric]
    by (auto simp: distinct_map inj_on_def)
qed

lemma other_sessions_names:
  assumes "\<forall>b\<in>set bs. bm_session b = n \<and> bookmark_wf (bm_qualified_name b, b)"
    and "\<forall>kb\<in>set m. bookmark_wf kb \<and> bm_session (snd kb) \<noteq> n"
  shows "bm_qualified_name ` set bs \<inter> fst ` set m = {}"
proof (rule ccontr)
  assume "bm_qualified_name ` set bs \<inter> fst ` set m \<noteq> {}"
  then obtain b kb where b: "b \<in> set bs" "kb \<in> set m" "bm_qualified_name b = fst kb" by auto
  then have "qualified_name n (bm_name b) = qualified_name (bm_session (snd kb)) (bm_name (snd kb))"
    "CHR ''/'' \<notin> set n" "CHR ''/'' \<notin> set (bm_session (snd kb))"
    using assms by (auto simp: bookmark_wf_def)
  then have "bm_session (snd kb) = n" using qualified_name_inj by auto
  then show False using assms(2) b(2) by auto
qed

lemma restart_step:
  assumes tm: "manager_new rx = Some tm" and inv: "bookmarks_inv bst" and dist: "distinct (map fst ns)"
    and fresh: "\<forall>n\<in>fst ` set ns. Named n \<notin> fst ` set reg0 \<and> (\<forall>kb\<in>set (bookmarks bst0). bm_session (snd kb) \<noteq> n)"
    and wf0: "\<forall>kb\<in>set (bookmarks bst0). bookmark_wf kb"
  shows "fold (restart_one rx now)
      (map (document bst) ns) (Some (bst0, reg0)) =
    Some (bst0\<lparr>bookmarks := bookmarks bst0 @
            map (\<lambda>b. (bm_qualified_name b, as_restored b)) (concat (map (\<lambda>n. session_bookmarks n (bookmark_list bst)) (map fst ns)))\<rparr>,
          reg0 @ map (\<lambda>(n, s). (Named n, restored_state rx (snd (document bst (n, s))) (the (new_named rx n now)))) ns)"
  using dist fresh wf0
proof (induction ns arbitrary: bst0 reg0)
  case (Cons x ns)
  obtain n s where x: "x = (n, s)" by force
  define bs where "bs = session_bookmarks n (bookmark_list bst)"
  define s' where "s' = restored_state rx (snd (document bst (n, s))) (the (new_named rx n now))"
  have some: "new_named rx n now \<noteq> None" using tm by (simp add: new_named_def fresh_session_def)
  have wf: "\<forall>b\<in>set bs. bm_session b = n \<and> bookmark_wf (bm_qualified_name b, b)"
    unfolding bs_def by (rule session_bookmarks_wf [OF inv])
  have dq: "distinct (map bm_qualified_name bs)" unfolding bs_def by (rule session_bookmarks_distinct [OF inv])
  have new: "bm_qualified_name ` set bs \<inter> fst ` set (bookmarks bst0) = {}"
    by (rule other_sessions_names [OF wf]) (use Cons.prems(2,3) in \<open>auto simp: x\<close>)
  let ?bst1 = "bst0\<lparr>bookmarks := bookmarks bst0 @ map (\<lambda>b. (bm_qualified_name b, as_restored b)) bs\<rparr>"
  have one: "restart_one rx now (document bst (n, s)) (Some (bst0, reg0)) = Some (?bst1, reg0 @ [(Named n, s')])"
    using some restore_bookmarks [OF wf dq new] Cons.prems(2)
    by (auto simp: restart_one_def restore_named_def document_def persist_state_def s'_def bs_def x hm_insert_new)
  have "fold (restart_one rx now)
      (map (document bst) ns) (Some (?bst1, reg0 @ [(Named n, s')])) =
    Some (?bst1\<lparr>bookmarks := bookmarks ?bst1 @
            map (\<lambda>b. (bm_qualified_name b, as_restored b)) (concat (map (\<lambda>n. session_bookmarks n (bookmark_list bst)) (map fst ns)))\<rparr>,
          (reg0 @ [(Named n, s')]) @ map (\<lambda>(n, s). (Named n, restored_state rx (snd (document bst (n, s))) (the (new_named rx n now)))) ns)"
  proof (rule Cons.IH)
    have n: "n \<notin> fst ` set ns" "distinct (map fst ns)" using Cons.prems(1) by (simp_all add: x)
    then show "distinct (map fst ns)" by simp
    have old: "Named m \<notin> fst ` set reg0" "\<forall>kb\<in>set (bookmarks bst0). bm_session (snd kb) \<noteq> m" if "m \<in> fst ` set ns" for m
      using Cons.prems(2) that by auto
    have "\<forall>kb\<in>set (map (\<lambda>b. (bm_qualified_name b, as_restored b)) bs). bm_session (snd kb) = n" using wf by auto
    with old n(1) show "\<forall>m\<in>fst ` set ns. Named m \<notin> fst ` set (reg0 @ [(Named n, s')]) \<and> (\<forall>kb\<in>set (bookmarks ?bst1). bm_session (snd kb) \<noteq> m)"
      by (auto simp: image_iff)
    show "\<forall>kb\<in>set (bookmarks ?bst1). bookmark_wf kb"
      using Cons.prems(3) wf by (auto simp: bookmark_wf_def as_restored_def)
  qed
  then show ?case by (simp add: one x) (simp add: s'_def bs_def)
qed simp

section \<open>The snapshot after a restart\<close>

lemma bookmarks_after_restart:
  assumes inv: "bookmarks_inv bst" and dist: "distinct ns" and n: "n \<in> set ns"
  defines "C \<equiv> concat (map (\<lambda>n. session_bookmarks n (bookmark_list bst)) ns)"
  shows "session_bookmarks n (listing (map as_restored C)) = map as_restored (session_bookmarks n (bookmark_list bst))"
proof -
  let ?bs = "map snd (bookmarks bst)" and ?P = "\<lambda>b. bm_session b = n"
  have "filter ?P C = (if n \<in> set ns then session_bookmarks n (bookmark_list bst) else [])"
    unfolding C_def using dist
  proof (induction ns)
    case (Cons m ns)
    then show ?case by (auto simp: session_bookmarks_def filter_empty_conv)
  qed simp
  then have C: "filter ?P C = listing (filter ?P ?bs)"
    using n by (simp add: session_bookmarks_def bookmark_list_listing filter_listing)
  have "session_bookmarks n (listing (map as_restored C)) = listing (map as_restored (filter ?P C))"
    by (simp add: session_bookmarks_def filter_listing filter_map comp_def)
  also have "\<dots> = map as_restored (listing (listing (filter ?P ?bs)))" by (simp add: listing_map C)
  also have "\<dots> = map as_restored (listing (filter ?P ?bs))"
  proof -
    have "inj_on bm_qualified_name (set (filter ?P ?bs))"
      using bookmark_names_distinct(2) [OF inv] by (rule inj_on_subset) auto
    then show ?thesis by (simp only: listing_again)
  qed
  finally show ?thesis by (simp add: session_bookmarks_def bookmark_list_listing filter_listing)
qed

text \<open>
  (C15) Named sessions survive a restart. Take a registry and a bookmark store that satisfy their
  invariants, every named session's triggers within the buffer limit and none of its filters or
  triggers with a bookmark qualifier. Restoring the snapshot of both, session by session, into an
  empty registry and an empty store succeeds; the snapshot taken afterwards is the same, with every
  session's triggers, filters, client info and bookmarks in the same order; every restored session
  is a disconnected named one; and each bookmark of a restored session is found under its name
  with its seq, time and description, its late mark 0 and its floor at its seq.
\<close>

theorem session_survives_restart:
  assumes inv: "registry_inv rx reg" "bookmarks_inv bst" and tm: "manager_new rx = Some tm"
    and ok: "\<forall>(sid, s)\<in>set reg. is_named sid \<longrightarrow> persistable rx s"
  shows "\<exists>bst' reg'. restart_sessions rx now (snapshot_named_for_persistence bst reg) = Some (bst', reg')
    \<and> snapshot_named_for_persistence bst' reg' = snapshot_named_for_persistence bst reg
    \<and> (\<forall>(sid, s)\<in>set reg'. is_named sid \<and> \<not> se_connected s)
    \<and> (\<forall>n b. Named n \<in> fst ` set reg \<longrightarrow> b \<in> set (bookmark_list bst) \<longrightarrow> bm_session b = n \<longrightarrow>
         bookmark_get (bm_qualified_name b) bst' = Some (b\<lparr>bm_late_mark := 0, bm_floor := bm_seq b\<rparr>))"
proof -
  define ns where "ns = named_sessions reg"
  define C where "C = concat (map (\<lambda>n. session_bookmarks n (bookmark_list bst)) (map fst ns))"
  define bst' where "bst' = bookmark_store_new\<lparr>bookmarks := map (\<lambda>b. (bm_qualified_name b, as_restored b)) C\<rparr>"
  define new where "new = (\<lambda>(n, s). restored_state rx (snd (document bst (n, s))) (the (new_named rx n now)))"
  define reg' where "reg' = map (\<lambda>(n, s). (Named n, new (n, s))) ns"
  have dist: "distinct (map fst ns)" unfolding ns_def using inv(1) by (intro distinct_named_sessions) (simp add: registry_inv_def)
  have restart: "restart_sessions rx now (snapshot_named_for_persistence bst reg) = Some (bst', reg')"
    unfolding restart_sessions_def snapshot_documents ns_def [symmetric]
    by (subst restart_step [OF tm inv(2) dist])
       (auto simp: registry_new_def bookmark_store_new_def bst'_def reg'_def C_def new_def case_prod_unfold)
  have again: "persist_state bms (restored_state rx (persist_state bms s) (the (new_named rx n now))) = persist_state bms s
      \<and> \<not> se_connected (restored_state rx (persist_state bms s) (the (new_named rx n now)))" if "(n, s) \<in> set ns" for n s bms
  proof -
    have "session_ok rx (Named n) s" "persistable rx s"
      using that inv(1) ok by (auto simp: ns_def set_named_sessions registry_inv_def list_all_iff is_named_def)
    moreover have "new_named rx n now = Some (the (new_named rx n now))" using tm by (simp add: new_named_def fresh_session_def)
    ultimately show ?thesis using session_roundtrip by blast
  qed
  have marks: "map persist_bookmark (session_bookmarks n (bookmark_list bst')) = map persist_bookmark (session_bookmarks n (bookmark_list bst))"
    if "n \<in> fst ` set ns" for n
  proof -
    have "bookmark_list bst' = listing (map as_restored C)" by (simp add: bookmark_list_listing bst'_def comp_def)
    then show ?thesis using bookmarks_after_restart [OF inv(2) dist, of n] that unfolding C_def by (simp add: comp_def)
  qed
  have "named_sessions reg' = map (\<lambda>(n, s). (n, new (n, s))) ns"
    unfolding reg'_def by (induction ns) (auto split: prod.split)
  moreover have "document bst' (n, new (n, s)) = document bst (n, s)" if "(n, s) \<in> set ns" for n s
    using again [OF that] marks [of n] that by (force simp: document_def new_def)
  ultimately have "map (document bst') (named_sessions reg') = map (document bst) ns" by (auto simp: case_prod_unfold)
  then have same: "snapshot_named_for_persistence bst' reg' = snapshot_named_for_persistence bst reg"
    by (simp add: snapshot_documents ns_def)
  have "\<forall>(sid, s)\<in>set reg'. is_named sid \<and> \<not> se_connected s"
    using again by (auto simp: reg'_def new_def document_def is_named_def)
  moreover have "bookmark_get (bm_qualified_name b) bst' = Some (as_restored b)"
    if "Named n \<in> fst ` set reg" "b \<in> set (bookmark_list bst)" "bm_session b = n" for n b
  proof -
    from that(1) obtain s where "(n, s) \<in> set ns" by (auto simp: ns_def set_named_sessions)
    then have "n \<in> fst ` set ns" by (rule image_eqI [rotated]) simp
    then have "b \<in> set C" using that(2,3) by (auto simp: C_def session_bookmarks_def)
    moreover have "inj_on bm_qualified_name (set C)"
      using bookmark_names_distinct(2) [OF inv(2)] unfolding C_def
      by (rule inj_on_subset) (auto simp: session_bookmarks_def bookmark_list_listing)
    ultimately show ?thesis
      by (simp add: bookmark_get_def bst'_def map_of_by_key)
  qed
  ultimately show ?thesis using restart same by (auto simp: as_restored_def)
qed

lemma demo_persistable: "new_named (\<lambda>_. True) n now = Some s \<Longrightarrow> persistable (\<lambda>_. True) s"
proof -
  have "\<not> carries_bookmark (\<lambda>_. True) ''l>=ERROR''"
    "\<not> carries_bookmark (\<lambda>_. True) ''/panic|unwrap failed|stack backtrace/''" by code_simp+
  then show "new_named (\<lambda>_. True) n now = Some s \<Longrightarrow> persistable (\<lambda>_. True) s"
    by (auto simp: new_named_def fresh_session_def manager_new_def persistable_def fresh_trigger_def
        max_buffer_size_def default_trigger_pre_window_def split: sum.splits)
qed

text \<open>A session named \<open>s\<close> with one bookmark, on the store and the registry as they are at first.\<close>

definition demo_bookmarks :: bookmark_store where
  "demo_bookmarks = bookmark_apply (BAdd ''s'' ''x'' 5 3 None False 0) bookmark_store_new"

theorem session_survives_restart_witness:
  "\<exists>s bst' reg'. new_named (\<lambda>_. True) ''s'' 4 = Some s
     \<and> restart_sessions (\<lambda>_. True) 9 (snapshot_named_for_persistence demo_bookmarks [(Named ''s'', s)]) = Some (bst', reg')
     \<and> snapshot_named_for_persistence bst' reg' = snapshot_named_for_persistence demo_bookmarks [(Named ''s'', s)]
     \<and> (\<exists>b. bookmark_get ''s/x'' bst' = Some b \<and> bm_seq b = 5 \<and> bm_late_mark b = 0)"
proof -
  have "is_valid_name ''s''" "new_named (\<lambda>_. True) ''s'' 4 \<noteq> None" by code_simp+
  then obtain s where v: "is_valid_name ''s''" and s: "new_named (\<lambda>_. True) ''s'' 4 = Some s" by blast
  have "session_ok (\<lambda>_. True) (Named ''s'') s" by (rule session_ok_fresh(1) [OF _ v]) (use s in \<open>simp add: new_named_def\<close>)
  then have reg: "registry_inv (\<lambda>_. True) [(Named ''s'', s)]" by (simp add: registry_inv_def)
  have bst: "bookmarks_inv demo_bookmarks"
    using bookmarks_inv_run [OF bookmarks_inv_new, of "[BAdd ''s'' ''x'' 5 3 None False 0]"] by (simp add: demo_bookmarks_def)
  obtain tm where tm: "manager_new (\<lambda>_. True) = Some tm" using s by (auto simp: new_named_def fresh_session_def)
  have bms: "\<exists>b. bookmark_list demo_bookmarks = [b] \<and> bm_qualified_name b = ''s/x'' \<and> bm_session b = ''s'' \<and> bm_seq b = 5"
  proof -
    have "is_valid_bookmark_name ''x''" by code_simp
    then show ?thesis
      by (simp add: demo_bookmarks_def bookmark_store_new_def bookmark_list_def add_at_def qualified_name_def Let_def)
  qed
  from session_survives_restart [OF reg bst tm, of 9] demo_persistable [OF s] s bms show ?thesis by fastforce
qed

end
