(* ===== verification/Tasks.thy ===== *)
theory Tasks
  imports Prelude
begin

text \<open>
  Code that takes and releases locks, as a value. A task is finished, or it waits to run its next
  critical section: one atomic step on the shared state, whose result picks the rest of the task.
  Whatever runs between two steps of a task is the environment's. A task's proof outline carries
  what the task knows (\<open>'w\<close>): \<open>pre w s\<close> says the knowledge is true of the state, \<open>step w s s' v\<close>
  what a step from \<open>s\<close> to \<open>s'\<close> guarantees and that the task knows \<open>v\<close> after it, and \<open>fin w\<close> that a
  task knowing \<open>w\<close> may end. The logic is used on the processors of a domain (\<open>Pipeline_Props\<close>),
  where it is shown that no step of the environment makes the knowledge false.
\<close>

datatype 's task = Finished | Locked "'s \<Rightarrow> 's \<times> 's task"

definition atomically :: "('s \<Rightarrow> 'a \<times> 's) \<Rightarrow> ('a \<Rightarrow> 's task) \<Rightarrow> 's task" where
  "atomically g k = Locked (\<lambda>s. case g s of (x, s') \<Rightarrow> (s', k x))"

definition observing :: "('s \<Rightarrow> 'a) \<Rightarrow> ('a \<Rightarrow> 's task) \<Rightarrow> 's task" where
  "observing g k = Locked (\<lambda>s. (s, k (g s)))"

definition locked :: "('s \<Rightarrow> 's) \<Rightarrow> 's task \<Rightarrow> 's task" where
  "locked g t = Locked (\<lambda>s. (g s, t))"

fun advance :: "'s task \<Rightarrow> 's \<Rightarrow> 's \<times> 's task" where
  "advance Finished s = (s, Finished)"
| "advance (Locked f) s = f s"

inductive task_ok ::
  "('w \<Rightarrow> 's \<Rightarrow> bool) \<Rightarrow> ('w \<Rightarrow> 's \<Rightarrow> 's \<Rightarrow> 'w \<Rightarrow> bool) \<Rightarrow> ('w \<Rightarrow> bool) \<Rightarrow> 'w \<Rightarrow> 's task \<Rightarrow> bool"
  for pre step fin where
  task_ok_Finished: "fin w \<Longrightarrow> task_ok pre step fin w Finished"
| task_ok_Locked: "(\<And>s. pre w s \<Longrightarrow> \<exists>v. step w s (fst (f s)) v \<and> task_ok pre step fin v (snd (f s)))
    \<Longrightarrow> task_ok pre step fin w (Locked f)"

inductive_simps task_ok_simps:
  "task_ok pre step fin w Finished"
  "task_ok pre step fin w (Locked f)"

lemma task_ok_advance:
  assumes "task_ok pre step fin w (Locked f)" and "pre w s"
  obtains v where "step w s (fst (f s)) v" and "task_ok pre step fin v (snd (f s))"
  using assms by (auto simp: task_ok_simps)

text \<open>A task left alone ends: however its critical sections go, only finitely many are left.\<close>

lemma task_ends: "\<exists>n. snd (((\<lambda>(s, t). advance t s) ^^ n) (s, t)) = Finished"
proof (induction t arbitrary: s)
  case Finished
  have "snd (((\<lambda>(s, t). advance t s) ^^ 0) (s, Finished)) = Finished" by simp
  then show ?case by blast
next
  case (Locked f)
  obtain s' t where ft: "f s = (s', t)" by force
  then have "t \<in> Basic_BNFs.snds (f s)" by (simp add: snds.simps)
  with Locked [of "f s" t s'] obtain n where "snd (((\<lambda>(s, t). advance t s) ^^ n) (s', t)) = Finished" by auto
  then have "snd (((\<lambda>(s, t). advance t s) ^^ Suc n) (s, Locked f)) = Finished" by (simp add: funpow_swap1 ft)
  then show ?case by blast
qed

text \<open>
  The laws of a logic of tasks: knowledge is ordered by \<open>le\<close>, and a task that may run knowing \<open>w\<close>
  may run knowing more. A \<open>quiet\<close> step keeps what is known.
\<close>

locale task_logic =
  fixes pre :: "'w \<Rightarrow> 's \<Rightarrow> bool" and step :: "'w \<Rightarrow> 's \<Rightarrow> 's \<Rightarrow> 'w \<Rightarrow> bool" and fin :: "'w \<Rightarrow> bool"
    and le :: "'w \<Rightarrow> 'w \<Rightarrow> bool" and quiet :: "'s \<Rightarrow> 's \<Rightarrow> bool"
  assumes pre_le: "le w w' \<Longrightarrow> pre w' s \<Longrightarrow> pre w s"
    and step_le: "le w w' \<Longrightarrow> pre w' s \<Longrightarrow> step w s s' v \<Longrightarrow> \<exists>v'. step w' s s' v' \<and> le v v'"
    and fin_le: "le w w' \<Longrightarrow> fin w \<Longrightarrow> fin w'"
    and quiet_step: "pre w s \<Longrightarrow> quiet s s' \<Longrightarrow> \<exists>v. step w s s' v \<and> le w v"
    and quiet_refl: "quiet s s"
begin

lemma weaken:
  assumes "task_ok pre step fin w t" and "le w w'"
  shows "task_ok pre step fin w' t"
  using assms
proof (induction arbitrary: w' rule: task_ok.induct)
  case (task_ok_Finished w)
  then show ?case using fin_le by (auto intro: task_ok.task_ok_Finished)
next
  case (task_ok_Locked w f)
  show ?case
  proof (rule task_ok.task_ok_Locked)
    fix s
    assume pre: "pre w' s"
    with task_ok_Locked.IH [OF pre_le [OF task_ok_Locked.prems pre]] obtain v where
      v: "step w s (fst (f s)) v" "\<And>w'. le v w' \<Longrightarrow> task_ok pre step fin w' (snd (f s))" by blast
    from step_le [OF task_ok_Locked.prems pre v(1)] v(2)
    show "\<exists>v'. step w' s (fst (f s)) v' \<and> task_ok pre step fin v' (snd (f s))" by blast
  qed
qed

lemma quiet_locked:
  assumes "\<And>s. pre w s \<Longrightarrow> quiet s (g s)" and "task_ok pre step fin w t"
  shows "task_ok pre step fin w (locked g t)"
  unfolding locked_def
proof (rule task_ok.task_ok_Locked)
  fix s
  assume "pre w s"
  from quiet_step [OF this assms(1) [OF this]] weaken [OF assms(2)]
  show "\<exists>v. step w s (fst (g s, t)) v \<and> task_ok pre step fin v (snd (g s, t))" by auto
qed

lemma quiet_atomically:
  assumes "\<And>s. pre w s \<Longrightarrow> quiet s (snd (g s))" and "\<And>x. task_ok pre step fin w (k x)"
  shows "task_ok pre step fin w (atomically g k)"
  unfolding atomically_def
proof (rule task_ok.task_ok_Locked)
  fix s
  assume "pre w s"
  from quiet_step [OF this assms(1) [OF this]] weaken [OF assms(2)]
  show "\<exists>v. step w s (fst (case g s of (x, s') \<Rightarrow> (s', k x))) v
    \<and> task_ok pre step fin v (snd (case g s of (x, s') \<Rightarrow> (s', k x)))" by (auto split: prod.split)
qed

lemma quiet_observing:
  assumes "\<And>x. task_ok pre step fin w (k x)"
  shows "task_ok pre step fin w (observing g k)"
  unfolding observing_def
proof (rule task_ok.task_ok_Locked)
  fix s
  assume "pre w s"
  from quiet_step [OF this quiet_refl] weaken [OF assms]
  show "\<exists>v. step w s (fst (s, k (g s))) v \<and> task_ok pre step fin v (snd (s, k (g s)))" by auto
qed

end

end
