(* ===== verification/Pipeline.thy ===== *)
theory Pipeline
  imports Cursor_Read Log_Store_Props Pre_Buffer Session_Props Span_Store Tasks
begin

text \<open>
  The pipeline of a domain (\<open>engine/pipeline.rs\<close>) and the two processors that feed it
  (\<open>daemon/log_processor.rs\<close>, \<open>daemon/span_processor.rs\<close>). A pipeline is its log store, its
  pre-trigger buffer, the seq counter it shares with the span store, and its epoch log; the events
  sent on its broadcast channel are collected in a list. The log processor, the span processor,
  a clear and a resync are tasks (\<open>Tasks\<close>): one step for each lock the code takes, so that a clear
  or a filter change can run between any two steps of a record's processing.
\<close>

section \<open>The pipeline\<close>

record pipeline =
  pl_store :: log_store
  pl_pre_buffer :: pre_buffer
  pl_counter :: seq_counter
  pl_epochs :: epoch_log
  pl_events :: "pipeline_event list"

record recent_stats =
  rs_scanned :: nat
  rs_buffer_total :: nat
  rs_buffer_oldest_seq :: "u64 option"
  rs_buffer_newest_seq :: "u64 option"
  rs_lost_below :: u64

definition new_with_seq_counter :: "nat \<Rightarrow> seq_counter \<Rightarrow> pipeline" where
  "new_with_seq_counter store_capacity c =
     \<lparr>pl_store = new_store store_capacity, pl_pre_buffer = pb_new 0, pl_counter = c,
      pl_epochs = epoch_log_new (seq_current c), pl_events = []\<rparr>"

definition pipeline_new :: "nat \<Rightarrow> pipeline" where
  "pipeline_new store_capacity = new_with_seq_counter store_capacity seq_counter_new"

definition new_with_seq :: "nat \<Rightarrow> u64 \<Rightarrow> pipeline" where
  "new_with_seq store_capacity initial_seq = new_with_seq_counter store_capacity (new_with_initial initial_seq)"

text \<open>\<open>LogPipeline::from_records\<close>; \<open>None\<close> is the failed assertion of the store.\<close>

definition pipeline_from_records ::
  "nat \<Rightarrow> seq_counter \<Rightarrow> u64 \<Rightarrow> (u64 \<times> filter_policy) list \<Rightarrow> log_entry list \<Rightarrow> u64 \<Rightarrow> pipeline option" where
  "pipeline_from_records store_capacity c epoch_origin flips records floor0 =
     map_option (\<lambda>st.
       \<lparr>pl_store = st, pl_pre_buffer = pb_new 0, pl_counter = c,
        pl_epochs = fold (\<lambda>(s, p). observe s p) flips
          (observe epoch_origin (policy_new []) (epoch_log_new epoch_origin)),
        pl_events = []\<rparr>) (from_records store_capacity records floor0)"

definition assign_seq :: "pipeline \<Rightarrow> u64 \<times> pipeline" where
  "assign_seq pl = (case seq_next (pl_counter pl) of (s, c) \<Rightarrow> (s, pl\<lparr>pl_counter := c\<rparr>))"

definition current_seq :: "pipeline \<Rightarrow> u64" where
  "current_seq pl = seq_current (pl_counter pl)"

definition send_event :: "pipeline_event \<Rightarrow> pipeline \<Rightarrow> pipeline" where
  "send_event ev pl = pl\<lparr>pl_events := pl_events pl @ [ev]\<rparr>"

definition append_to_store :: "log_entry \<Rightarrow> pipeline \<Rightarrow> pipeline" where
  "append_to_store e pl = pl\<lparr>pl_store := append e (pl_store pl)\<rparr>"

definition pipeline_insert_sorted :: "log_entry list \<Rightarrow> pipeline \<Rightarrow> pipeline" where
  "pipeline_insert_sorted batch pl = pl\<lparr>pl_store := fst (insert_sorted batch (pl_store pl))\<rparr>"

text \<open>The reads that report the ring with the records, from the one view the store gives.\<close>

definition stats_of_view :: "ring_view \<Rightarrow> recent_stats" where
  "stats_of_view v =
     \<lparr>rs_scanned = rv_scanned v, rs_buffer_total = rv_len v, rs_buffer_oldest_seq = rv_oldest_seq v,
      rs_buffer_newest_seq = rv_newest_seq v, rs_lost_below = rv_lost_below v\<rparr>"

definition recent_logs_with_stats ::
  "match_env \<Rightarrow> nat \<Rightarrow> parsed_filter option \<Rightarrow> bool \<Rightarrow> pipeline \<Rightarrow> log_entry list \<times> recent_stats" where
  "recent_logs_with_stats env cnt f oldest_first pl =
     (case recent_with_view env cnt f oldest_first (pl_store pl) of (es, v) \<Rightarrow> (es, stats_of_view v))"

definition for_each_log :: "match_env \<Rightarrow> parsed_filter option \<Rightarrow> pipeline \<Rightarrow> log_entry list \<times> scan_counts \<times> recent_stats" where
  "for_each_log env f pl =
     (case for_each_matching env f (pl_store pl) of (visited, counts) \<Rightarrow>
       (visited, counts,
        \<lparr>rs_scanned = sc_scanned counts, rs_buffer_total = sc_scanned counts,
         rs_buffer_oldest_seq = sc_oldest_seq counts, rs_buffer_newest_seq = sc_newest_seq counts,
         rs_lost_below = sc_lost_below counts\<rparr>))"

definition pre_buffer_append :: "log_entry \<Rightarrow> pipeline \<Rightarrow> pipeline" where
  "pre_buffer_append e pl = pl\<lparr>pl_pre_buffer := pb_append e (pl_pre_buffer pl)\<rparr>"

definition pre_buffer_copy :: "nat \<Rightarrow> pipeline \<Rightarrow> log_entry list \<times> pipeline" where
  "pre_buffer_copy n pl =
     (case pb_flush n (pl_pre_buffer pl) of (es, b) \<Rightarrow> (es, pl\<lparr>pl_pre_buffer := b\<rparr>))"

definition resync_pre_buffer :: "nat \<Rightarrow> pipeline \<Rightarrow> pipeline" where
  "resync_pre_buffer n pl = pl\<lparr>pl_pre_buffer := pb_resize n (pl_pre_buffer pl)\<rparr>"

definition observe_epoch :: "u64 \<Rightarrow> filter_policy \<Rightarrow> pipeline \<Rightarrow> pipeline" where
  "observe_epoch s p pl = pl\<lparr>pl_epochs := observe s p (pl_epochs pl)\<rparr>"

section \<open>Calls on the shared state of a domain\<close>

text \<open>
  The state the tasks of a domain share; \<open>'c\<close> is the collectors' own state. A call of the pipeline,
  of the span store or of the session registry is one step, on the lock it takes. A scan of the
  registry holds the map's lock for reading and takes each session's own locks in turn, so the
  sessions it sees are read one after the other.
\<close>

record 'c domain_state =
  ds_pipeline :: pipeline
  ds_spans :: span_store
  ds_registry :: registry
  ds_collectors :: 'c

type_synonym 'c work = "'c domain_state task"

definition on_pipeline :: "(pipeline \<Rightarrow> pipeline) \<Rightarrow> 'c domain_state \<Rightarrow> 'c domain_state" where
  "on_pipeline g ds = ds\<lparr>ds_pipeline := g (ds_pipeline ds)\<rparr>"

definition on_registry :: "(registry \<Rightarrow> registry) \<Rightarrow> 'c domain_state \<Rightarrow> 'c domain_state" where
  "on_registry g ds = ds\<lparr>ds_registry := g (ds_registry ds)\<rparr>"

definition read_pipeline :: "(pipeline \<Rightarrow> 'a) \<Rightarrow> ('a \<Rightarrow> 'c work) \<Rightarrow> 'c work" where
  "read_pipeline g = observing (\<lambda>ds. g (ds_pipeline ds))"

definition pipeline_call :: "(pipeline \<Rightarrow> 'a \<times> pipeline) \<Rightarrow> ('a \<Rightarrow> 'c work) \<Rightarrow> 'c work" where
  "pipeline_call g = atomically (\<lambda>ds. case g (ds_pipeline ds) of (x, pl) \<Rightarrow> (x, ds\<lparr>ds_pipeline := pl\<rparr>))"

definition registry_call :: "(registry \<Rightarrow> 'a \<times> registry) \<Rightarrow> ('a \<Rightarrow> 'c work) \<Rightarrow> 'c work" where
  "registry_call g = atomically (\<lambda>ds. case g (ds_registry ds) of (x, reg) \<Rightarrow> (x, ds\<lparr>ds_registry := reg\<rparr>))"

primrec read_sessions :: "session_id list \<Rightarrow> registry \<Rightarrow> (registry \<Rightarrow> 'c work) \<Rightarrow> 'c work" where
  "read_sessions [] snap k = k snap"
| "read_sessions (sid # sids) snap k =
     observing (\<lambda>ds. map_of (ds_registry ds) sid)
       (\<lambda>found. read_sessions sids (snap @ (case found of None \<Rightarrow> [] | Some s \<Rightarrow> [(sid, s)])) k)"

definition scan_registry :: "(registry \<Rightarrow> 'a) \<Rightarrow> ('a \<Rightarrow> 'c work) \<Rightarrow> 'c work" where
  "scan_registry g k = observing (\<lambda>ds. map fst (ds_registry ds)) (\<lambda>sids. read_sessions sids [] (\<lambda>snap. k (g snap)))"

text \<open>
  \<open>LogPipeline::clear_logs\<close>: the size, the counter and the clear are three steps. The resync
  computes the size with a scan and then applies it; the mutex that serializes resyncs only takes
  interleavings away.
\<close>

definition clear_logs :: "(nat \<Rightarrow> 'c work) \<Rightarrow> 'c work" where
  "clear_logs k =
     read_pipeline (\<lambda>pl. length (entries (pl_store pl))) (\<lambda>n.
     read_pipeline current_seq (\<lambda>c.
     locked (on_pipeline (\<lambda>pl. pl\<lparr>pl_store := clear_through c (pl_store pl)\<rparr>)) (k n)))"

definition sync_pre_buffer_size_for_domain :: "string \<Rightarrow> 'c work \<Rightarrow> 'c work" where
  "sync_pre_buffer_size_for_domain d k =
     scan_registry (max_pre_window_for_domain d) (\<lambda>n. locked (on_pipeline (resync_pre_buffer n)) k)"

section \<open>The log processor\<close>

text \<open>
  The records just before the match: the context less the match itself. Nothing is asked for after
  the match, so the window's end does not wrap and the read does not panic (\<open>context_before_total\<close>).
\<close>

definition context_before :: "log_entry \<Rightarrow> u32 \<Rightarrow> pipeline \<Rightarrow> log_entry list" where
  "context_before e n pl =
     (let ctx = (case context_by_seq (le_seq e) n 0 (pl_store pl) of None \<Rightarrow> [] | Some es \<Rightarrow> es)
      in if ctx \<noteq> [] \<and> le_seq (last ctx) = le_seq e then butlast ctx else ctx)"

definition match_event :: "session_id \<Rightarrow> log_entry \<Rightarrow> u32 \<Rightarrow> trigger_match \<Rightarrow> log_entry list \<Rightarrow> pipeline_event" where
  "match_event sid e trigger_max_pre m context =
     \<lparr>pe_session_id = session_display sid, pe_trigger_id = tm_id m, pe_trigger_description = tm_description m,
      pe_filter_string = tm_filter_string m, pe_matched_entry = e,
      pe_context_before = context,
      pe_pre_trigger_flushed = trigger_max_pre, pe_pre_window = tm_pre_window m,
      pe_post_window_size = tm_post_window m, pe_notify_context = tm_notify_context m, pe_oneshot = tm_oneshot m,
      pe_trace_id = le_trace_id e, pe_trace_summary = None\<rparr>"

text \<open>An event is queued for a session that is away, then sent on the channel; a oneshot trigger is removed.\<close>

definition remove_oneshot :: "session_id \<Rightarrow> trigger_match \<Rightarrow> 'c work \<Rightarrow> 'c work" where
  "remove_oneshot sid m k =
     (if tm_oneshot m then locked (on_registry (\<lambda>reg. ok_or reg id (remove_trigger sid (tm_id m) reg))) k else k)"

definition dispatch :: "session_id \<Rightarrow> trigger_match \<Rightarrow> pipeline_event \<Rightarrow> 'c work \<Rightarrow> 'c work" where
  "dispatch sid m ev k =
     locked (on_registry (send_or_queue_notification sid ev))
       (locked (on_pipeline (send_event ev)) (remove_oneshot sid m k))"

definition notify_match :: "session_id \<Rightarrow> log_entry \<Rightarrow> u32 \<Rightarrow> trigger_match \<Rightarrow> 'c work \<Rightarrow> 'c work" where
  "notify_match sid e trigger_max_pre m k =
     read_pipeline (context_before e (tm_notify_context m)) (\<lambda>context.
       dispatch sid m (match_event sid e trigger_max_pre m context) k)"

text \<open>The triggering record is stored, then its pre-window and its trace's buffered records.\<close>

definition store_unless :: "bool \<Rightarrow> log_entry \<Rightarrow> 'c work \<Rightarrow> 'c work" where
  "store_unless held e k = (if held then k else locked (on_pipeline (append_to_store e)) k)"

definition flush_pre_window :: "log_entry list \<Rightarrow> 'c work \<Rightarrow> 'c work" where
  "flush_pre_window flushed =
     locked (on_pipeline (pipeline_insert_sorted (map (\<lambda>x. x\<lparr>le_source := PreTrigger\<rparr>) flushed)))"

definition store_match :: "log_entry \<Rightarrow> u32 \<Rightarrow> 'c work \<Rightarrow> 'c work" where
  "store_match e trigger_max_pre k =
     read_pipeline (\<lambda>pl. contains_seq (le_seq e) (pl_store pl)) (\<lambda>held.
     store_unless held (e\<lparr>le_source := PreTrigger\<rparr>)
       (pipeline_call (pre_buffer_copy trigger_max_pre) (\<lambda>flushed.
         case le_trace_id e of
           None \<Rightarrow> flush_pre_window flushed k
         | Some tid \<Rightarrow>
             read_pipeline (\<lambda>pl. entries_by_trace_id tid (pl_pre_buffer pl)) (\<lambda>more.
               flush_pre_window (flushed @ more) k))))"

definition max_of :: "nat list \<Rightarrow> nat" where
  "max_of xs = fold max xs 0"

text \<open>One session's turn: its post-window advances, its triggers are evaluated, what fired is stored and told.\<close>

definition fire_matches :: "string \<Rightarrow> log_entry \<Rightarrow> session_id \<Rightarrow> trigger_match list \<Rightarrow> 'c work \<Rightarrow> 'c work" where
  "fire_matches d e sid ms k =
     (let pre = max_of (map tm_pre_window ms); post = max_of (map tm_post_window ms)
      in store_match e pre
           (locked (on_registry (extend_post_window sid post))
             (foldr (notify_match sid e pre) ms
               (if list_ex tm_oneshot ms then sync_pre_buffer_size_for_domain d k else k))))"

definition process_session ::
  "match_env \<Rightarrow> string \<Rightarrow> log_entry \<Rightarrow> session_id \<Rightarrow> bool \<Rightarrow> (bool \<Rightarrow> 'c work) \<Rightarrow> 'c work" where
  "process_session env d e sid active k =
     registry_call (decrement_post_window sid) (\<lambda>in_window.
     registry_call (evaluate_triggers env sid e) (\<lambda>ms.
       if ms = [] then k (active \<or> in_window) else fire_matches d e sid ms (k True)))"

primrec process_sessions ::
  "match_env \<Rightarrow> string \<Rightarrow> log_entry \<Rightarrow> session_id list \<Rightarrow> bool \<Rightarrow> (bool \<Rightarrow> 'c work) \<Rightarrow> 'c work" where
  "process_sessions env d e [] active k = k active"
| "process_sessions env d e (sid # sids) active k =
     process_session env d e sid active (\<lambda>active'. process_sessions env d e sids active' k)"

text \<open>The last steps: a record no trigger stored goes in by an open post-window or the domain's filters.\<close>

definition store_by_policy :: "match_env \<Rightarrow> string \<Rightarrow> log_entry \<Rightarrow> bool \<Rightarrow> 'c work" where
  "store_by_policy env d e any_active =
     read_pipeline (\<lambda>pl. contains_seq (le_seq e) (pl_store pl)) (\<lambda>held.
       if held then Finished
       else if any_active then locked (on_pipeline (append_to_store (e\<lparr>le_source := PostTrigger\<rparr>))) Finished
       else scan_registry (evaluate_filters_for_domain env d e) (\<lambda>decision.
         locked (on_pipeline (observe_epoch (le_seq e) (sd_policy decision)))
           (if sd_should_store decision
            then locked (on_pipeline (append_to_store
                   (e\<lparr>le_matched_filters := sd_matched_descriptions decision, le_source := Filter\<rparr>))) Finished
            else Finished)))"

text \<open>The work that follows the numbering of a record.\<close>

definition process_numbered :: "match_env \<Rightarrow> string \<Rightarrow> log_entry \<Rightarrow> 'c work" where
  "process_numbered env d e =
     scan_registry (active_session_ids_sorted_by_pre_window_for_domain d) (\<lambda>sids.
     process_sessions env d e sids False (\<lambda>any_active.
     locked (on_pipeline (pre_buffer_append e)) (store_by_policy env d e any_active)))"

definition process_entry_for_domain :: "match_env \<Rightarrow> string \<Rightarrow> log_entry \<Rightarrow> 'c work" where
  "process_entry_for_domain env d e0 = pipeline_call assign_seq (\<lambda>s. process_numbered env d (e0\<lparr>le_seq := s\<rparr>))"

section \<open>The span processor\<close>

definition build_trace_summary :: "u128 \<Rightarrow> span_store \<Rightarrow> trace_summary option" where
  "build_trace_summary t st =
     (let spans = get_trace t st
      in if spans = [] then None else Some (summarize ''[incomplete]'' t spans 0))"

definition notify_span ::
  "(f64 \<Rightarrow> string) \<Rightarrow> session_id \<Rightarrow> span_entry \<Rightarrow> trigger_match \<Rightarrow> 'c work \<Rightarrow> 'c work" where
  "notify_span fmt_f64 sid sp m k =
     observing (\<lambda>ds. build_trace_summary (sp_trace_id sp) (ds_spans ds)) (\<lambda>summary.
       dispatch sid m (build_span_event fmt_f64 sid sp m summary) k)"

primrec span_sessions ::
  "match_env \<Rightarrow> (f64 \<Rightarrow> string) \<Rightarrow> span_entry \<Rightarrow> session_id list \<Rightarrow> bool \<Rightarrow> (bool \<Rightarrow> 'c work) \<Rightarrow> 'c work" where
  "span_sessions env fmt_f64 sp [] removed k = k removed"
| "span_sessions env fmt_f64 sp (sid # sids) removed k =
     registry_call (evaluate_span_triggers env sid sp) (\<lambda>ms.
       foldr (notify_span fmt_f64 sid sp) ms
         (span_sessions env fmt_f64 sp sids (removed \<or> list_ex tm_oneshot ms) k))"

text \<open>
  The span store takes the seq under its own lock, from the counter the log store shares;
  \<open>ingest\<close> is \<open>CollectorRegistry::ingest_span\<close> on the collectors' own state.
\<close>

definition insert_span :: "span_entry \<Rightarrow> 'c domain_state \<Rightarrow> u64 \<times> 'c domain_state" where
  "insert_span sp ds =
     (case span_insert sp (pl_counter (ds_pipeline ds)) (ds_spans ds) of
        (s, c, st) \<Rightarrow> (s, ds\<lparr>ds_spans := st, ds_pipeline := (ds_pipeline ds)\<lparr>pl_counter := c\<rparr>\<rparr>))"

definition process_span_for_domain ::
  "match_env \<Rightarrow> (f64 \<Rightarrow> string) \<Rightarrow> (string \<Rightarrow> span_entry \<Rightarrow> 'c \<Rightarrow> 'c) \<Rightarrow> string \<Rightarrow> span_entry \<Rightarrow> 'c work" where
  "process_span_for_domain env fmt_f64 ingest d sp0 =
     atomically (insert_span sp0) (\<lambda>s.
       let sp = sp0\<lparr>sp_seq := s\<rparr>
       in locked (\<lambda>ds. ds\<lparr>ds_collectors := ingest d sp (ds_collectors ds)\<rparr>)
            (scan_registry (active_session_ids_for_domain d) (\<lambda>sids.
              span_sessions env fmt_f64 sp sids False (\<lambda>removed.
                if removed then sync_pre_buffer_size_for_domain d Finished else Finished))))"

end
