(* ===== verification/Pipeline_Props.thy ===== *)
theory Pipeline_Props
  imports Pipeline
begin

text \<open>
  What a domain's processing guarantees over any interleaving of its tasks: the invariants of its
  stores, and that a range the verdict calls complete is complete: every record processed in it is
  held, but for those a clear overtook between their numbering and their storing.
\<close>

section \<open>Accounting for a seq\<close>

text \<open>A seq is accounted for when a record holds it, or the floor says it was lost.\<close>

definition accounted :: "u64 \<Rightarrow> log_store \<Rightarrow> bool" where
  "accounted s st \<longleftrightarrow> s \<in> le_seq ` set (entries st) \<or> s < lost_below st"

lemma accounted_apply:
  assumes "log_inv st" and "valid_op op" and "accounted s st"
  shows "accounted s (log_apply op st)"
proof -
  have "lost_below st \<le> lost_below (log_apply op st)" by (rule lost_below_apply_mono [OF assms(1,2)])
  moreover have "accounted s (log_apply op st)" if "e \<in> set (entries st)" "s = le_seq e" for e
    using apply_floor [OF assms(1,2), of e] that by (auto simp: accounted_def)
  ultimately show ?thesis using assms(3) by (force simp: accounted_def)
qed

lemma accounted_append:
  assumes "log_inv st" and "le_seq e < u64_max" and "accounted (le_seq e) st \<or> refuse_below st \<le> le_seq e"
  shows "accounted (le_seq e) (append e st)"
proof (cases "accounted (le_seq e) st")
  case True
  then show ?thesis using accounted_apply [OF assms(1), of "OpAppend e"] assms(2) by (simp add: valid_op_def)
next
  case False
  then have "\<not> holds st (le_seq e)"
    using holds_iff [OF log_invD(2) [OF assms(1)]] by (simp add: accounted_def)
  then have "e \<in> set (op_admitted (OpAppend e) st)"
    using assms(3) False by (simp add: op_admitted_def admitted_def new_offers_def)
  then show ?thesis
    using apply_floor [OF assms(1), of "OpAppend e" e] assms(2) by (auto simp: valid_op_def accounted_def)
qed

lemma admit_from_store:
  assumes "log_inv st" and "valid_op op" and "is_store op"
  shows "admit_from (log_apply op st) = admit_from st"
  by (simp add: apply_as_insert [OF assms] insert_sorted_def Let_def merge_result_def
      merge_locked_eq [OF log_invD(2) [OF assms(1)]])

definition store_bounded :: "u64 \<Rightarrow> log_store \<Rightarrow> bool" where
  "store_bounded b st \<longleftrightarrow> (\<forall>e\<in>set (entries st). le_seq e \<le> b) \<and> refuse_below st \<le> Suc b"

lemma store_bounded_mono: "store_bounded b st \<Longrightarrow> b \<le> b' \<Longrightarrow> store_bounded b' st"
  by (fastforce simp: store_bounded_def)

lemma store_bounded_apply:
  assumes "log_inv st" and "valid_op op" and "is_store op" and "\<forall>e\<in>set (op_batch op). le_seq e \<le> b"
    and "store_bounded b st"
  shows "store_bounded b (log_apply op st)"
proof -
  have adm: "set (op_admitted op st) \<subseteq> set (op_batch op)"
    using set_dedup_by_key [of le_seq "sort_key le_seq (op_batch op)"]
    by (auto simp: op_admitted_def admitted_def new_offers_def)
  have "lost_below (log_apply op st) \<le> Suc b"
    using apply_floor_cases [OF assms(1,2)] adm assms(4,5) by (auto simp: store_bounded_def refuse_below_def)
  moreover have "admit_from (log_apply op st) \<le> Suc b"
    using assms(5) by (simp add: admit_from_store [OF assms(1-3)] store_bounded_def refuse_below_def)
  ultimately show ?thesis
    using apply_entries_subset [OF assms(1,2)] adm assms(4,5) by (auto simp: store_bounded_def refuse_below_def)
qed

lemma clear_bounded:
  assumes "log_inv st" and "store_bounded b st" and "c \<le> b" and "b < u64_max"
  shows "store_bounded b (clear_through c st)"
proof -
  have "lost_below (clear_through c st) \<le> Suc b"
    using apply_floor_cases [OF assms(1), of "OpClearThrough c"] assms(2)
    by (auto simp: valid_op_def store_bounded_def refuse_below_def op_admitted_def admitted_def new_offers_def)
  moreover have "admit_from (clear_through c st) \<le> Suc b" "entries (clear_through c st) = []"
    using assms(2-4) by (auto simp: clear_through_def clear_locked_def Let_def store_bounded_def refuse_below_def)
  ultimately show ?thesis by (simp add: store_bounded_def refuse_below_def)
qed

section \<open>The pre-trigger buffer holds what has arrived\<close>

definition buffered :: "pre_buffer \<Rightarrow> log_entry set" where
  "buffered b = snd ` set (pb_entries b)"

lemma buffered_append: "pb_inv b \<Longrightarrow> buffered (pb_append e b) \<subseteq> insert e (buffered b)"
proof (cases "pb_capacity b = 0")
  case True
  then show ?thesis by (auto simp: pb_append_def)
next
  case False
  then show "pb_inv b \<Longrightarrow> ?thesis" by (auto simp: pb_append_eq Let_def buffered_def)
qed

lemma buffered_flush:
  "buffered (snd (pb_flush n b)) \<subseteq> buffered b" "set (fst (pb_flush n b)) \<subseteq> buffered b"
  by (auto simp: pb_flush_def Let_def buffered_def dest: in_set_takeD in_set_dropD)

lemma buffered_resize: "pb_inv b \<Longrightarrow> buffered (pb_resize n b) \<subseteq> buffered b"
proof -
  assume "pb_inv b"
  then have "expire n (b\<lparr>pb_capacity := n\<rparr>) =
    (let es = filter (\<lambda>x. pb_arrivals b - n \<le> fst x) (pb_entries b)
     in b\<lparr>pb_capacity := n, pb_entries := es, pb_by_trace := index_of fst pb_trace es\<rparr>)"
    by (subst expire_eq) (simp_all add: pb_inv_def)
  then show ?thesis by (auto simp: pb_resize_def Let_def buffered_def)
qed

lemma buffered_by_trace: "pb_inv b \<Longrightarrow> set (entries_by_trace_id tid b) \<subseteq> buffered b"
proof -
  assume inv: "pb_inv b"
  have "entries_by_trace_id tid b = map snd (ring_lookup fst (pb_entries b) (case pb_by_trace b tid of None \<Rightarrow> [] | Some l \<Rightarrow> l))"
    by (simp add: entries_by_trace_id_def ring_lookup_def List.map_filter_def split: option.split)
  then show ?thesis unfolding pb.by_trace_correct [OF inv] by (auto simp: buffered_def)
qed

section \<open>The guarantee of every step\<close>

text \<open>The invariant of the shared state: no record and no floor is above the counter.\<close>

abbreviation counter_of :: "'c domain_state \<Rightarrow> u64" where
  "counter_of ds \<equiv> pl_counter (ds_pipeline ds)"

abbreviation store_of :: "'c domain_state \<Rightarrow> log_store" where
  "store_of ds \<equiv> pl_store (ds_pipeline ds)"

abbreviation epochs_of :: "'c domain_state \<Rightarrow> epoch_log" where
  "epochs_of ds \<equiv> pl_epochs (ds_pipeline ds)"

definition pipe_ok :: "pipeline \<Rightarrow> bool" where
  "pipe_ok pl \<longleftrightarrow>
     log_inv (pl_store pl) \<and> pb_inv (pl_pre_buffer pl) \<and> store_bounded (pl_counter pl) (pl_store pl) \<and>
     (\<forall>e\<in>buffered (pl_pre_buffer pl). le_seq e \<le> pl_counter pl)"

definition state_ok :: "'c domain_state \<Rightarrow> bool" where
  "state_ok ds \<longleftrightarrow> pipe_ok (ds_pipeline ds) \<and> span_inv (counter_of ds) (ds_spans ds)"

definition room :: "'c domain_state \<Rightarrow> bool" where
  "room ds \<longleftrightarrow> Suc (counter_of ds) < u64_max"

text \<open>
  Every step keeps the invariant, moves the counter by at most one, forgets no seq that was
  accounted for and never lowers the admission floor; a quiet step also leaves the epoch log alone.
\<close>

definition kept :: "'c domain_state \<Rightarrow> 'c domain_state \<Rightarrow> bool" where
  "kept ds ds' \<longleftrightarrow>
     (state_ok ds \<and> room ds \<longrightarrow>
        state_ok ds' \<and> counter_of ds \<le> counter_of ds' \<and> counter_of ds' \<le> Suc (counter_of ds) \<and>
        (\<forall>s. accounted s (store_of ds) \<longrightarrow> accounted s (store_of ds')) \<and>
        admit_from (store_of ds) \<le> admit_from (store_of ds'))"

definition quiet :: "'c domain_state \<Rightarrow> 'c domain_state \<Rightarrow> bool" where
  "quiet ds ds' \<longleftrightarrow> kept ds ds' \<and> epochs_of ds' = epochs_of ds"

lemma kept_refl [simp]: "kept ds ds"
  by (simp add: kept_def)

lemma quiet_same [simp]: "ds_pipeline ds' = ds_pipeline ds \<Longrightarrow> ds_spans ds' = ds_spans ds \<Longrightarrow> quiet ds ds'"
  by (simp add: quiet_def kept_def state_ok_def)

text \<open>A step of the pipeline alone, with the counter where it was.\<close>

lemma kept_pipeline:
  assumes "pipe_ok (ds_pipeline ds) \<Longrightarrow> room ds \<Longrightarrow> pipe_ok (g (ds_pipeline ds)) \<and> pl_counter (g (ds_pipeline ds)) = counter_of ds
    \<and> (\<forall>s. accounted s (store_of ds) \<longrightarrow> accounted s (pl_store (g (ds_pipeline ds))))
    \<and> admit_from (store_of ds) \<le> admit_from (pl_store (g (ds_pipeline ds)))"
  shows "kept ds (on_pipeline g ds)"
  using assms by (simp add: kept_def state_ok_def on_pipeline_def)

lemma kept_store_op:
  assumes "is_store op" and "\<forall>e\<in>set (op_batch op). le_seq e \<le> counter_of ds"
  shows "kept ds (on_pipeline (\<lambda>pl. pl\<lparr>pl_store := log_apply op (pl_store pl)\<rparr>) ds)"
proof (rule kept_pipeline)
  assume ok: "pipe_ok (ds_pipeline ds)" and r: "room ds"
  then have inv: "log_inv (store_of ds)" by (simp add: pipe_ok_def)
  have v: "valid_op op" using assms r by (cases op) (auto simp: valid_op_def room_def is_store_def list_all_iff)
  let ?pl = "(ds_pipeline ds)\<lparr>pl_store := log_apply op (store_of ds)\<rparr>"
  have "pipe_ok ?pl"
    using ok log_inv_apply [OF inv v] store_bounded_apply [OF inv v assms(1,2)] by (simp add: pipe_ok_def)
  then show "pipe_ok ?pl \<and> pl_counter ?pl = counter_of ds
    \<and> (\<forall>s. accounted s (store_of ds) \<longrightarrow> accounted s (pl_store ?pl)) \<and> admit_from (store_of ds) \<le> admit_from (pl_store ?pl)"
    using accounted_apply [OF inv v] admit_from_store [OF inv v assms(1)] by simp
qed

lemma quiet_append: "le_seq e \<le> counter_of ds \<Longrightarrow> quiet ds (on_pipeline (append_to_store e) ds)"
  using kept_store_op [of "OpAppend e" ds]
  by (simp add: quiet_def is_store_def append_to_store_def [abs_def] on_pipeline_def)

lemma quiet_insert: "\<forall>e\<in>set es. le_seq e \<le> counter_of ds \<Longrightarrow> quiet ds (on_pipeline (pipeline_insert_sorted es) ds)"
  using kept_store_op [of "OpInsertSorted es" ds]
  by (simp add: quiet_def is_store_def pipeline_insert_sorted_def [abs_def] on_pipeline_def)

lemma quiet_clear:
  assumes "c \<le> counter_of ds"
  shows "quiet ds (on_pipeline (\<lambda>pl. pl\<lparr>pl_store := clear_through c (pl_store pl)\<rparr>) ds)"
proof -
  have "kept ds (on_pipeline (\<lambda>pl. pl\<lparr>pl_store := clear_through c (pl_store pl)\<rparr>) ds)"
  proof (rule kept_pipeline)
    assume ok: "pipe_ok (ds_pipeline ds)" and r: "room ds"
    then have inv: "log_inv (store_of ds)" by (simp add: pipe_ok_def)
    have v: "valid_op (OpClearThrough c)" by (simp add: valid_op_def)
    let ?pl = "(ds_pipeline ds)\<lparr>pl_store := clear_through c (store_of ds)\<rparr>"
    have "admit_from (store_of ds) \<le> admit_from (clear_through c (store_of ds))"
      by (simp add: clear_through_def clear_locked_def Let_def)
    moreover have "pipe_ok ?pl"
      using ok r log_inv_apply [OF inv v] clear_bounded [OF inv _ assms] by (simp add: pipe_ok_def room_def)
    ultimately show "pipe_ok ?pl \<and> pl_counter ?pl = counter_of ds
      \<and> (\<forall>s. accounted s (store_of ds) \<longrightarrow> accounted s (pl_store ?pl)) \<and> admit_from (store_of ds) \<le> admit_from (pl_store ?pl)"
      using accounted_apply [OF inv v] by simp
  qed
  then show ?thesis by (simp add: quiet_def on_pipeline_def)
qed

lemma quiet_buffer:
  "le_seq e \<le> counter_of ds \<Longrightarrow> quiet ds (on_pipeline (pre_buffer_append e) ds)"
  "quiet ds (on_pipeline (resync_pre_buffer n) ds)"
  "quiet ds (on_pipeline (\<lambda>pl. snd (pre_buffer_copy n pl)) ds)"
proof -
  let ?b = "pl_pre_buffer (ds_pipeline ds)"
  show "quiet ds (on_pipeline (pre_buffer_append e) ds)" if "le_seq e \<le> counter_of ds"
    unfolding quiet_def using pb_inv_append [of ?b e] buffered_append [of ?b e] that
    by (auto simp: pipe_ok_def pre_buffer_append_def on_pipeline_def kept_def state_ok_def)
  show "quiet ds (on_pipeline (resync_pre_buffer n) ds)"
    unfolding quiet_def using pb_inv_resize [of ?b n] buffered_resize [of ?b n]
    by (auto simp: pipe_ok_def resync_pre_buffer_def on_pipeline_def kept_def state_ok_def)
  show "quiet ds (on_pipeline (\<lambda>pl. snd (pre_buffer_copy n pl)) ds)"
    unfolding quiet_def using pb_inv_flush [of ?b n] buffered_flush [of n ?b]
    by (auto simp: pipe_ok_def pre_buffer_copy_def on_pipeline_def kept_def state_ok_def split: prod.split)
qed

lemma quiet_event: "quiet ds (on_pipeline (send_event ev) ds)"
  by (simp add: quiet_def kept_def state_ok_def pipe_ok_def on_pipeline_def send_event_def)

lemma kept_observe: "kept ds (on_pipeline (observe_epoch s p) ds)"
  by (simp add: kept_def state_ok_def pipe_ok_def on_pipeline_def observe_epoch_def)

lemma pipe_ok_counter: "pipe_ok pl \<Longrightarrow> pl_counter pl \<le> b \<Longrightarrow> pipe_ok (pl\<lparr>pl_counter := b\<rparr>)"
  using store_bounded_mono unfolding pipe_ok_def by fastforce

lemma quiet_numbering: "quiet ds (ds\<lparr>ds_pipeline := snd (assign_seq (ds_pipeline ds))\<rparr>)"
proof -
  have "span_inv (counter_of ds) (ds_spans ds) \<Longrightarrow> span_inv (Suc (counter_of ds)) (ds_spans ds)"
    by (erule span_inv_mono) simp
  then show ?thesis
    using pipe_ok_counter [of "ds_pipeline ds" "Suc (counter_of ds)"]
    by (auto simp: quiet_def kept_def state_ok_def room_def assign_seq_def seq_next_def)
qed

lemma quiet_insert_span: "quiet ds (snd (insert_span sp ds))"
proof (cases "state_ok ds \<and> room ds")
  case False
  then show ?thesis by (auto simp: quiet_def kept_def insert_span_def split: prod.split)
next
  case True
  obtain st where "span_insert sp (counter_of ds) (ds_spans ds) = (Suc (counter_of ds), Suc (counter_of ds), st)"
    "span_inv (Suc (counter_of ds)) st"
    using span_inv_insert [of "counter_of ds" "ds_spans ds" sp] True
    by (cases "span_insert sp (counter_of ds) (ds_spans ds)") (auto simp: state_ok_def room_def)
  with True pipe_ok_counter [of "ds_pipeline ds" "Suc (counter_of ds)"] show ?thesis
    by (auto simp: quiet_def kept_def state_ok_def insert_span_def)
qed

section \<open>The logic of a domain's tasks\<close>

text \<open>
  What both logics below share: the calls of the registry and of the span store, the scans, the
  notifications and the resync are quiet, so they need no knowledge and give none.
\<close>

locale domain_logic = task_logic pre step fin le quiet
  for pre :: "'w \<Rightarrow> 'c domain_state \<Rightarrow> bool" and step :: "'w \<Rightarrow> 'c domain_state \<Rightarrow> 'c domain_state \<Rightarrow> 'w \<Rightarrow> bool"
    and fin :: "'w \<Rightarrow> bool" and le :: "'w \<Rightarrow> 'w \<Rightarrow> bool"
begin

abbreviation ok :: "'w \<Rightarrow> 'c work \<Rightarrow> bool" where
  "ok \<equiv> task_ok pre step fin"

lemma ok_read_pipeline: "(\<And>x. ok w (k x)) \<Longrightarrow> ok w (read_pipeline g k)"
  unfolding read_pipeline_def by (rule quiet_observing)

lemma ok_registry_call:
  assumes "\<And>x. ok w (k x)"
  shows "ok w (registry_call g k)"
  unfolding registry_call_def
proof (rule quiet_atomically [OF _ assms])
  fix ds :: "'c domain_state"
  show "quiet ds (snd (case g (ds_registry ds) of (x, reg) \<Rightarrow> (x, ds\<lparr>ds_registry := reg\<rparr>)))"
    by (cases "g (ds_registry ds)") simp
qed

lemma ok_on_registry: "ok w t \<Longrightarrow> ok w (locked (on_registry g) t)"
  by (rule quiet_locked) (simp_all add: on_registry_def)

lemma ok_read_sessions: "(\<And>snap. ok w (k snap)) \<Longrightarrow> ok w (read_sessions sids snap k)"
  by (induction sids arbitrary: snap) (auto intro: quiet_observing)

lemma ok_scan: "(\<And>x. ok w (k x)) \<Longrightarrow> ok w (scan_registry g k)"
  unfolding scan_registry_def by (intro quiet_observing ok_read_sessions)

lemma ok_sync: "ok w t \<Longrightarrow> ok w (sync_pre_buffer_size_for_domain d t)"
  unfolding sync_pre_buffer_size_for_domain_def by (intro ok_scan quiet_locked quiet_buffer)

lemma ok_dispatch: "ok w t \<Longrightarrow> ok w (dispatch sid m ev t)"
  unfolding dispatch_def remove_oneshot_def by (auto intro!: ok_on_registry quiet_locked [OF quiet_event])

lemma ok_notify_match: "ok w t \<Longrightarrow> ok w (notify_match sid e n m t)"
  unfolding notify_match_def by (intro ok_read_pipeline ok_dispatch)

lemma ok_notify_span: "ok w t \<Longrightarrow> ok w (notify_span fmt sid sp m t)"
  unfolding notify_span_def by (intro quiet_observing ok_dispatch)

lemma ok_foldr: "(\<And>m t. ok w t \<Longrightarrow> ok w (f m t)) \<Longrightarrow> ok w t \<Longrightarrow> ok w (foldr f ms t)"
  by (induction ms) auto

lemma ok_span_sessions: "(\<And>b. ok w (k b)) \<Longrightarrow> ok w (span_sessions env fmt sp sids removed k)"
  by (induction sids arbitrary: removed) (auto intro!: ok_registry_call ok_foldr ok_notify_span)

lemma ok_process_span: "fin w \<Longrightarrow> ok w (process_span_for_domain env fmt ingest d sp)"
  unfolding process_span_for_domain_def Let_def
  by (intro quiet_atomically quiet_insert_span quiet_locked ok_scan ok_span_sessions)
     (auto intro: ok_sync task_ok_Finished)

end

section \<open>Tasks beside the log processor\<close>

text \<open>A span, a clear or a resync knows a value the counter has reached.\<close>

definition side_pre :: "u64 \<Rightarrow> 'c domain_state \<Rightarrow> bool" where
  "side_pre c ds \<longleftrightarrow> state_ok ds \<and> room ds \<and> c \<le> counter_of ds"

definition side_step :: "u64 \<Rightarrow> 'c domain_state \<Rightarrow> 'c domain_state \<Rightarrow> u64 \<Rightarrow> bool" where
  "side_step c ds ds' c' \<longleftrightarrow> quiet ds ds' \<and> c' = counter_of ds'"

interpretation side: domain_logic side_pre side_step "\<lambda>_. True" "(\<le>)"
  by unfold_locales (auto simp: side_pre_def side_step_def quiet_def kept_def)

abbreviation side_ok :: "u64 \<Rightarrow> 'c work \<Rightarrow> bool" where
  "side_ok \<equiv> task_ok side_pre side_step (\<lambda>_. True)"

lemma side_ok_finished: "side_ok c Finished"
  by (rule task_ok_Finished) simp

lemma side_ok_clear: "side_ok c (clear_logs (\<lambda>_. Finished))"
proof -
  have clear: "side_ok n (locked (on_pipeline (\<lambda>pl. pl\<lparr>pl_store := clear_through n (pl_store pl)\<rparr>)) Finished)" for n
    by (rule side.quiet_locked [OF _ side_ok_finished]) (simp add: side_pre_def quiet_clear)
  have "side_ok c (read_pipeline current_seq
    (\<lambda>n. locked (on_pipeline (\<lambda>pl. pl\<lparr>pl_store := clear_through n (pl_store pl)\<rparr>)) Finished))"
    unfolding read_pipeline_def observing_def
    by (rule task_ok_Locked) (use clear in \<open>simp add: side_step_def current_seq_def seq_current_def\<close>)
  then show ?thesis unfolding clear_logs_def by (rule side.ok_read_pipeline)
qed

section \<open>The log processor\<close>

text \<open>
  What the processing of record \<open>e\<close> knows: a value the counter has reached, the sessions' states
  that were current at its steps, the scan whose decision it wrote to the epoch log, and whether
  its seq is settled: accounted for, or overtaken by a clear.
\<close>

record log_known =
  lk_counter :: u64
  lk_seen :: "(session_id \<times> session_state) set"
  lk_observed :: "registry option"
  lk_settled :: bool

definition settled :: "u64 \<Rightarrow> log_store \<Rightarrow> bool" where
  "settled s st \<longleftrightarrow> accounted s st \<or> s < admit_from st"

definition log_true :: "log_entry \<Rightarrow> log_known \<Rightarrow> 'c domain_state \<Rightarrow> bool" where
  "log_true e w ds \<longleftrightarrow> lk_counter w \<le> counter_of ds \<and> le_seq e \<le> counter_of ds \<and> (lk_settled w \<longrightarrow> settled (le_seq e) (store_of ds))"

definition log_pre :: "log_entry \<Rightarrow> log_known \<Rightarrow> 'c domain_state \<Rightarrow> bool" where
  "log_pre e w ds \<longleftrightarrow> state_ok ds \<and> room ds \<and> log_true e w ds"

definition epochs_follow :: "match_env \<Rightarrow> string \<Rightarrow> log_entry \<Rightarrow> log_known \<Rightarrow> log_known \<Rightarrow> epoch_log \<Rightarrow> epoch_log \<Rightarrow> bool" where
  "epochs_follow env d e w v ep ep' \<longleftrightarrow>
     lk_observed v = lk_observed w \<and> ep' = ep \<or>
     lk_observed w = None \<and> (\<exists>snap. lk_observed v = Some snap \<and>
       ep' = observe (le_seq e) (sd_policy (evaluate_filters_for_domain env d e snap)) ep)"

definition log_step ::
  "match_env \<Rightarrow> string \<Rightarrow> log_entry \<Rightarrow> log_known \<Rightarrow> 'c domain_state \<Rightarrow> 'c domain_state \<Rightarrow> log_known \<Rightarrow> bool" where
  "log_step env d e w ds ds' v \<longleftrightarrow>
     kept ds ds' \<and> lk_counter v = counter_of ds' \<and> lk_seen v = lk_seen w \<union> set (ds_registry ds) \<and>
     (lk_settled w \<longrightarrow> lk_settled v) \<and> (lk_settled v \<longrightarrow> settled (le_seq e) (store_of ds')) \<and>
     epochs_follow env d e w v (epochs_of ds) (epochs_of ds')"

definition log_fin :: "match_env \<Rightarrow> string \<Rightarrow> log_entry \<Rightarrow> log_known \<Rightarrow> bool" where
  "log_fin env d e w \<longleftrightarrow> lk_settled w \<or>
     (\<exists>snap. lk_observed w = Some snap \<and> set snap \<subseteq> lk_seen w \<and> \<not> sd_should_store (evaluate_filters_for_domain env d e snap))"

definition log_le :: "log_known \<Rightarrow> log_known \<Rightarrow> bool" where
  "log_le w w' \<longleftrightarrow> lk_counter w \<le> lk_counter w' \<and> lk_seen w \<subseteq> lk_seen w' \<and> lk_observed w' = lk_observed w \<and>
     (lk_settled w \<longrightarrow> lk_settled w')"

lemma settled_kept:
  "state_ok ds \<Longrightarrow> room ds \<Longrightarrow> kept ds ds' \<Longrightarrow> settled s (store_of ds) \<Longrightarrow> settled s (store_of ds')"
  by (auto simp: kept_def settled_def)

definition learn :: "log_known \<Rightarrow> 'c domain_state \<Rightarrow> 'c domain_state \<Rightarrow> log_known" where
  "learn w ds ds' = w\<lparr>lk_counter := counter_of ds', lk_seen := lk_seen w \<union> set (ds_registry ds)\<rparr>"

lemma log_quiet_step:
  assumes "log_pre e w ds" and "quiet ds ds'"
  shows "log_step env d e w ds ds' (learn w ds ds')" and "log_le w (learn w ds ds')"
  using assms settled_kept [of ds ds' "le_seq e"]
  by (auto simp: log_step_def learn_def log_pre_def log_true_def quiet_def epochs_follow_def log_le_def kept_def)

lemma log_step_le:
  assumes le: "log_le w w'" and pre: "log_pre e w' ds" and st: "log_step env d e w ds ds' v"
  shows "\<exists>v'. log_step env d e w' ds ds' v' \<and> log_le v v'"
proof (intro exI conjI)
  let ?v = "v\<lparr>lk_seen := lk_seen w' \<union> set (ds_registry ds), lk_settled := lk_settled v \<or> lk_settled w'\<rparr>"
  have "lk_settled w' \<Longrightarrow> settled (le_seq e) (store_of ds')"
    using settled_kept [of ds ds'] pre st by (auto simp: log_pre_def log_true_def log_step_def)
  then show "log_step env d e w' ds ds' ?v"
    using le st by (auto simp: log_step_def log_le_def epochs_follow_def)
  show "log_le v ?v" using le st by (auto simp: log_le_def log_step_def)
qed

interpretation lp: domain_logic "log_pre e" "log_step env d e" "log_fin env d e" log_le for e env d
proof
  fix w w' v ds ds'
  show "log_pre e w ds" if "log_le w w'" "log_pre e w' ds"
    using that by (auto simp: log_pre_def log_true_def log_le_def)
  show "\<exists>v'. log_step env d e w' ds ds' v' \<and> log_le v v'" if "log_le w w'" "log_pre e w' ds" "log_step env d e w ds ds' v"
    using that by (rule log_step_le)
  show "log_fin env d e w'" if "log_le w w'" "log_fin env d e w"
    using that by (auto simp: log_fin_def log_le_def)
  show "\<exists>v. log_step env d e w ds ds' v \<and> log_le w v" if "log_pre e w ds" "quiet ds ds'"
    using log_quiet_step [OF that] by blast
qed simp_all

abbreviation log_ok :: "match_env \<Rightarrow> string \<Rightarrow> log_entry \<Rightarrow> log_known \<Rightarrow> 'c work \<Rightarrow> bool" where
  "log_ok env d e \<equiv> task_ok (log_pre e) (log_step env d e) (log_fin env d e)"

text \<open>The rules for the steps that teach the processor something about its record.\<close>

lemma log_le_learn:
  "log_pre e w ds \<Longrightarrow> kept ds ds' \<Longrightarrow> log_le w (learn w ds ds')"
  by (auto simp: log_le_def learn_def log_pre_def log_true_def kept_def)

lemma log_ok_observing:
  fixes g :: "'c domain_state \<Rightarrow> 'a"
  assumes "\<And>ds v. log_pre e w ds \<Longrightarrow> log_le w v \<Longrightarrow> v = learn w ds ds \<Longrightarrow> log_ok env d e v (k (g ds))"
  shows "log_ok env d e w (observing g k)"
  unfolding observing_def
proof (rule task_ok_Locked)
  fix ds :: "'c domain_state"
  assume pre: "log_pre e w ds"
  have "quiet ds ds" by simp
  from log_quiet_step(1) [OF pre this, of env d] log_quiet_step(2) [OF pre this] assms [OF pre]
  show "\<exists>v. log_step env d e w ds (fst (ds, k (g ds))) v \<and> log_ok env d e v (snd (ds, k (g ds)))" by auto
qed

lemma log_ok_contains:
  assumes "log_ok env d e (w\<lparr>lk_settled := True\<rparr>) (k True)" and "log_ok env d e w (k False)"
  shows "log_ok env d e w (read_pipeline (\<lambda>pl. contains_seq (le_seq e) (pl_store pl)) k)"
  unfolding read_pipeline_def observing_def
proof (rule task_ok_Locked, simp)
  fix ds :: "'c domain_state"
  assume pre: "log_pre e w ds"
  let ?v = "learn w ds ds"
  have st: "log_step env d e w ds ds ?v" "log_le w ?v" by (rule log_quiet_step [OF pre]; simp)+
  show "\<exists>v. log_step env d e w ds ds v \<and> log_ok env d e v (k (contains_seq (le_seq e) (store_of ds)))"
  proof (cases "contains_seq (le_seq e) (store_of ds)")
    case True
    moreover have inv: "log_inv (store_of ds)" using pre by (simp add: log_pre_def state_ok_def pipe_ok_def)
    ultimately have "settled (le_seq e) (store_of ds)"
      using holds_iff [OF log_invD(2) [OF inv]] by (simp add: contains_seq_def settled_def accounted_def)
    then have "log_step env d e w ds ds (?v\<lparr>lk_settled := True\<rparr>)"
      using st(1) by (simp add: log_step_def epochs_follow_def)
    moreover have "log_le (w\<lparr>lk_settled := True\<rparr>) (?v\<lparr>lk_settled := True\<rparr>)" using st(2) by (simp add: log_le_def)
    ultimately show ?thesis using True lp.weaken [OF assms(1)] by auto
  next
    case False
    then show ?thesis using st lp.weaken [OF assms(2)] by auto
  qed
qed

lemma append_settles:
  assumes "state_ok ds" and "room ds" and "le_seq x \<le> counter_of ds"
  shows "settled (le_seq x) (store_of (on_pipeline (append_to_store x) ds))"
proof (cases "le_seq x < admit_from (store_of ds)")
  case True
  then show ?thesis using quiet_append [OF assms(3)] assms(1,2) by (auto simp: quiet_def kept_def settled_def)
next
  case False
  then have "accounted (le_seq x) (store_of ds) \<or> refuse_below (store_of ds) \<le> le_seq x"
    by (auto simp: accounted_def refuse_below_def)
  then show ?thesis
    using accounted_append [of "store_of ds" x] assms
    by (auto simp: settled_def on_pipeline_def append_to_store_def state_ok_def pipe_ok_def room_def)
qed

lemma log_ok_append:
  assumes "le_seq x = le_seq e" and "log_ok env d e (w\<lparr>lk_settled := True\<rparr>) t"
  shows "log_ok env d e w (locked (on_pipeline (append_to_store x)) t)"
  unfolding locked_def
proof (rule task_ok_Locked, simp)
  fix ds :: "'c domain_state"
  assume pre: "log_pre e w ds"
  let ?ds = "on_pipeline (append_to_store x) ds"
  let ?v = "(learn w ds ?ds)\<lparr>lk_settled := True\<rparr>"
  have x: "le_seq x \<le> counter_of ds" "state_ok ds" "room ds" using pre assms(1) by (simp_all add: log_pre_def log_true_def)
  have st: "log_step env d e w ds ?ds (learn w ds ?ds)" "log_le w (learn w ds ?ds)"
    by (rule log_quiet_step [OF pre quiet_append [OF x(1)]])+
  have "log_step env d e w ds ?ds ?v"
    using st(1) append_settles [OF x(2,3,1)] assms(1) by (simp add: log_step_def epochs_follow_def)
  moreover have "log_le (w\<lparr>lk_settled := True\<rparr>) ?v" using st(2) by (simp add: log_le_def)
  ultimately show "\<exists>v. log_step env d e w ds ?ds v \<and> log_ok env d e v t" using lp.weaken [OF assms(2)] by blast
qed

lemma log_ok_buffer_copy:
  assumes "\<And>v es. log_le w v \<Longrightarrow> \<forall>x\<in>set es. le_seq x \<le> lk_counter v \<Longrightarrow> log_ok env d e v (k es)"
  shows "log_ok env d e w (pipeline_call (pre_buffer_copy n) k)"
  unfolding pipeline_call_def atomically_def
proof (rule task_ok_Locked)
  fix ds :: "'c domain_state"
  assume pre: "log_pre e w ds"
  obtain es pl where c: "pre_buffer_copy n (ds_pipeline ds) = (es, pl)" by force
  let ?ds = "ds\<lparr>ds_pipeline := pl\<rparr>"
  have q: "quiet ds ?ds" using quiet_buffer(3) [of ds n] c by (simp add: on_pipeline_def)
  have "set es \<subseteq> buffered (pl_pre_buffer (ds_pipeline ds))" "pl_counter pl = counter_of ds"
    using buffered_flush(2) [of n "pl_pre_buffer (ds_pipeline ds)"] c
    by (auto simp: pre_buffer_copy_def split: prod.splits)
  then have "\<forall>x\<in>set es. le_seq x \<le> lk_counter (learn w ds ?ds)"
    using pre by (auto simp: learn_def log_pre_def state_ok_def pipe_ok_def)
  with log_quiet_step(1) [OF pre q, of env d] log_quiet_step(2) [OF pre q] assms [of "learn w ds ?ds" es] c
  show "\<exists>v. log_step env d e w ds (fst (case case pre_buffer_copy n (ds_pipeline ds) of (x, pl) \<Rightarrow> (x, ds\<lparr>ds_pipeline := pl\<rparr>)
      of (x, s') \<Rightarrow> (s', k x))) v
    \<and> log_ok env d e v (snd (case case pre_buffer_copy n (ds_pipeline ds) of (x, pl) \<Rightarrow> (x, ds\<lparr>ds_pipeline := pl\<rparr>)
      of (x, s') \<Rightarrow> (s', k x)))" by auto
qed

lemma log_ok_buffer_trace:
  assumes "\<And>v es. log_le w v \<Longrightarrow> \<forall>x\<in>set es. le_seq x \<le> lk_counter v \<Longrightarrow> log_ok env d e v (k es)"
  shows "log_ok env d e w (read_pipeline (\<lambda>pl. entries_by_trace_id tid (pl_pre_buffer pl)) k)"
  unfolding read_pipeline_def
proof (rule log_ok_observing)
  fix ds :: "'c domain_state" and v
  assume pre: "log_pre e w ds" and v: "log_le w v" "v = learn w ds ds"
  have "\<forall>x\<in>set (entries_by_trace_id tid (pl_pre_buffer (ds_pipeline ds))). le_seq x \<le> lk_counter v"
    using buffered_by_trace [of "pl_pre_buffer (ds_pipeline ds)" tid] pre
    by (auto simp: v(2) learn_def log_pre_def state_ok_def pipe_ok_def)
  with assms [OF v(1)] show "log_ok env d e v (k (entries_by_trace_id tid (pl_pre_buffer (ds_pipeline ds))))" by simp
qed

lemma log_ok_flush:
  assumes "\<forall>x\<in>set es. le_seq x \<le> lk_counter w" and "log_ok env d e w t"
  shows "log_ok env d e w (flush_pre_window es t)"
  unfolding flush_pre_window_def
proof (rule lp.quiet_locked [OF quiet_insert assms(2)])
  fix ds :: "'c domain_state"
  assume "log_pre e w ds"
  then show "\<forall>x\<in>set (map (\<lambda>x. x\<lparr>le_source := PreTrigger\<rparr>) es). le_seq x \<le> counter_of ds"
    using assms(1) by (auto simp: log_pre_def log_true_def)
qed

lemma log_ok_observe:
  assumes "lk_observed w = None" and "log_ok env d e (w\<lparr>lk_observed := Some snap\<rparr>) t"
  shows "log_ok env d e w
    (locked (on_pipeline (observe_epoch (le_seq e) (sd_policy (evaluate_filters_for_domain env d e snap)))) t)"
  unfolding locked_def
proof (rule task_ok_Locked, simp)
  fix ds :: "'c domain_state"
  assume pre: "log_pre e w ds"
  let ?ds = "on_pipeline (observe_epoch (le_seq e) (sd_policy (evaluate_filters_for_domain env d e snap))) ds"
  let ?v = "(learn w ds ?ds)\<lparr>lk_observed := Some snap\<rparr>"
  have "log_step env d e w ds ?ds ?v"
    using assms(1) pre settled_kept [OF _ _ kept_observe, of ds "le_seq e"]
    by (simp add: log_step_def learn_def log_pre_def log_true_def epochs_follow_def kept_observe)
       (simp add: on_pipeline_def observe_epoch_def)
  moreover have "log_le (w\<lparr>lk_observed := Some snap\<rparr>) ?v"
    using log_le_learn [OF pre kept_observe] by (simp add: log_le_def)
  ultimately show "\<exists>v. log_step env d e w ds ?ds v \<and> log_ok env d e v t" using lp.weaken [OF assms(2)] by blast
qed

lemma log_ok_read_sessions:
  assumes "\<And>v snap. log_le w v \<Longrightarrow> set snap \<subseteq> lk_seen v \<Longrightarrow> log_ok env d e v (k snap)" and "set snap \<subseteq> lk_seen w"
  shows "log_ok env d e w (read_sessions sids snap k)"
  using assms
proof (induction sids arbitrary: w snap)
  case Nil
  then show ?case by (simp add: log_le_def)
next
  case (Cons sid sids)
  show ?case
    unfolding read_sessions.simps
  proof (rule log_ok_observing)
    fix ds :: "'c domain_state" and v
    assume v: "log_le w v" "v = learn w ds ds"
    let ?snap = "snap @ (case map_of (ds_registry ds) sid of None \<Rightarrow> [] | Some s \<Rightarrow> [(sid, s)])"
    have "set ?snap \<subseteq> lk_seen v"
      using Cons.prems(2) map_of_SomeD by (fastforce simp: v(2) learn_def split: option.splits)
    moreover have "log_ok env d e u (k snap')" if "log_le v u" "set snap' \<subseteq> lk_seen u" for u snap'
      using Cons.prems(1) [of u snap'] that v(1) by (auto simp: log_le_def)
    ultimately show "log_ok env d e v (read_sessions sids ?snap k)" by (intro Cons.IH)
  qed
qed

lemma log_ok_scan:
  assumes "\<And>v snap. log_le w v \<Longrightarrow> set snap \<subseteq> lk_seen v \<Longrightarrow> log_ok env d e v (k (g snap))"
  shows "log_ok env d e w (scan_registry g k)"
  unfolding scan_registry_def
proof (rule log_ok_observing)
  fix ds :: "'c domain_state" and v
  assume v: "log_le w v"
  show "log_ok env d e v (read_sessions (map fst (ds_registry ds)) [] (\<lambda>snap. k (g snap)))"
  proof (rule log_ok_read_sessions)
    show "log_ok env d e u (k (g snap))" if "log_le v u" "set snap \<subseteq> lk_seen u" for u snap
      using assms [of u snap] that v by (auto simp: log_le_def)
  qed simp
qed

text \<open>The processor's code, from its parts.\<close>

lemma log_le_settled [simp]: "log_le w (w\<lparr>lk_settled := True\<rparr>)"
  by (simp add: log_le_def)

lemma log_ok_store_match:
  assumes "log_ok env d e w t"
  shows "log_ok env d e w (store_match e n t)"
proof -
  have rest: "log_ok env d e v (pipeline_call (pre_buffer_copy n) (\<lambda>flushed.
      case le_trace_id e of None \<Rightarrow> flush_pre_window flushed t
      | Some tid \<Rightarrow> read_pipeline (\<lambda>pl. entries_by_trace_id tid (pl_pre_buffer pl))
          (\<lambda>more. flush_pre_window (flushed @ more) t)))" if "log_le w v" for v
  proof (rule log_ok_buffer_copy)
    fix u and es :: "log_entry list"
    assume u: "log_le v u" "\<forall>x\<in>set es. le_seq x \<le> lk_counter u"
    have t: "log_ok env d e z t" if "log_le u z" for z
      using lp.weaken [OF assms, of z] \<open>log_le w v\<close> u(1) that by (auto simp: log_le_def)
    have "log_ok env d e u (read_pipeline (\<lambda>pl. entries_by_trace_id tid (pl_pre_buffer pl)) (\<lambda>more. flush_pre_window (es @ more) t))" for tid
      by (rule log_ok_buffer_trace, rule log_ok_flush) (use u(2) t in \<open>auto simp: log_le_def\<close>)
    then show "log_ok env d e u (case le_trace_id e of None \<Rightarrow> flush_pre_window es t
        | Some tid \<Rightarrow> read_pipeline (\<lambda>pl. entries_by_trace_id tid (pl_pre_buffer pl)) (\<lambda>more. flush_pre_window (es @ more) t))"
      using log_ok_flush [OF u(2) t] by (auto simp: log_le_def split: option.split)
  qed
  have "log_le w w" by (simp add: log_le_def)
  then show ?thesis
    unfolding store_match_def store_unless_def
    by (intro log_ok_contains) (simp_all add: rest log_ok_append)
qed

lemma log_ok_sessions:
  "(\<And>b. log_ok env d e w (k b)) \<Longrightarrow> log_ok env d e w (process_sessions env d e sids active k)"
proof (induction sids arbitrary: active)
  case Nil
  then show ?case by simp
next
  case (Cons sid sids)
  have rest: "log_ok env d e w (process_sessions env d e sids b k)" for b by (rule Cons.IH [OF Cons.prems])
  have "log_ok env d e w (fire_matches d e sid ms (process_sessions env d e sids b k))" for ms b
    unfolding fire_matches_def Let_def
    by (intro log_ok_store_match lp.ok_on_registry lp.ok_foldr lp.ok_notify_match) (auto intro: lp.ok_sync rest)
  with rest show ?case
    unfolding process_sessions.simps process_session_def by (intro lp.ok_registry_call) simp
qed

lemma log_ok_store_by_policy:
  assumes "lk_observed w = None"
  shows "log_ok env d e w (store_by_policy env d e active :: 'c work)"
proof -
  have fin: "log_ok env d e (v\<lparr>lk_settled := True\<rparr>) (Finished :: 'c work)" for v by (rule task_ok_Finished) (simp add: log_fin_def)
  have decided: "log_ok env d e v (locked (on_pipeline (observe_epoch (le_seq e) (sd_policy (evaluate_filters_for_domain env d e snap))))
      (if sd_should_store (evaluate_filters_for_domain env d e snap)
       then locked (on_pipeline (append_to_store (e\<lparr>le_matched_filters :=
              sd_matched_descriptions (evaluate_filters_for_domain env d e snap), le_source := Filter\<rparr>))) (Finished :: 'c work)
       else Finished))" if "log_le w v" "set snap \<subseteq> lk_seen v" for v snap
  proof (rule log_ok_observe)
    show "lk_observed v = None" using that(1) assms by (simp add: log_le_def)
    have "log_ok env d e (v\<lparr>lk_observed := Some snap\<rparr>) (Finished :: 'c work)"
      if "\<not> sd_should_store (evaluate_filters_for_domain env d e snap)"
      using that \<open>set snap \<subseteq> lk_seen v\<close> by (intro task_ok_Finished) (simp add: log_fin_def)
    then show "log_ok env d e (v\<lparr>lk_observed := Some snap\<rparr>)
      (if sd_should_store (evaluate_filters_for_domain env d e snap)
       then locked (on_pipeline (append_to_store (e\<lparr>le_matched_filters :=
              sd_matched_descriptions (evaluate_filters_for_domain env d e snap), le_source := Filter\<rparr>))) (Finished :: 'c work)
       else Finished)" using log_ok_append [OF _ fin] by simp
  qed
  have scan: "log_ok env d e w (scan_registry (evaluate_filters_for_domain env d e) (\<lambda>decision.
      locked (on_pipeline (observe_epoch (le_seq e) (sd_policy decision)))
        (if sd_should_store decision
         then locked (on_pipeline (append_to_store
                (e\<lparr>le_matched_filters := sd_matched_descriptions decision, le_source := Filter\<rparr>))) (Finished :: 'c work)
         else Finished)))"
    by (rule log_ok_scan) (rule decided)
  show ?thesis
    unfolding store_by_policy_def
    by (rule log_ok_contains) (simp_all add: fin scan log_ok_append)
qed

definition just_numbered :: "log_entry \<Rightarrow> log_known" where
  "just_numbered e = \<lparr>lk_counter = le_seq e, lk_seen = {}, lk_observed = None, lk_settled = False\<rparr>"

lemma log_ok_numbered: "log_ok env d e (just_numbered e) (process_numbered env d e)"
  unfolding process_numbered_def
  by (intro lp.ok_scan log_ok_sessions lp.quiet_locked quiet_buffer log_ok_store_by_policy)
     (simp_all add: just_numbered_def log_pre_def log_true_def)

section \<open>Runs of a domain\<close>

text \<open>
  What can happen to a domain: its log processor takes the next record off the channel (only when it
  has finished the one before) and numbers it, or runs the next step of the record's processing; a
  span, a clear or a resync starts, or one of those under way runs its next step; the spans are
  cleared; an operation of the session registry runs. Any of them may come between any two steps of
  a record's processing. The run notes the record being processed, the ones processed, those a clear
  overtook (in flight when the admission floor rose past their seq), and with each record the
  sessions' states that were current while it was processed.
\<close>

datatype domain_op =
    DLog log_entry
  | DLogStep
  | DSpan span_entry
  | DClearLogs
  | DSync
  | DStep nat
  | DClearSpans
  | DSession registry_op

record 'c domain_run =
  dr_state :: "'c domain_state"
  dr_log :: "'c work"
  dr_tasks :: "'c work list"
  dr_current :: "log_entry option"
  dr_done :: "log_entry set"
  dr_raced :: "log_entry set"
  dr_seen :: "(log_entry \<times> session_id \<times> session_state) set"

definition start_task :: "'c work \<Rightarrow> 'c domain_run \<Rightarrow> 'c domain_run" where
  "start_task t r = r\<lparr>dr_tasks := dr_tasks r @ [t]\<rparr>"

definition log_runs :: "'c work \<Rightarrow> 'c domain_run \<Rightarrow> 'c domain_run" where
  "log_runs t r = (case advance t (dr_state r) of (ds, t') \<Rightarrow> r\<lparr>dr_state := ds, dr_log := t'\<rparr>)"

definition task_runs :: "nat \<Rightarrow> 'c domain_run \<Rightarrow> 'c domain_run" where
  "task_runs i r =
     (if i < length (dr_tasks r)
      then case advance (dr_tasks r ! i) (dr_state r) of (ds, t) \<Rightarrow> r\<lparr>dr_state := ds, dr_tasks := (dr_tasks r)[i := t]\<rparr>
      else r)"

definition domain_do ::
  "(string \<Rightarrow> bool) \<Rightarrow> match_env \<Rightarrow> (f64 \<Rightarrow> string) \<Rightarrow> (string \<Rightarrow> span_entry \<Rightarrow> 'c \<Rightarrow> 'c) \<Rightarrow> string
     \<Rightarrow> domain_op \<Rightarrow> 'c domain_run \<Rightarrow> 'c domain_run" where
  "domain_do rx env fmt ingest d op r =
     (case op of
        DLog e \<Rightarrow>
          (case dr_log r of
             Finished \<Rightarrow> (log_runs (process_entry_for_domain env d e) r)
               \<lparr>dr_current := Some (e\<lparr>le_seq := fst (assign_seq (ds_pipeline (dr_state r)))\<rparr>)\<rparr>
           | Locked _ \<Rightarrow> r)
      | DLogStep \<Rightarrow> log_runs (dr_log r) r
      | DSpan sp \<Rightarrow> start_task (process_span_for_domain env fmt ingest d sp) r
      | DClearLogs \<Rightarrow> start_task (clear_logs (\<lambda>_. Finished)) r
      | DSync \<Rightarrow> start_task (sync_pre_buffer_size_for_domain d Finished) r
      | DStep i \<Rightarrow> task_runs i r
      | DClearSpans \<Rightarrow> r\<lparr>dr_state := (dr_state r)\<lparr>ds_spans := snd (span_clear (ds_spans (dr_state r)))\<rparr>\<rparr>
      | DSession oper \<Rightarrow> r\<lparr>dr_state := on_registry (reg_apply rx env oper) (dr_state r)\<rparr>)"

text \<open>The notes: before a step, the sessions' states; after it, a clear's overtaking and the record's end.\<close>

definition sight :: "'c domain_run \<Rightarrow> 'c domain_run" where
  "sight r = (case dr_current r of None \<Rightarrow> r
     | Some e \<Rightarrow> r\<lparr>dr_seen := dr_seen r \<union> Pair e ` set (ds_registry (dr_state r))\<rparr>)"

definition overtaken :: "'c domain_run \<Rightarrow> 'c domain_run" where
  "overtaken r = (case dr_current r of None \<Rightarrow> r
     | Some e \<Rightarrow> if le_seq e < admit_from (store_of (dr_state r)) then r\<lparr>dr_raced := insert e (dr_raced r)\<rparr> else r)"

definition retire :: "'c domain_run \<Rightarrow> 'c domain_run" where
  "retire r = (case dr_log r of
       Finished \<Rightarrow> (case dr_current r of None \<Rightarrow> r | Some e \<Rightarrow> r\<lparr>dr_current := None, dr_done := insert e (dr_done r)\<rparr>)
     | Locked _ \<Rightarrow> r)"

definition domain_apply ::
  "(string \<Rightarrow> bool) \<Rightarrow> match_env \<Rightarrow> (f64 \<Rightarrow> string) \<Rightarrow> (string \<Rightarrow> span_entry \<Rightarrow> 'c \<Rightarrow> 'c) \<Rightarrow> string
     \<Rightarrow> domain_op \<Rightarrow> 'c domain_run \<Rightarrow> 'c domain_run" where
  "domain_apply rx env fmt ingest d op r = retire (overtaken (domain_do rx env fmt ingest d op (sight r)))"

definition domain_steps ::
  "(string \<Rightarrow> bool) \<Rightarrow> match_env \<Rightarrow> (f64 \<Rightarrow> string) \<Rightarrow> (string \<Rightarrow> span_entry \<Rightarrow> 'c \<Rightarrow> 'c) \<Rightarrow> string
     \<Rightarrow> domain_op list \<Rightarrow> 'c domain_run \<Rightarrow> 'c domain_run" where
  "domain_steps rx env fmt ingest d ops r = fold (domain_apply rx env fmt ingest d) ops r"

definition domain_start :: "nat \<Rightarrow> nat \<Rightarrow> u64 \<Rightarrow> registry \<Rightarrow> 'c \<Rightarrow> 'c domain_run" where
  "domain_start log_capacity span_capacity c reg collectors =
     \<lparr>dr_state = \<lparr>ds_pipeline = new_with_seq_counter log_capacity c, ds_spans = span_store_new span_capacity,
                  ds_registry = reg, ds_collectors = collectors\<rparr>,
      dr_log = Finished, dr_tasks = [], dr_current = None, dr_done = {}, dr_raced = {}, dr_seen = {}\<rparr>"

text \<open>
  The invariant of a run, with \<open>obs\<close> the decisions written to the epoch log: the shared state, the
  epoch log, the records processed, and the tasks under way with what they know.
\<close>

definition observed_ok :: "u64 \<Rightarrow> (u64 \<times> filter_policy) list \<Rightarrow> 'c domain_state \<Rightarrow> bool" where
  "observed_ok c0 obs ds \<longleftrightarrow>
     epoch_inv obs (epochs_of ds) \<and> origin_seq (epochs_of ds) = c0 \<and> c0 \<le> counter_of ds \<and>
     sorted_wrt (<) (map fst obs) \<and> (\<forall>(s, p)\<in>set obs. c0 \<le> s \<and> s \<le> counter_of ds)"

definition left_out ::
  "match_env \<Rightarrow> string \<Rightarrow> (u64 \<times> filter_policy) list \<Rightarrow> (log_entry \<times> session_id \<times> session_state) set \<Rightarrow> log_entry \<Rightarrow> bool" where
  "left_out env d obs seen e \<longleftrightarrow>
     (\<exists>snap. Pair e ` set snap \<subseteq> seen \<and> \<not> sd_should_store (evaluate_filters_for_domain env d e snap) \<and>
        (le_seq e, sd_policy (evaluate_filters_for_domain env d e snap)) \<in> set obs)"

definition done_ok :: "match_env \<Rightarrow> string \<Rightarrow> (u64 \<times> filter_policy) list \<Rightarrow> 'c domain_run \<Rightarrow> bool" where
  "done_ok env d obs r \<longleftrightarrow>
     (\<forall>e\<in>dr_raced r. le_seq e < admit_from (store_of (dr_state r))) \<and>
     (\<forall>e\<in>dr_done r. le_seq e \<le> counter_of (dr_state r) \<and>
        (accounted (le_seq e) (store_of (dr_state r)) \<or> e \<in> dr_raced r \<or> left_out env d obs (dr_seen r) e))"

definition knows ::
  "match_env \<Rightarrow> string \<Rightarrow> u64 \<Rightarrow> (u64 \<times> filter_policy) list \<Rightarrow> (log_entry \<times> session_id \<times> session_state) set
     \<Rightarrow> log_entry \<Rightarrow> log_known \<Rightarrow> 'c domain_state \<Rightarrow> bool" where
  "knows env d c0 obs seen e w ds \<longleftrightarrow>
     log_true e w ds \<and> c0 \<le> le_seq e \<and> Pair e ` lk_seen w \<subseteq> seen \<and>
     (case lk_observed w of None \<Rightarrow> \<forall>(s, p)\<in>set obs. s < le_seq e
      | Some snap \<Rightarrow> (le_seq e, sd_policy (evaluate_filters_for_domain env d e snap)) \<in> set obs)"

definition log_side_ok :: "match_env \<Rightarrow> string \<Rightarrow> u64 \<Rightarrow> (u64 \<times> filter_policy) list \<Rightarrow> 'c domain_run \<Rightarrow> bool" where
  "log_side_ok env d c0 obs r \<longleftrightarrow>
     (case dr_current r of None \<Rightarrow> dr_log r = Finished
      | Some e \<Rightarrow> \<exists>w. log_ok env d e w (dr_log r) \<and> knows env d c0 obs (dr_seen r) e w (dr_state r))"

definition run_inv :: "match_env \<Rightarrow> string \<Rightarrow> u64 \<Rightarrow> (u64 \<times> filter_policy) list \<Rightarrow> 'c domain_run \<Rightarrow> bool" where
  "run_inv env d c0 obs r \<longleftrightarrow>
     state_ok (dr_state r) \<and> observed_ok c0 obs (dr_state r) \<and> done_ok env d obs r \<and> log_side_ok env d c0 obs r \<and>
     (\<forall>t\<in>set (dr_tasks r). side_ok (counter_of (dr_state r)) t)"

lemma domain_run_inv_start: "run_inv env d c [] (domain_start n m c reg col)"
proof -
  let ?r = "domain_start n m c reg col"
  have "state_ok (dr_state ?r)"
    by (simp add: state_ok_def pipe_ok_def domain_start_def new_with_seq_counter_def log_inv_new_store pb_inv_new span_inv_new)
       (simp add: store_bounded_def new_store_def refuse_below_def buffered_def pb_new_def)
  moreover have "observed_ok c [] (dr_state ?r)"
    by (simp add: observed_ok_def domain_start_def new_with_seq_counter_def epoch_inv_new)
       (simp add: epoch_log_new_def seq_current_def)
  ultimately show ?thesis by (simp add: run_inv_def done_ok_def log_side_ok_def domain_start_def)
qed

text \<open>What a step of one task leaves of everybody else's knowledge.\<close>

lemma observed_ok_quiet:
  "state_ok ds \<Longrightarrow> room ds \<Longrightarrow> quiet ds ds' \<Longrightarrow> observed_ok c0 obs ds \<Longrightarrow> observed_ok c0 obs ds'"
  by (force simp: observed_ok_def quiet_def kept_def)

lemma done_ok_kept:
  assumes "state_ok (dr_state r)" "room (dr_state r)" "kept (dr_state r) (dr_state r')"
    and "dr_done r' = dr_done r" "dr_raced r' = dr_raced r" "dr_seen r \<subseteq> dr_seen r'" "set obs \<subseteq> set obs'" "done_ok env d obs r"
  shows "done_ok env d obs' r'"
proof -
  have "left_out env d obs' (dr_seen r') e" if "left_out env d obs (dr_seen r) e" for e
    using that assms(6,7) unfolding left_out_def by blast
  moreover have "admit_from (store_of (dr_state r)) \<le> admit_from (store_of (dr_state r'))"
    "counter_of (dr_state r) \<le> counter_of (dr_state r')"
    "\<And>s. accounted s (store_of (dr_state r)) \<Longrightarrow> accounted s (store_of (dr_state r'))"
    using assms(1-3) by (simp_all add: kept_def)
  ultimately show ?thesis using assms(4,5,8) unfolding done_ok_def by fastforce
qed

lemma knows_quiet:
  assumes "state_ok ds" "room ds" "kept ds ds'" "seen \<subseteq> seen'" "knows env d c0 obs seen e w ds"
  shows "knows env d c0 obs seen' e w ds'"
  using assms settled_kept [OF assms(1-3), of "le_seq e"]
  by (auto simp: knows_def log_true_def kept_def)

lemma side_ok_kept:
  "state_ok ds \<Longrightarrow> room ds \<Longrightarrow> kept ds ds' \<Longrightarrow> side_ok (counter_of ds) t \<Longrightarrow> side_ok (counter_of ds') t"
  by (rule side.weaken) (auto simp: kept_def)

lemma run_inv_quiet:
  assumes inv: "run_inv env d c0 obs r" and room: "room (dr_state r)" and q: "quiet (dr_state r) (dr_state r')"
    and same: "dr_done r' = dr_done r" "dr_raced r' = dr_raced r" "dr_seen r \<subseteq> dr_seen r'"
      "dr_current r' = dr_current r" "dr_log r' = dr_log r"
    and tasks: "\<forall>t\<in>set (dr_tasks r'). side_ok (counter_of (dr_state r')) t"
  shows "run_inv env d c0 obs r'"
proof -
  have k: "kept (dr_state r) (dr_state r')" "state_ok (dr_state r)" using q inv by (simp_all add: quiet_def run_inv_def)
  have "log_side_ok env d c0 obs r'"
    using inv knows_quiet [OF k(2) room k(1) same(3)] same(4,5)
    unfolding run_inv_def log_side_ok_def by (auto split: option.splits)
  moreover have "state_ok (dr_state r')" using k room by (simp add: kept_def)
  ultimately show ?thesis
    using inv observed_ok_quiet [OF k(2) room q] done_ok_kept [OF k(2) room k(1) same(1-3), of obs obs env d] tasks
    by (simp add: run_inv_def)
qed

lemma observed_ok_observe:
  assumes ok: "observed_ok c0 obs ds" and lt: "\<forall>(s, p)\<in>set obs. s < s'" and s': "c0 \<le> s'" "s' \<le> counter_of ds'"
    and c: "counter_of ds \<le> counter_of ds'" and ep: "epochs_of ds' = observe s' p (epochs_of ds)"
  shows "observed_ok c0 (obs @ [(s', p)]) ds'"
proof -
  have asc: "sorted_wrt (<) (map fst (obs @ [(s', p)]))" using ok lt by (auto simp: observed_ok_def sorted_wrt_append)
  have "epoch_inv (obs @ [(s', p)]) (epochs_of ds')"
    unfolding ep by (rule epoch_inv_observe [OF _ asc]) (use ok s'(1) in \<open>auto simp: observed_ok_def\<close>)
  moreover have "origin_seq (epochs_of ds') = c0" using ok ep by (simp add: observed_ok_def)
  ultimately show ?thesis using ok asc s' c unfolding observed_ok_def by fastforce
qed

lemma run_inv_log_step:
  assumes inv: "run_inv env d c0 obs r" and room: "room (dr_state r)" and cur: "dr_current r = Some e"
    and seen: "Pair e ` set (ds_registry (dr_state r)) \<subseteq> dr_seen r" and f: "dr_log r = Locked f"
  shows "\<exists>obs'. set obs \<subseteq> set obs' \<and> run_inv env d c0 obs' (log_runs (dr_log r) r)"
proof -
  let ?ds = "dr_state r"
  obtain ds' t where ft: "f ?ds = (ds', t)" by force
  let ?r = "log_runs (dr_log r) r"
  have r: "?r = r\<lparr>dr_state := ds', dr_log := t\<rparr>" by (simp add: log_runs_def f ft)
  obtain w where w: "log_ok env d e w (Locked f)" "knows env d c0 obs (dr_seen r) e w ?ds"
    using inv cur f by (auto simp: run_inv_def log_side_ok_def)
  have st: "state_ok ?ds" using inv by (simp add: run_inv_def)
  then obtain v where v: "log_step env d e w ?ds ds' v" "log_ok env d e v t"
    using task_ok_advance [OF w(1), of ?ds] w(2) room ft by (auto simp: log_pre_def knows_def)
  then have k: "kept ?ds ds'" by (simp add: log_step_def)
  have ds': "state_ok ds'" "counter_of ?ds \<le> counter_of ds'" using k st room by (simp_all add: kept_def)
  have tasks: "\<forall>t\<in>set (dr_tasks r). side_ok (counter_of ds') t"
    using inv side_ok_kept [OF st room k] unfolding run_inv_def by blast
  have known: "log_true e v ds'" "Pair e ` lk_seen v \<subseteq> dr_seen r" "c0 \<le> le_seq e"
    using v(1) w(2) ds'(2) seen by (auto simp: log_true_def log_step_def knows_def)
  from v(1) consider (same) "lk_observed v = lk_observed w" "epochs_of ds' = epochs_of ?ds"
    | (observed) snap where "lk_observed w = None" "lk_observed v = Some snap"
        "epochs_of ds' = observe (le_seq e) (sd_policy (evaluate_filters_for_domain env d e snap)) (epochs_of ?ds)"
    by (auto simp: log_step_def epochs_follow_def)
  then show ?thesis
  proof cases
    case same
    then have "quiet ?ds ds'" using k by (simp add: quiet_def)
    then have "observed_ok c0 obs ds'" using observed_ok_quiet [OF st room] inv by (simp add: run_inv_def)
    moreover have "done_ok env d obs ?r"
      by (rule done_ok_kept [OF st room, where obs = obs]) (use k inv in \<open>simp_all add: r run_inv_def\<close>)
    moreover have "knows env d c0 obs (dr_seen r) e v ds'" using known w(2) same(1) by (simp add: knows_def)
    ultimately have "run_inv env d c0 obs ?r" using ds'(1) v(2) cur tasks by (auto simp: run_inv_def log_side_ok_def r)
    then show ?thesis by blast
  next
    case (observed snap)
    define p where "p = sd_policy (evaluate_filters_for_domain env d e snap)"
    have ok: "observed_ok c0 obs ?ds" using inv by (simp add: run_inv_def)
    have lt: "\<forall>(s, p)\<in>set obs. s < le_seq e" using w(2) observed(1) by (simp add: knows_def)
    have "le_seq e \<le> counter_of ds'" using known(1) by (simp add: log_true_def)
    then have "observed_ok c0 (obs @ [(le_seq e, p)]) ds'"
      by (rule observed_ok_observe [OF ok lt known(3)]) (simp_all add: ds'(2) observed(3) p_def)
    moreover have "done_ok env d (obs @ [(le_seq e, p)]) ?r"
      by (rule done_ok_kept [OF st room, where obs = obs]) (use k inv in \<open>simp_all add: r run_inv_def subset_insertI\<close>)
    moreover have "knows env d c0 (obs @ [(le_seq e, p)]) (dr_seen r) e v ds'"
      using known observed(2) by (simp add: knows_def p_def)
    ultimately have "run_inv env d c0 (obs @ [(le_seq e, p)]) ?r"
      using ds'(1) v(2) cur tasks by (auto simp: run_inv_def log_side_ok_def r)
    then show ?thesis by (intro exI [of _ "obs @ [(le_seq e, p)]"]) auto
  qed
qed

lemma run_inv_log_start:
  assumes inv: "run_inv env d c0 obs r" and room: "room (dr_state r)" and idle: "dr_current r = None"
  shows "run_inv env d c0 obs ((log_runs (process_entry_for_domain env d e0) r)
    \<lparr>dr_current := Some (e0\<lparr>le_seq := fst (assign_seq (ds_pipeline (dr_state r)))\<rparr>)\<rparr>)" (is "run_inv _ _ _ _ ?r")
proof -
  let ?ds = "dr_state r" and ?e = "e0\<lparr>le_seq := Suc (counter_of (dr_state r))\<rparr>"
  let ?ds' = "?ds\<lparr>ds_pipeline := snd (assign_seq (ds_pipeline ?ds))\<rparr>"
  have seq: "assign_seq (ds_pipeline ?ds) = (Suc (counter_of ?ds), (ds_pipeline ?ds)\<lparr>pl_counter := Suc (counter_of ?ds)\<rparr>)"
    using room by (simp add: assign_seq_def seq_next_def room_def)
  have r: "?r = r\<lparr>dr_state := ?ds', dr_log := process_numbered env d ?e, dr_current := Some ?e\<rparr>"
    by (simp add: log_runs_def process_entry_for_domain_def pipeline_call_def atomically_def seq)
  have st: "state_ok ?ds" and ob: "observed_ok c0 obs ?ds" using inv by (simp_all add: run_inv_def)
  have q: "quiet ?ds ?ds'" by (rule quiet_numbering)
  then have k: "kept ?ds ?ds'" by (simp add: quiet_def)
  have "knows env d c0 obs (dr_seen r) ?e (just_numbered ?e) ?ds'"
    using ob by (force simp: knows_def log_true_def just_numbered_def seq observed_ok_def)
  then have "log_side_ok env d c0 obs ?r"
    unfolding r log_side_ok_def using log_ok_numbered by auto
  moreover have "done_ok env d obs ?r"
    by (rule done_ok_kept [OF st room, where obs = obs]) (use k inv in \<open>simp_all add: r run_inv_def\<close>)
  moreover have "state_ok ?ds'" using k st room by (simp add: kept_def)
  ultimately show ?thesis
    using observed_ok_quiet [OF st room q ob] inv side_ok_kept [OF st room k] unfolding run_inv_def r by simp blast
qed

lemma run_inv_task_runs:
  assumes inv: "run_inv env d c0 obs r" and room: "room (dr_state r)"
  shows "run_inv env d c0 obs (task_runs i r)"
proof (cases "i < length (dr_tasks r)")
  case False
  then show ?thesis using inv by (simp add: task_runs_def)
next
  case i: True
  let ?ds = "dr_state r"
  have st: "state_ok ?ds" and ok: "side_ok (counter_of ?ds) (dr_tasks r ! i)" using inv i by (simp_all add: run_inv_def)
  have all: "\<forall>t\<in>set (dr_tasks r). side_ok (counter_of ?ds) t" using inv by (simp add: run_inv_def)
  show ?thesis
  proof (cases "dr_tasks r ! i")
    case Finished
    then have "(dr_tasks r)[i := Finished] = dr_tasks r" by (metis list_update_id)
    then show ?thesis using inv Finished i by (simp add: task_runs_def)
  next
    case (Locked f)
    obtain ds' t where ft: "f ?ds = (ds', t)" by force
    then obtain v where v: "side_step (counter_of ?ds) ?ds ds' v" "side_ok v t"
      using task_ok_advance [OF ok [unfolded Locked], of ?ds] st room by (auto simp: side_pre_def)
    then have q: "quiet ?ds ds'" "v = counter_of ds'" by (simp_all add: side_step_def)
    then have "\<forall>t\<in>set (dr_tasks r). side_ok (counter_of ds') t"
      using all side_ok_kept [OF st room, of ds'] unfolding quiet_def by blast
    then have "\<forall>u\<in>set ((dr_tasks r)[i := t]). side_ok (counter_of ds') u"
      using v(2) q(2) by (auto dest: set_update_subset_insert [THEN subsetD])
    moreover have "task_runs i r = r\<lparr>dr_state := ds', dr_tasks := (dr_tasks r)[i := t]\<rparr>"
      using i by (simp add: task_runs_def Locked ft)
    ultimately show ?thesis using run_inv_quiet [OF inv room, of "task_runs i r"] q(1) by simp
  qed
qed

lemma run_inv_start_task:
  "run_inv env d c0 obs r \<Longrightarrow> side_ok (counter_of (dr_state r)) t \<Longrightarrow> run_inv env d c0 obs (start_task t r)"
  by (auto simp: run_inv_def start_task_def done_ok_def log_side_ok_def split: option.splits)

lemma quiet_span_clear: "quiet ds (ds\<lparr>ds_spans := snd (span_clear (ds_spans ds))\<rparr>)"
  using span_inv_clear [of "counter_of ds" "ds_spans ds"] by (auto simp: quiet_def kept_def state_ok_def room_def)

lemma run_inv_do:
  assumes inv: "run_inv env d c0 obs r" and room: "room (dr_state r)"
    and idle: "dr_log r = Finished \<Longrightarrow> dr_current r = None"
    and seen: "\<And>e. dr_current r = Some e \<Longrightarrow> Pair e ` set (ds_registry (dr_state r)) \<subseteq> dr_seen r"
  shows "\<exists>obs'. set obs \<subseteq> set obs' \<and> run_inv env d c0 obs' (domain_do rx env fmt ingest d op r)"
proof -
  have st: "state_ok (dr_state r)" using inv by (simp add: run_inv_def)
  have tasks: "\<forall>t\<in>set (dr_tasks r). side_ok (counter_of (dr_state r)) t" using inv by (simp add: run_inv_def)
  have keep: "\<exists>obs'. set obs \<subseteq> set obs' \<and> run_inv env d c0 obs' r'" if "run_inv env d c0 obs r'" for r'
    using that by blast
  show ?thesis
  proof (cases op)
    case (DLog e)
    show ?thesis
    proof (cases "dr_log r")
      case Finished
      then show ?thesis using run_inv_log_start [OF inv room idle, of e] DLog keep by (simp add: domain_do_def)
    qed (use DLog inv keep in \<open>simp add: domain_do_def\<close>)
  next
    case DLogStep
    show ?thesis
    proof (cases "dr_log r")
      case Finished
      then have "log_runs (dr_log r) r = r" by (simp add: log_runs_def)
      then show ?thesis using DLogStep inv keep by (simp add: domain_do_def)
    next
      case (Locked f)
      then obtain e where "dr_current r = Some e" using inv by (auto simp: run_inv_def log_side_ok_def split: option.splits)
      then show ?thesis using run_inv_log_step [OF inv room _ seen Locked] DLogStep by (simp add: domain_do_def)
    qed
  next
    case (DSpan sp)
    then show ?thesis using keep [OF run_inv_start_task [OF inv side.ok_process_span]] by (simp add: domain_do_def)
  next
    case DClearLogs
    then show ?thesis using keep [OF run_inv_start_task [OF inv side_ok_clear]] by (simp add: domain_do_def)
  next
    case DSync
    then show ?thesis using keep [OF run_inv_start_task [OF inv side.ok_sync [OF side_ok_finished]]] by (simp add: domain_do_def)
  next
    case (DStep i)
    then show ?thesis using keep [OF run_inv_task_runs [OF inv room]] by (simp add: domain_do_def)
  next
    case DClearSpans
    let ?r = "r\<lparr>dr_state := (dr_state r)\<lparr>ds_spans := snd (span_clear (ds_spans (dr_state r)))\<rparr>\<rparr>"
    have "run_inv env d c0 obs ?r" by (rule run_inv_quiet [OF inv room]) (use tasks in \<open>simp_all add: quiet_span_clear\<close>)
    then show ?thesis using DClearSpans keep by (simp add: domain_do_def)
  next
    case (DSession oper)
    let ?r = "r\<lparr>dr_state := on_registry (reg_apply rx env oper) (dr_state r)\<rparr>"
    have "run_inv env d c0 obs ?r" by (rule run_inv_quiet [OF inv room]) (use tasks in \<open>simp_all add: on_registry_def\<close>)
    then show ?thesis using DSession keep by (simp add: domain_do_def)
  qed
qed

text \<open>The notes keep the invariant; a record that ends is accounted for, overtaken or left out.\<close>

lemma run_inv_sight: "run_inv env d c0 obs r \<Longrightarrow> room (dr_state r) \<Longrightarrow> run_inv env d c0 obs (sight r)"
  by (rule run_inv_quiet [where r = r]) (auto simp: sight_def run_inv_def split: option.split)

lemma run_inv_overtaken: "run_inv env d c0 obs r \<Longrightarrow> run_inv env d c0 obs (overtaken r)"
  by (auto simp: run_inv_def overtaken_def done_ok_def log_side_ok_def split: option.splits)

lemma run_inv_retire:
  assumes inv: "run_inv env d c0 obs r"
    and raced: "\<And>e. dr_current r = Some e \<Longrightarrow> le_seq e < admit_from (store_of (dr_state r)) \<Longrightarrow> e \<in> dr_raced r"
  shows "run_inv env d c0 obs (retire r)"
proof (cases "dr_log r = Finished \<and> dr_current r \<noteq> None")
  case False
  then have "retire r = r" by (auto simp: retire_def split: task.split)
  then show ?thesis using inv by simp
next
  case True
  then obtain e where e: "dr_current r = Some e" "dr_log r = Finished" by blast
  then obtain w where w: "log_fin env d e w" "knows env d c0 obs (dr_seen r) e w (dr_state r)"
    using inv by (auto simp: run_inv_def log_side_ok_def task_ok_simps)
  have "accounted (le_seq e) (store_of (dr_state r)) \<or> e \<in> dr_raced r" if "lk_settled w"
    using that w(2) raced [OF e(1)] by (auto simp: knows_def log_true_def settled_def)
  moreover have "left_out env d obs (dr_seen r) e" if "\<not> lk_settled w"
    using that w unfolding left_out_def log_fin_def knows_def by fastforce
  ultimately have "done_ok env d obs (r\<lparr>dr_current := None, dr_done := insert e (dr_done r)\<rparr>)"
    using inv w(2) by (auto simp: run_inv_def done_ok_def knows_def log_true_def)
  then show ?thesis using inv e by (simp add: run_inv_def retire_def log_side_ok_def)
qed

definition idle_ok :: "'c domain_run \<Rightarrow> bool" where
  "idle_ok r \<longleftrightarrow> (dr_log r = Finished \<longrightarrow> dr_current r = None)"

lemma idle_ok_retire: "idle_ok (retire r)"
  by (auto simp: idle_ok_def retire_def split: task.splits option.splits)

lemma notes_keep_state [simp]:
  "dr_state (sight r) = dr_state r" "dr_log (sight r) = dr_log r" "dr_current (sight r) = dr_current r"
  "dr_state (overtaken r) = dr_state r" "dr_state (retire r) = dr_state r"
  by (simp_all add: sight_def overtaken_def retire_def split: option.splits task.splits)

lemma run_inv_apply:
  assumes inv: "run_inv env d c0 obs r" and room: "room (dr_state r)" and idle: "idle_ok r"
  shows "\<exists>obs'. set obs \<subseteq> set obs' \<and> run_inv env d c0 obs' (domain_apply rx env fmt ingest d op r)"
proof -
  let ?r = "domain_do rx env fmt ingest d op (sight r)"
  have "\<exists>obs'. set obs \<subseteq> set obs' \<and> run_inv env d c0 obs' ?r"
    by (rule run_inv_do [OF run_inv_sight [OF inv room]]) (use room idle in \<open>auto simp: idle_ok_def sight_def split: option.splits\<close>)
  moreover have "run_inv env d c0 obs' (retire (overtaken r'))" if "run_inv env d c0 obs' r'" for obs' r'
    by (rule run_inv_retire [OF run_inv_overtaken [OF that]]) (auto simp: overtaken_def split: option.splits if_splits)
  ultimately show ?thesis unfolding domain_apply_def by blast
qed

lemma domain_do_counter:
  assumes inv: "run_inv env d c0 obs r" and room: "room (dr_state r)"
  shows "counter_of (dr_state (domain_do rx env fmt ingest d op r)) \<le> Suc (counter_of (dr_state r))"
proof -
  let ?ds = "dr_state r"
  have st: "state_ok ?ds" using inv by (simp add: run_inv_def)
  have quiet: "counter_of ds' \<le> Suc (counter_of ?ds)" if "quiet ?ds ds'" for ds'
    using that st room by (simp add: quiet_def kept_def)
  have side: "counter_of (fst (advance t ?ds)) \<le> Suc (counter_of ?ds)" if "t \<in> set (dr_tasks r)" for t
  proof (cases t)
    case (Locked f)
    then have "side_ok (counter_of ?ds) (Locked f)" using inv that by (simp add: run_inv_def)
    from task_ok_advance [OF this, of ?ds] st room quiet show ?thesis by (auto simp: side_pre_def side_step_def Locked)
  qed simp
  have log: "counter_of (fst (advance (dr_log r) ?ds)) \<le> Suc (counter_of ?ds)"
  proof (cases "dr_log r")
    case (Locked f)
    then obtain e w where "log_ok env d e w (Locked f)" "knows env d c0 obs (dr_seen r) e w ?ds"
      using inv by (auto simp: run_inv_def log_side_ok_def split: option.splits)
    then show ?thesis
      using task_ok_advance [of "log_pre e" "log_step env d e" "log_fin env d e" w f ?ds] st room
      by (auto simp: log_pre_def knows_def log_step_def kept_def Locked)
  qed simp
  have num: "counter_of (fst (advance (process_entry_for_domain env d e) ?ds)) \<le> Suc (counter_of ?ds)" for e
    using quiet [OF quiet_numbering]
    by (simp add: process_entry_for_domain_def pipeline_call_def atomically_def case_prod_unfold)
  show ?thesis
    using side log num quiet [OF quiet_span_clear]
    by (cases op; cases "dr_log r")
       (auto simp: domain_do_def log_runs_def task_runs_def start_task_def on_registry_def case_prod_unfold)
qed

lemma domain_run_inv_steps:
  "run_inv env d c0 obs r \<Longrightarrow> idle_ok r \<Longrightarrow> Suc (counter_of (dr_state r)) + length ops < u64_max \<Longrightarrow>
   \<exists>obs'. set obs \<subseteq> set obs' \<and> run_inv env d c0 obs' (domain_steps rx env fmt ingest d ops r)
     \<and> idle_ok (domain_steps rx env fmt ingest d ops r)
     \<and> counter_of (dr_state (domain_steps rx env fmt ingest d ops r)) \<le> counter_of (dr_state r) + length ops"
proof (induction ops arbitrary: r obs)
  case Nil
  then show ?case by (auto simp: domain_steps_def)
next
  case (Cons op ops)
  let ?r = "domain_apply rx env fmt ingest d op r"
  have room: "room (dr_state r)" using Cons.prems(3) by (simp add: room_def)
  obtain obs1 where obs1: "set obs \<subseteq> set obs1" "run_inv env d c0 obs1 ?r"
    using run_inv_apply [OF Cons.prems(1) room Cons.prems(2), of rx fmt ingest op] by blast
  have c: "counter_of (dr_state ?r) \<le> Suc (counter_of (dr_state r))"
    using domain_do_counter [OF run_inv_sight [OF Cons.prems(1) room], of rx fmt ingest op] room by (simp add: domain_apply_def)
  have idle: "idle_ok ?r" unfolding domain_apply_def by (rule idle_ok_retire)
  have "Suc (counter_of (dr_state ?r)) + length ops < u64_max" using Cons.prems(3) c by simp
  from Cons.IH [OF obs1(2) idle this] obtain obs2 where
    "set obs1 \<subseteq> set obs2" "run_inv env d c0 obs2 (domain_steps rx env fmt ingest d ops ?r)"
    "idle_ok (domain_steps rx env fmt ingest d ops ?r)"
    "counter_of (dr_state (domain_steps rx env fmt ingest d ops ?r)) \<le> counter_of (dr_state ?r) + length ops" by blast
  with obs1(1) c show ?case by (intro exI [of _ obs2]) (auto simp: domain_steps_def)
qed

lemma run_inv_from_start:
  assumes "r = domain_steps rx env fmt ingest d ops (domain_start n m c reg col)" and "Suc c + length ops < u64_max"
  obtains obs where "run_inv env d c obs r" and "idle_ok r" and "counter_of (dr_state r) \<le> c + length ops"
proof -
  have "counter_of (dr_state (domain_start n m c reg col)) = c" "idle_ok (domain_start n m c reg col)"
    by (simp_all add: domain_start_def new_with_seq_counter_def idle_ok_def)
  then show ?thesis
    using domain_run_inv_steps [OF domain_run_inv_start, of n m c reg col ops env d rx fmt ingest] assms that by auto
qed

text \<open>The one read of a context the processor makes asks for nothing after its record, and never panics.\<close>

lemma context_before_total:
  assumes "log_inv st" and "length (entries st) \<le> u64_max"
  shows "context_by_seq s n 0 st \<noteq> None"
proof (cases "binary_search_by_key le_seq (entries st) s")
  case None
  then show ?thesis by (simp add: context_by_seq_def ring_context_def)
next
  case (Some i)
  then have "i < length (entries st) \<and> le_seq (entries st ! i) = s"
    using ls.position_correct [OF assms(1)] by blast
  then show ?thesis
    using ls.context_correct [OF assms(1), of i 0 n] assms(2) by (auto simp: context_by_seq_def)
qed

section \<open>Properties\<close>

text \<open>
  (C1) A complete verdict is true. Take any run of a domain from its start, at the granularity of
  its locks: between any two steps of a record's processing spans may be stored, triggers fire,
  sessions come, go and change filters, and clears take effect. Let the records and the loss floor be
  read in a state \<open>r1\<close>, and the epoch log's coverage later, in \<open>r2\<close>, as the exports do. When the
  verdict on a range is \<open>Complete\<close>, with eviction reported at least when the floor lies above the
  range's start, then every record that had been processed with a seq in that range is held in \<open>r1\<close>,
  except a record that was overtaken: one in flight, numbered and not yet stored, when a clear
  raised the admission floor past its seq.
\<close>

theorem complete_verdict_is_sound:
  assumes "r1 = domain_steps rx env fmt ingest d ops1 (domain_start n m c reg col)"
    and "r2 = domain_steps rx env fmt ingest d ops2 r1"
    and "Suc c + length ops1 + length ops2 < u64_max"
    and "verdict_of (Some (coverage lo hi (pl_epochs (ds_pipeline (dr_state r2))))) evicted capped = Complete"
    and "evicted_below lo (lost_below (pl_store (ds_pipeline (dr_state r1)))) \<noteq> None \<longrightarrow> evicted"
    and "e \<in> dr_done r1" and "lo \<le> le_seq e" and "le_seq e \<le> hi"
  shows "(\<exists>x\<in>set (entries (pl_store (ds_pipeline (dr_state r1)))). le_seq x = le_seq e)
    \<or> (e \<in> dr_raced r1 \<and> le_seq e < admit_from (pl_store (ds_pipeline (dr_state r1))))"
proof -
  let ?cov = "coverage lo hi (epochs_of (dr_state r2))"
  obtain obs where inv: "run_inv env d c obs r1" "idle_ok r1" "counter_of (dr_state r1) \<le> c + length ops1"
    using run_inv_from_start [OF assms(1)] assms(3) by auto
  obtain obs2 where obs2: "set obs \<subseteq> set obs2" "run_inv env d c obs2 r2"
    using domain_run_inv_steps [OF inv(1,2), of ops2 rx fmt ingest] inv(3) assms(2,3) by auto
  have v: "covered ?cov" "narrowed ?cov = []" "\<not> evicted"
    using assms(4) by (auto simp: verdict_of_def split: if_splits)
  have e: "le_seq e \<le> u64_max"
    "accounted (le_seq e) (store_of (dr_state r1)) \<or> e \<in> dr_raced r1 \<or> left_out env d obs (dr_seen r1) e"
    "e \<in> dr_raced r1 \<longrightarrow> le_seq e < admit_from (store_of (dr_state r1))"
    using inv(1,3) assms(3,6) by (auto simp: run_inv_def done_ok_def)
  have unfiltered: "\<not> is_filtered p" if "(le_seq e, p) \<in> set obs" for p
    using coverage_at [of obs2 "epochs_of (dr_state r2)" lo hi "le_seq e" p "fp_filters p"] obs2 v that assms(7,8) e(1)
    by (auto simp: run_inv_def observed_ok_def)
  have "\<not> left_out env d obs (dr_seen r1) e"
  proof
    assume "left_out env d obs (dr_seen r1) e"
    then obtain snap where snap: "\<not> sd_should_store (evaluate_filters_for_domain env d e snap)"
      "(le_seq e, sd_policy (evaluate_filters_for_domain env d e snap)) \<in> set obs" by (auto simp: left_out_def)
    from unfiltered [OF snap(2)] snap(1) show False by (simp add: decision_eq)
  qed
  moreover have "lost_below (store_of (dr_state r1)) \<le> lo"
    using assms(5) v(3) by (auto simp: evicted_below_def split: if_splits)
  ultimately show ?thesis using e(2,3) assms(7) by (auto simp: accounted_def)
qed

text \<open>
  (C2) The state of a domain stays sound over any interleaving of its tasks: the log ring keeps its
  invariant with every seq at most the counter, the pre-trigger buffer keeps its own, the span ring
  is in order below the same counter, and every record whose processing ended is held, reported lost
  by the floor, overtaken by a clear while in flight (and then below the admission floor), or left
  out: the filters of the domain's sessions, each session's read in a state it had while the record
  was processed, do not store it, and the epoch log names exactly those filters at the record's seq
  as long as it covers it.
\<close>

theorem domain_state_invariant:
  assumes "r = domain_steps rx env fmt ingest d ops (domain_start n m c reg col)" and "Suc c + length ops < u64_max"
  shows "log_inv (pl_store (ds_pipeline (dr_state r))) \<and> pb_inv (pl_pre_buffer (ds_pipeline (dr_state r)))
    \<and> span_inv (pl_counter (ds_pipeline (dr_state r))) (ds_spans (dr_state r))
    \<and> (\<forall>e\<in>set (entries (pl_store (ds_pipeline (dr_state r)))). le_seq e \<le> pl_counter (ds_pipeline (dr_state r)))
    \<and> (\<forall>e\<in>dr_done r. accounted (le_seq e) (pl_store (ds_pipeline (dr_state r)))
        \<or> (e \<in> dr_raced r \<and> le_seq e < admit_from (pl_store (ds_pipeline (dr_state r))))
        \<or> (\<exists>snap. (\<forall>p\<in>set snap. (e, p) \<in> dr_seen r)
             \<and> \<not> sd_should_store (evaluate_filters_for_domain env d e snap)
             \<and> (covered (coverage (le_seq e) (le_seq e) (pl_epochs (ds_pipeline (dr_state r)))) \<longrightarrow>
                 (\<exists>ns\<in>set (narrowed (coverage (le_seq e) (le_seq e) (pl_epochs (ds_pipeline (dr_state r))))).
                    ns_filters ns = fp_filters (sd_policy (evaluate_filters_for_domain env d e snap))))))"
proof -
  let ?ep = "epochs_of (dr_state r)"
  obtain obs where inv: "run_inv env d c obs r" "counter_of (dr_state r) \<le> c + length ops"
    using run_inv_from_start [OF assms] by blast
  have left: "\<exists>snap. (\<forall>p\<in>set snap. (e, p) \<in> dr_seen r) \<and> \<not> sd_should_store (evaluate_filters_for_domain env d e snap)
      \<and> (covered (coverage (le_seq e) (le_seq e) ?ep) \<longrightarrow>
           (\<exists>ns\<in>set (narrowed (coverage (le_seq e) (le_seq e) ?ep)).
              ns_filters ns = fp_filters (sd_policy (evaluate_filters_for_domain env d e snap))))"
    if e: "e \<in> dr_done r" "left_out env d obs (dr_seen r) e" for e
  proof -
    from e(2) obtain snap where snap: "Pair e ` set snap \<subseteq> dr_seen r" "\<not> sd_should_store (evaluate_filters_for_domain env d e snap)"
      "(le_seq e, sd_policy (evaluate_filters_for_domain env d e snap)) \<in> set obs" by (auto simp: left_out_def)
    have "le_seq e \<le> u64_max" using inv e(1) assms(2) by (auto simp: run_inv_def done_ok_def)
    moreover have "is_filtered (sd_policy (evaluate_filters_for_domain env d e snap))" using snap(2) by (simp add: decision_eq)
    ultimately show ?thesis
      using coverage_at [of obs ?ep "le_seq e" "le_seq e", OF _ _ snap(3), of "fp_filters (sd_policy (evaluate_filters_for_domain env d e snap))"]
        inv(1) snap(1,2)
      by (intro exI [of _ snap]) (auto simp: run_inv_def observed_ok_def)
  qed
  show ?thesis
    using inv(1) left by (auto simp: run_inv_def state_ok_def pipe_ok_def store_bounded_def done_ok_def)
qed

text \<open>
  Two runs. In the first a record is numbered and stored with nobody watching. In the second the
  logs are cleared between the numbering of a record and its storing: the record is refused, and
  the range that holds only its seq is still called complete.
\<close>

definition demo_steps :: "domain_op list \<Rightarrow> unit domain_run" where
  "demo_steps ops = domain_steps (\<lambda>_. True) demo_env (\<lambda>_. '''') (\<lambda>_ _. id) ''default'' ops (domain_start 2 2 0 [] ())"

definition quiet_ops :: "domain_op list" where
  "quiet_ops = [DLog (demo_entry 0), DLogStep, DLogStep, DLogStep, DLogStep, DLogStep, DLogStep]"

definition race_ops :: "domain_op list" where
  "race_ops = [DLog (demo_entry 0), DClearLogs, DStep 0, DStep 0, DStep 0,
     DLogStep, DLogStep, DLogStep, DLogStep, DLogStep, DLogStep]"

lemmas demo_run_defs = demo_steps_def domain_steps_def domain_start_def domain_apply_def domain_do_def Let_def
  sight_def overtaken_def retire_def log_runs_def task_runs_def start_task_def new_with_seq_counter_def
  process_entry_for_domain_def process_numbered_def assign_seq_def seq_next_def seq_current_def current_seq_def wrap64_def
  active_session_ids_sorted_by_pre_window_for_domain_def pre_buffer_append_def on_pipeline_def store_by_policy_def
  pipeline_call_def read_pipeline_def scan_registry_def atomically_def observing_def locked_def clear_logs_def
  evaluate_filters_for_domain_def append_to_store_def observe_epoch_def contains_seq_def holds_def new_store_def
  append_def position_def newest_seq_def last_opt_def refuse_below_def clear_through_def clear_locked_def sat_add_def

lemma quiet_run:
  "dr_done (demo_steps quiet_ops) = {demo_entry 1}" "lost_below (store_of (dr_state (demo_steps quiet_ops))) = 0"
  "admit_from (store_of (dr_state (demo_steps quiet_ops))) = 0"
  "epochs_of (dr_state (demo_steps quiet_ops)) = observe 1 (policy_new []) (epoch_log_new 0)"
  by (simp_all add: quiet_ops_def demo_run_defs demo_entry_def)

lemma clear_race:
  "dr_done (demo_steps race_ops) = {demo_entry 1}" "entries (store_of (dr_state (demo_steps race_ops))) = []"
  "lost_below (store_of (dr_state (demo_steps race_ops))) = 0" "dr_raced (demo_steps race_ops) = {demo_entry 1}"
  "verdict_of (Some (coverage 1 1 (epochs_of (dr_state (demo_steps race_ops))))) False False = Complete"
  by (simp_all add: race_ops_def demo_run_defs demo_entry_def u64_max_def verdict_of_def coverage_def observe_def
      epoch_log_new_def epoch_capacity_def policy_new_def is_filtered_def)

theorem complete_verdict_is_sound_witness:
  "(\<exists>x\<in>set (entries (pl_store (ds_pipeline (dr_state (demo_steps quiet_ops))))). le_seq x = 1)"
proof -
  have later: "demo_steps quiet_ops =
      domain_steps (\<lambda>_. True) demo_env (\<lambda>_. '''') (\<lambda>_ _. id) ''default'' [] (demo_steps quiet_ops)"
    by (simp add: domain_steps_def)
  have "verdict_of (Some (coverage 1 1 (epochs_of (dr_state (demo_steps quiet_ops))))) False False = Complete"
    by (simp add: quiet_run verdict_of_def coverage_def observe_def epoch_log_new_def epoch_capacity_def
        policy_new_def is_filtered_def)
  moreover have "Suc 0 + length quiet_ops + length ([] :: domain_op list) < u64_max" by (simp add: quiet_ops_def u64_max_def)
  ultimately show ?thesis
    using complete_verdict_is_sound [OF demo_steps_def later, of 1 1 False False "demo_entry 1"]
    by (simp add: quiet_run evicted_below_def)
qed

theorem domain_state_invariant_witness:
  "log_inv (pl_store (ds_pipeline (dr_state (demo_steps race_ops)))) \<and> dr_done (demo_steps race_ops) = {demo_entry 1}
   \<and> dr_raced (demo_steps race_ops) = {demo_entry 1}"
proof -
  have "Suc 0 + length race_ops < u64_max" by (simp add: race_ops_def u64_max_def)
  from domain_state_invariant [OF demo_steps_def this] show ?thesis by (simp add: clear_race)
qed

end
