(* ===== verification/Domain_Data.thy ===== *)
theory Domain_Data
  imports Message
begin

text \<open>
  The provenance registry of a domain: keys (\<open>domain_data/path.rs\<close>), entries and lifetimes
  (\<open>domain_data/entry.rs\<close>), the registry and the document-scoped facts (\<open>domain_data/store.rs\<close>), its
  file (\<open>domain_data/persist.rs\<close>), the map of open registries (\<open>domain_data/map.rs\<close>), and the RPC that
  applies a batch of entries (\<open>daemon/rpc_handler.rs\<close>). A string is its UTF-8 bytes, so lengths are
  byte lengths. Instants are nanoseconds. The wall clock, the rendering of an instant, the success of
  a file write and of a quarantine rename are arguments of the operations that depend on them.
\<close>

section \<open>Keys\<close>

definition max_path_bytes :: nat where "max_path_bytes = 256"
definition max_value_bytes :: nat where "max_value_bytes = 4096"
definition max_keys :: nat where "max_keys = 256"
definition max_sigil_keys :: nat where "max_sigil_keys = 64"
definition reserved_segment :: string where "reserved_segment = ''logmon''"
definition sigil :: char where "sigil = CHR ''@''"

datatype key_error = KeyMalformed | KeyTooLong | KeySigilNotAllowed

record key =
  key_path :: string
  key_sigil :: bool

definition is_segment_byte :: "char \<Rightarrow> bool" where
  "is_segment_byte b = (is_ascii_alphanumeric b \<or> b = CHR ''_'' \<or> b = CHR ''-'' \<or> b = CHR ''.'')"

definition validate_path :: "string \<Rightarrow> key_error + unit" where
  "validate_path path =
     (if max_path_bytes < length path then Inl KeyTooLong
      else (case strip_prefix ''/'' path of
              None \<Rightarrow> Inl KeyMalformed
            | Some body \<Rightarrow>
                if body = [] then Inl KeyMalformed
                else if list_all (\<lambda>segment. segment \<noteq> [] \<and> list_all is_segment_byte segment) (str_split CHR ''/'' body)
                then Inr () else Inl KeyMalformed))"

definition key_parse :: "string \<Rightarrow> bool \<Rightarrow> key_error + key" where
  "key_parse raw allow_sigil =
     (let (sg, path) = (case strip_prefix [sigil] raw of Some rest \<Rightarrow> (True, rest) | None \<Rightarrow> (False, raw))
      in bind_res (validate_path path) (\<lambda>_.
           if sg \<and> \<not> allow_sigil then Inl KeySigilNotAllowed else Inr \<lparr>key_path = path, key_sigil = sg\<rparr>))"

definition rendered :: "key \<Rightarrow> string" where
  "rendered k = (if key_sigil k then sigil # key_path k else key_path k)"

definition first_segment :: "string \<Rightarrow> string option" where
  "first_segment path = map_option (\<lambda>rest. hd (str_split CHR ''/'' rest)) (strip_prefix ''/'' path)"

definition is_reserved :: "string \<Rightarrow> bool" where
  "is_reserved path = (first_segment path = Some reserved_segment)"

definition matches_prefix :: "string \<Rightarrow> string \<Rightarrow> bool" where
  "matches_prefix pat path =
     (if path = pat then True
      else (case strip_prefix pat path of Some rest \<Rightarrow> starts_with rest ''/'' | None \<Rightarrow> False))"

section \<open>Entries and lifetimes\<close>

record entry =
  en_value :: string
  en_created_at :: int
  en_validated_at :: int
  en_ttl_secs :: "u64 option"

definition entry_new :: "string \<Rightarrow> int \<Rightarrow> u64 option \<Rightarrow> entry" where
  "entry_new v now ttl = \<lparr>en_value = v, en_created_at = now, en_validated_at = now, en_ttl_secs = ttl\<rparr>"

text \<open>\<open>TimeDelta::num_seconds\<close> rounds towards zero; \<open>ttl as i64\<close> wraps.\<close>

definition num_seconds :: "int \<Rightarrow> int" where
  "num_seconds d = (if 0 \<le> d then d div 1000000000 else - ((- d) div 1000000000))"

definition as_i64 :: "u64 \<Rightarrow> int" where
  "as_i64 n = (if n < 2 ^ 63 then int n else int n - 2 ^ 64)"

definition is_expired :: "int \<Rightarrow> entry \<Rightarrow> bool option" where
  "is_expired now e = map_option (\<lambda>ttl. as_i64 ttl \<le> num_seconds (now - en_validated_at e)) (en_ttl_secs e)"

datatype ttl_spec = TtlSet u64 | TtlClear

datatype ttl_parse_error = TtlMalformed | TtlZero | TtlOverflow

text \<open>\<open>str::is_char_boundary\<close>: an offset inside the string must not be at a continuation byte.\<close>

definition is_char_boundary :: "nat \<Rightarrow> string \<Rightarrow> bool" where
  "is_char_boundary i s =
     (i = 0 \<or> i = length s \<or> (i < length s \<and> \<not> (128 \<le> (of_char (s ! i) :: nat) \<and> (of_char (s ! i) :: nat) < 192)))"

definition digits_value :: "string \<Rightarrow> nat" where
  "digits_value ds = fold (\<lambda>c n. n * 10 + (of_char c - 48)) ds 0"

text \<open>\<open>str::parse::<u64>\<close>; the errors are not told apart where it is used.\<close>

definition parse_u64 :: "string \<Rightarrow> u64 option" where
  "parse_u64 s =
     (let ds = (case strip_prefix ''+'' s of Some r \<Rightarrow> r | None \<Rightarrow> s)
      in if ds = [] \<or> \<not> list_all is_ascii_digit ds \<or> u64_max < digits_value ds then None else Some (digits_value ds))"

definition unit_mult :: "string \<Rightarrow> u64 option" where
  "unit_mult u =
     (if u = ''s'' then Some 1 else if u = ''m'' then Some 60 else if u = ''h'' then Some 3600
      else if u = ''d'' then Some 86400 else if u = ''w'' then Some 604800 else None)"

text \<open>\<open>None\<close> is the panic of \<open>split_at\<close> inside a character.\<close>

definition parse_duration :: "string \<Rightarrow> (ttl_parse_error + u64) option" where
  "parse_duration s =
     (let i = length s - 1
      in if \<not> is_char_boundary i s then None
         else Some (case unit_mult (drop i s) of
                      None \<Rightarrow> Inl TtlMalformed
                    | Some factor \<Rightarrow>
                        let digits = take i s
                        in if digits = [] \<or> \<not> list_all is_ascii_digit digits then Inl TtlMalformed
                           else (case parse_u64 digits of
                                   None \<Rightarrow> Inl TtlOverflow
                                 | Some n \<Rightarrow>
                                     if n = 0 then Inl TtlZero
                                     else if u64_max < n * factor then Inl TtlOverflow else Inr (n * factor))))"

definition render_duration :: "u64 \<Rightarrow> string" where
  "render_duration secs =
     (case find (\<lambda>(u, factor). secs mod factor = 0) [(''w'', 604800), (''d'', 86400), (''h'', 3600), (''m'', 60)] of
        Some (u, factor) \<Rightarrow> nat_to_string (secs div factor) @ u
      | None \<Rightarrow> nat_to_string secs @ ''s'')"

section \<open>The registry\<close>

record data_entry =
  de_path :: string
  de_value :: "string option"
  de_ttl :: "ttl_spec option"

datatype unknown_cause = NeverSet | NoRegistry | Undetermined

datatype reject_reason =
    MalformedPath | PathTooLong | MalformedValue | ValueTooLong | ReservedPrefix
  | SigilNotAllowedHere | MalformedTtl | RegistryFull

datatype outcome = Created | Updated | Validated | Scoped | Unknown unknown_cause | Rejected reject_reason

record data_outcome =
  do_path :: string
  do_outcome :: outcome

record remove_outcome =
  ro_pattern :: string
  ro_removed :: nat
  ro_rejected :: "reject_reason option"

record data_registry =
  reg_entries :: "(string \<times> entry) list"
  reg_saw_quarantine :: bool

definition registry_empty :: data_registry where
  "registry_empty = \<lparr>reg_entries = [], reg_saw_quarantine = False\<rparr>"

definition from_entries :: "(string \<times> entry) list \<Rightarrow> data_registry" where
  "from_entries es = \<lparr>reg_entries = es, reg_saw_quarantine = False\<rparr>"

definition note_quarantined :: "data_registry \<Rightarrow> data_registry" where
  "note_quarantined r = r\<lparr>reg_saw_quarantine := True\<rparr>"

definition data_get :: "string \<Rightarrow> data_registry \<Rightarrow> entry option" where
  "data_get path r = map_of (reg_entries r) path"

definition counted_len :: "data_registry \<Rightarrow> nat" where
  "counted_len r = length (filter (\<lambda>k. \<not> is_reserved k) (keys_of (reg_entries r)))"

definition unknown_cause_of :: "data_registry \<Rightarrow> unknown_cause" where
  "unknown_cause_of r =
     (if reg_entries r = [] then (if reg_saw_quarantine r then NoRegistry else Undetermined) else NeverSet)"

definition key_reject :: "key_error \<Rightarrow> reject_reason" where
  "key_reject e =
     (case e of KeyMalformed \<Rightarrow> MalformedPath | KeyTooLong \<Rightarrow> PathTooLong | KeySigilNotAllowed \<Rightarrow> SigilNotAllowedHere)"

text \<open>\<open>None\<close> leaves a lifetime alone, \<open>Some None\<close> takes it away.\<close>

definition ttl_change :: "ttl_spec option \<Rightarrow> u64 option option" where
  "ttl_change t = (case t of None \<Rightarrow> None | Some TtlClear \<Rightarrow> Some None | Some (TtlSet s) \<Rightarrow> Some (Some s))"

definition confirm :: "int \<Rightarrow> u64 option option \<Rightarrow> entry \<Rightarrow> entry" where
  "confirm now t e =
     (let e1 = e\<lparr>en_validated_at := now\<rparr> in case t of None \<Rightarrow> e1 | Some ttl \<Rightarrow> e1\<lparr>en_ttl_secs := ttl\<rparr>)"

definition set_value :: "string \<Rightarrow> int \<Rightarrow> entry \<Rightarrow> entry" where
  "set_value v now e = (if en_value e \<noteq> v then e\<lparr>en_value := v, en_created_at := now\<rparr> else e)"

definition apply_one :: "data_entry \<Rightarrow> int \<Rightarrow> data_registry \<Rightarrow> outcome \<times> data_registry" where
  "apply_one e now r =
     (case key_parse (de_path e) False of
        Inl err \<Rightarrow> (Rejected (key_reject err), r)
      | Inr k \<Rightarrow>
          if is_reserved (key_path k) then (Rejected ReservedPrefix, r)
          else if (case de_value e of None \<Rightarrow> False | Some v \<Rightarrow> max_value_bytes < length v) then (Rejected ValueTooLong, r)
          else let t = ttl_change (de_ttl e); stored = rendered k
               in case de_value e of
                    None \<Rightarrow>
                      (case map_of (reg_entries r) stored of
                         Some _ \<Rightarrow> (Validated, r\<lparr>reg_entries := hm_update stored (confirm now t) (reg_entries r)\<rparr>)
                       | None \<Rightarrow> (Unknown (unknown_cause_of r), r))
                  | Some v \<Rightarrow>
                      (case map_of (reg_entries r) stored of
                         Some existing \<Rightarrow>
                           (if en_value existing \<noteq> v then Updated else Validated,
                            r\<lparr>reg_entries := hm_update stored (\<lambda>x. confirm now t (set_value v now x)) (reg_entries r)\<rparr>)
                       | None \<Rightarrow>
                           if max_keys \<le> counted_len r then (Rejected RegistryFull, r)
                           else (Created, r\<lparr>reg_entries := bt_insert stored (entry_new v now (Option.bind t id)) (reg_entries r)\<rparr>)))"

fun data_update :: "data_entry list \<Rightarrow> int \<Rightarrow> data_registry \<Rightarrow> data_outcome list \<times> data_registry" where
  "data_update [] now r = ([], r)"
| "data_update (e # es) now r =
     (let (out, r1) = apply_one e now r; (outs, r2) = data_update es now r1
      in (\<lparr>do_path = de_path e, do_outcome = out\<rparr> # outs, r2))"

definition remove_one :: "string \<Rightarrow> data_registry \<Rightarrow> remove_outcome \<times> data_registry" where
  "remove_one pat r =
     (let parsed = key_parse pat False;
          rejected = (case parsed of Inl err \<Rightarrow> Some (key_reject err)
                      | Inr k \<Rightarrow> if is_reserved (key_path k) then Some ReservedPrefix else None)
      in case (rejected, parsed) of
           (None, Inr k) \<Rightarrow>
             let doomed = filter (matches_prefix (rendered k)) (keys_of (reg_entries r))
             in (\<lparr>ro_pattern = pat, ro_removed = length doomed, ro_rejected = None\<rparr>,
                 r\<lparr>reg_entries := fold bt_remove doomed (reg_entries r)\<rparr>)
         | (_, _) \<Rightarrow> (\<lparr>ro_pattern = pat, ro_removed = 0, ro_rejected = rejected\<rparr>, r))"

fun data_remove :: "string list \<Rightarrow> data_registry \<Rightarrow> remove_outcome list \<times> data_registry" where
  "data_remove [] r = ([], r)"
| "data_remove (p # ps) r =
     (let (out, r1) = remove_one p r; (outs, r2) = data_remove ps r1 in (out # outs, r2))"

definition restore :: "string \<Rightarrow> string \<Rightarrow> int \<Rightarrow> int \<Rightarrow> u64 option \<Rightarrow> data_registry \<Rightarrow> data_registry" where
  "restore path v created validated ttl r =
     (if is_reserved path then r
      else r\<lparr>reg_entries := bt_insert path
               \<lparr>en_value = v, en_created_at = created, en_validated_at = max validated created, en_ttl_secs = ttl\<rparr>
               (reg_entries r)\<rparr>)"

text \<open>\<open>None\<close> is \<open>RegistryError::Reserved\<close>: the path is not logmon's own.\<close>

definition set_reserved :: "string \<Rightarrow> string \<Rightarrow> int \<Rightarrow> data_registry \<Rightarrow> (outcome \<times> data_registry) option" where
  "set_reserved path v now r =
     (if \<not> is_reserved path then None
      else Some (case map_of (reg_entries r) path of
          Some existing \<Rightarrow>
            (if en_value existing \<noteq> v then Updated else Validated,
             r\<lparr>reg_entries := hm_update path (\<lambda>x. (set_value v now x)\<lparr>en_validated_at := now\<rparr>) (reg_entries r)\<rparr>)
        | None \<Rightarrow> (Created, r\<lparr>reg_entries := bt_insert path (entry_new v now None) (reg_entries r)\<rparr>)))"

definition query :: "string option \<Rightarrow> int option \<Rightarrow> data_registry \<Rightarrow> (string \<times> entry) list" where
  "query prefix validated_before r =
     filter (\<lambda>(_, e). case validated_before of None \<Rightarrow> True | Some t \<Rightarrow> en_validated_at e < t)
       (filter (\<lambda>(k, _). case prefix of None \<Rightarrow> True | Some p \<Rightarrow> matches_prefix p k) (reg_entries r))"

section \<open>Facts of one document\<close>

record scoped_fact =
  sf_key :: string
  sf_value :: string

type_synonym scoped_data = "scoped_fact list"

definition is_scoped :: "data_entry \<Rightarrow> bool" where
  "is_scoped e = starts_with (de_path e) [sigil]"

fun set_fact :: "string \<Rightarrow> string \<Rightarrow> scoped_data \<Rightarrow> scoped_data" where
  "set_fact k v [] = [\<lparr>sf_key = k, sf_value = v\<rparr>]"
| "set_fact k v (f # fs) = (if sf_key f = k then f\<lparr>sf_value := v\<rparr> # fs else f # set_fact k v fs)"

definition scope_one :: "data_entry \<Rightarrow> scoped_data \<Rightarrow> data_outcome + scoped_data" where
  "scope_one e scoped =
     (let reject = (\<lambda>reason. Inl \<lparr>do_path = de_path e, do_outcome = Rejected reason\<rparr>)
      in case key_parse (de_path e) True of
           Inl err \<Rightarrow> reject (key_reject err)
         | Inr k \<Rightarrow>
             if is_reserved (key_path k) then reject ReservedPrefix
             else (case de_value e of
                     None \<Rightarrow> reject MalformedPath
                   | Some v \<Rightarrow>
                       if max_value_bytes < length v then reject ValueTooLong
                       else if max_sigil_keys \<le> length scoped then reject RegistryFull
                       else Inr (set_fact (rendered k) v scoped)))"

fun partition_scoped :: "data_entry list \<Rightarrow> scoped_data \<Rightarrow> data_entry list \<times> scoped_data \<times> data_outcome list" where
  "partition_scoped [] scoped = ([], scoped, [])"
| "partition_scoped (e # es) scoped =
     (if \<not> is_scoped e
      then (case partition_scoped es scoped of (regs, sc, rej) \<Rightarrow> (e # regs, sc, rej))
      else (case scope_one e scoped of
              Inr scoped1 \<Rightarrow> partition_scoped es scoped1
            | Inl rejection \<Rightarrow>
                (case partition_scoped es scoped of (regs, sc, rej) \<Rightarrow> (regs, sc, rejection # rej))))"

definition parse_ttl :: "json \<Rightarrow> (ttl_parse_error + ttl_spec option) option" where
  "parse_ttl raw =
     (case raw of
        JNull \<Rightarrow> Some (Inr None)
      | JBool False \<Rightarrow> Some (Inr (Some TtlClear))
      | JBool True \<Rightarrow> Some (Inl TtlMalformed)
      | JString s \<Rightarrow> map_option (map_sum id (\<lambda>secs. Some (TtlSet secs))) (parse_duration s)
      | _ \<Rightarrow> Some (Inl TtlMalformed))"

section \<open>Decimal renderings\<close>

lemma digits_value_snoc: "digits_value (ds @ [c]) = digits_value ds * 10 + (of_char c - 48)"
  by (simp add: digits_value_def)

lemma nat_to_string_digits:
  "list_all is_ascii_digit (nat_to_string n) \<and> nat_to_string n \<noteq> [] \<and> digits_value (nat_to_string n) = n"
proof (induction n rule: nat_to_string.induct)
  case (1 n)
  have d: "is_ascii_digit (char_of (48 + k :: nat))" "(of_char (char_of (48 + k) :: char) :: nat) = 48 + k"
    if "k < 10" for k :: nat
    using that by (auto simp: is_ascii_digit_def)
  show ?case
  proof (cases "n < 10")
    case True
    then show ?thesis using d [of n] by (simp add: nat_to_string.simps [of n] digits_value_def)
  next
    case False
    then show ?thesis using 1 d [of "n mod 10"]
      by (simp add: nat_to_string.simps [of n] digits_value_snoc)
  qed
qed

lemma nat_to_string_inj: "nat_to_string a = nat_to_string b \<longleftrightarrow> a = b"
  by (metis nat_to_string_digits)

end
