(* ===== verification/Domain_Files.thy ===== *)
theory Domain_Files
  imports Domain_Data "HOL-Library.Word"
begin

text \<open>
  The provenance registry on disk (\<open>domain_data/persist.rs\<close>), the map of the open registries
  (\<open>domain_data/map.rs\<close>) and the RPC that applies a batch of entries to a registry
  (\<open>daemon/rpc_handler.rs\<close>). The disk is a map from file names to what reading the file gives: the
  deserialised document, bytes that do not deserialise, or a read error. A failed write leaves the
  file as it was; its message is an argument, as is whether a quarantine rename succeeds.
\<close>

unbundle bit_operations_syntax

section \<open>Files\<close>

definition format_version :: u32 where "format_version = 1"

record persisted_registry =
  pr_format_version :: u32
  pr_domain :: string
  pr_entries :: "(string \<times> entry) list"

datatype file_content = FileOk persisted_registry | FileCorrupt | FileUnreadable

type_synonym disk = "string \<rightharpoonup> file_content"

definition fnv1a :: "string \<Rightarrow> 64 word" where
  "fnv1a s = fold (\<lambda>b h. (h XOR of_char b) * 0x100000001b3) s 0xcbf29ce484222325"

definition hex_digit :: "nat \<Rightarrow> char" where
  "hex_digit n = ''0123456789abcdef'' ! n"

definition hex8 :: "nat \<Rightarrow> string" where
  "hex8 n = map (\<lambda>i. hex_digit (n div 16 ^ (7 - i) mod 16)) [0..<8]"

definition file_name_for :: "string \<Rightarrow> string" where
  "file_name_for domain =
     to_lowercase domain @ ''-'' @ hex8 (unat (fnv1a domain AND 0xffffffff)) @ ''.json''"

record domain_registry =
  rg_domain :: string
  rg_path :: string
  rg_data :: data_registry
  rg_ephemeral :: bool

definition domain_registry_new :: "string \<Rightarrow> string \<Rightarrow> data_registry \<Rightarrow> domain_registry" where
  "domain_registry_new domain path r = \<lparr>rg_domain = domain, rg_path = path, rg_data = r, rg_ephemeral = False\<rparr>"

definition in_memory :: "string \<Rightarrow> data_registry \<Rightarrow> domain_registry" where
  "in_memory domain r = \<lparr>rg_domain = domain, rg_path = [], rg_data = r, rg_ephemeral = True\<rparr>"

text \<open>\<open>mutate\<close>: the result of the change, the failure to record it, the registry and the disk.\<close>

definition mutate ::
  "(data_registry \<Rightarrow> 'a \<times> data_registry) \<Rightarrow> string option \<Rightarrow> domain_registry \<Rightarrow> disk
     \<Rightarrow> 'a \<times> string option \<times> domain_registry \<times> disk" where
  "mutate f write_error reg dk =
     (let (out, r) = f (rg_data reg); reg1 = reg\<lparr>rg_data := r\<rparr>
      in if rg_ephemeral reg then (out, None, reg1, dk)
         else (case write_error of
                 Some err \<Rightarrow> (out, Some err, reg1, dk)
               | None \<Rightarrow>
                   (out, None, reg1,
                    dk(rg_path reg \<mapsto> FileOk \<lparr>pr_format_version = format_version, pr_domain = rg_domain reg,
                                              pr_entries = reg_entries r\<rparr>))))"

definition quarantine_and_note :: "bool \<Rightarrow> string \<Rightarrow> disk \<Rightarrow> data_registry \<times> disk" where
  "quarantine_and_note moved path dk =
     (if moved then (note_quarantined registry_empty, dk(path := None)) else (registry_empty, dk))"

definition load :: "bool \<Rightarrow> string \<Rightarrow> disk \<Rightarrow> data_registry \<times> disk" where
  "load moved path dk =
     (case dk path of
        None \<Rightarrow> (registry_empty, dk)
      | Some FileUnreadable \<Rightarrow> (note_quarantined registry_empty, dk)
      | Some FileCorrupt \<Rightarrow> quarantine_and_note moved path dk
      | Some (FileOk p) \<Rightarrow>
          if pr_format_version p \<le> format_version then (from_entries (pr_entries p), dk)
          else quarantine_and_note moved path dk)"

text \<open>\<open>let _ = r.set_reserved(..)\<close>.\<close>

definition put_reserved :: "string \<Rightarrow> string \<Rightarrow> int \<Rightarrow> data_registry \<Rightarrow> data_registry" where
  "put_reserved path v now r = (case set_reserved path v now r of None \<Rightarrow> r | Some (_, r1) \<Rightarrow> r1)"

definition stamp_boot ::
  "(int \<Rightarrow> string) \<Rightarrow> string \<Rightarrow> int \<Rightarrow> string option \<Rightarrow> domain_registry \<Rightarrow> disk \<Rightarrow> string option \<times> domain_registry \<times> disk" where
  "stamp_boot rfc3339 version now write_error reg dk =
     (let is_new = (reg_entries (rg_data reg) = []);
          stamp = (\<lambda>r.
            let r1 = put_reserved ''/logmon/version'' version now (put_reserved ''/logmon/domain'' (rg_domain reg) now r);
                r2 = (if is_new
                      then put_reserved ''/logmon/incarnation_started'' (rfc3339 now) now
                             (put_reserved ''/logmon/incarnation'' ''1'' now
                               (put_reserved ''/logmon/first_seen'' (rfc3339 now) now r1))
                      else r1)
            in ((), r2))
      in snd (mutate stamp write_error reg dk))"

text \<open>The era counted in \<open>/logmon/incarnation\<close>.\<close>

definition incarnation :: "data_registry \<Rightarrow> u64 option" where
  "incarnation r = Option.bind (data_get ''/logmon/incarnation'' r) (\<lambda>e. parse_u64 (en_value e))"

definition note_seq_origin ::
  "(int \<Rightarrow> string) \<Rightarrow> int \<Rightarrow> string option \<Rightarrow> domain_registry \<Rightarrow> disk \<Rightarrow> string option \<times> domain_registry \<times> disk" where
  "note_seq_origin rfc3339 now write_error reg dk =
     (case incarnation (rg_data reg) of
        None \<Rightarrow> (None, reg, dk)
      | Some n \<Rightarrow>
          snd (mutate (\<lambda>r. ((), put_reserved ''/logmon/incarnation_started'' (rfc3339 now) now
                               (put_reserved ''/logmon/incarnation'' (nat_to_string (sat_add n 1)) now r)))
                 write_error reg dk))"

section \<open>The open registries\<close>

record domain_data_store =
  dd_version :: string
  dd_open :: "(string \<times> domain_registry) list"
  dd_disk :: disk

text \<open>
  \<open>for_domain\<close>. The handle it returns is shared, so the registry stays in the map; a caller's
  \<open>mutate\<close> works on it there.
\<close>

definition for_domain ::
  "(int \<Rightarrow> string) \<Rightarrow> int \<Rightarrow> string option \<Rightarrow> bool \<Rightarrow> string \<Rightarrow> domain_data_store \<Rightarrow> domain_registry \<times> domain_data_store" where
  "for_domain rfc3339 now write_error moved domain st =
     (case map_of (dd_open st) domain of
        Some reg \<Rightarrow> (reg, st)
      | None \<Rightarrow>
          let path = file_name_for domain;
              (loaded, dk1) = load moved path (dd_disk st);
              (_, reg, dk2) = stamp_boot rfc3339 (dd_version st) now write_error (domain_registry_new domain path loaded) dk1
          in (reg, st\<lparr>dd_open := hm_insert domain reg (dd_open st), dd_disk := dk2\<rparr>))"

definition mutate_domain ::
  "(int \<Rightarrow> string) \<Rightarrow> int \<Rightarrow> string option \<Rightarrow> bool \<Rightarrow> string \<Rightarrow> (data_registry \<Rightarrow> 'a \<times> data_registry)
     \<Rightarrow> domain_data_store \<Rightarrow> 'a \<times> string option \<times> domain_data_store" where
  "mutate_domain rfc3339 now write_error moved domain f st =
     (let (reg, st1) = for_domain rfc3339 now write_error moved domain st;
          (out, err, reg1, dk) = mutate f write_error reg (dd_disk st1)
      in (out, err, st1\<lparr>dd_open := hm_insert domain reg1 (dd_open st1), dd_disk := dk\<rparr>))"

definition store_note_seq_origin ::
  "(int \<Rightarrow> string) \<Rightarrow> int \<Rightarrow> string option \<Rightarrow> bool \<Rightarrow> string \<Rightarrow> domain_data_store \<Rightarrow> domain_data_store" where
  "store_note_seq_origin rfc3339 now write_error moved domain st =
     (if dd_disk st (file_name_for domain) = None then st
      else let (reg, st1) = for_domain rfc3339 now write_error moved domain st;
               (_, reg1, dk) = note_seq_origin rfc3339 now write_error reg (dd_disk st1)
           in st1\<lparr>dd_open := hm_insert domain reg1 (dd_open st1), dd_disk := dk\<rparr>)"

definition forget_domain :: "string \<Rightarrow> domain_data_store \<Rightarrow> domain_data_store" where
  "forget_domain domain st = st\<lparr>dd_open := hm_remove domain (dd_open st)\<rparr>"

section \<open>Applying a batch\<close>

datatype data_rpc_error =
    EntriesRequired
  | EntriesEmpty
  | EntryMissingPath nat
  | EntryPathNotString nat json

definition json_get :: "string \<Rightarrow> json \<Rightarrow> json option" where
  "json_get k v = (case v of JObject m \<Rightarrow> map_of m k | _ \<Rightarrow> None)"

text \<open>One entry of the batch: an error fails the call, a rejection is kept, an entry goes on.\<close>

definition parse_item :: "nat \<Rightarrow> json \<Rightarrow> (data_rpc_error + (data_outcome + data_entry)) option" where
  "parse_item i item =
     (case json_get ''path'' item of
        None \<Rightarrow> Some (Inl (EntryMissingPath i))
      | Some JNull \<Rightarrow> Some (Inl (EntryMissingPath i))
      | Some (JString path) \<Rightarrow>
          (let reject = (\<lambda>reason. Some (Inr (Inl \<lparr>do_path = path, do_outcome = Rejected reason\<rparr>)));
               with_value = (\<lambda>v.
                 case json_get ''ttl'' item of
                   None \<Rightarrow> Some (Inr (Inr \<lparr>de_path = path, de_value = v, de_ttl = None\<rparr>))
                 | Some raw \<Rightarrow>
                     (case parse_ttl raw of
                        None \<Rightarrow> None
                      | Some (Inl _) \<Rightarrow> reject MalformedTtl
                      | Some (Inr t) \<Rightarrow> Some (Inr (Inr \<lparr>de_path = path, de_value = v, de_ttl = t\<rparr>))))
           in case json_get ''value'' item of
                None \<Rightarrow> with_value None
              | Some JNull \<Rightarrow> with_value None
              | Some (JString s) \<Rightarrow> with_value (Some s)
              | Some _ \<Rightarrow> reject MalformedValue)
      | Some other \<Rightarrow> Some (Inl (EntryPathNotString i other)))"

fun parse_items ::
  "nat \<Rightarrow> json list \<Rightarrow> (data_rpc_error + ((nat \<times> data_entry) list \<times> (nat \<times> data_outcome) list)) option" where
  "parse_items i [] = Some (Inr ([], []))"
| "parse_items i (item # items) =
     (case parse_item i item of
        None \<Rightarrow> None
      | Some (Inl err) \<Rightarrow> Some (Inl err)
      | Some (Inr r) \<Rightarrow>
          map_option (map_sum id (\<lambda>(es, rejected).
            case r of Inl o1 \<Rightarrow> (es, (i, o1) # rejected) | Inr e \<Rightarrow> ((i, e) # es, rejected)))
            (parse_items (Suc i) items))"

definition parse_data_entries ::
  "json option \<Rightarrow> (data_rpc_error + ((nat \<times> data_entry) list \<times> (nat \<times> data_outcome) list)) option" where
  "parse_data_entries raw =
     (case raw of
        Some (JArray arr) \<Rightarrow> if arr = [] then Some (Inl EntriesEmpty) else parse_items 0 arr
      | _ \<Rightarrow> Some (Inl EntriesRequired))"

definition merge_outcomes :: "data_outcome list \<Rightarrow> nat list \<Rightarrow> (nat \<times> data_outcome) list \<Rightarrow> data_outcome list" where
  "merge_outcomes applied indices rejected = map snd (sort_key fst (zip indices applied @ rejected))"

text \<open>\<open>apply_data_entries\<close> on the resolved registry; \<open>None\<close> is a panic of the parser.\<close>

definition apply_data_entries ::
  "json option \<Rightarrow> int \<Rightarrow> string option \<Rightarrow> domain_registry \<Rightarrow> disk
     \<Rightarrow> (data_rpc_error + (data_outcome list \<times> string option \<times> domain_registry \<times> disk)) option" where
  "apply_data_entries raw now write_error reg dk =
     map_option (map_sum id (\<lambda>(indexed, rejected).
       let (applied, saved, reg1, dk1) = mutate (data_update (map snd indexed) now) write_error reg dk
       in (merge_outcomes applied (map fst indexed) rejected, saved, reg1, dk1))) (parse_data_entries raw)"

text \<open>The partition of \<open>apply_case_data_entries\<close>: the entries for the registry, the facts, the outcomes.\<close>

fun split_case_entries ::
  "(nat \<times> data_entry) list \<Rightarrow> scoped_data \<Rightarrow> (nat \<times> data_entry) list \<times> scoped_data \<times> (nat \<times> data_outcome) list" where
  "split_case_entries [] scoped = ([], scoped, [])"
| "split_case_entries ((i, e) # rest) scoped =
     (if \<not> is_scoped e
      then (case split_case_entries rest scoped of (regs, sc, outs) \<Rightarrow> ((i, e) # regs, sc, outs))
      else (case scope_one e scoped of
              Inr scoped1 \<Rightarrow>
                (case split_case_entries rest scoped1 of
                   (regs, sc, outs) \<Rightarrow> (regs, sc, (i, \<lparr>do_path = de_path e, do_outcome = Scoped\<rparr>) # outs))
            | Inl rejection \<Rightarrow>
                (case split_case_entries rest scoped of (regs, sc, outs) \<Rightarrow> (regs, sc, (i, rejection) # outs))))"

definition apply_case_data_entries ::
  "json option \<Rightarrow> int \<Rightarrow> string option \<Rightarrow> domain_registry \<Rightarrow> disk
     \<Rightarrow> (data_rpc_error + (data_outcome list \<times> string option \<times> scoped_data \<times> domain_registry \<times> disk)) option" where
  "apply_case_data_entries raw now write_error reg dk =
     (if raw = None \<or> raw = Some (JArray []) then Some (Inr ([], None, [], reg, dk))
      else map_option (map_sum id (\<lambda>(indexed, rejected).
        let (for_registry, scoped, outs) = split_case_entries indexed [];
            (applied, saved, reg1, dk1) =
              (if for_registry = [] then ([], None, reg, dk)
               else mutate (data_update (map snd for_registry) now) write_error reg dk)
        in (merge_outcomes applied (map fst for_registry) (rejected @ outs), saved, scoped, reg1, dk1)))
        (parse_data_entries raw))"

end
