(* ===== verification/Domain_Data_Props.thy ===== *)
theory Domain_Data_Props
  imports Domain_Files
begin

text \<open>
  What the provenance registry guarantees: keys have one spelling and the reserved ones are out of
  every agent's reach, each outcome of a batch says what happened to its entry, lifetimes survive
  their rendering, and a registry reopened from its file has its facts back.
\<close>

section \<open>Keys\<close>

lemma key_parse_Inr:
  "key_parse raw allow = Inr k \<longleftrightarrow>
     rendered k = raw \<and> validate_path (key_path k) = Inr () \<and> (key_sigil k \<longrightarrow> allow)"
proof (cases "strip_prefix [sigil] raw")
  case None
  have "raw \<noteq> sigil # q" for q using None by (auto simp: strip_prefix_None starts_with_iff)
  then show ?thesis using None
    by (cases k) (auto simp: key_parse_def rendered_def bind_res_Inr split: if_splits)
next
  case (Some rest)
  then have raw: "raw = sigil # rest" by (simp add: strip_prefix_Some)
  have bad: "validate_path (sigil # q) \<noteq> Inr ()" for q
    by (auto simp: validate_path_def sigil_def strip_prefix_Some split: option.splits if_splits)
  show ?thesis using Some bad unfolding raw
    by (cases k) (auto simp: key_parse_def rendered_def bind_res_Inr split: if_splits)
qed

lemma key_parse_agent:
  "key_parse raw False = Inr k \<longleftrightarrow> k = \<lparr>key_path = raw, key_sigil = False\<rparr> \<and> validate_path raw = Inr ()"
  by (cases k) (auto simp: key_parse_Inr rendered_def)

lemma first_segment_prefix:
  assumes "validate_path pat = Inr ()" and "matches_prefix pat path"
  shows "first_segment path = first_segment pat"
proof -
  obtain b where pat: "pat = CHR ''/'' # b"
    using assms(1) by (auto simp: validate_path_def strip_prefix_Some split: if_splits option.splits)
  consider "path = pat" | r where "path = pat @ CHR ''/'' # r"
    using assms(2) by (auto simp: matches_prefix_def strip_prefix_Some starts_with_iff split: if_splits option.splits)
  then show ?thesis
  proof cases
    case (2 r)
    have "takeWhile (\<lambda>d. d \<noteq> CHR ''/'') (b @ CHR ''/'' # r) = takeWhile (\<lambda>d. d \<noteq> CHR ''/'') b"
      by (induction b) auto
    then show ?thesis unfolding 2 pat by (simp add: first_segment_def strip_prefix_def hd_str_split)
  qed simp
qed

lemma reserved_prefix:
  "validate_path pat = Inr () \<Longrightarrow> matches_prefix pat path \<Longrightarrow> is_reserved path = is_reserved pat"
  by (simp add: is_reserved_def first_segment_prefix)

section \<open>Lifetimes\<close>

lemma parse_u64_nat: "n \<le> u64_max \<Longrightarrow> parse_u64 (nat_to_string n) = Some n"
proof -
  assume n: "n \<le> u64_max"
  have "strip_prefix ''+'' (nat_to_string n) = None"
  proof -
    obtain c cs where "nat_to_string n = c # cs" using nat_to_string_digits [of n] by (cases "nat_to_string n") auto
    moreover have "is_ascii_digit c" using nat_to_string_digits [of n] calculation by simp
    ultimately show ?thesis by (auto simp: strip_prefix_def is_ascii_digit_def)
  qed
  then show ?thesis using nat_to_string_digits [of n] n by (auto simp: parse_u64_def)
qed

lemma parse_duration_literal:
  assumes "unit_mult [u] = Some m" and "0 < k" and "k * m \<le> u64_max"
  shows "parse_duration (nat_to_string k @ [u]) = Some (Inr (k * m))"
proof -
  have u: "u \<in> {CHR ''s'', CHR ''m'', CHR ''h'', CHR ''d'', CHR ''w''}" and m: "0 < m"
    using assms(1) by (auto simp: unit_mult_def split: if_splits)
  then have b: "is_char_boundary (length (nat_to_string k)) (nat_to_string k @ [u])"
    by (auto simp: is_char_boundary_def)
  have "k \<le> u64_max" using assms(2,3) m by (metis le_trans mult.commute nat_mult_le_cancel1 mult_le_mono2 nat_mult_1_right Suc_leI One_nat_def)
  then show ?thesis
    using assms b nat_to_string_digits [of k] by (auto simp: parse_duration_def parse_u64_nat)
qed

section \<open>The registry\<close>

lemma data_get_update: "data_get p (r\<lparr>reg_entries := es\<rparr>) = map_of es p"
  by (simp add: data_get_def)

text \<open>An entry whose path is an agent's and whose value, if any, is short enough; and why an entry is refused.\<close>

definition acceptable :: "data_entry \<Rightarrow> bool" where
  "acceptable e \<longleftrightarrow> validate_path (de_path e) = Inr () \<and> \<not> is_reserved (de_path e) \<and>
     (\<forall>v. de_value e = Some v \<longrightarrow> length v \<le> 4096)"

definition refusal :: "data_entry \<Rightarrow> data_registry \<Rightarrow> reject_reason \<Rightarrow> bool" where
  "refusal e r reason \<longleftrightarrow>
     (case reason of
        MalformedPath \<Rightarrow> key_parse (de_path e) False = Inl KeyMalformed
      | PathTooLong \<Rightarrow> key_parse (de_path e) False = Inl KeyTooLong
      | SigilNotAllowedHere \<Rightarrow> key_parse (de_path e) False = Inl KeySigilNotAllowed
      | ReservedPrefix \<Rightarrow> validate_path (de_path e) = Inr () \<and> is_reserved (de_path e)
      | ValueTooLong \<Rightarrow> validate_path (de_path e) = Inr () \<and> \<not> is_reserved (de_path e)
          \<and> (\<exists>v. de_value e = Some v \<and> 4096 < length v)
      | RegistryFull \<Rightarrow> acceptable e \<and> de_value e \<noteq> None \<and> data_get (de_path e) r = None \<and> 256 \<le> counted_len r
      | MalformedValue \<Rightarrow> False
      | MalformedTtl \<Rightarrow> False)"

lemma refusal_unique: "refusal e r a \<Longrightarrow> refusal e r b \<longleftrightarrow> b = a"
proof (cases "key_parse (de_path e) False")
  case (Inl err)
  then have "validate_path (de_path e) \<noteq> Inr ()"
    using key_parse_agent [of "de_path e" "\<lparr>key_path = de_path e, key_sigil = False\<rparr>"] by auto
  then show "refusal e r a \<Longrightarrow> refusal e r b \<longleftrightarrow> b = a"
    using Inl by (auto simp: refusal_def acceptable_def split: reject_reason.splits)
next
  case (Inr k)
  then show "refusal e r a \<Longrightarrow> refusal e r b \<longleftrightarrow> b = a"
    by (auto simp: refusal_def acceptable_def split: reject_reason.splits)
qed

lemma not_refused:
  assumes "acceptable e" and "de_value e = None \<or> data_get (de_path e) r \<noteq> None \<or> counted_len r < 256"
  shows "\<not> refusal e r reason"
proof -
  have "key_parse (de_path e) False = Inr \<lparr>key_path = de_path e, key_sigil = False\<rparr>"
    using assms(1) by (simp add: key_parse_agent acceptable_def)
  then show ?thesis using assms by (auto simp: refusal_def acceptable_def split: reject_reason.splits)
qed

lemma apply_one_cases:
  assumes "apply_one e now r = (out, r')"
  obtains (reject) reason where "out = Rejected reason" "r' = r" "refusal e r reason"
  | (unknown) c where "out = Unknown c" "r' = r" "de_value e = None" "data_get (de_path e) r = None"
      "c = unknown_cause_of r" "\<not> is_reserved (de_path e)" "validate_path (de_path e) = Inr ()"
  | (validated) g old where "out = Validated" "data_get (de_path e) r = Some old"
      "de_value e = None \<or> de_value e = Some (en_value old)" "\<And>v. de_value e = Some v \<Longrightarrow> length v \<le> max_value_bytes"
      "r' = r\<lparr>reg_entries := hm_update (de_path e) g (reg_entries r)\<rparr>" "g old = confirm now (ttl_change (de_ttl e)) old"
      "\<not> is_reserved (de_path e)" "validate_path (de_path e) = Inr ()"
  | (updated) v g old where "out = Updated" "de_value e = Some v" "data_get (de_path e) r = Some old" "en_value old \<noteq> v"
      "r' = r\<lparr>reg_entries := hm_update (de_path e) g (reg_entries r)\<rparr>"
      "g old = confirm now (ttl_change (de_ttl e)) (old\<lparr>en_value := v, en_created_at := now\<rparr>)"
      "\<not> is_reserved (de_path e)" "validate_path (de_path e) = Inr ()" "length v \<le> max_value_bytes"
  | (created) v where "out = Created" "de_value e = Some v" "data_get (de_path e) r = None" "counted_len r < max_keys"
      "r' = r\<lparr>reg_entries := bt_insert (de_path e) (entry_new v now (Option.bind (ttl_change (de_ttl e)) id)) (reg_entries r)\<rparr>"
      "\<not> is_reserved (de_path e)" "validate_path (de_path e) = Inr ()" "length v \<le> max_value_bytes"
proof (cases "key_parse (de_path e) False")
  case (Inl err)
  then show ?thesis using assms
    by (intro reject [of "key_reject err"])
      (auto simp: apply_one_def refusal_def key_reject_def split: key_error.splits)
next
  case (Inr k)
  then have k: "key_path k = de_path e" "rendered k = de_path e" "validate_path (de_path e) = Inr ()"
    by (simp_all add: key_parse_agent rendered_def)
  show ?thesis
  proof (cases "is_reserved (de_path e) \<or> (case de_value e of None \<Rightarrow> False | Some v \<Rightarrow> max_value_bytes < length v)")
    case True
    then show ?thesis using assms Inr k by (intro reject [of "if is_reserved (de_path e) then ReservedPrefix else ValueTooLong"])
        (auto simp: apply_one_def refusal_def max_value_bytes_def split: if_splits option.splits)
  next
    case False
    then have ok: "\<not> is_reserved (de_path e)" "\<And>v. de_value e = Some v \<Longrightarrow> length v \<le> max_value_bytes"
      by auto
    have res: "(out, r') = apply_one e now r" using assms by simp
    show ?thesis
    proof (cases "de_value e")
      case None
      show ?thesis
      proof (cases "map_of (reg_entries r) (de_path e)")
        case None
        then show ?thesis using \<open>de_value e = None\<close> res Inr k ok
          by (intro unknown [of "unknown_cause_of r"]) (auto simp: apply_one_def data_get_def Let_def)
      next
        case (Some old)
        then show ?thesis using \<open>de_value e = None\<close> res Inr k ok
          by (intro validated [of old "confirm now (ttl_change (de_ttl e))"]) (auto simp: apply_one_def data_get_def Let_def)
      qed
    next
      case v: (Some v)
      show ?thesis
      proof (cases "map_of (reg_entries r) (de_path e)")
        case None
        then show ?thesis
        proof (cases "max_keys \<le> counted_len r")
          case True
          then show ?thesis using None v res Inr k ok
            by (intro reject [of RegistryFull])
              (auto simp: apply_one_def Let_def refusal_def acceptable_def data_get_def max_keys_def max_value_bytes_def)
        next
          case False
          then show ?thesis using None v res Inr k ok
            by (intro created [of v]) (auto simp: apply_one_def data_get_def Let_def)
        qed
      next
        case old: (Some old)
        have r': "(out, r') = (if en_value old \<noteq> v then Updated else Validated,
            r\<lparr>reg_entries := hm_update (de_path e) (\<lambda>x. confirm now (ttl_change (de_ttl e)) (set_value v now x)) (reg_entries r)\<rparr>)"
          using old v res Inr k ok by (auto simp: apply_one_def Let_def)
        then show ?thesis using v old k ok
          validated [of old "\<lambda>x. confirm now (ttl_change (de_ttl e)) (set_value v now x)"]
          updated [of v old "\<lambda>x. confirm now (ttl_change (de_ttl e)) (set_value v now x)"]
          by (cases "en_value old = v") (auto simp: data_get_def set_value_def)
      qed
    qed
  qed
qed

lemma data_get_apply_other:
  assumes "apply_one e now r = (out, r')" and "p \<noteq> de_path e"
  shows "data_get p r' = data_get p r"
  using assms(2) by (cases rule: apply_one_cases [OF assms(1)]) (auto simp: data_get_def)

lemma reserved_apply:
  assumes "apply_one e now r = (out, r')" and "is_reserved p"
  shows "data_get p r' = data_get p r"
proof (cases "p = de_path e")
  case True
  then show ?thesis using assms(2) by (cases rule: apply_one_cases [OF assms(1)]) auto
next
  case False
  then show ?thesis by (rule data_get_apply_other [OF assms(1)])
qed

lemma reserved_update: "is_reserved p \<Longrightarrow> data_get p (snd (data_update es now r)) = data_get p r"
proof (induction es arbitrary: r)
  case (Cons e es)
  obtain out r1 where a: "apply_one e now r = (out, r1)" by force
  then show ?case using Cons reserved_apply [OF a] by (simp add: case_prod_unfold Let_def)
qed simp

lemma map_of_fold_bt_remove: "map_of (fold bt_remove ks m) p = (if p \<in> set ks then None else map_of m p)"
  by (induction ks arbitrary: m) auto

lemma fold_bt_remove_filter: "fold bt_remove ks m = filter (\<lambda>x. fst x \<notin> set ks) m"
  by (induction ks arbitrary: m) (auto simp: bt_remove_def intro: filter_cong)

lemma remove_one_cases:
  obtains (refused) reason where "remove_one pat r = (\<lparr>ro_pattern = pat, ro_removed = 0, ro_rejected = Some reason\<rparr>, r)"
      "validate_path pat \<noteq> Inr () \<or> is_reserved pat"
  | (removed) "remove_one pat r =
        (\<lparr>ro_pattern = pat, ro_removed = length (filter (matches_prefix pat) (keys_of (reg_entries r))), ro_rejected = None\<rparr>,
         r\<lparr>reg_entries := filter (\<lambda>x. \<not> matches_prefix pat (fst x)) (reg_entries r)\<rparr>)"
      "validate_path pat = Inr ()" "\<not> is_reserved pat"
proof (cases "key_parse pat False")
  case (Inl err)
  moreover have "validate_path pat \<noteq> Inr ()"
  proof
    assume "validate_path pat = Inr ()"
    then have "key_parse pat False = Inr \<lparr>key_path = pat, key_sigil = False\<rparr>" by (simp add: key_parse_agent)
    then show False using Inl by simp
  qed
  ultimately show ?thesis by (intro refused [of "key_reject err"]) (auto simp: remove_one_def)
next
  case (Inr k)
  then have k: "key_path k = pat" "rendered k = pat" "validate_path pat = Inr ()"
    by (simp_all add: key_parse_agent rendered_def)
  show ?thesis
  proof (cases "is_reserved pat")
    case True
    then show ?thesis using Inr k by (intro refused [of ReservedPrefix]) (auto simp: remove_one_def)
  next
    case False
    have "fold bt_remove (filter (matches_prefix pat) (keys_of (reg_entries r))) (reg_entries r)
        = filter (\<lambda>x. \<not> matches_prefix pat (fst x)) (reg_entries r)"
      unfolding fold_bt_remove_filter by (rule filter_cong) auto
    then show ?thesis using False Inr k by (intro removed) (auto simp: remove_one_def Let_def)
  qed
qed

lemma map_of_filter_fst: "map_of (filter (\<lambda>x. P (fst x)) m) k = (if P k then map_of m k else None)"
  by (induction m) auto

lemma data_get_remove_one:
  "data_get p (snd (remove_one pat r)) =
     (if ro_rejected (fst (remove_one pat r)) = None \<and> matches_prefix pat p then None else data_get p r)"
  by (cases rule: remove_one_cases [of pat r])
     (auto simp: data_get_def map_of_filter_fst [where P = "\<lambda>k. \<not> matches_prefix pat k"])

lemma reserved_remove: "is_reserved p \<Longrightarrow> data_get p (snd (data_remove ps r)) = data_get p r"
proof (induction ps arbitrary: r)
  case (Cons pat ps)
  have "data_get p (snd (remove_one pat r)) = data_get p r"
  proof (cases rule: remove_one_cases [of pat r])
    case removed
    then have "\<not> matches_prefix pat p" using reserved_prefix Cons.prems by blast
    then show ?thesis by (simp add: data_get_remove_one)
  qed simp
  then show ?case using Cons by (simp add: case_prod_unfold Let_def)
qed simp

lemma set_reserved_other:
  "set_reserved path v now r = Some (out, r') \<Longrightarrow> \<not> is_reserved p \<Longrightarrow> data_get p r' = data_get p r"
  by (auto simp: set_reserved_def data_get_def split: if_splits option.splits)

section \<open>The invariant\<close>

text \<open>
  \<open>R\<close> are the paths that were restored at some time, whose facts came from a file and were not
  checked, and \<open>past\<close> says that no restored fact was dated later than its restoring.
\<close>

definition fact_ok :: "string set \<Rightarrow> bool \<Rightarrow> int \<Rightarrow> string \<times> entry \<Rightarrow> bool" where
  "fact_ok R past now x = (case x of (k, e) \<Rightarrow>
     (past \<or> k \<notin> R \<longrightarrow> en_created_at e \<le> en_validated_at e \<and> en_validated_at e \<le> now) \<and>
     (k \<in> R \<or> is_reserved k \<or> validate_path k = Inr () \<and> length (en_value e) \<le> max_value_bytes))"

definition agent_keys :: "string set \<Rightarrow> (string \<times> entry) list \<Rightarrow> string list" where
  "agent_keys R es = filter (\<lambda>k. \<not> is_reserved k \<and> k \<notin> R) (keys_of es)"

definition data_inv :: "string set \<Rightarrow> bool \<Rightarrow> int \<Rightarrow> data_registry \<Rightarrow> bool" where
  "data_inv R past now r \<longleftrightarrow>
     sorted_wrt (<) (keys_of (reg_entries r)) \<and> list_all (fact_ok R past now) (reg_entries r) \<and>
     length (agent_keys R (reg_entries r)) \<le> max_keys"

lemma fact_ok_mono: "fact_ok R past now x \<Longrightarrow> now \<le> now' \<Longrightarrow> fact_ok R past now' x"
  by (auto simp: fact_ok_def split: prod.splits)

lemma data_inv_mono: "data_inv R past now r \<Longrightarrow> now \<le> now' \<Longrightarrow> data_inv R past now' r"
  by (auto simp: data_inv_def list_all_iff fact_ok_mono)

lemma length_filter_and: "length (filter (\<lambda>x. P x \<and> Q x) xs) \<le> length (filter P xs)"
  by (induction xs) auto

lemma agent_keys_counted: "length (agent_keys R (reg_entries r)) \<le> counted_len r"
  unfolding agent_keys_def counted_len_def by (rule length_filter_and)

lemma data_inv_get: "data_inv R past now r \<Longrightarrow> data_get k r = Some e \<Longrightarrow> fact_ok R past now (k, e)"
  by (auto simp: data_inv_def data_get_def list_all_iff dest: map_of_SomeD)

lemma data_inv_change:
  assumes inv: "data_inv R past now r" and old: "data_get k r = Some old" and ok: "fact_ok R past now (k, g old)"
  shows "data_inv R past now (r\<lparr>reg_entries := hm_update k g (reg_entries r)\<rparr>)"
proof -
  have d: "distinct (keys_of (reg_entries r))"
    using inv by (simp add: data_inv_def sorted_less_distinct)
  have "fact_ok R past now (k', g e)" if "(k', e) \<in> set (reg_entries r)" "k' = k" for k' e
    using that old ok d by (auto simp: data_get_def map_of_eq_Some_iff dest: eq_key_imp_eq_value)
  then have "list_all (fact_ok R past now) (hm_update k g (reg_entries r))"
    using inv by (auto simp: data_inv_def list_all_iff hm_update_def)
  then show ?thesis using inv by (simp add: data_inv_def agent_keys_def)
qed

lemma length_filter_bt_insert:
  "k \<notin> set (keys_of m) \<Longrightarrow>
   length (filter P (keys_of (bt_insert k v m))) = length (filter P (keys_of m)) + (if P k then 1 else 0)"
  by (induction k v m rule: bt_insert.induct) auto

lemma set_bt_insert: "set (bt_insert k v m) \<subseteq> insert (k, v) (set m)"
  by (induction k v m rule: bt_insert.induct) auto

lemma data_inv_insert:
  assumes inv: "data_inv R past now r" and new: "data_get k r = None" and ok: "fact_ok R past now (k, e)"
    and room: "is_reserved k \<or> k \<in> R \<or> counted_len r < max_keys"
  shows "data_inv R past now (r\<lparr>reg_entries := bt_insert k e (reg_entries r)\<rparr>)"
proof -
  have "k \<notin> set (keys_of (reg_entries r))" using new by (simp add: data_get_def map_of_eq_None_iff)
  then have "length (agent_keys R (bt_insert k e (reg_entries r))) \<le> max_keys"
    using inv room length_filter_bt_insert [of k "reg_entries r" "\<lambda>k. \<not> is_reserved k \<and> k \<notin> R" e]
      agent_keys_counted [of R r]
    by (auto simp: agent_keys_def data_inv_def)
  moreover have "list_all (fact_ok R past now) (bt_insert k e (reg_entries r))"
    using inv ok set_bt_insert [of k e "reg_entries r"] by (auto simp: data_inv_def list_all_iff)
  ultimately show ?thesis using inv by (simp add: data_inv_def)
qed

lemma confirm_fields [simp]:
  "en_value (confirm now t e) = en_value e" "en_created_at (confirm now t e) = en_created_at e"
  "en_validated_at (confirm now t e) = now"
  by (simp_all add: confirm_def Let_def split: option.split)

lemma data_inv_apply [inv_intros]:
  assumes inv: "data_inv R past now r" and a: "apply_one e now r = (out, r')"
  shows "data_inv R past now r'"
proof (cases rule: apply_one_cases [OF a, case_names rejected unknown validated updated created])
  case (validated g old)
  then show ?thesis using data_inv_change [OF inv, of "de_path e" old g] data_inv_get [OF inv validated(2)]
    by (auto simp: fact_ok_def)
next
  case (updated v g old)
  then show ?thesis using data_inv_change [OF inv, of "de_path e" old g] by (auto simp: fact_ok_def)
next
  case (created v)
  then show ?thesis using data_inv_insert [OF inv] by (simp add: fact_ok_def entry_new_def)
qed (use inv in auto)

lemma data_inv_update [inv_intros]: "data_inv R past now r \<Longrightarrow> data_inv R past now (snd (data_update es now r))"
proof (induction es arbitrary: r)
  case (Cons e es)
  then show ?case
    using data_inv_apply [of R past now r e "fst (apply_one e now r)" "snd (apply_one e now r)"]
    by (simp add: case_prod_unfold Let_def)
qed simp

lemma data_inv_filter: "data_inv R past now r \<Longrightarrow> data_inv R past now (r\<lparr>reg_entries := filter P (reg_entries r)\<rparr>)"
proof -
  assume inv: "data_inv R past now r"
  have "sorted_wrt (<) (keys_of (filter P (reg_entries r)))"
    using inv by (simp add: data_inv_def sorted_filter_keys)
  moreover have "length (agent_keys R (filter P (reg_entries r))) \<le> length (agent_keys R (reg_entries r))"
    using length_filter_and [of "\<lambda>x. \<not> is_reserved (fst x) \<and> fst x \<notin> R" P "reg_entries r"]
    by (simp add: agent_keys_def filter_map comp_def conj_commute conj_assoc)
  ultimately show ?thesis using inv by (auto simp: data_inv_def list_all_iff)
qed

lemma data_inv_remove [inv_intros]: "data_inv R past now r \<Longrightarrow> data_inv R past now (snd (data_remove ps r))"
proof (induction ps arbitrary: r)
  case (Cons pat ps)
  have "data_inv R past now (snd (remove_one pat r))"
    using data_inv_filter [OF Cons.prems] Cons.prems by (cases rule: remove_one_cases [of pat r]) simp_all
  then show ?case using Cons.IH by (simp add: case_prod_unfold Let_def)
qed simp

lemma data_inv_set_reserved [inv_intros]:
  assumes inv: "data_inv R past now r" and s: "set_reserved path v now r = Some (out, r')"
  shows "data_inv R past now r'"
proof (cases "map_of (reg_entries r) path")
  case None
  then show ?thesis using s data_inv_insert [OF inv, of path "entry_new v now None"]
    by (auto simp: set_reserved_def data_get_def fact_ok_def entry_new_def split: if_splits)
next
  case (Some old)
  then show ?thesis
    using s data_inv_get [OF inv, of path old]
      data_inv_change [OF inv, of path old "\<lambda>x. (set_value v now x)\<lparr>en_validated_at := now\<rparr>"]
    by (auto simp: set_reserved_def data_get_def fact_ok_def set_value_def split: if_splits)
qed

lemma data_inv_put_reserved [inv_intros]: "data_inv R past now r \<Longrightarrow> data_inv R past now (put_reserved path v now r)"
  by (auto simp: put_reserved_def data_inv_set_reserved split: option.split)

lemma agent_keys_restore: "k \<in> R \<Longrightarrow> agent_keys R (bt_insert k v m) = agent_keys R m"
  by (induction k v m rule: bt_insert.induct) (auto simp: agent_keys_def)

lemma data_inv_restore [inv_intros]:
  assumes inv: "data_inv R past now r" and R: "path \<in> R" and past: "past \<longrightarrow> created \<le> now \<and> validated \<le> now"
  shows "data_inv R past now (restore path v created validated ttl r)"
proof (cases "is_reserved path")
  case True
  then show ?thesis using inv by (simp add: restore_def)
next
  case False
  let ?e = "\<lparr>en_value = v, en_created_at = created, en_validated_at = max validated created, en_ttl_secs = ttl\<rparr>"
  have "fact_ok R past now (path, ?e)" using R past by (auto simp: fact_ok_def)
  then have "list_all (fact_ok R past now) (bt_insert path ?e (reg_entries r))"
    using inv set_bt_insert [of path ?e "reg_entries r"] by (auto simp: data_inv_def list_all_iff)
  then show ?thesis using inv False by (simp add: data_inv_def restore_def agent_keys_restore [OF R])
qed

lemma data_inv_empty: "data_inv R past now registry_empty"
  by (simp add: data_inv_def registry_empty_def agent_keys_def)

text \<open>What can happen to a registry, with the instant it happens at.\<close>

datatype data_op =
    DataUpdate "data_entry list"
  | DataRemove "string list"
  | DataReserved string string
  | DataRestore string string int int "u64 option"
  | DataQuarantined

definition data_apply :: "int \<times> data_op \<Rightarrow> data_registry \<Rightarrow> data_registry" where
  "data_apply x r = (case x of (now, op) \<Rightarrow>
     (case op of
        DataUpdate es \<Rightarrow> snd (data_update es now r)
      | DataRemove ps \<Rightarrow> snd (data_remove ps r)
      | DataReserved path v \<Rightarrow> put_reserved path v now r
      | DataRestore path v created validated ttl \<Rightarrow> restore path v created validated ttl r
      | DataQuarantined \<Rightarrow> note_quarantined r))"

text \<open>The paths a run restores, and that it restores nothing dated later than the restoring.\<close>

fun restored_path :: "data_op \<Rightarrow> string set" where
  "restored_path (DataRestore path _ _ _ _) = {path}"
| "restored_path _ = {}"

definition restored_paths :: "(int \<times> data_op) list \<Rightarrow> string set" where
  "restored_paths ops = \<Union> (set (map (\<lambda>x. restored_path (snd x)) ops))"

definition restores_past :: "(int \<times> data_op) list \<Rightarrow> bool" where
  "restores_past ops \<longleftrightarrow>
     (\<forall>(t, op)\<in>set ops. case op of DataRestore _ _ created validated _ \<Rightarrow> created \<le> t \<and> validated \<le> t | _ \<Rightarrow> True)"

lemma data_inv_step:
  assumes inv: "data_inv R past now r" and t: "now \<le> t"
    and R: "restored_path op \<subseteq> R" and past: "past \<longrightarrow> restores_past [(t, op)]"
  shows "data_inv R past t (data_apply (t, op) r)"
proof -
  have inv': "data_inv R past t r" by (rule data_inv_mono [OF inv t])
  have "data_inv R past t (note_quarantined r)" using inv' by (simp add: data_inv_def note_quarantined_def)
  moreover have "data_inv R past t (restore path v created validated ttl r)"
    if "op = DataRestore path v created validated ttl" for path v created validated ttl
    using data_inv_restore [OF inv'] R past that by (simp add: restores_past_def)
  ultimately show ?thesis
    using inv' by (cases op) (simp_all add: data_apply_def data_inv_update data_inv_remove data_inv_put_reserved)
qed

lemma data_inv_run:
  "data_inv R past t0 r \<Longrightarrow> sorted (t0 # map fst ops) \<Longrightarrow> restored_paths ops \<subseteq> R \<Longrightarrow> (past \<longrightarrow> restores_past ops) \<Longrightarrow>
   data_inv R past (last (t0 # map fst ops)) (fold data_apply ops r)"
proof (induction ops arbitrary: t0 r)
  case (Cons x ops)
  obtain t op where x: "x = (t, op)" by force
  have "data_inv R past t (data_apply x r)"
    unfolding x by (rule data_inv_step [OF Cons.prems(1)])
      (use Cons.prems(2-4) x in \<open>auto simp: restored_paths_def restores_past_def\<close>)
  moreover have "restored_paths ops \<subseteq> R" "past \<longrightarrow> restores_past ops"
    using Cons.prems(3,4) by (auto simp: restored_paths_def restores_past_def)
  ultimately show ?case using Cons.IH [of t "data_apply x r"] Cons.prems(2) x by simp
qed simp

section \<open>A batch\<close>

lemma data_update_paths:
  "map do_path (fst (data_update es now r)) = map de_path es"
  by (induction es arbitrary: r) (simp_all add: case_prod_unfold Let_def)

text \<open>The index and the path of every entry of the batch, whether it was read or rejected.\<close>

definition named_at :: "nat \<Rightarrow> json list \<Rightarrow> nat \<times> string \<Rightarrow> bool" where
  "named_at i items x = (i \<le> fst x \<and> fst x < i + length items \<and> json_get ''path'' (items ! (fst x - i)) = Some (JString (snd x)))"

lemma parse_item_path:
  "parse_item i item = Some (Inr (Inl o1)) \<Longrightarrow> json_get ''path'' item = Some (JString (do_path o1))"
  "parse_item i item = Some (Inr (Inr e)) \<Longrightarrow> json_get ''path'' item = Some (JString (de_path e))"
  by (auto simp: parse_item_def Let_def split: option.splits json.splits sum.splits)

lemma parse_items_named:
  assumes "parse_items i items = Some (Inr (es, rejected))"
  shows "mset (map fst es @ map fst rejected) = mset [i..<i + length items]
    \<and> list_all (named_at i items) (map (map_prod id de_path) es @ map (map_prod id do_path) rejected)"
  using assms
proof (induction items arbitrary: i es rejected)
  case Nil
  then show ?case by simp
next
  case (Cons item items)
  obtain x where x: "parse_item i item = Some (Inr x)"
    using Cons.prems by (auto split: option.splits sum.splits)
  obtain es1 rej1 where rest: "parse_items (Suc i) items = Some (Inr (es1, rej1))"
    and res: "(es, rejected) = (case x of Inl o1 \<Rightarrow> (es1, (i, o1) # rej1) | Inr e \<Rightarrow> ((i, e) # es1, rej1))"
  proof -
    have "map_option (map_sum id (\<lambda>(es, rejected).
            case x of Inl o1 \<Rightarrow> (es, (i, o1) # rejected) | Inr e \<Rightarrow> ((i, e) # es, rejected)))
            (parse_items (Suc i) items) = Some (Inr (es, rejected))" using Cons.prems x by simp
    then obtain y where y: "parse_items (Suc i) items = Some y" and "map_sum id (\<lambda>(es, rejected).
            case x of Inl o1 \<Rightarrow> (es, (i, o1) # rejected) | Inr e \<Rightarrow> ((i, e) # es, rejected)) y = Inr (es, rejected)"
      by blast
    with that show thesis by (cases y) auto
  qed
  have up: "[i..<i + length (item # items)] = i # [Suc i..<Suc i + length items]"
    by (simp del: upt_Suc add: upt_conv_Cons)
  have shift: "named_at i (item # items) y" if "named_at (Suc i) items y" for y
    using that by (auto simp: named_at_def nth_Cons' Suc_diff_le le_Suc_eq)
  have head: "named_at i (item # items) (i, s)" if "json_get ''path'' item = Some (JString s)" for s
    using that by (simp add: named_at_def)
  have tail: "list_all (named_at i (item # items)) (map (map_prod id de_path) es1 @ map (map_prod id do_path) rej1)"
    using Cons.IH [OF rest] shift by (blast intro: list.pred_mono_strong)
  have ix: "mset (map fst es1 @ map fst rej1) = mset [Suc i..<Suc i + length items]" using Cons.IH [OF rest] by blast
  show ?case
  proof (cases x)
    case (Inl o1)
    then have "(es, rejected) = (es1, (i, o1) # rej1)" "named_at i (item # items) (i, do_path o1)"
      using res parse_item_path(1) [of i item o1] x head by simp_all
    then show ?thesis using ix tail unfolding up by (simp add: id_def)
  next
    case (Inr e)
    then have "(es, rejected) = ((i, e) # es1, rej1)" "named_at i (item # items) (i, de_path e)"
      using res parse_item_path(2) [of i item e] x head by simp_all
    then show ?thesis using ix tail unfolding up by (simp add: id_def)
  qed
qed

lemma sort_key_indices:
  assumes "mset (map fst xs) = mset [0..<n]"
  shows "map fst (sort_key fst xs) = [0..<n]"
proof -
  have "mset (map fst (sort_key fst xs)) = mset [0..<n]" using assms by simp
  then show ?thesis
    by (metis sorted_sort_key sorted_upt properties_for_sort sorted_sort_id)
qed

lemma merged_positions:
  assumes "mset (indices @ map fst rejected) = mset [0..<n]" and "length indices = length applied"
    and "\<And>i o1. (i, o1) \<in> set (zip indices applied @ rejected) \<Longrightarrow> P i o1"
  shows "length (merge_outcomes applied indices rejected) = n"
    and "i < n \<Longrightarrow> P i (merge_outcomes applied indices rejected ! i)"
proof -
  let ?xs = "sort_key fst (zip indices applied @ rejected)"
  have fst: "map fst ?xs = [0..<n]"
    by (rule sort_key_indices) (use assms(1,2) in simp)
  then have len: "length ?xs = n" by (metis length_map length_upt diff_zero)
  then show "length (merge_outcomes applied indices rejected) = n" by (simp add: merge_outcomes_def)
  assume i: "i < n"
  then have "fst (?xs ! i) = i" using fst len by (metis nth_map nth_upt add.left_neutral)
  moreover have "?xs ! i \<in> set (zip indices applied @ rejected)"
    using i len nth_mem [of i ?xs] by simp
  ultimately have "P i (snd (?xs ! i))"
    using assms(3) [of "fst (?xs ! i)" "snd (?xs ! i)"] unfolding prod.collapse by simp
  then show "P i (merge_outcomes applied indices rejected ! i)" using i len by (simp add: merge_outcomes_def)
qed

section \<open>Reopening\<close>

lemma put_reserved_other: "\<not> is_reserved p \<Longrightarrow> data_get p (put_reserved path v now r) = data_get p r"
  by (auto simp: put_reserved_def set_reserved_other split: option.split)

lemma stamp_boot_keeps:
  assumes "stamp_boot fmt version now werr reg dk = (err, reg', dk')"
  shows "\<not> is_reserved p \<Longrightarrow> data_get p (rg_data reg') = data_get p (rg_data reg)"
    and "rg_path reg' = rg_path reg" and "rg_ephemeral reg' = rg_ephemeral reg"
  using assms
  by (auto simp: stamp_boot_def mutate_def Let_def put_reserved_other split: if_splits option.splits prod.splits)

definition store_ok :: "domain_data_store \<Rightarrow> bool" where
  "store_ok st = list_all (\<lambda>(d, reg). rg_path reg = file_name_for d \<and> \<not> rg_ephemeral reg) (dd_open st)"

lemma for_domain_ok:
  assumes "store_ok st" and "for_domain fmt now werr moved d st = (reg, st')"
  shows "rg_path reg = file_name_for d \<and> \<not> rg_ephemeral reg \<and> map_of (dd_open st') d = Some reg"
proof (cases "map_of (dd_open st) d")
  case None
  obtain loaded dk1 where l: "load moved (file_name_for d) (dd_disk st) = (loaded, dk1)" by force
  obtain err dk2 where s: "stamp_boot fmt (dd_version st) now werr (domain_registry_new d (file_name_for d) loaded) dk1 = (err, reg, dk2)"
    and "st' = st\<lparr>dd_open := hm_insert d reg (dd_open st), dd_disk := dk2\<rparr>"
    using assms(2) None l by (auto simp: for_domain_def Let_def split: prod.splits)
  then show ?thesis using stamp_boot_keeps(2,3) [OF s] by (simp add: domain_registry_new_def)
next
  case (Some r)
  then have "(d, r) \<in> set (dd_open st)" by (rule map_of_SomeD)
  then show ?thesis using Some assms by (auto simp: for_domain_def store_ok_def list_all_iff)
qed

section \<open>Properties\<close>

text \<open>
  (C22) A registry stays well-formed. Take any batches of agent updates and removals, any of logmon's
  own writes and any facts restored from a case, at instants that do not go backwards, from an empty
  registry. The keys are in order without repeats. For every path that was not restored: its key is
  reserved or a path with that one spelling, an agent's value is at most 4096 bytes, the fact was not
  confirmed before it was made, and agents hold at most 256 such keys. Restoring checks none of the
  limits, so a restored path is exempt from them; but when no restored fact is dated later than its
  restoring, no fact at all was confirmed before it was made.
\<close>

theorem data_registry_invariant:
  assumes "sorted (map fst ops)" and "r = fold data_apply ops registry_empty"
  shows "sorted_wrt (<) (keys_of (reg_entries r))
    \<and> length (filter (\<lambda>k. \<not> is_reserved k \<and> k \<notin> restored_paths ops) (keys_of (reg_entries r))) \<le> 256
    \<and> (\<forall>k e. data_get k r = Some e \<longrightarrow> k \<notin> restored_paths ops \<longrightarrow>
        en_created_at e \<le> en_validated_at e
        \<and> (is_reserved k \<or> (\<exists>key. key_parse k False = Inr key \<and> rendered key = k) \<and> length (en_value e) \<le> 4096))
    \<and> (restores_past ops \<longrightarrow> (\<forall>k e. data_get k r = Some e \<longrightarrow> en_created_at e \<le> en_validated_at e))"
proof -
  let ?R = "restored_paths ops"
  define t0 where "t0 = (case ops of [] \<Rightarrow> 0 | x # _ \<Rightarrow> fst x)"
  have sorted: "sorted (t0 # map fst ops)" using assms(1) by (cases ops) (auto simp: t0_def)
  from data_inv_run [OF data_inv_empty sorted, of ?R "restores_past ops"] assms(2)
  obtain now where inv: "data_inv ?R (restores_past ops) now r" by auto
  have fact: "fact_ok ?R (restores_past ops) now (k, e)" if "data_get k r = Some e" for k e
    by (rule data_inv_get [OF inv that])
  have "en_created_at e \<le> en_validated_at e
      \<and> (is_reserved k \<or> (\<exists>key. key_parse k False = Inr key \<and> rendered key = k) \<and> length (en_value e) \<le> 4096)"
    if "data_get k r = Some e" "k \<notin> ?R" for k e
    using fact [OF that(1)] that(2) by (auto simp: fact_ok_def key_parse_agent rendered_def max_value_bytes_def)
  moreover have "en_created_at e \<le> en_validated_at e" if "restores_past ops" "data_get k r = Some e" for k e
    using fact [OF that(2)] that(1) by (simp add: fact_ok_def)
  ultimately show ?thesis using inv by (auto simp: data_inv_def max_keys_def agent_keys_def)
qed

definition demo_fact :: "string \<Rightarrow> string \<Rightarrow> data_entry" where
  "demo_fact p v = \<lparr>de_path = p, de_value = Some v, de_ttl = None\<rparr>"

definition demo_ops :: "(int \<times> data_op) list" where
  "demo_ops = [(5, DataUpdate [demo_fact ''/Action'' ''run'']), (6, DataRestore ''/Build'' ''x'' 1 2 None),
     (7, DataRemove [''/Build''])]"

theorem data_registry_invariant_witness:
  "sorted_wrt (<) (keys_of (reg_entries (fold data_apply demo_ops registry_empty)))
   \<and> restores_past demo_ops \<and> ''/Action'' \<notin> restored_paths demo_ops"
  using data_registry_invariant [OF _ refl, of demo_ops]
  by (simp add: demo_ops_def restores_past_def restored_paths_def)

text \<open>
  (C23) Logmon's own facts are out of an agent's reach. No batch of updates, no removal by any
  patterns and no restored fact changes what is recorded under a reserved key, the bare
  \<open>/logmon\<close> included; and logmon's own writes change no key of an agent.
\<close>

theorem reserved_facts_protected:
  assumes "is_reserved p" and "\<not> is_reserved q"
  shows "data_get p (snd (data_update es now r)) = data_get p r
    \<and> data_get p (snd (data_remove ps r)) = data_get p r
    \<and> data_get p (restore path v created validated ttl r) = data_get p r
    \<and> data_get q (put_reserved path v now r) = data_get q r"
  using reserved_update [OF assms(1)] reserved_remove [OF assms(1)] put_reserved_other [OF assms(2)] assms(1)
  by (auto simp: restore_def data_get_def)

theorem reserved_facts_protected_witness:
  "data_get ''/logmon/version'' (snd (data_remove [''/logmon''] (put_reserved ''/logmon/version'' ''1'' 3 registry_empty)))
     = Some (entry_new ''1'' 3 None)"
  using reserved_facts_protected [of "''/logmon/version''" "''/Action''", where ps = "[''/logmon'']"
      and r = "put_reserved ''/logmon/version'' ''1'' 3 registry_empty"]
  by (simp add: is_reserved_def first_segment_def strip_prefix_def reserved_segment_def put_reserved_def set_reserved_def
      registry_empty_def data_get_def)

text \<open>
  (C24) An outcome says what happened, and what happens is an outcome. Applying one entry changes no
  other key. It is rejected for a reason exactly when that reason holds of it: a path that is no
  path, too long or marked with a sigil; a good path that is reserved; an agent's path with a value of
  more than 4096 bytes; an acceptable new key when agents hold 256. Otherwise the entry is
  acceptable, and \<open>Created\<close> means that the key was absent, there was room, and it now holds the value;
  \<open>Updated\<close> that it held another value, and the new one came into force now; \<open>Validated\<close> that the
  value it holds was confirmed now and its origin kept; \<open>Unknown\<close> that a key without a value was not
  there, with the cause: never set when the registry has facts, no registry when it is empty after a
  file was put aside, undetermined when it is empty and none was. Rejected and unknown entries
  change nothing.
\<close>

theorem update_outcome_exact:
  assumes "apply_one e now r = (out, r')"
  shows "(\<forall>p. p \<noteq> de_path e \<longrightarrow> data_get p r' = data_get p r)
    \<and> (\<forall>reason. out = Rejected reason \<longleftrightarrow> refusal e r reason)
    \<and> (case out of
         Created \<Rightarrow> acceptable e \<and> data_get (de_path e) r = None \<and> counted_len r < 256 \<and> (\<exists>v. de_value e = Some v
           \<and> data_get (de_path e) r' = Some (entry_new v now (Option.bind (ttl_change (de_ttl e)) id)))
       | Updated \<Rightarrow> acceptable e \<and> (\<exists>v old. de_value e = Some v \<and> data_get (de_path e) r = Some old \<and> en_value old \<noteq> v
           \<and> data_get (de_path e) r' = Some (confirm now (ttl_change (de_ttl e)) (old\<lparr>en_value := v, en_created_at := now\<rparr>)))
       | Validated \<Rightarrow> acceptable e \<and> (\<exists>old. data_get (de_path e) r = Some old
           \<and> (de_value e = None \<or> de_value e = Some (en_value old))
           \<and> data_get (de_path e) r' = Some (confirm now (ttl_change (de_ttl e)) old))
       | Unknown c \<Rightarrow> acceptable e \<and> r' = r \<and> de_value e = None \<and> data_get (de_path e) r = None
           \<and> (c = NeverSet \<longleftrightarrow> reg_entries r \<noteq> []) \<and> (c = NoRegistry \<longleftrightarrow> reg_entries r = [] \<and> reg_saw_quarantine r)
           \<and> (c = Undetermined \<longleftrightarrow> reg_entries r = [] \<and> \<not> reg_saw_quarantine r)
       | Rejected reason \<Rightarrow> r' = r
       | Scoped \<Rightarrow> False)"
proof -
  have other: "\<forall>p. p \<noteq> de_path e \<longrightarrow> data_get p r' = data_get p r" using data_get_apply_other [OF assms] by blast
  show ?thesis
  proof (cases rule: apply_one_cases [OF assms, case_names rejected unknown validated updated created])
    case (rejected reason)
    then show ?thesis using other refusal_unique [OF rejected(3)] by auto
  next
    case (unknown c)
    then have "acceptable e" by (simp add: acceptable_def)
    with unknown other not_refused [OF this, of r] show ?thesis by (auto simp: unknown_cause_of_def split: if_splits)
  next
    case (validated g old)
    then have "acceptable e" by (simp add: acceptable_def max_value_bytes_def)
    with validated other not_refused [OF this, of r] show ?thesis by (auto simp: data_get_def)
  next
    case (updated v g old)
    then have "acceptable e" by (simp add: acceptable_def max_value_bytes_def)
    with updated other not_refused [OF this, of r] show ?thesis by (auto simp: data_get_def)
  next
    case (created v)
    then have "acceptable e" by (simp add: acceptable_def max_value_bytes_def)
    with created other not_refused [OF this, of r] show ?thesis by (auto simp: data_get_def max_keys_def)
  qed
qed

theorem update_outcome_exact_witness:
  "data_get ''/Action'' (snd (apply_one (demo_fact ''/Action'' ''run'') 5 registry_empty)) = Some (entry_new ''run'' 5 None)"
proof -
  have a: "apply_one (demo_fact ''/Action'' ''run'') 5 registry_empty =
      (Created, snd (apply_one (demo_fact ''/Action'' ''run'') 5 registry_empty))"
    by (simp add: apply_one_def demo_fact_def key_parse_def strip_prefix_def sigil_def validate_path_def max_path_bytes_def
        is_segment_byte_def is_ascii_alphanumeric_def is_ascii_upper_def is_ascii_lower_def is_reserved_def first_segment_def
        reserved_segment_def max_value_bytes_def registry_empty_def counted_len_def max_keys_def Let_def)
  from update_outcome_exact [OF a] show ?thesis by (auto simp: demo_fact_def ttl_change_def)
qed

text \<open> Removal works on whole segments. A pattern is refused exactly when it is not a path or is
  reserved; otherwise exactly the pattern's own key and the keys below it go, and the count
  reported is theirs: \<open>/Ver\<close> leaves \<open>/Versions\<close> alone.
\<close>

theorem removal_is_segmentwise:
  "(ro_rejected (fst (remove_one pat r)) = None) = (validate_path pat = Inr () \<and> \<not> is_reserved pat)
   \<and> data_get p (snd (remove_one pat r)) =
       (if ro_rejected (fst (remove_one pat r)) = None \<and> (p = pat \<or> (\<exists>rest. p = pat @ ''/'' @ rest)) then None
        else data_get p r)
   \<and> ro_removed (fst (remove_one pat r)) =
       length (reg_entries r) - length (reg_entries (snd (remove_one pat r)))"
proof -
  have m: "matches_prefix pat p = (p = pat \<or> (\<exists>rest. p = pat @ ''/'' @ rest))"
    by (auto simp: matches_prefix_def strip_prefix_Some strip_prefix_None starts_with_iff split: option.splits)
  have c: "length (filter (matches_prefix pat) (keys_of es)) = length es - length (filter (\<lambda>x. \<not> matches_prefix pat (fst x)) es)" for es :: "(string \<times> entry) list"
    using sum_length_filter_compl [of "\<lambda>x. matches_prefix pat (fst x)" es] by (simp add: filter_map o_def)
  show ?thesis unfolding data_get_remove_one m
    by (cases rule: remove_one_cases [of pat r]) (auto simp: c [symmetric] filter_map o_def)
qed

text \<open>
  Lifetimes survive their rendering, and keys have one spelling. The literal rendered for a
  lifetime parses back to it, for every nonzero number of seconds of 64 bits; a key that parses is
  rendered as it was written, and parses again to itself.
\<close>

theorem ttl_literal_roundtrip:
  assumes "0 < n" and "n \<le> u64_max" and "key_parse raw allow = Inr k"
  shows "parse_duration (render_duration n) = Some (Inr n) \<and> rendered k = raw \<and> key_parse (rendered k) allow = Inr k"
proof -
  have "\<exists>u m. unit_mult [u] = Some m \<and> m dvd n \<and> render_duration n = nat_to_string (n div m) @ [u]"
    by (auto simp: render_duration_def unit_mult_def dvd_eq_mod_eq_0)
  then obtain u m where u: "unit_mult [u] = Some m" "m dvd n" "render_duration n = nat_to_string (n div m) @ [u]"
    by blast
  moreover have "0 < n div m" "n div m * m = n" using u(2) assms(1) by (auto simp: dvd_div_eq_0_iff elim!: dvdE)
  ultimately show ?thesis
    using parse_duration_literal [OF u(1), of "n div m"] assms(2,3) by (auto simp: key_parse_Inr)
qed

theorem ttl_literal_roundtrip_witness:
  "parse_duration (render_duration 7200) = Some (Inr 7200) \<and> rendered \<lparr>key_path = ''/a'', key_sigil = True\<rparr> = ''@/a''"
  using ttl_literal_roundtrip [of 7200 "''@/a''" True "\<lparr>key_path = ''/a'', key_sigil = True\<rparr>"]
  by (simp add: u64_max_def key_parse_def strip_prefix_def sigil_def validate_path_def max_path_bytes_def is_segment_byte_def
      is_ascii_alphanumeric_def is_ascii_lower_def)

text \<open>
  One outcome per entry, in the order sent (C37). When a batch is applied, the outcomes are as many
  as the entries, and the outcome at each place is about the entry at that place: entries rejected
  before the registry saw them are put back where they were, and a repeated key keeps its places.
\<close>

theorem batch_outcomes_in_order:
  assumes "apply_data_entries (Some (JArray arr)) now werr reg dk = Some (Inr (outs, saved, reg', dk'))"
  shows "length outs = length arr
    \<and> (\<forall>i<length arr. json_get ''path'' (arr ! i) = Some (JString (do_path (outs ! i))))"
proof -
  have "map_option (map_sum id (\<lambda>(indexed, rejected).
       let (applied, saved, reg1, dk1) = mutate (data_update (map snd indexed) now) werr reg dk
       in (merge_outcomes applied (map fst indexed) rejected, saved, reg1, dk1))) (parse_data_entries (Some (JArray arr)))
     = Some (Inr (outs, saved, reg', dk'))"
    using assms by (simp add: apply_data_entries_def)
  then obtain y where "parse_data_entries (Some (JArray arr)) = Some y" and "map_sum id (\<lambda>(indexed, rejected).
       let (applied, saved, reg1, dk1) = mutate (data_update (map snd indexed) now) werr reg dk
       in (merge_outcomes applied (map fst indexed) rejected, saved, reg1, dk1)) y = Inr (outs, saved, reg', dk')"
    by blast
  then obtain es rejected where p: "parse_items 0 arr = Some (Inr (es, rejected))"
    and outs: "outs = merge_outcomes (fst (data_update (map snd es) now (rg_data reg))) (map fst es) rejected"
    by (cases y) (auto simp: parse_data_entries_def mutate_def Let_def case_prod_unfold split: if_splits option.splits)
  let ?applied = "fst (data_update (map snd es) now (rg_data reg))"
  have paths: "map do_path ?applied = map (de_path \<circ> snd) es" by (simp add: data_update_paths)
  then have len: "length (map fst es) = length ?applied" by (metis length_map)
  have ix: "mset (map fst es @ map fst rejected) = mset [0..<length arr]"
    and named: "list_all (named_at 0 arr) (map (map_prod id de_path) es @ map (map_prod id do_path) rejected)"
    using parse_items_named [OF p] by simp_all
  have at: "json_get ''path'' (arr ! i) = Some (JString (do_path o1))" if io: "(i, o1) \<in> set (zip (map fst es) ?applied @ rejected)" for i o1
  proof (cases "(i, o1) \<in> set rejected")
    case True
    then show ?thesis using named by (force simp: list_all_iff named_at_def)
  next
    case False
    then obtain k where k: "k < length es" "i = fst (es ! k)" "o1 = ?applied ! k"
      using io len by (auto simp: set_zip)
    then have "do_path o1 = de_path (snd (es ! k))" using paths len by (metis comp_apply length_map nth_map)
    moreover have "named_at 0 arr (fst (es ! k), de_path (snd (es ! k)))"
      using named k(1) nth_mem [OF k(1)] by (force simp: list_all_iff map_prod_def split_beta)
    ultimately show ?thesis using k(2) by (simp add: named_at_def)
  qed
  let ?at = "\<lambda>i o1. json_get ''path'' (arr ! i) = Some (JString (do_path o1))"
  show ?thesis
    using merged_positions [OF ix len, of ?at] at unfolding outs by blast
qed

definition demo_item :: "string \<Rightarrow> json \<Rightarrow> json" where
  "demo_item p v = JObject [(''path'', JString p), (''value'', v)]"

text \<open>A batch whose first value is no string.\<close>

definition demo_batch :: "(data_rpc_error + (data_outcome list \<times> string option \<times> domain_registry \<times> disk)) option" where
  "demo_batch = apply_data_entries (Some (JArray [demo_item ''/a'' (JBool True), demo_item ''/b'' (JString ''x'')])) 5 None
     (domain_registry_new ''t'' ''f'' registry_empty) Map.empty"

lemma demo_batch_ok:
  "\<exists>outs saved reg' dk'. demo_batch = Some (Inr (outs, saved, reg', dk'))"
  unfolding demo_batch_def
  by (simp add: apply_data_entries_def parse_data_entries_def parse_item_def demo_item_def json_get_def Let_def case_prod_unfold)
     (metis surj_pair)

theorem batch_outcomes_in_order_witness:
  "case demo_batch of
     Some (Inr (outs, _)) \<Rightarrow> length outs = 2 \<and> do_path (outs ! 0) = ''/a'' \<and> do_path (outs ! 1) = ''/b''
   | _ \<Rightarrow> False"
proof -
  let ?arr = "[demo_item ''/a'' (JBool True), demo_item ''/b'' (JString ''x'')]"
  obtain outs saved reg' dk' where o: "demo_batch = Some (Inr (outs, saved, reg', dk'))"
    using demo_batch_ok by blast
  have l: "length outs = 2" and at: "\<forall>i<2. json_get ''path'' (?arr ! i) = Some (JString (do_path (outs ! i)))"
    using batch_outcomes_in_order [OF o [unfolded demo_batch_def]] by (simp_all add: numeral_2_eq_2)
  from l spec [OF at, of 0] spec [OF at, of 1] show ?thesis by (simp add: o demo_item_def json_get_def)
qed

text \<open>
  Provenance survives a reopen. When a change to a domain's registry is recorded without an
  error, and the registry is then forgotten and opened again, every key an agent can set has the
  entry it had, timestamps and lifetime included.
\<close>

theorem provenance_survives_reopen:
  assumes "store_ok st" and "mutate_domain fmt now None moved d f st = (out, err, st1)"
    and "map_of (dd_open st1) d = Some reg1"
    and "for_domain fmt now' werr moved' d (forget_domain d st1) = (reg2, st2)" and "\<not> is_reserved p"
  shows "err = None \<and> data_get p (rg_data reg2) = data_get p (rg_data reg1)"
proof -
  obtain reg st0 where fd: "for_domain fmt now None moved d st = (reg, st0)" by force
  have ok: "rg_path reg = file_name_for d" "\<not> rg_ephemeral reg" using for_domain_ok [OF assms(1) fd] by simp_all
  obtain o1 r1 where f: "f (rg_data reg) = (o1, r1)" by force
  have st1: "err = None" "reg1 = reg\<lparr>rg_data := r1\<rparr>"
    "dd_disk st1 (file_name_for d) = Some (FileOk \<lparr>pr_format_version = format_version, pr_domain = rg_domain reg, pr_entries = reg_entries r1\<rparr>)"
    using assms(2,3) fd f ok by (auto simp: mutate_domain_def mutate_def Let_def)
  have "load moved' (file_name_for d) (dd_disk st1) = (from_entries (reg_entries r1), dd_disk st1)"
    using st1(3) by (simp add: load_def)
  then obtain e2 dk2 where "stamp_boot fmt (dd_version st1) now' werr
      (domain_registry_new d (file_name_for d) (from_entries (reg_entries r1))) (dd_disk st1) = (e2, reg2, dk2)"
    using assms(4) by (auto simp: for_domain_def forget_domain_def Let_def split: prod.splits)
  from stamp_boot_keeps(1) [OF this assms(5)] show ?thesis
    using st1(1,2) by (simp add: domain_registry_new_def from_entries_def data_get_def)
qed

lemma mutate_domain_open:
  "mutate_domain fmt now werr moved d f st = (out, err, st1) \<Longrightarrow> \<exists>reg. map_of (dd_open st1) d = Some reg"
  by (auto simp: mutate_domain_def Let_def split: prod.splits)

definition demo_recorded :: domain_data_store where
  "demo_recorded = snd (snd (mutate_domain (\<lambda>_. []) 5 None True ''t'' (data_update [demo_fact ''/Action'' ''run''] 5)
     \<lparr>dd_version = ''0.9'', dd_open = [], dd_disk = Map.empty\<rparr>))"

theorem provenance_survives_reopen_witness:
  "data_get ''/Action'' (rg_data (fst (for_domain (\<lambda>_. []) 9 None True ''t'' (forget_domain ''t'' demo_recorded))))
     = data_get ''/Action'' (rg_data (the (map_of (dd_open demo_recorded) ''t'')))"
proof -
  let ?st = "\<lparr>dd_version = ''0.9'', dd_open = [], dd_disk = Map.empty\<rparr>"
  obtain out err where m: "mutate_domain (\<lambda>_. []) 5 None True ''t'' (data_update [demo_fact ''/Action'' ''run''] 5) ?st
      = (out, err, demo_recorded)"
    unfolding demo_recorded_def by (metis prod.collapse)
  have ok: "store_ok ?st" by (simp add: store_ok_def)
  have r: "map_of (dd_open demo_recorded) ''t'' = Some (the (map_of (dd_open demo_recorded) ''t''))"
    using mutate_domain_open [OF m] by auto
  obtain reg2 st2 where "for_domain (\<lambda>_. []) 9 None True ''t'' (forget_domain ''t'' demo_recorded) = (reg2, st2)" by force
  from provenance_survives_reopen [OF ok m r this, of "''/Action''"] this
  show ?thesis by (simp add: is_reserved_def first_segment_def strip_prefix_def reserved_segment_def)
qed

section \<open>Where the code departs from its documents\<close>

text \<open>A lifetime whose last character is not ASCII is not refused: splitting it panics.\<close>

lemma ttl_literal_panics:
  assumes "1 < length s" and "128 \<le> (of_char (last s) :: nat)" and "(of_char (last s) :: nat) < 192"
  shows "parse_ttl (JString s) = None"
proof -
  have "s ! (length s - 1) = last s" using assms(1) by (subst last_conv_nth) auto
  then have "\<not> is_char_boundary (length s - 1) s" using assms by (simp add: is_char_boundary_def)
  then show ?thesis by (simp add: parse_ttl_def parse_duration_def)
qed

text \<open>A lifetime of \<open>2^63\<close> seconds and more is accepted, and the fact has expired as it is made.\<close>

lemma huge_ttl_expires_at_once:
  assumes "2 ^ 63 \<le> n" and "n \<le> u64_max"
  shows "parse_duration (nat_to_string n @ ''s'') = Some (Inr n) \<and> is_expired now (entry_new v now (Some n)) = Some True"
proof -
  have "parse_duration (nat_to_string n @ ''s'') = Some (Inr n)"
    using parse_duration_literal [of "CHR ''s''" 1 n] assms by (simp add: unit_mult_def)
  moreover have "int n - 2 ^ 64 \<le> 0" using assms(2) by (simp add: u64_max_def)
  ultimately show ?thesis using assms by (simp add: is_expired_def entry_new_def as_i64_def num_seconds_def)
qed

text \<open>Confirming a fact after the wall clock stepped back leaves it confirmed before it was made.\<close>

lemma backwards_clock_breaks_order:
  assumes "data_get (de_path e) r = Some old" and "de_value e = None" and "apply_one e now r = (Validated, r')"
    and "now < en_created_at old"
  shows "\<exists>x. data_get (de_path e) r' = Some x \<and> en_validated_at x < en_created_at x"
  using assms(1,4) by (cases rule: apply_one_cases [OF assms(3)]) (auto simp: data_get_def)

end
