(* ===== verification/Collector_Tiers.thy ===== *)
theory Collector_Tiers
  imports Span_Types "HOL-Library.Word"
begin

text \<open>
  The tiers of a span collector: the duration sketch (\<open>collector/sketch.rs\<close>) with the crate it wraps
  as a parameter, the exact statistics (\<open>collector/exact.rs\<close>), the capped interner
  (\<open>collector/intern.rs\<close>) and the columnar, chunked, capped sample tier (\<open>collector/sample.rs\<close>).
  Instants are nanoseconds. Counters that grow by one a span are unbounded here: \<open>2^64\<close> spans are
  out of reach. Reserving memory for a column has no effect on what it holds.
\<close>

unbundle bit_operations_syntax

section \<open>The duration sketch\<close>

text \<open>The crate \<open>sketches_ddsketch\<close>: \<open>merge\<close> fails on sketches of different configurations.\<close>

record 's sketch_crate =
  dd_new :: 's
  dd_add :: "f64 \<Rightarrow> 's \<Rightarrow> 's"
  dd_merge :: "'s \<Rightarrow> 's \<Rightarrow> 's option"

record sketch_layout =
  sl_algo :: string
  sl_alpha :: f64
  sl_unit :: string
  sl_min_ns :: f64
  sl_max_ns :: f64
  sl_max_num_bins :: u32

definition min_ns :: f64 where "min_ns = Fin 1"
definition max_ns :: f64 where "max_ns = Fin 3600000000000"
definition max_num_bins :: u32 where "max_num_bins = 2048"

definition current_layout :: sketch_layout where
  "current_layout =
     \<lparr>sl_algo = ''ddsketch'', sl_alpha = round_f64 (1 / 100), sl_unit = ''ns'', sl_min_ns = min_ns, sl_max_ns = max_ns,
      sl_max_num_bins = max_num_bins\<rparr>"

record 's duration_sketch =
  dsk_inner :: 's
  dsk_layout :: sketch_layout

datatype recorded = Added | Zero | Clamped | NegativeRejected

datatype sketch_merge_error = LayoutMismatch sketch_layout sketch_layout

definition sketch_new :: "'s sketch_crate \<Rightarrow> 's duration_sketch" where
  "sketch_new sk = \<lparr>dsk_inner = dd_new sk, dsk_layout = current_layout\<rparr>"

definition sketch_record :: "'s sketch_crate \<Rightarrow> int \<Rightarrow> 's duration_sketch \<Rightarrow> recorded \<times> 's duration_sketch" where
  "sketch_record sk ns s =
     (if ns < 0 then (NegativeRejected, s)
      else let v = round_f64 (of_int ns); put = (\<lambda>x. s\<lparr>dsk_inner := dd_add sk x (dsk_inner s)\<rparr>)
           in if f64_le v min_ns then (Zero, put (Fin 0))
              else if f64_lt max_ns v then (Clamped, put max_ns)
              else (Added, put v))"

definition sketch_merge ::
  "'s sketch_crate \<Rightarrow> 's duration_sketch \<Rightarrow> 's duration_sketch \<Rightarrow> sketch_merge_error + 's duration_sketch" where
  "sketch_merge sk self other =
     (if dsk_layout self \<noteq> dsk_layout other then Inl (LayoutMismatch (dsk_layout other) (dsk_layout self))
      else (case dd_merge sk (dsk_inner self) (dsk_inner other) of
              None \<Rightarrow> Inl (LayoutMismatch (dsk_layout other) (dsk_layout self))
            | Some m \<Rightarrow> Inr (self\<lparr>dsk_inner := m\<rparr>)))"

section \<open>The exact tier\<close>

datatype duration = DurOk int | DurNegative int | DurMalformed

text \<open>\<open>timestamp_nanos_opt\<close>: absent when the instant does not fit 64 bits of nanoseconds.\<close>

definition nanos_opt :: "int \<Rightarrow> int option" where
  "nanos_opt t = (if i64_min \<le> t \<and> t \<le> i64_max then Some t else None)"

text \<open>\<open>end - start\<close> on \<open>i64\<close>, wrapping as a release build does.\<close>

definition wrap_i64 :: "int \<Rightarrow> int" where
  "wrap_i64 x = (x + 2 ^ 63) mod 2 ^ 64 - 2 ^ 63"

definition classify :: "span_entry \<Rightarrow> duration" where
  "classify sp =
     (case (nanos_opt (sp_start_time sp), nanos_opt (sp_end_time sp)) of
        (Some start, Some stop) \<Rightarrow>
          if start = 0 \<or> stop = 0 then DurMalformed
          else let d = wrap_i64 (stop - start) in if d < 0 then DurNegative d else DurOk d
      | _ \<Rightarrow> DurMalformed)"

definition span_is_error :: "span_entry \<Rightarrow> bool" where
  "span_is_error sp = (case sp_status sp of SError _ \<Rightarrow> True | _ \<Rightarrow> False)"

record 's exact_stats =
  xs_count :: nat
  xs_total_ns :: int
  xs_min_ns :: "int option"
  xs_max_ns :: "int option"
  xs_error_count :: nat
  xs_negative :: nat
  xs_malformed :: nat
  xs_out_of_range :: nat
  xs_sketch :: "'s duration_sketch"

definition stats_new :: "'s sketch_crate \<Rightarrow> 's exact_stats" where
  "stats_new sk =
     \<lparr>xs_count = 0, xs_total_ns = 0, xs_min_ns = None, xs_max_ns = None, xs_error_count = 0, xs_negative = 0,
      xs_malformed = 0, xs_out_of_range = 0, xs_sketch = sketch_new sk\<rparr>"

definition stats_record :: "'s sketch_crate \<Rightarrow> duration \<Rightarrow> bool \<Rightarrow> 's exact_stats \<Rightarrow> 's exact_stats" where
  "stats_record sk d err s =
     (let s1 = s\<lparr>xs_count := xs_count s + 1, xs_error_count := xs_error_count s + (if err then 1 else 0)\<rparr>
      in case d of
           DurMalformed \<Rightarrow> s1\<lparr>xs_malformed := xs_malformed s1 + 1\<rparr>
         | DurNegative _ \<Rightarrow> s1\<lparr>xs_negative := xs_negative s1 + 1\<rparr>
         | DurOk ns \<Rightarrow>
             (let (rec, sketch) = sketch_record sk ns (xs_sketch s1)
              in s1\<lparr>xs_total_ns := xs_total_ns s1 + ns,
                    xs_min_ns := Some (case xs_min_ns s1 of None \<Rightarrow> ns | Some m \<Rightarrow> min m ns),
                    xs_max_ns := Some (case xs_max_ns s1 of None \<Rightarrow> ns | Some m \<Rightarrow> max m ns),
                    xs_sketch := sketch,
                    xs_out_of_range := xs_out_of_range s1 + (if rec = Clamped then 1 else 0)\<rparr>))"

definition well_formed_count :: "'s exact_stats \<Rightarrow> nat" where
  "well_formed_count s = xs_count s - xs_negative s - xs_malformed s"

definition avg_ns :: "'s exact_stats \<Rightarrow> f64 option" where
  "avg_ns s =
     (let n = well_formed_count s
      in if 0 < n then Some (f64_div_nat (round_f64 (of_int (xs_total_ns s))) n) else None)"

definition opt_combine :: "('a \<Rightarrow> 'a \<Rightarrow> 'a) \<Rightarrow> 'a option \<Rightarrow> 'a option \<Rightarrow> 'a option" where
  "opt_combine f a b = (case (a, b) of (Some x, Some y) \<Rightarrow> Some (f x y) | (None, _) \<Rightarrow> b | (_, None) \<Rightarrow> a)"

definition stats_merge :: "'s sketch_crate \<Rightarrow> 's exact_stats \<Rightarrow> 's exact_stats \<Rightarrow> sketch_merge_error + 's exact_stats" where
  "stats_merge sk s t =
     bind_res (sketch_merge sk (xs_sketch s) (xs_sketch t)) (\<lambda>sketch.
       Inr \<lparr>xs_count = xs_count s + xs_count t, xs_total_ns = xs_total_ns s + xs_total_ns t,
            xs_min_ns = opt_combine min (xs_min_ns s) (xs_min_ns t), xs_max_ns = opt_combine max (xs_max_ns s) (xs_max_ns t),
            xs_error_count = xs_error_count s + xs_error_count t, xs_negative = xs_negative s + xs_negative t,
            xs_malformed = xs_malformed s + xs_malformed t, xs_out_of_range = xs_out_of_range s + xs_out_of_range t,
            xs_sketch = sketch\<rparr>)"

section \<open>Interning\<close>

definition overflow_id :: u32 where "overflow_id = 0"
definition overflow_label :: string where "overflow_label = ''__overflow__''"
definition absent_id :: u32 where "absent_id = 1"
definition absent_label :: string where "absent_label = ''__absent__''"
definition first_real_id :: u32 where "first_real_id = 2"
definition default_group_value_cap :: nat where "default_group_value_cap = 1024"
definition default_name_cap :: nat where "default_name_cap = 256"

record interner =
  in_to_id :: "(string \<times> u32) list"
  in_to_value :: "string list"
  in_cap :: nat
  in_capped :: bool

definition interner_new :: "nat \<Rightarrow> interner" where
  "interner_new cap = \<lparr>in_to_id = [], in_to_value = [], in_cap = cap, in_capped = False\<rparr>"

definition intern :: "string \<Rightarrow> interner \<Rightarrow> u32 \<times> interner" where
  "intern v t =
     (case map_of (in_to_id t) v of
        Some i \<Rightarrow> (i, t)
      | None \<Rightarrow>
          if in_cap t \<le> length (in_to_value t) then (overflow_id, t\<lparr>in_capped := True\<rparr>)
          else let i = first_real_id + length (in_to_value t)
               in (i, t\<lparr>in_to_value := in_to_value t @ [v], in_to_id := hm_insert v i (in_to_id t)\<rparr>))"

definition resolve :: "u32 \<Rightarrow> interner \<Rightarrow> string" where
  "resolve i t =
     (if i = overflow_id then overflow_label
      else if i = absent_id then absent_label
      else if i - first_real_id < length (in_to_value t) then in_to_value t ! (i - first_real_id) else overflow_label)"

section \<open>The sample tier\<close>

definition chunk_records :: nat where "chunk_records = 8192"

datatype retention = Scalar | Timing | Tree

definition level_bytes :: "retention \<Rightarrow> nat" where
  "level_bytes l = (case l of Scalar \<Rightarrow> 0 | Timing \<Rightarrow> 21 | Tree \<Rightarrow> 53)"

definition has_samples :: "retention \<Rightarrow> bool" where
  "has_samples l = (l \<noteq> Scalar)"

definition has_tree :: "retention \<Rightarrow> bool" where
  "has_tree l = (l = Tree)"

definition bytes_per_group_key :: nat where "bytes_per_group_key = 4"
definition max_group_keys :: nat where "max_group_keys = 8"

text \<open>Status in bits 0 and 1, kind in bits 2 to 4.\<close>

definition pack_flags :: "span_status \<Rightarrow> span_kind \<Rightarrow> 8 word" where
  "pack_flags status kind =
     (let s = (case status of Unset \<Rightarrow> 0 | Ok \<Rightarrow> 1 | SError _ \<Rightarrow> 2);
          k = (case kind of Unspecified \<Rightarrow> 0 | Internal \<Rightarrow> 1 | Server \<Rightarrow> 2 | Client \<Rightarrow> 3 | Producer \<Rightarrow> 4 | Consumer \<Rightarrow> 5)
      in s OR push_bit 2 k)"

definition flags_is_error :: "8 word \<Rightarrow> bool" where
  "flags_is_error flags = (flags AND 3 = 2)"

definition flags_kind :: "8 word \<Rightarrow> span_kind" where
  "flags_kind flags =
     (let k = drop_bit 2 flags AND 7
      in if k = 1 then Internal else if k = 2 then Server else if k = 3 then Client else if k = 4 then Producer
         else if k = 5 then Consumer else Unspecified)"

record sample_record =
  sr_start_ns :: int
  sr_end_ns :: int
  sr_name_id :: u32
  sr_flags :: "8 word"
  sr_span_id :: u64
  sr_parent_span_id :: u64
  sr_trace_id :: u128

record sample_chunk =
  sc_start :: "int list"
  sc_end :: "int list"
  sc_name_id :: "u32 list"
  sc_flags :: "8 word list"
  sc_span_id :: "u64 list"
  sc_parent_span_id :: "u64 list"
  sc_trace_id :: "u128 list"
  sc_group_ids :: "u32 list"

definition chunk_new :: sample_chunk where
  "chunk_new = \<lparr>sc_start = [], sc_end = [], sc_name_id = [], sc_flags = [], sc_span_id = [], sc_parent_span_id = [],
     sc_trace_id = [], sc_group_ids = []\<rparr>"

definition chunk_len :: "sample_chunk \<Rightarrow> nat" where
  "chunk_len c = length (sc_name_id c)"

record sample_tier =
  tr_level :: retention
  tr_n_group_keys :: nat
  tr_max_bytes :: nat
  tr_sealed :: "sample_chunk list"
  tr_active :: sample_chunk
  tr_retained :: nat
  tr_complete :: bool

definition tier_new :: "retention \<Rightarrow> nat \<Rightarrow> nat \<Rightarrow> sample_tier" where
  "tier_new l n max_bytes =
     \<lparr>tr_level = l, tr_n_group_keys = min n max_group_keys, tr_max_bytes = max_bytes, tr_sealed = [],
      tr_active = chunk_new, tr_retained = 0, tr_complete = True\<rparr>"

definition bytes_per_record :: "sample_tier \<Rightarrow> nat" where
  "bytes_per_record t = level_bytes (tr_level t) + tr_n_group_keys t * bytes_per_group_key"

definition chunk_bytes :: "sample_tier \<Rightarrow> nat" where
  "chunk_bytes t = chunk_records * bytes_per_record t"

definition max_chunks :: "sample_tier \<Rightarrow> nat" where
  "max_chunks t = max (tr_max_bytes t div max (chunk_bytes t) 1) 1"

definition bytes_allocated :: "sample_tier \<Rightarrow> nat" where
  "bytes_allocated t = (length (tr_sealed t) + 1) * chunk_bytes t"

definition chunk_push :: "retention \<Rightarrow> sample_record \<Rightarrow> u32 list \<Rightarrow> sample_chunk \<Rightarrow> sample_chunk" where
  "chunk_push l r gids c =
     (let c1 = c\<lparr>sc_start := sc_start c @ [sr_start_ns r], sc_end := sc_end c @ [sr_end_ns r],
                 sc_name_id := sc_name_id c @ [sr_name_id r], sc_flags := sc_flags c @ [sr_flags r]\<rparr>;
          c2 = (if has_tree l
                then c1\<lparr>sc_span_id := sc_span_id c1 @ [sr_span_id r],
                        sc_parent_span_id := sc_parent_span_id c1 @ [sr_parent_span_id r],
                        sc_trace_id := sc_trace_id c1 @ [sr_trace_id r]\<rparr>
                else c1)
      in c2\<lparr>sc_group_ids := sc_group_ids c2 @ gids\<rparr>)"

definition tier_push :: "sample_record \<Rightarrow> u32 list \<Rightarrow> sample_tier \<Rightarrow> bool \<times> sample_tier" where
  "tier_push r gids t =
     (if \<not> has_samples (tr_level t) then (False, t)
      else if chunk_records \<le> chunk_len (tr_active t) \<and> max_chunks t \<le> length (tr_sealed t) + 1
      then (False, t\<lparr>tr_complete := False\<rparr>)
      else let t1 = (if chunk_records \<le> chunk_len (tr_active t)
                     then t\<lparr>tr_sealed := tr_sealed t @ [tr_active t], tr_active := chunk_new\<rparr> else t)
           in (True, t1\<lparr>tr_active := chunk_push (tr_level t1) r gids (tr_active t1), tr_retained := tr_retained t1 + 1\<rparr>))"

text \<open>A snapshot's records, sealed chunks first: the order of ingestion.\<close>

definition chunk_record :: "retention \<Rightarrow> sample_chunk \<Rightarrow> nat \<Rightarrow> sample_record" where
  "chunk_record l c i =
     \<lparr>sr_start_ns = sc_start c ! i, sr_end_ns = sc_end c ! i, sr_name_id = sc_name_id c ! i, sr_flags = sc_flags c ! i,
      sr_span_id = (if has_tree l then sc_span_id c ! i else 0),
      sr_parent_span_id = (if has_tree l then sc_parent_span_id c ! i else 0),
      sr_trace_id = (if has_tree l then sc_trace_id c ! i else 0)\<rparr>"

definition tier_records :: "sample_tier \<Rightarrow> sample_record list" where
  "tier_records t =
     concat (map (\<lambda>c. map (chunk_record (tr_level t) c) [0..<chunk_len c]) (tr_sealed t @ [tr_active t]))"

definition group_ids_at :: "nat \<Rightarrow> sample_chunk \<Rightarrow> nat \<Rightarrow> u32 list" where
  "group_ids_at n c i = (if n = 0 then [] else take n (drop (i * n) (sc_group_ids c)))"

end
