(* ===== verification/Collector_State.thy ===== *)
theory Collector_State
  imports Collector_Tiers Filter_Parser
begin

text \<open>
  A collector (\<open>collector/state.rs\<close>) and the rolling threshold it may carry
  (\<open>collector/threshold.rs\<close>). One lock covers the tiers, so ingesting a span is one step; the
  threshold's atomics are read and written by one record at a time here. The rendering of a JSON
  number is a parameter.
\<close>

section \<open>Thresholds\<close>

definition buckets :: nat where "buckets = 16"
definition min_window_ms :: u64 where "min_window_ms = 16"
definition max_window_ms :: u64 where "max_window_ms = 600000"

datatype metric = MCount | MTotalMs | MAvgMs | MErrorCount | MErrorRatePct

definition metric_as_str :: "metric \<Rightarrow> string" where
  "metric_as_str m =
     (case m of MCount \<Rightarrow> ''count'' | MTotalMs \<Rightarrow> ''total_ms'' | MAvgMs \<Rightarrow> ''avg_ms'' | MErrorCount \<Rightarrow> ''error_count''
      | MErrorRatePct \<Rightarrow> ''error_rate_pct'')"

datatype threshold_parse_error = PercentileMetric string | UnknownMetric string | UnknownOp string

definition metric_parse :: "string \<Rightarrow> threshold_parse_error + metric" where
  "metric_parse s =
     (if s = ''count'' then Inr MCount else if s = ''total_ms'' then Inr MTotalMs else if s = ''avg_ms'' then Inr MAvgMs
      else if s = ''error_count'' then Inr MErrorCount else if s = ''error_rate_pct'' then Inr MErrorRatePct
      else if s \<in> set [''p50_ms'', ''p80_ms'', ''p95_ms'', ''p99_ms'', ''p50'', ''p95'', ''p99''] then Inl (PercentileMetric s)
      else Inl (UnknownMetric s))"

datatype threshold_op = OpGt | OpGte | OpLt | OpLte

definition op_as_str :: "threshold_op \<Rightarrow> string" where
  "op_as_str p = (case p of OpGt \<Rightarrow> ''gt'' | OpGte \<Rightarrow> ''gte'' | OpLt \<Rightarrow> ''lt'' | OpLte \<Rightarrow> ''lte'')"

definition op_parse :: "string \<Rightarrow> threshold_parse_error + threshold_op" where
  "op_parse s =
     (if s = ''gt'' \<or> s = ''>'' then Inr OpGt else if s = ''gte'' \<or> s = ''>='' then Inr OpGte
      else if s = ''lt'' \<or> s = ''<'' then Inr OpLt else if s = ''lte'' \<or> s = ''<='' then Inr OpLte
      else Inl (UnknownOp s))"

definition op_holds :: "threshold_op \<Rightarrow> f64 \<Rightarrow> f64 \<Rightarrow> bool" where
  "op_holds p v limit =
     (case p of OpGt \<Rightarrow> f64_lt limit v | OpGte \<Rightarrow> f64_le limit v | OpLt \<Rightarrow> f64_lt v limit | OpLte \<Rightarrow> f64_le v limit)"

definition op_is_downward :: "threshold_op \<Rightarrow> bool" where
  "op_is_downward p = (p = OpLt \<or> p = OpLte)"

record threshold =
  th_metric :: metric
  th_group :: "string option"
  th_op :: threshold_op
  th_value :: f64
  th_window_ms :: u64

datatype threshold_error = ValueNotFinite | WindowOutOfRange | GroupWithoutKeys | RateOutOfRange

datatype threshold_warning = Downward | FirstGroupKeyOnly | SummedWork

definition threshold_validate :: "string list \<Rightarrow> threshold \<Rightarrow> threshold_error + threshold_warning list" where
  "threshold_validate group_keys t =
     (if is_nan (th_value t) \<or> is_infinite (th_value t) then Inl ValueNotFinite
      else if \<not> (min_window_ms \<le> th_window_ms t \<and> th_window_ms t \<le> max_window_ms) then Inl WindowOutOfRange
      else if th_group t \<noteq> None \<and> group_keys = [] then Inl GroupWithoutKeys
      else if th_metric t = MErrorRatePct \<and> \<not> (f64_le (Fin 0) (th_value t) \<and> f64_le (th_value t) (Fin 100)) then Inl RateOutOfRange
      else Inr ((if op_is_downward (th_op t) then [Downward] else [])
             @ (if th_group t \<noteq> None \<and> 1 < length group_keys then [FirstGroupKeyOnly] else [])
             @ (if th_metric t = MTotalMs then [SummedWork] else [])))"

record bucket =
  bk_epoch :: u64
  bk_count :: u64
  bk_ok_count :: u64
  bk_total_ns :: u64
  bk_errors :: u64

record threshold_state =
  ts_def :: threshold
  ts_bucket_ms :: u64
  ts_ring :: "bucket list"
  ts_head :: u64
  ts_breached :: bool
  ts_breached_at_epoch :: u64
  ts_fires :: u64
  ts_verdict :: u64

definition empty_bucket :: bucket where
  "empty_bucket = \<lparr>bk_epoch = 0, bk_count = 0, bk_ok_count = 0, bk_total_ns = 0, bk_errors = 0\<rparr>"

definition threshold_new :: "threshold \<Rightarrow> threshold_state" where
  "threshold_new d =
     \<lparr>ts_def = d, ts_bucket_ms = max ((th_window_ms d + buckets - 1) div buckets) 1, ts_ring = replicate buckets empty_bucket,
      ts_head = 0, ts_breached = False, ts_breached_at_epoch = 0, ts_fires = 0, ts_verdict = 0\<rparr>"

definition effective_window_ms :: "threshold_state \<Rightarrow> u64" where
  "effective_window_ms t = ts_bucket_ms t * buckets"

definition epoch_of :: "int \<Rightarrow> threshold_state \<Rightarrow> u64" where
  "epoch_of start_ms t = nat (max start_ms 0) div ts_bucket_ms t"

text \<open>The sums of \<open>evaluate\<close> over the buckets inside the window that ends at \<open>head\<close>.\<close>

record window_sums =
  ws_count :: u64
  ws_ok_count :: u64
  ws_total_ns :: u64
  ws_errors :: u64

definition zero_sums :: window_sums where
  "zero_sums = \<lparr>ws_count = 0, ws_ok_count = 0, ws_total_ns = 0, ws_errors = 0\<rparr>"

definition add_bucket :: "u64 \<Rightarrow> bucket \<Rightarrow> window_sums \<Rightarrow> window_sums" where
  "add_bucket head b w =
     (if bk_epoch b < head - (buckets - 1) \<or> head < bk_epoch b then w
      else \<lparr>ws_count = wrap64 (ws_count w + bk_count b), ws_ok_count = wrap64 (ws_ok_count w + bk_ok_count b),
            ws_total_ns = wrap64 (ws_total_ns w + bk_total_ns b), ws_errors = wrap64 (ws_errors w + bk_errors b)\<rparr>)"

definition window_of :: "u64 \<Rightarrow> bucket list \<Rightarrow> window_sums" where
  "window_of head ring = fold (add_bucket head) ring zero_sums"

definition f64_of_nat :: "nat \<Rightarrow> f64" where
  "f64_of_nat n = round_f64 (of_nat n)"

definition f64_div_const :: "f64 \<Rightarrow> rat \<Rightarrow> f64" where
  "f64_div_const a c = (case a of Fin x \<Rightarrow> round_f64 (x / c) | _ \<Rightarrow> a)"

definition metric_value :: "metric \<Rightarrow> window_sums \<Rightarrow> f64 option" where
  "metric_value m w =
     (case m of
        MCount \<Rightarrow> Some (f64_of_nat (ws_count w))
      | MTotalMs \<Rightarrow> Some (f64_div_const (f64_of_nat (ws_total_ns w)) 1000000)
      | MAvgMs \<Rightarrow>
          if 0 < ws_ok_count w
          then Some (f64_div_const (f64_div_nat (f64_of_nat (ws_total_ns w)) (ws_ok_count w)) 1000000) else None
      | MErrorCount \<Rightarrow> Some (f64_of_nat (ws_errors w))
      | MErrorRatePct \<Rightarrow>
          if 0 < ws_count w then Some (f64_mul_pos (f64_div_nat (f64_of_nat (ws_errors w)) (ws_count w)) 100) else None)"

text \<open>The packed verdict: thousandths of the value above two flag bits.\<close>

definition v_max_thousandths :: nat where "v_max_thousandths = 2 ^ 62 - 1"

definition pack_verdict :: "f64 \<Rightarrow> bool \<Rightarrow> u64" where
  "pack_verdict v breached =
     (let thousandths = nat (f64_as_int 0 (int u64_max)
            (f64_min (f64_max (f64_mul_pos v 1000) (Fin 0)) (f64_of_nat v_max_thousandths)))
      in wrap64 (thousandths * 4) + (if breached then 2 else 0) + 1)"

definition threshold_evaluate :: "u64 \<Rightarrow> threshold_state \<Rightarrow> threshold_state" where
  "threshold_evaluate head t =
     (case metric_value (th_metric (ts_def t)) (window_of head (ts_ring t)) of
        None \<Rightarrow> t
      | Some v \<Rightarrow>
          let now_breached = op_holds (th_op (ts_def t)) v (th_value (ts_def t));
              t1 = t\<lparr>ts_verdict := pack_verdict v now_breached, ts_breached := now_breached\<rparr>
          in if now_breached \<and> \<not> ts_breached t
             then t1\<lparr>ts_fires := wrap64 (ts_fires t1 + 1), ts_breached_at_epoch := head\<rparr> else t1)"

definition bucket_record :: "u64 \<Rightarrow> duration \<Rightarrow> bool \<Rightarrow> bucket \<Rightarrow> bucket" where
  "bucket_record epoch d err b =
     (let b1 = (if bk_epoch b \<noteq> epoch then empty_bucket\<lparr>bk_epoch := epoch\<rparr> else b);
          b2 = b1\<lparr>bk_count := wrap64 (bk_count b1 + 1), bk_errors := wrap64 (bk_errors b1 + (if err then 1 else 0))\<rparr>
      in case d of
           DurOk ns \<Rightarrow> b2\<lparr>bk_ok_count := wrap64 (bk_ok_count b2 + 1), bk_total_ns := wrap64 (bk_total_ns b2 + nat ns)\<rparr>
         | _ \<Rightarrow> b2)"

definition watches :: "threshold \<Rightarrow> string option \<Rightarrow> bool" where
  "watches d grp = (case th_group d of None \<Rightarrow> True | Some want \<Rightarrow> grp = Some want)"

definition threshold_record :: "int \<Rightarrow> duration \<Rightarrow> bool \<Rightarrow> string option \<Rightarrow> threshold_state \<Rightarrow> threshold_state" where
  "threshold_record start_ms d err grp t =
     (if \<not> watches (ts_def t) grp then t
      else let epoch = epoch_of start_ms t; head = max (ts_head t) epoch; t1 = t\<lparr>ts_head := head\<rparr>
           in if epoch + buckets \<le> head then t1
              else let i = epoch mod buckets
                   in threshold_evaluate head (t1\<lparr>ts_ring := (ts_ring t1)[i := bucket_record epoch d err (ts_ring t1 ! i)]\<rparr>))"

definition threshold_clear :: "threshold_state \<Rightarrow> threshold_state" where
  "threshold_clear t =
     t\<lparr>ts_ring := map (\<lambda>_. empty_bucket) (ts_ring t), ts_head := 0, ts_breached := False, ts_breached_at_epoch := 0,
       ts_fires := 0, ts_verdict := 0\<rparr>"

record threshold_report =
  tp_metric :: string
  tp_group :: "string option"
  tp_op :: string
  tp_value :: f64
  tp_window_ms :: u64
  tp_breached :: bool
  tp_fires :: u64
  tp_last_value :: "f64 option"
  tp_evaluated :: bool
  tp_effective_window_ms :: u64

definition report :: "threshold_state \<Rightarrow> threshold_report" where
  "report t =
     (let v = ts_verdict t; known = odd v
      in \<lparr>tp_metric = metric_as_str (th_metric (ts_def t)), tp_group = th_group (ts_def t), tp_op = op_as_str (th_op (ts_def t)),
          tp_value = th_value (ts_def t), tp_window_ms = th_window_ms (ts_def t), tp_breached = odd (v div 2), tp_fires = ts_fires t,
          tp_last_value = (if known then Some (f64_div_const (f64_of_nat (v div 4)) 1000) else None), tp_evaluated = known,
          tp_effective_window_ms = effective_window_ms t\<rparr>)"

section \<open>The collector\<close>

definition max_group_tuples :: nat where "max_group_tuples = 256"

record collector_def =
  cd_name :: string
  cd_filter_string :: string
  cd_filter :: parsed_filter
  cd_level :: retention
  cd_group_keys :: "string list"
  cd_max_sample_bytes :: nat
  cd_description :: "string option"
  cd_threshold :: "threshold option"

record 's collector_inner =
  ci_total :: "'s exact_stats"
  ci_per_name :: "(u32 \<times> 's exact_stats) list"
  ci_per_group :: "(u32 list \<times> 's exact_stats) list"
  ci_names :: interner
  ci_group_values :: "interner list"
  ci_samples :: sample_tier
  ci_armed_at :: int
  ci_zeroed_at :: "int option"
  ci_group_tuples_capped :: bool

definition inner_new :: "'s sketch_crate \<Rightarrow> collector_def \<Rightarrow> int \<Rightarrow> 's collector_inner" where
  "inner_new sk d now =
     \<lparr>ci_total = stats_new sk, ci_per_name = [], ci_per_group = [], ci_names = interner_new default_name_cap,
      ci_group_values = map (\<lambda>_. interner_new default_group_value_cap) (cd_group_keys d),
      ci_samples = tier_new (cd_level d) (length (cd_group_keys d)) (cd_max_sample_bytes d), ci_armed_at = now,
      ci_zeroed_at = None, ci_group_tuples_capped = False\<rparr>"

definition window_start :: "'s collector_inner \<Rightarrow> int" where
  "window_start c =
     (case ci_zeroed_at c of Some z \<Rightarrow> if ci_armed_at c < z then z else ci_armed_at c | None \<Rightarrow> ci_armed_at c)"

definition cardinality_capped :: "'s collector_inner \<Rightarrow> bool" where
  "cardinality_capped c = (in_capped (ci_names c) \<or> ci_group_tuples_capped c \<or> list_ex in_capped (ci_group_values c))"

record 's collector =
  co_def :: collector_def
  co_inner :: "'s collector_inner"
  co_threshold :: "threshold_state option"

definition collector_new :: "'s sketch_crate \<Rightarrow> collector_def \<Rightarrow> int \<Rightarrow> 's collector" where
  "collector_new sk d now =
     \<lparr>co_def = d, co_inner = inner_new sk d now, co_threshold = map_option threshold_new (cd_threshold d)\<rparr>"

definition new_restored :: "'s sketch_crate \<Rightarrow> collector_def \<Rightarrow> int \<Rightarrow> int \<Rightarrow> 's collector" where
  "new_restored sk d armed_at restored_at =
     (let me = collector_new sk d armed_at in me\<lparr>co_inner := (co_inner me)\<lparr>ci_zeroed_at := Some restored_at\<rparr>\<rparr>)"

definition is_zeroed :: "'s collector \<Rightarrow> bool" where
  "is_zeroed c = (xs_count (ci_total (co_inner c)) = 0)"

definition render_attribute :: "(json \<Rightarrow> string) \<Rightarrow> json \<Rightarrow> string option" where
  "render_attribute number_to_string v =
     (case v of
        JString s \<Rightarrow> Some s
      | JBool b \<Rightarrow> Some (if b then ''true'' else ''false'')
      | JNumber _ _ \<Rightarrow> Some (number_to_string v)
      | _ \<Rightarrow> None)"

text \<open>\<open>map.entry(k).or_default().record(..)\<close>.\<close>

definition record_in :: "'s sketch_crate \<Rightarrow> 'k \<Rightarrow> duration \<Rightarrow> bool \<Rightarrow> ('k \<times> 's exact_stats) list \<Rightarrow> ('k \<times> 's exact_stats) list" where
  "record_in sk k d err m =
     hm_insert k (stats_record sk d err (case map_of m k of None \<Rightarrow> stats_new sk | Some s \<Rightarrow> s)) m"

text \<open>The ids of the group keys, over the interners of the keys in turn.\<close>

fun intern_groups ::
  "(json \<Rightarrow> string) \<Rightarrow> (string \<times> json) list \<Rightarrow> string list \<Rightarrow> interner list \<Rightarrow> u32 list \<times> interner list" where
  "intern_groups ns attrs (k # ks) (t # ts) =
     (let (i, t1) = (case Option.bind (map_of attrs k) (render_attribute ns) of
                       None \<Rightarrow> (absent_id, t) | Some s \<Rightarrow> intern s t);
          (ids, ts1) = intern_groups ns attrs ks ts
      in (i # ids, t1 # ts1))"
| "intern_groups ns attrs _ ts = ([], ts)"


definition millis :: "int \<Rightarrow> int" where
  "millis t = t div 1000000"

definition ingest :: "'s sketch_crate \<Rightarrow> (json \<Rightarrow> string) \<Rightarrow> span_entry \<Rightarrow> 's collector \<Rightarrow> 's collector" where
  "ingest sk ns sp c =
     (let d = classify sp; err = span_is_error sp; keys = cd_group_keys (co_def c);
          g1 = (co_inner c)\<lparr>ci_total := stats_record sk d err (ci_total (co_inner c))\<rparr>;
          (name_id, names) = intern (sp_name sp) (ci_names g1);
          g2 = g1\<lparr>ci_names := names, ci_per_name := record_in sk name_id d err (ci_per_name g1)\<rparr>;
          (group_ids, g3) =
            (if keys = [] then ([], g2)
             else let (ids0, vals) = intern_groups ns (sp_attributes sp) keys (ci_group_values g2);
                      over = (map_of (ci_per_group g2) ids0 = None \<and> max_group_tuples \<le> length (ci_per_group g2));
                      ids = (if over then replicate (length keys) overflow_id else ids0)
                  in (ids, g2\<lparr>ci_group_values := vals,
                              ci_group_tuples_capped := (ci_group_tuples_capped g2 \<or> over),
                              ci_per_group := record_in sk ids d err (ci_per_group g2)\<rparr>));
          g4 = (case (d, nanos_opt (sp_start_time sp), nanos_opt (sp_end_time sp)) of
                  (DurOk _, Some start, Some stop) \<Rightarrow>
                    g3\<lparr>ci_samples := snd (tier_push
                        \<lparr>sr_start_ns = start, sr_end_ns = stop, sr_name_id = name_id,
                         sr_flags = pack_flags (sp_status sp) (sp_kind sp), sr_span_id = sp_span_id sp,
                         sr_parent_span_id = (case sp_parent_span_id sp of None \<Rightarrow> 0 | Some p \<Rightarrow> p),
                         sr_trace_id = sp_trace_id sp\<rparr> group_ids (ci_samples g3))\<rparr>
                | _ \<Rightarrow> g3);
          want = (case co_threshold c of None \<Rightarrow> False | Some t \<Rightarrow> th_group (ts_def t) \<noteq> None);
          group_value = (if want \<and> keys \<noteq> [] then Option.bind (map_of (sp_attributes sp) (hd keys)) (render_attribute ns) else None)
      in c\<lparr>co_inner := g4,
           co_threshold := map_option (threshold_record (millis (sp_start_time sp)) d err group_value) (co_threshold c)\<rparr>)"

text \<open>A new definition over the same data, for a change of description.\<close>

definition with_def :: "'s sketch_crate \<Rightarrow> collector_def \<Rightarrow> 's collector \<Rightarrow> 's collector" where
  "with_def sk d c =
     (let g = co_inner c; fresh = inner_new sk d (ci_armed_at g)
      in \<lparr>co_def = d,
          co_inner = fresh\<lparr>ci_total := ci_total g, ci_per_name := ci_per_name g, ci_per_group := ci_per_group g,
            ci_names := ci_names g, ci_group_values := ci_group_values g, ci_samples := ci_samples g,
            ci_zeroed_at := ci_zeroed_at g, ci_group_tuples_capped := ci_group_tuples_capped g\<rparr>,
          co_threshold = co_threshold c\<rparr>)"

text \<open>Take everything and start clean.\<close>

definition swap :: "'s sketch_crate \<Rightarrow> int \<Rightarrow> 's collector \<Rightarrow> 's collector_inner \<times> 's collector" where
  "swap sk now c =
     (let old = co_inner c
      in (old, c\<lparr>co_threshold := map_option threshold_clear (co_threshold c),
                 co_inner := (inner_new sk (co_def c) (ci_armed_at old))\<lparr>ci_zeroed_at := Some now\<rparr>\<rparr>))"

end
