(* ===== verification/Threshold_Props.thy ===== *)
theory Threshold_Props
  imports Collector_State
begin

text \<open>
  The rolling window of a threshold. The ring keeps sixteen buckets and never clears one eagerly; the
  lemmas show that its sums are nevertheless those of the watched spans of the last sixteen epochs,
  in whatever order they arrived, and that the report follows from them.
\<close>

section \<open>What a record leaves alone\<close>

lemma evaluate_keeps [simp]:
  "ts_ring (threshold_evaluate h t) = ts_ring t" "ts_head (threshold_evaluate h t) = ts_head t"
  "ts_def (threshold_evaluate h t) = ts_def t" "ts_bucket_ms (threshold_evaluate h t) = ts_bucket_ms t"
  by (auto simp: threshold_evaluate_def Let_def split: option.splits)

lemma record_keeps [simp]:
  "ts_def (threshold_record ms d err g t) = ts_def t" "ts_bucket_ms (threshold_record ms d err g t) = ts_bucket_ms t"
  by (auto simp: threshold_record_def Let_def)

lemma new_keeps [simp]:
  "ts_def (threshold_new d) = d" "ts_head (threshold_new d) = 0" "ts_ring (threshold_new d) = replicate buckets empty_bucket"
  by (auto simp: threshold_new_def)

text \<open>A span as a threshold sees it, and the records of a sequence of spans.\<close>

type_synonym offered_span = "int \<times> duration \<times> bool \<times> string option"

definition record_all :: "offered_span list \<Rightarrow> threshold_state \<Rightarrow> threshold_state" where
  "record_all spans t = fold (\<lambda>(ms, d, err, g). threshold_record ms d err g) spans t"

definition offered_epoch :: "threshold_state \<Rightarrow> offered_span \<Rightarrow> nat" where
  "offered_epoch t sp = epoch_of (fst sp) t"

definition watched :: "threshold \<Rightarrow> offered_span list \<Rightarrow> offered_span list" where
  "watched d spans = filter (\<lambda>(ms, x, err, g). watches d g) spans"

text \<open>The reference window: the watched spans of the last sixteen epochs up to the newest.\<close>

definition newest_epoch :: "threshold_state \<Rightarrow> offered_span list \<Rightarrow> nat" where
  "newest_epoch t spans = fold (\<lambda>sp h. max h (offered_epoch t sp)) spans 0"

definition in_window :: "nat \<Rightarrow> nat \<Rightarrow> bool" where
  "in_window head e \<longleftrightarrow> e \<le> head \<and> head < e + buckets"

definition window_spans :: "threshold_state \<Rightarrow> offered_span list \<Rightarrow> offered_span list" where
  "window_spans t spans = filter (\<lambda>sp. in_window (newest_epoch t spans) (offered_epoch t sp)) spans"

definition window_spec :: "offered_span list \<Rightarrow> window_sums" where
  "window_spec spans =
     \<lparr>ws_count = wrap64 (length spans),
      ws_ok_count = wrap64 (length (filter (\<lambda>(ms, d, err, g). \<exists>ns. d = DurOk ns) spans)),
      ws_total_ns = wrap64 (sum_list (map (\<lambda>(ms, d, err, g). case d of DurOk ns \<Rightarrow> nat ns | _ \<Rightarrow> 0) spans)),
      ws_errors = wrap64 (length (filter (\<lambda>(ms, d, err, g). err) spans))\<rparr>"

lemma epoch_of_cong: "ts_bucket_ms t = ts_bucket_ms u \<Longrightarrow> epoch_of ms t = epoch_of ms u"
  by (simp add: epoch_of_def)

lemma epoch_of_record [simp]: "epoch_of ms (threshold_record a b c g t) = epoch_of ms t"
  by (rule epoch_of_cong) simp

lemma offered_epoch_record [simp]: "offered_epoch (threshold_record a b c g t) = offered_epoch t"
  by (rule ext) (simp add: offered_epoch_def)

lemma record_all_keeps [simp]:
  "ts_def (record_all spans t) = ts_def t" "ts_bucket_ms (record_all spans t) = ts_bucket_ms t"
  "offered_epoch (record_all spans t) = offered_epoch t"
proof -
  have "ts_def (record_all spans t) = ts_def t \<and> ts_bucket_ms (record_all spans t) = ts_bucket_ms t"
    by (induction spans arbitrary: t) (auto simp: record_all_def)
  then show "ts_def (record_all spans t) = ts_def t" "ts_bucket_ms (record_all spans t) = ts_bucket_ms t" by auto
  then show "offered_epoch (record_all spans t) = offered_epoch t"
    by (intro ext) (simp add: offered_epoch_def epoch_of_def)
qed

lemma record_all_snoc:
  "record_all (spans @ [(ms, d, err, g)]) t = threshold_record ms d err g (record_all spans t)"
  by (simp add: record_all_def)

lemma newest_epoch_snoc: "newest_epoch t (spans @ [sp]) = max (newest_epoch t spans) (offered_epoch t sp)"
  by (simp add: newest_epoch_def)

lemma newest_epoch_ge: "sp \<in> set spans \<Longrightarrow> offered_epoch t sp \<le> newest_epoch t spans"
  by (induction spans rule: rev_induct) (auto simp: newest_epoch_snoc)

section \<open>The ring invariant\<close>

lemma in_window_unique:
  assumes "in_window h a" and "in_window h b" and "a mod buckets = b mod buckets"
  shows "a = b"
proof -
  have wlog: "x = y" if "x \<le> y" "y < x + buckets" "x mod buckets = y mod buckets" for x y
  proof -
    have "buckets dvd y - x" using that(1) that(3)[symmetric] by (simp add: mod_eq_dvd_iff_nat)
    moreover have "y - x < buckets" using that by simp
    ultimately have "y - x = 0" using dvd_imp_le[of buckets "y - x"] by linarith
    then show ?thesis using that(1) by simp
  qed
  show ?thesis using assms wlog[of a b] wlog[of b a] by (cases "a \<le> b") (auto simp: in_window_def)
qed

lemma in_window_grows: "in_window h' e \<Longrightarrow> e \<le> h \<Longrightarrow> h \<le> h' \<Longrightarrow> in_window h e"
  by (auto simp: in_window_def)

lemma wrap64_add_left [simp]: "wrap64 (wrap64 a + b) = wrap64 (a + b)"
  by (simp add: wrap64_def mod_add_left_eq)

lemma wrap64_add_right [simp]: "wrap64 (a + wrap64 b) = wrap64 (a + b)"
  by (simp add: wrap64_def mod_add_right_eq)

lemma wrap64_idem [simp]: "wrap64 (wrap64 a) = wrap64 a"
  by (simp add: wrap64_def)

lemma wrap64_0 [simp]: "wrap64 0 = 0"
  by (simp add: wrap64_def)

lemma wrap64_sum: "wrap64 (\<Sum>i\<leftarrow>xs. wrap64 (f i)) = wrap64 (\<Sum>i\<leftarrow>xs. f i)"
proof (induction xs)
  case (Cons a xs)
  then show ?case by (metis list.simps(9) sum_list.Cons wrap64_add_left wrap64_add_right)
qed simp

lemma sum_residues:
  "n > 0 \<Longrightarrow> (\<Sum>i\<leftarrow>[0..<n]. \<Sum>x\<leftarrow>filter (\<lambda>x. g x mod n = i) xs. f x) = (\<Sum>x\<leftarrow>xs. (f x :: nat))"
proof (induction xs)
  case (Cons a xs)
  have "(\<Sum>i\<leftarrow>[0..<n]. if g a mod n = i then f a else 0) = f a"
    using Cons.prems by (simp add: sum_list_map_eq_sum_count2 interv_sum_list_conv_sum_set_nat sum.delta)
  moreover have "(\<Sum>i\<leftarrow>[0..<n]. \<Sum>x\<leftarrow>filter (\<lambda>x. g x mod n = i) (a # xs). f x) =
      (\<Sum>i\<leftarrow>[0..<n]. (if g a mod n = i then f a else 0) + (\<Sum>x\<leftarrow>filter (\<lambda>x. g x mod n = i) xs. f x))"
    by (intro arg_cong[where f = sum_list] map_cong) auto
  ultimately show ?case using Cons by (simp add: sum_list_addf)
qed simp

text \<open>
  One of the four counters a bucket keeps: \<open>get\<close> reads it in a bucket, \<open>acc\<close> in the sums, and \<open>inc\<close>
  is what a span adds to it.
\<close>

locale window_counter =
  fixes get :: "bucket \<Rightarrow> nat" and acc :: "window_sums \<Rightarrow> nat" and inc :: "duration \<Rightarrow> bool \<Rightarrow> nat"
  assumes get_empty: "get (empty_bucket\<lparr>bk_epoch := e\<rparr>) = 0"
    and get_record: "wrap64 (get (bucket_record e d err b)) = wrap64 ((if bk_epoch b = e then get b else 0) + inc d err)"
    and acc_zero: "acc zero_sums = 0"
    and acc_add: "acc (add_bucket h b w) = (if in_window h (bk_epoch b) then wrap64 (acc w + get b) else acc w)"
begin

definition inc_of :: "offered_span \<Rightarrow> nat" where
  "inc_of sp = (case sp of (ms, d, err, g) \<Rightarrow> inc d err)"

definition live :: "nat \<Rightarrow> bucket \<Rightarrow> nat" where
  "live h b = (if in_window h (bk_epoch b) then get b else 0)"

text \<open>The watched spans inside the window that fall on one slot of the ring.\<close>

definition slot_spans :: "threshold_state \<Rightarrow> nat \<Rightarrow> nat \<Rightarrow> offered_span list \<Rightarrow> offered_span list" where
  "slot_spans t h i spans =
     filter (\<lambda>sp. in_window h (offered_epoch t sp) \<and> offered_epoch t sp mod buckets = i) spans"

definition slot_inv :: "threshold_state \<Rightarrow> offered_span list \<Rightarrow> nat \<Rightarrow> bucket \<Rightarrow> bool" where
  "slot_inv t spans i b \<longleftrightarrow>
     bk_epoch b \<le> ts_head t
     \<and> (\<forall>sp \<in> set spans. in_window (ts_head t) (offered_epoch t sp) \<longrightarrow> offered_epoch t sp mod buckets = i
           \<longrightarrow> offered_epoch t sp = bk_epoch b)
     \<and> wrap64 (live (ts_head t) b) = wrap64 (sum_list (map inc_of (slot_spans t (ts_head t) i spans)))"

definition ring_inv :: "threshold_state \<Rightarrow> offered_span list \<Rightarrow> bool" where
  "ring_inv t spans \<longleftrightarrow>
     length (ts_ring t) = buckets \<and> ts_head t = newest_epoch t spans
     \<and> (\<forall>i < buckets. slot_inv t spans i (ts_ring t ! i))"

lemma acc_window: "acc (fold (add_bucket h) ring w) = wrap64 (acc w + sum_list (map (live h) ring))"
  if "acc w = wrap64 (acc w)"
  using that
proof (induction ring arbitrary: w)
  case (Cons b ring)
  have "acc (add_bucket h b w) = wrap64 (acc (add_bucket h b w))" using Cons.prems by (simp add: acc_add)
  note IH = Cons.IH[OF this]
  show ?case by (simp add: IH acc_add live_def add.assoc)
qed simp

text \<open>A slot the record does not touch: what leaves the window leaves its sum.\<close>

lemma slot_untouched:
  assumes inv: "slot_inv t spans i b" and head: "ts_head t = newest_epoch t spans"
    and h: "ts_head t \<le> ts_head t'" and ep: "offered_epoch t' = offered_epoch t"
    and sp: "\<not> (in_window (ts_head t') (offered_epoch t sp) \<and> offered_epoch t sp mod buckets = i)"
  shows "slot_inv t' (spans @ [sp]) i b"
proof -
  have old: "in_window (ts_head t) (offered_epoch t x)" if "x \<in> set spans" "in_window (ts_head t') (offered_epoch t x)" for x
    using in_window_grows[OF that(2) _ h] newest_epoch_ge[OF that(1), of t] head by simp
  have "slot_spans t' (ts_head t') i (spans @ [sp]) =
      (if in_window (ts_head t') (bk_epoch b) then slot_spans t (ts_head t) i spans else [])"
  proof (cases "in_window (ts_head t') (bk_epoch b)")
    case True
    have "slot_spans t (ts_head t') i spans = slot_spans t (ts_head t) i spans"
      unfolding slot_spans_def using inv old True by (intro filter_cong) (auto simp: slot_inv_def)
    then show ?thesis using True sp by (simp add: slot_spans_def ep)
  next
    case False
    have "slot_spans t (ts_head t') i spans = []"
      unfolding slot_spans_def using inv old False by (auto simp: slot_inv_def filter_empty_conv)
    then show ?thesis using False sp by (simp add: slot_spans_def ep)
  qed
  moreover have "in_window (ts_head t') (bk_epoch b) \<Longrightarrow> in_window (ts_head t) (bk_epoch b)"
    using inv h by (auto simp: slot_inv_def in_window_def)
  ultimately show ?thesis using inv old sp h by (auto simp: slot_inv_def ep live_def split: if_splits)
qed

text \<open>The slot of the span recorded.\<close>

lemma slot_recorded:
  assumes inv: "slot_inv t spans i b" and head: "ts_head t = newest_epoch t spans"
    and ep: "offered_epoch t' = offered_epoch t" and h: "ts_head t' = max (ts_head t) e"
    and e: "e = offered_epoch t (ms, d, err, g)" and win: "in_window (ts_head t') e" and i: "i = e mod buckets"
  shows "slot_inv t' (spans @ [(ms, d, err, g)]) i (bucket_record e d err b)"
proof -
  have epoch: "bk_epoch (bucket_record e d err b) = e"
    by (simp add: bucket_record_def Let_def split: duration.split)
  have same: "offered_epoch t x = e" if "in_window (ts_head t') (offered_epoch t x)" "offered_epoch t x mod buckets = i" for x
    using in_window_unique[OF that(1) win] that(2) i by simp
  have bound: "offered_epoch t x \<le> ts_head t" if "x \<in> set spans" for x using newest_epoch_ge[OF that, of t] head by simp
  let ?old = "filter (\<lambda>x. offered_epoch t x = e) spans"
  have spans': "slot_spans t' (ts_head t') i spans = ?old"
    using same win i by (auto simp: slot_spans_def ep intro!: filter_cong)
  have winold: "in_window (ts_head t) e" if "e \<le> ts_head t"
    using in_window_grows[OF win that] h by simp
  have get: "wrap64 (if bk_epoch b = e then get b else 0) = wrap64 (sum_list (map inc_of ?old))"
  proof (cases "bk_epoch b = e")
    case True
    then have "in_window (ts_head t) e" using winold inv by (simp add: slot_inv_def)
    moreover from this have "slot_spans t (ts_head t) i spans = ?old"
      using in_window_unique i by (auto simp: slot_spans_def intro!: filter_cong)
    ultimately show ?thesis using inv True by (auto simp: slot_inv_def live_def)
  next
    case False
    have "?old = []" using False inv winold bound i by (auto simp: filter_empty_conv slot_inv_def)
    then show ?thesis using False by simp
  qed
  have "wrap64 (live (ts_head t') (bucket_record e d err b)) =
      wrap64 (sum_list (map inc_of (slot_spans t' (ts_head t') i (spans @ [(ms, d, err, g)]))))"
  proof -
    have "slot_spans t' (ts_head t') i (spans @ [(ms, d, err, g)]) = ?old @ [(ms, d, err, g)]"
      using spans' win i e by (simp add: slot_spans_def ep)
    then show ?thesis using win wrap64_add_left[of "if bk_epoch b = e then get b else 0" "inc d err"]
      by (simp add: live_def epoch get_record get inc_of_def)
  qed
  moreover have "e \<le> ts_head t'" using h by simp
  moreover have "offered_epoch t' x = e"
    if "in_window (ts_head t') (offered_epoch t' x)" "offered_epoch t' x mod buckets = i" for x
    using same that ep by simp
  ultimately show ?thesis unfolding slot_inv_def epoch by blast
qed

lemma ring_inv_new: "ring_inv (threshold_new d) []"
  using get_empty[of 0]
  by (simp add: ring_inv_def slot_inv_def newest_epoch_def live_def slot_spans_def empty_bucket_def)

lemma ring_inv_record:
  assumes inv: "ring_inv t spans" and w: "watches (ts_def t) g"
  shows "ring_inv (threshold_record ms d err g t) (spans @ [(ms, d, err, g)])"
proof -
  let ?sp = "(ms, d, err, g)" and ?t' = "threshold_record ms d err g t"
  let ?e = "offered_epoch t ?sp"
  have head: "ts_head t = newest_epoch t spans" and len: "length (ts_ring t) = buckets"
    and slots: "\<And>i. i < buckets \<Longrightarrow> slot_inv t spans i (ts_ring t ! i)" using inv by (auto simp: ring_inv_def)
  have ep: "offered_epoch ?t' = offered_epoch t" by simp
  have h: "ts_head ?t' = max (ts_head t) ?e"
    using w by (simp add: threshold_record_def Let_def offered_epoch_def)
  have ring: "ts_ring ?t' = (if in_window (ts_head ?t') ?e
      then (ts_ring t)[?e mod buckets := bucket_record ?e d err (ts_ring t ! (?e mod buckets))] else ts_ring t)"
    using w by (auto simp: threshold_record_def Let_def offered_epoch_def in_window_def)
  have "slot_inv ?t' (spans @ [?sp]) i (ts_ring ?t' ! i)" if i: "i < buckets" for i
  proof (cases "in_window (ts_head ?t') ?e \<and> ?e mod buckets = i")
    case True
    then show ?thesis using slot_recorded[OF slots[OF i] head ep h refl _ _] len i ring by auto
  next
    case False
    then have "ts_ring ?t' ! i = ts_ring t ! i" using ring by auto
    then show ?thesis using slot_untouched[OF slots[OF i] head _ ep False] h by simp
  qed
  moreover have "newest_epoch ?t' (spans @ [?sp]) = ts_head ?t'"
    using h head by (simp add: newest_epoch_snoc newest_epoch_def)
  ultimately show ?thesis using len ring by (auto simp: ring_inv_def)
qed

lemma ring_inv_all: "ring_inv (record_all spans (threshold_new d)) (watched d spans)"
proof (induction spans rule: rev_induct)
  case Nil
  then show ?case using ring_inv_new by (simp add: record_all_def watched_def)
next
  case (snoc sp spans)
  obtain ms x err g where sp: "sp = (ms, x, err, g)" by (cases sp)
  show ?case
  proof (cases "watches d g")
    case True
    then show ?thesis using ring_inv_record[OF snoc, of g] by (simp add: sp record_all_snoc watched_def)
  next
    case False
    then show ?thesis using snoc by (simp add: sp record_all_snoc watched_def threshold_record_def)
  qed
qed

lemma window_exact:
  assumes "ring_inv t spans"
  shows "acc (window_of (ts_head t) (ts_ring t)) = wrap64 (sum_list (map inc_of (window_spans t spans)))"
proof -
  have len: "length (ts_ring t) = buckets" and head: "ts_head t = newest_epoch t spans"
    and slot: "\<And>i. i < buckets \<Longrightarrow> wrap64 (live (ts_head t) (ts_ring t ! i)) =
      wrap64 (sum_list (map inc_of (slot_spans t (ts_head t) i spans)))"
    using assms by (auto simp: ring_inv_def slot_inv_def)
  have "map (\<lambda>b. wrap64 (live (ts_head t) b)) (ts_ring t) =
      map (\<lambda>i. wrap64 (sum_list (map inc_of (slot_spans t (ts_head t) i spans)))) [0..<buckets]"
    using len slot by (intro nth_equalityI) auto
  moreover have "slot_spans t (ts_head t) i spans =
      filter (\<lambda>x. offered_epoch t x mod buckets = i) (window_spans t spans)" for i
    using head by (simp add: slot_spans_def window_spans_def conj_commute)
  moreover have "acc (window_of (ts_head t) (ts_ring t)) =
      wrap64 (sum_list (map (\<lambda>b. wrap64 (live (ts_head t) b)) (ts_ring t)))"
    by (simp add: window_of_def acc_window acc_zero wrap64_sum)
  ultimately show ?thesis
    using sum_residues[of buckets inc_of "offered_epoch t" "window_spans t spans"]
    by (simp add: wrap64_sum buckets_def)
qed

end

lemma add_bucket_window:
  "add_bucket h b w = (if in_window h (bk_epoch b)
     then \<lparr>ws_count = wrap64 (ws_count w + bk_count b), ws_ok_count = wrap64 (ws_ok_count w + bk_ok_count b),
           ws_total_ns = wrap64 (ws_total_ns w + bk_total_ns b), ws_errors = wrap64 (ws_errors w + bk_errors b)\<rparr> else w)"
  by (auto simp: add_bucket_def in_window_def buckets_def)

lemmas counter_defs = empty_bucket_def bucket_record_def zero_sums_def Let_def add_bucket_window

interpretation wc: window_counter bk_count ws_count "\<lambda>d err. Suc 0"
  by unfold_locales (auto simp: counter_defs split: duration.split)

interpretation wo: window_counter bk_ok_count ws_ok_count "\<lambda>d err. case d of DurOk ns \<Rightarrow> 1 | _ \<Rightarrow> 0"
  by unfold_locales (auto simp: counter_defs split: duration.split)

interpretation wt: window_counter bk_total_ns ws_total_ns "\<lambda>d err. case d of DurOk ns \<Rightarrow> nat ns | _ \<Rightarrow> 0"
  by unfold_locales (auto simp: counter_defs split: duration.split)

interpretation we: window_counter bk_errors ws_errors "\<lambda>d err. if err then 1 else 0"
  by unfold_locales (auto simp: counter_defs split: duration.split)

section \<open>The window and its report\<close>

lemma length_filter_sum: "length (filter P xs) = (\<Sum>x\<leftarrow>xs. if P x then 1 else 0)"
  by (induction xs) auto

lemma window_of_ring:
  fixes spans d
  defines "t \<equiv> record_all spans (threshold_new d)"
  shows "window_of (ts_head t) (ts_ring t) = window_spec (window_spans t (watched d spans))"
proof -
  let ?ws = "window_spans t (watched d spans)"
  have c: "sum_list (map wc.inc_of ?ws) = length ?ws"
  proof -
    have "map wc.inc_of ?ws = map (\<lambda>_. 1) ?ws" by (auto simp: wc.inc_of_def)
    then show ?thesis by (simp only: sum_list_triv) simp
  qed
  have o: "sum_list (map wo.inc_of ?ws) = length (filter (\<lambda>(ms, d, err, g). \<exists>ns. d = DurOk ns) ?ws)"
    unfolding length_filter_sum
    by (intro arg_cong[where f = sum_list] map_cong) (auto simp: wo.inc_of_def split: duration.split)
  have e: "sum_list (map we.inc_of ?ws) = length (filter (\<lambda>(ms, d, err, g). err) ?ws)"
    unfolding length_filter_sum by (intro arg_cong[where f = sum_list] map_cong) (auto simp: we.inc_of_def)
  have n: "map wt.inc_of ?ws = map (\<lambda>(ms, d, err, g). case d of DurOk ns \<Rightarrow> nat ns | _ \<Rightarrow> 0) ?ws"
    by (intro map_cong) (auto simp: wt.inc_of_def)
  show ?thesis
    using wc.window_exact[OF wc.ring_inv_all[of spans d]] wo.window_exact[OF wo.ring_inv_all[of spans d]]
      wt.window_exact[OF wt.ring_inv_all[of spans d]] we.window_exact[OF we.ring_inv_all[of spans d]]
    unfolding t_def[symmetric] c o e n window_spec_def
    by (intro window_sums.equality) simp_all
qed

lemma head_of_ring:
  "ts_head (record_all spans (threshold_new d)) = newest_epoch (record_all spans (threshold_new d)) (watched d spans)"
  using wc.ring_inv_all by (simp add: wc.ring_inv_def)

lemma report_of_verdict:
  "odd (pack_verdict v b)" "odd (pack_verdict v b div 2) = b"
proof -
  define x where "x = nat (f64_as_int 0 (int u64_max)
      (f64_min (f64_max (f64_mul_pos v 1000) (Fin 0)) (f64_of_nat v_max_thousandths)))"
  have "4 dvd wrap64 (x * 4)" by (simp add: wrap64_def dvd_mod_iff u64_max_def)
  then obtain k where "wrap64 (x * 4) = 4 * k" by blast
  then have "pack_verdict v b = 4 * k + (if b then 2 else 0) + 1" by (simp add: pack_verdict_def x_def)
  then show "odd (pack_verdict v b)" "odd (pack_verdict v b div 2) = b" by (cases b; simp)+
qed

lemma effective_window: "th_window_ms d \<le> effective_window_ms (record_all spans (threshold_new d))"
  "0 < th_window_ms d \<Longrightarrow> effective_window_ms (record_all spans (threshold_new d)) < th_window_ms d + buckets"
  by (auto simp: effective_window_ms_def threshold_new_def buckets_def)

lemma threshold_record_evaluates:
  assumes "watches (ts_def t) g" and "in_window (max (ts_head t) (epoch_of ms t)) (epoch_of ms t)"
  shows "\<exists>u. threshold_record ms d err g t = threshold_evaluate (ts_head (threshold_record ms d err g t)) u
    \<and> ts_ring u = ts_ring (threshold_record ms d err g t) \<and> ts_def u = ts_def t"
  using assms by (auto simp: threshold_record_def Let_def in_window_def)

text \<open>
  The report of a threshold (C25). After any sequence of spans in any order, the last of which is
  watched and not older than the window, the reported verdict is the comparison of the metric of
  exactly the watched spans of the last sixteen epochs with the limit: no bucket of an earlier lap
  counts, no span of the window is missing, and the window is at least the declared one and less than
  sixteen milliseconds wider.
\<close>

theorem threshold_report_exact:
  fixes spans d ms x err g
  defines "t \<equiv> record_all (spans @ [(ms, x, err, g)]) (threshold_new d)"
  defines "ws \<equiv> window_spans t (watched d (spans @ [(ms, x, err, g)]))"
  assumes "watches d g" and "in_window (newest_epoch t (watched d (spans @ [(ms, x, err, g)]))) (epoch_of ms t)"
    and "metric_value (th_metric d) (window_spec ws) = Some v" and "0 < th_window_ms d"
  shows "tp_evaluated (report t) \<and> (tp_breached (report t) \<longleftrightarrow> op_holds (th_op d) v (th_value d))
    \<and> th_window_ms d \<le> tp_effective_window_ms (report t) \<and> tp_effective_window_ms (report t) < th_window_ms d + 16"
proof -
  let ?u = "record_all spans (threshold_new d)"
  have t: "t = threshold_record ms x err g ?u" by (simp add: t_def record_all_snoc)
  have head: "ts_head t = newest_epoch t (watched d (spans @ [(ms, x, err, g)]))" unfolding t_def by (rule head_of_ring)
  have same: "epoch_of ms t = epoch_of ms ?u" unfolding t by simp
  have "ts_head t = max (ts_head ?u) (epoch_of ms ?u)"
    using assms(3) by (simp add: t threshold_record_def Let_def)
  then obtain u where u: "t = threshold_evaluate (ts_head t) u" "ts_ring u = ts_ring t" "ts_def u = d"
    using threshold_record_evaluates[of ?u g ms x err] assms(3,4) head same by (auto simp: t)
  have "metric_value (th_metric d) (window_of (ts_head t) (ts_ring u)) = Some v"
    using assms(5) window_of_ring[of "spans @ [(ms, x, err, g)]" d] unfolding u(2) ws_def t_def by simp
  then have "ts_verdict t = pack_verdict v (op_holds (th_op d) v (th_value d))"
    by (subst u(1)) (simp add: threshold_evaluate_def u(3) Let_def)
  then show ?thesis
    using report_of_verdict effective_window[of d "spans @ [(ms, x, err, g)]"] assms(6)
    by (simp add: report_def Let_def t_def[symmetric] buckets_def)
qed

lemma round_f64_3: "round_f64 3 = Fin 3"
proof -
  have "binexp 3 = 1" by (simp add: binexp_def quotient_of_number compute_floorlog pow2i_def)
  moreover have "round_half_even (3 / pow2i (- 51)) = 3 * 2 ^ 51" by (simp add: round_half_even_def pow2i_def)
  ultimately have "round_f64 3 = (let v = 3 * 2 ^ 51 * pow2i (- 51) in if pow2i 1024 \<le> v then PInf else Fin v)"
    by (simp add: round_f64_def Let_def)
  then show ?thesis by (simp add: pow2i_def)
qed

definition demo_threshold :: threshold where
  "demo_threshold = \<lparr>th_metric = MCount, th_group = Some ''db'', th_op = OpGte, th_value = Fin 2, th_window_ms = 100\<rparr>"

definition demo_spans :: "offered_span list" where
  "demo_spans = [(5, DurOk 10, True, Some ''db''), (500, DurOk 7, False, Some ''db''), (9, DurOk 1, False, Some ''db''),
     (470, DurMalformed, False, Some ''db''), (490, DurOk 1, False, Some ''web'')]"

theorem threshold_report_exact_witness:
  "tp_evaluated (report (record_all (demo_spans @ [(480, DurOk 3, False, Some ''db'')]) (threshold_new demo_threshold)))
   \<and> tp_breached (report (record_all (demo_spans @ [(480, DurOk 3, False, Some ''db'')]) (threshold_new demo_threshold)))"
proof -
  let ?d = demo_threshold and ?sp = "(480, DurOk 3, False, Some ''db'')"
  let ?t = "record_all (demo_spans @ [?sp]) (threshold_new ?d)"
  have ep: "epoch_of ms ?t = nat (max ms 0) div 7" for ms
    by (simp add: epoch_of_def threshold_new_def buckets_def demo_threshold_def)
  have w: "watched ?d (demo_spans @ [?sp]) = [(5, DurOk 10, True, Some ''db''), (500, DurOk 7, False, Some ''db''),
      (9, DurOk 1, False, Some ''db''), (470, DurMalformed, False, Some ''db''), ?sp]"
    by (simp add: watched_def demo_spans_def watches_def demo_threshold_def)
  have newest: "newest_epoch ?t (watched ?d (demo_spans @ [?sp])) = 71"
    unfolding w newest_epoch_def offered_epoch_def ep by simp
  have "window_spans ?t (watched ?d (demo_spans @ [?sp])) =
      [(500, DurOk 7, False, Some ''db''), (470, DurMalformed, False, Some ''db''), ?sp]"
    unfolding window_spans_def newest unfolding w offered_epoch_def ep by (simp add: in_window_def buckets_def)
  then have v: "metric_value (th_metric ?d) (window_spec (window_spans ?t (watched ?d (demo_spans @ [?sp])))) = Some (Fin 3)"
    by (simp add: demo_threshold_def metric_value_def window_spec_def wrap64_def f64_of_nat_def round_f64_3)
  have win: "in_window (newest_epoch ?t (watched ?d (demo_spans @ [?sp]))) (epoch_of 480 ?t)"
    unfolding newest ep by (simp add: in_window_def buckets_def)
  have "op_holds (th_op ?d) (Fin 3) (th_value ?d)" by code_simp
  then show ?thesis
    using threshold_report_exact[OF _ win v] by (simp add: demo_threshold_def watches_def)
qed

end
