(* ===== verification/Collector_Props.thy ===== *)
theory Collector_Props
  imports Collector_State
begin

text \<open>
  What a collector's tiers guarantee: the sample tier keeps exactly the first records that fit its
  budget and says so when it does not keep the rest, the breakdown by name and by group add up to the
  total, and merging two statistics is recording the spans of both.
\<close>

section \<open>The sample tier\<close>

text \<open>A row is a record with the ids of its groups; a chunk is the columns of its rows.\<close>

type_synonym row = "sample_record \<times> u32 list"

definition kept_fields :: "retention \<Rightarrow> sample_record \<Rightarrow> sample_record" where
  "kept_fields l r = (if has_tree l then r else r\<lparr>sr_span_id := 0, sr_parent_span_id := 0, sr_trace_id := 0\<rparr>)"

definition cols_of :: "retention \<Rightarrow> row list \<Rightarrow> sample_chunk" where
  "cols_of l rows =
     (let rs = map fst rows
      in \<lparr>sc_start = map sr_start_ns rs, sc_end = map sr_end_ns rs, sc_name_id = map sr_name_id rs,
          sc_flags = map sr_flags rs, sc_span_id = (if has_tree l then map sr_span_id rs else []),
          sc_parent_span_id = (if has_tree l then map sr_parent_span_id rs else []),
          sc_trace_id = (if has_tree l then map sr_trace_id rs else []), sc_group_ids = concat (map snd rows)\<rparr>)"

definition push_all :: "row list \<Rightarrow> sample_tier \<Rightarrow> sample_tier" where
  "push_all rows t = fold (\<lambda>(r, gids) t. snd (tier_push r gids t)) rows t"

text \<open>The group ids of a tier's rows, in the order of \<open>tier_records\<close>.\<close>

definition tier_groups :: "sample_tier \<Rightarrow> u32 list list" where
  "tier_groups t =
     concat (map (\<lambda>c. map (group_ids_at (tr_n_group_keys t) c) [0..<chunk_len c]) (tr_sealed t @ [tr_active t]))"

lemma chunk_len_of [simp]: "chunk_len (cols_of l rows) = length rows"
  by (simp add: chunk_len_def cols_of_def Let_def)

lemma cols_of_Nil: "chunk_new = cols_of l []"
  by (simp add: chunk_new_def cols_of_def Let_def)

lemma chunk_push_of: "chunk_push l r g (cols_of l rows) = cols_of l (rows @ [(r, g)])"
  by (simp add: chunk_push_def cols_of_def Let_def)

lemma records_cols_of: "map (chunk_record l (cols_of l rows)) [0..<length rows] = map (kept_fields l \<circ> fst) rows"
proof (rule nth_equalityI)
  fix i
  assume "i < length (map (chunk_record l (cols_of l rows)) [0..<length rows])"
  then show "map (chunk_record l (cols_of l rows)) [0..<length rows] ! i = map (kept_fields l \<circ> fst) rows ! i"
    by (cases "fst (rows ! i)") (auto simp: chunk_record_def cols_of_def kept_fields_def Let_def)
qed simp

lemma nth_concat_equal_lengths:
  "\<forall>x \<in> set xs. length x = n \<Longrightarrow> i < length xs \<Longrightarrow> take n (drop (i * n) (concat xs)) = xs ! i"
proof (induction xs arbitrary: i)
  case (Cons x xs)
  then show ?case by (cases i) (auto simp: add.commute)
qed simp

lemma groups_cols_of:
  assumes "\<forall>row \<in> set rows. length (snd row) = n"
  shows "map (group_ids_at n (cols_of l rows)) [0..<length rows] = map snd rows"
proof (rule nth_equalityI)
  fix i
  assume i: "i < length (map (group_ids_at n (cols_of l rows)) [0..<length rows])"
  have "take n (drop (i * n) (concat (map snd rows))) = map snd rows ! i"
    using assms i by (intro nth_concat_equal_lengths) auto
  then show "map (group_ids_at n (cols_of l rows)) [0..<length rows] ! i = map snd rows ! i"
    using i assms by (cases "n = 0") (auto simp: group_ids_at_def cols_of_def Let_def)
qed simp

definition tier_holds :: "sample_tier \<Rightarrow> row list \<Rightarrow> bool" where
  "tier_holds t rows \<longleftrightarrow>
     (\<exists>chunks a. tr_sealed t = map (cols_of (tr_level t)) chunks \<and> tr_active t = cols_of (tr_level t) a
        \<and> rows = concat chunks @ a \<and> (\<forall>c \<in> set chunks. length c = chunk_records) \<and> length a \<le> chunk_records
        \<and> length chunks + 1 \<le> max_chunks t \<and> tr_retained t = length rows)"

definition tier_capacity :: "sample_tier \<Rightarrow> nat" where
  "tier_capacity t = max_chunks t * chunk_records"

lemma push_keeps [simp]:
  "tr_level (snd (tier_push r g t)) = tr_level t" "tr_n_group_keys (snd (tier_push r g t)) = tr_n_group_keys t"
  "tr_max_bytes (snd (tier_push r g t)) = tr_max_bytes t"
  by (auto simp: tier_push_def Let_def)

lemma bytes_cong:
  assumes "tr_level t = tr_level u" and "tr_n_group_keys t = tr_n_group_keys u" and "tr_max_bytes t = tr_max_bytes u"
  shows "chunk_bytes t = chunk_bytes u \<and> max_chunks t = max_chunks u \<and> tier_capacity t = tier_capacity u"
  using assms by (simp add: chunk_bytes_def bytes_per_record_def max_chunks_def tier_capacity_def)

lemma push_capacity [simp]:
  "max_chunks (snd (tier_push r g t)) = max_chunks t" "tier_capacity (snd (tier_push r g t)) = tier_capacity t"
  using bytes_cong[of "snd (tier_push r g t)" t] by auto

lemma length_concat_equal: "\<forall>c \<in> set chunks. length c = n \<Longrightarrow> length (concat chunks) = length chunks * n"
  by (induction chunks) auto

lemma tier_holds_push:
  assumes "tier_holds t rows" and s: "has_samples (tr_level t)"
  shows "if length rows < tier_capacity t
    then tier_holds (snd (tier_push r g t)) (rows @ [(r, g)]) \<and> tr_complete (snd (tier_push r g t)) = tr_complete t
    else tier_holds (snd (tier_push r g t)) rows \<and> \<not> tr_complete (snd (tier_push r g t))"
proof -
  let ?l = "tr_level t"
  obtain chunks a where h: "tr_sealed t = map (cols_of ?l) chunks" "tr_active t = cols_of ?l a" "rows = concat chunks @ a"
      "\<forall>c \<in> set chunks. length c = chunk_records" "length a \<le> chunk_records" "length chunks + 1 \<le> max_chunks t"
      "tr_retained t = length rows"
    using assms(1) by (auto simp: tier_holds_def)
  have len: "length rows = length chunks * chunk_records + length a" using h(3,4) by (simp add: length_concat_equal)
  consider (room) "length a < chunk_records" | (seal) "length a = chunk_records" "length chunks + 1 < max_chunks t"
    | (full) "length a = chunk_records" "max_chunks t = length chunks + 1" using h(5,6) by linarith
  then show ?thesis
  proof cases
    case room
    have "(length chunks + 1) * chunk_records \<le> tier_capacity t"
      unfolding tier_capacity_def using h(6) by (intro mult_le_mono1)
    then have "length rows < tier_capacity t" using len room by simp
    moreover have "tier_holds (snd (tier_push r g t)) (rows @ [(r, g)])"
      unfolding tier_holds_def push_keeps push_capacity using h s room
      by (intro exI[of _ chunks] exI[of _ "a @ [(r, g)]"]) (simp add: tier_push_def chunk_push_of)
    ultimately show ?thesis using room s h(2) by (simp add: tier_push_def)
  next
    case seal
    have "(length chunks + 2) * chunk_records \<le> tier_capacity t"
      unfolding tier_capacity_def using seal by (intro mult_le_mono1) simp
    then have "length rows < tier_capacity t" using len seal by (simp add: chunk_records_def)
    moreover have "tier_holds (snd (tier_push r g t)) (rows @ [(r, g)])"
      unfolding tier_holds_def push_keeps push_capacity using h s seal
      by (intro exI[of _ "chunks @ [a]"] exI[of _ "[(r, g)]"])
        (simp add: tier_push_def chunk_push_of cols_of_Nil[of ?l] chunk_records_def)
    ultimately show ?thesis using seal s h(1,2) by (simp add: tier_push_def Let_def)
  next
    case full
    then have p: "snd (tier_push r g t) = t\<lparr>tr_complete := False\<rparr>" using s h(1,2) by (simp add: tier_push_def)
    have "max_chunks (t\<lparr>tr_complete := False\<rparr>) = max_chunks t" using push_capacity(1)[of r g t] unfolding p .
    moreover have "length rows = tier_capacity t" using len full by (simp add: tier_capacity_def)
    ultimately show ?thesis using h unfolding p by (auto simp: tier_holds_def)
  qed
qed

lemma push_all_keeps [simp]:
  "tr_level (push_all rows t) = tr_level t" "tr_n_group_keys (push_all rows t) = tr_n_group_keys t"
  "tr_max_bytes (push_all rows t) = tr_max_bytes t"
  by (induction rows arbitrary: t) (auto simp: push_all_def)

lemma push_all_capacity [simp]:
  "max_chunks (push_all rows t) = max_chunks t" "tier_capacity (push_all rows t) = tier_capacity t"
  "chunk_bytes (push_all rows t) = chunk_bytes t"
  using bytes_cong[of "push_all rows t" t] by auto

lemma push_all_holds:
  assumes "has_samples l" and "t = tier_new l n mb"
  shows "tier_holds (push_all rows t) (take (tier_capacity t) rows)
    \<and> (tr_complete (push_all rows t) \<longleftrightarrow> length rows \<le> tier_capacity t)"
proof (induction rows rule: rev_induct)
  case Nil
  have "1 \<le> max_chunks t" by (simp add: max_chunks_def)
  then show ?case using assms(2)
    by (auto simp: push_all_def tier_holds_def tier_new_def cols_of_Nil[of l])
next
  case (snoc row rows)
  have step: "push_all (rows @ [row]) t = snd (tier_push (fst row) (snd row) (push_all rows t))"
    by (simp add: push_all_def case_prod_beta)
  have "has_samples (tr_level (push_all rows t))" using assms by (simp add: tier_new_def)
  from tier_holds_push[OF conjunct1[OF snoc] this, of "fst row" "snd row"] show ?case
    using snoc unfolding step by (auto split: if_splits simp: min_def)
qed

lemma allocated_within_budget:
  assumes "tier_holds t rows"
  shows "bytes_allocated t \<le> max (tr_max_bytes t) (chunk_bytes t)"
proof -
  have "length (tr_sealed t) + 1 \<le> max_chunks t" using assms by (auto simp: tier_holds_def)
  then have "bytes_allocated t \<le> max_chunks t * chunk_bytes t"
    unfolding bytes_allocated_def by (intro mult_le_mono1)
  moreover have "tr_max_bytes t div max (chunk_bytes t) 1 * chunk_bytes t \<le> tr_max_bytes t"
    by (cases "chunk_bytes t = 0") (auto simp: max_def)
  ultimately show ?thesis by (auto simp: max_chunks_def max_def split: if_splits)
qed

lemma tier_contents:
  assumes "tier_holds t rows"
  shows "tier_records t = map (kept_fields (tr_level t) \<circ> fst) rows"
    and "\<forall>row \<in> set rows. length (snd row) = tr_n_group_keys t \<Longrightarrow> tier_groups t = map snd rows"
proof -
  obtain chunks a where h: "tr_sealed t = map (cols_of (tr_level t)) chunks" "tr_active t = cols_of (tr_level t) a"
      "rows = concat chunks @ a" using assms by (auto simp: tier_holds_def)
  show "tier_records t = map (kept_fields (tr_level t) \<circ> fst) rows"
    by (simp add: tier_records_def h records_cols_of comp_def map_concat cong: map_cong)
  assume n: "\<forall>row \<in> set rows. length (snd row) = tr_n_group_keys t"
  have "map (group_ids_at (tr_n_group_keys t) (cols_of l c)) [0..<length c] = map snd c" if "c \<in> set (chunks @ [a])" for c l
    using that n h(3) by (intro groups_cols_of) auto
  then show "tier_groups t = map snd rows" by (simp add: tier_groups_def h comp_def map_concat cong: map_cong)
qed

text \<open>
  The sample tier's budget (C26). Of the records offered, a tier that keeps samples holds exactly the
  first ones, as many as whole chunks fit its budget (one chunk at least), each with the fields its
  level retains and with its own group ids, in the order of arrival. It reports itself complete exactly when none was dropped,
  and it never allocates more than its budget, or one chunk where the budget is smaller.
\<close>

theorem sample_tier_keeps_prefix:
  fixes l n mb rows
  defines "t \<equiv> push_all rows (tier_new l n mb)"
  assumes "has_samples l" and "n \<le> max_group_keys" and "\<forall>row \<in> set rows. length (snd row) = n"
  shows "tier_records t = map (kept_fields l \<circ> fst) (take (max_chunks t * chunk_records) rows)
    \<and> tier_groups t = map snd (take (max_chunks t * chunk_records) rows)
    \<and> (tr_complete t \<longleftrightarrow> length rows \<le> max_chunks t * chunk_records)
    \<and> tr_retained t = min (length rows) (max_chunks t * chunk_records)
    \<and> bytes_allocated t \<le> max mb (chunk_bytes t)"
proof -
  let ?t0 = "tier_new l n mb"
  have cap: "tier_capacity ?t0 = max_chunks t * chunk_records" by (simp add: t_def tier_capacity_def)
  have h: "tier_holds t (take (max_chunks t * chunk_records) rows)"
    and c: "tr_complete t \<longleftrightarrow> length rows \<le> max_chunks t * chunk_records"
    using push_all_holds[OF assms(2) refl, where n = n and mb = mb and rows = rows] by (auto simp: cap t_def[symmetric])
  have lv: "tr_level t = l" "tr_n_group_keys t = n" "tr_max_bytes t = mb"
    using assms(3) by (simp_all add: t_def tier_new_def)
  have "\<forall>row \<in> set (take (max_chunks t * chunk_records) rows). length (snd row) = n"
    using assms(4) by (auto dest: in_set_takeD)
  then show ?thesis
    using tier_contents[OF h] allocated_within_budget[OF h] h c lv by (auto simp: tier_holds_def min_def)
qed

text \<open>Status and kind survive their packing into one byte.\<close>

lemma flags_roundtrip:
  "flags_is_error (pack_flags st k) \<longleftrightarrow> (\<exists>m. st = SError m)" "flags_kind (pack_flags st k) = k"
  by (cases st; cases k; simp add: flags_is_error_def flags_kind_def pack_flags_def Let_def)+

definition demo_row :: "int \<Rightarrow> row" where
  "demo_row i = (\<lparr>sr_start_ns = i, sr_end_ns = i + 5, sr_name_id = 2, sr_flags = 2, sr_span_id = 7, sr_parent_span_id = 0,
     sr_trace_id = 9\<rparr>, [3])"

theorem sample_tier_keeps_prefix_witness:
  "let t = push_all [demo_row 1, demo_row 4] (tier_new Timing 1 100) in
     tier_records t = [kept_fields Timing (fst (demo_row 1)), kept_fields Timing (fst (demo_row 4))]
     \<and> tier_groups t = [[3], [3]] \<and> tr_complete t \<and> tr_retained t = 2 \<and> bytes_allocated t \<le> 204800"
proof -
  let ?t = "push_all [demo_row 1, demo_row 4] (tier_new Timing 1 100)"
  have "chunk_bytes ?t = 204800" "max_chunks ?t = 1"
    by (simp_all add: chunk_bytes_def max_chunks_def bytes_per_record_def tier_new_def level_bytes_def
        max_group_keys_def bytes_per_group_key_def chunk_records_def)
  then show ?thesis
    using sample_tier_keeps_prefix[of Timing 1 "[demo_row 1, demo_row 4]" 100]
    by (simp add: demo_row_def has_samples_def max_group_keys_def chunk_records_def Let_def)
qed

section \<open>The tiers of a collector\<close>

definition sum_of :: "('v \<Rightarrow> 'n::comm_monoid_add) \<Rightarrow> ('k \<times> 'v) list \<Rightarrow> 'n" where
  "sum_of m kvs = sum_list (map (m \<circ> snd) kvs)"

text \<open>The statistics of a batch of spans.\<close>

definition record_list :: "'s sketch_crate \<Rightarrow> (duration \<times> bool) list \<Rightarrow> 's exact_stats" where
  "record_list sk ds = fold (\<lambda>(d, err). stats_record sk d err) ds (stats_new sk)"

text \<open>A counter of the exact tier: nothing in a new statistic, and \<open>inc\<close> more for each span.\<close>

locale tally =
  fixes sk :: "'s sketch_crate" and m :: "'s exact_stats \<Rightarrow> 'n::comm_monoid_add"
    and inc :: "duration \<Rightarrow> bool \<Rightarrow> 'n"
  assumes tally_new: "m (stats_new sk) = 0"
    and tally_record: "m (stats_record sk d err s) = m s + inc d err"
begin

lemma sum_of_record_in: "sum_of m (record_in sk k d err kvs) = sum_of m kvs + inc d err"
proof (induction kvs)
  case (Cons p kvs)
  then show ?case by (cases p) (auto simp: sum_of_def record_in_def tally_record ac_simps)
qed (simp add: sum_of_def record_in_def tally_new tally_record)

lemma tally_fold:
  "m (fold (\<lambda>(d, err). stats_record sk d err) ds s) = m s + sum_list (map (\<lambda>(d, err). inc d err) ds)"
  by (induction ds arbitrary: s) (auto simp: tally_record ac_simps)

lemma tally_append: "m (record_list sk (ds @ es)) = m (record_list sk ds) + m (record_list sk es)"
  unfolding record_list_def tally_fold tally_new by (simp add: ac_simps)

end

lemmas tally_defs = stats_new_def stats_record_def Let_def case_prod_beta

interpretation tc: tally sk xs_count "\<lambda>d err. 1" for sk :: "'s sketch_crate"
  by unfold_locales (auto simp: tally_defs split: duration.split)

interpretation te: tally sk xs_error_count "\<lambda>d err. if err then 1 else 0" for sk :: "'s sketch_crate"
  by unfold_locales (auto simp: tally_defs split: duration.split)

interpretation tn: tally sk xs_negative "\<lambda>d err. case d of DurNegative _ \<Rightarrow> 1 | _ \<Rightarrow> 0" for sk :: "'s sketch_crate"
  by unfold_locales (auto simp: tally_defs split: duration.split)

interpretation tm: tally sk xs_malformed "\<lambda>d err. case d of DurMalformed \<Rightarrow> 1 | _ \<Rightarrow> 0" for sk :: "'s sketch_crate"
  by unfold_locales (auto simp: tally_defs split: duration.split)

interpretation tt: tally sk xs_total_ns "\<lambda>d err. case d of DurOk ns \<Rightarrow> ns | _ \<Rightarrow> 0" for sk :: "'s sketch_crate"
  by unfold_locales (auto simp: tally_defs split: duration.split)

interpretation tr: tally sk xs_out_of_range
    "\<lambda>d err. case d of DurOk ns \<Rightarrow> if 0 \<le> ns \<and> \<not> f64_le (round_f64 (of_int ns)) min_ns \<and> f64_lt max_ns (round_f64 (of_int ns)) then 1 else 0 | _ \<Rightarrow> 0"
  for sk :: "'s sketch_crate"
  by unfold_locales (auto simp: tally_defs sketch_record_def split: duration.split)

text \<open>The counters of a breakdown, added up, against those of the total.\<close>

definition adds_up :: "('k \<times> 's exact_stats) list \<Rightarrow> 's exact_stats \<Rightarrow> bool" where
  "adds_up kvs s \<longleftrightarrow>
     sum_of xs_count kvs = xs_count s \<and> sum_of xs_error_count kvs = xs_error_count s
     \<and> sum_of xs_total_ns kvs = xs_total_ns s \<and> sum_of xs_negative kvs = xs_negative s
     \<and> sum_of xs_malformed kvs = xs_malformed s \<and> sum_of xs_out_of_range kvs = xs_out_of_range s"

lemma adds_up_new [simp]: "adds_up [] (stats_new sk)"
  by (simp add: adds_up_def sum_of_def stats_new_def)

lemma adds_up_record: "adds_up kvs s \<Longrightarrow> adds_up (record_in sk k d err kvs) (stats_record sk d err s)"
  unfolding adds_up_def
  by (simp only: tc.sum_of_record_in te.sum_of_record_in tn.sum_of_record_in tm.sum_of_record_in tt.sum_of_record_in
      tr.sum_of_record_in tc.tally_record te.tally_record tn.tally_record tm.tally_record tt.tally_record
      tr.tally_record simp_thms)

subsection \<open>The interner\<close>

definition interner_inv :: "interner \<Rightarrow> bool" where
  "interner_inv t \<longleftrightarrow>
     length (in_to_value t) \<le> in_cap t
     \<and> (\<forall>v i. map_of (in_to_id t) v = Some i \<longrightarrow>
           (\<exists>k < length (in_to_value t). i = first_real_id + k \<and> in_to_value t ! k = v))"

lemma interner_inv_new [simp]: "interner_inv (interner_new cap)"
  by (simp add: interner_inv_def interner_new_def)

lemma resolve_real: "k < length (in_to_value t) \<Longrightarrow> resolve (first_real_id + k) t = in_to_value t ! k"
  by (simp add: resolve_def first_real_id_def overflow_id_def absent_id_def)

lemma intern_cases:
  assumes "intern v t = (i, t')" and inv: "interner_inv t"
  shows "interner_inv t' \<and> in_cap t' = in_cap t \<and> (\<exists>vs. in_to_value t' = in_to_value t @ vs)
     \<and> (i = overflow_id \<and> in_capped t' \<or> (\<exists>k < in_cap t. i = first_real_id + k \<and> resolve i t' = v))"
proof (cases "map_of (in_to_id t) v")
  case (Some j)
  then obtain k where "k < length (in_to_value t)" "j = first_real_id + k" "in_to_value t ! k = v"
    using inv by (auto simp: interner_inv_def)
  moreover have "length (in_to_value t) \<le> in_cap t" using inv by (simp add: interner_inv_def)
  ultimately show ?thesis using Some assms resolve_real[of k t] by (auto simp: intern_def)
next
  case None
  show ?thesis
  proof (cases "in_cap t \<le> length (in_to_value t)")
    case True
    then show ?thesis using None assms by (auto simp: intern_def interner_inv_def)
  next
    case False
    then have t': "i = first_real_id + length (in_to_value t)"
      "t' = t\<lparr>in_to_value := in_to_value t @ [v], in_to_id := hm_insert v i (in_to_id t)\<rparr>"
      using None assms by (auto simp: intern_def Let_def)
    have "interner_inv t'" using inv False unfolding interner_inv_def t' by (force simp: nth_append)
    moreover have "resolve i t' = v"
      using resolve_real[of "length (in_to_value t)" t'] by (simp add: t')
    ultimately show ?thesis using False by (auto simp: t')
  qed
qed

text \<open>An id handed out keeps its meaning while values are added.\<close>

lemma intern_stable:
  assumes "intern v t = (i, t')" and "interner_inv t" and "k < length (in_to_value t)"
  shows "resolve (first_real_id + k) t' = resolve (first_real_id + k) t"
proof -
  obtain vs where "in_to_value t' = in_to_value t @ vs" using intern_cases[OF assms(1,2)] by blast
  then show ?thesis using assms(3) by (simp add: resolve_real nth_append)
qed

lemma intern_keeps_capped: "intern v t = (i, t') \<Longrightarrow> in_capped t \<Longrightarrow> in_capped t'"
  by (auto simp: intern_def Let_def split: option.splits if_splits)

subsection \<open>The life of a collector\<close>

text \<open>Every state a collector can reach; a change of definition keeps the group keys.\<close>

inductive collector_reachable :: "'s sketch_crate \<Rightarrow> (json \<Rightarrow> string) \<Rightarrow> 's collector \<Rightarrow> bool" for sk ns where
  fresh: "collector_reachable sk ns (collector_new sk d now)"
| restored: "collector_reachable sk ns (new_restored sk d armed_at restored_at)"
| span: "collector_reachable sk ns c \<Longrightarrow> collector_reachable sk ns (ingest sk ns sp c)"
| reset: "collector_reachable sk ns c \<Longrightarrow> collector_reachable sk ns (snd (swap sk now c))"
| redefined: "collector_reachable sk ns c \<Longrightarrow> cd_group_keys d = cd_group_keys (co_def c)
    \<Longrightarrow> collector_reachable sk ns (with_def sk d c)"

definition names_inv :: "'s collector_inner \<Rightarrow> bool" where
  "names_inv g \<longleftrightarrow>
     adds_up (ci_per_name g) (ci_total g) \<and> distinct (keys_of (ci_per_name g)) \<and> interner_inv (ci_names g)
     \<and> in_cap (ci_names g) = default_name_cap
     \<and> set (keys_of (ci_per_name g)) \<subseteq> insert overflow_id {first_real_id..<first_real_id + default_name_cap}
     \<and> (overflow_id \<in> set (keys_of (ci_per_name g)) \<longrightarrow> in_capped (ci_names g))"

definition groups_inv :: "nat \<Rightarrow> 's collector_inner \<Rightarrow> bool" where
  "groups_inv n g \<longleftrightarrow>
     (if n = 0 then ci_per_group g = [] else adds_up (ci_per_group g) (ci_total g)) \<and> distinct (keys_of (ci_per_group g))
     \<and> card (set (keys_of (ci_per_group g)) - {replicate n overflow_id}) \<le> max_group_tuples"

definition samples_inv :: "'s collector_inner \<Rightarrow> bool" where
  "samples_inv g \<longleftrightarrow>
     xs_negative (ci_total g) + xs_malformed (ci_total g) \<le> xs_count (ci_total g)
     \<and> tr_retained (ci_samples g) \<le> well_formed_count (ci_total g)
     \<and> (has_samples (tr_level (ci_samples g)) \<and> tr_complete (ci_samples g)
          \<longrightarrow> tr_retained (ci_samples g) = well_formed_count (ci_total g))"

definition inner_inv :: "nat \<Rightarrow> 's collector_inner \<Rightarrow> bool" where
  "inner_inv n g \<longleftrightarrow> names_inv g \<and> groups_inv n g \<and> samples_inv g"

lemma inner_inv_new: "inner_inv n (inner_new sk d now)"
  by (auto simp: inner_inv_def names_inv_def groups_inv_def samples_inv_def inner_new_def interner_new_def
      interner_inv_def well_formed_count_def stats_new_def tier_new_def adds_up_def sum_of_def)

text \<open>The invariants read only the fields they are about.\<close>

lemma names_inv_cong:
  "ci_total g = ci_total h \<Longrightarrow> ci_per_name g = ci_per_name h \<Longrightarrow> ci_names g = ci_names h \<Longrightarrow> names_inv g = names_inv h"
  by (simp add: names_inv_def)

lemma groups_inv_cong:
  "ci_total g = ci_total h \<Longrightarrow> ci_per_group g = ci_per_group h \<Longrightarrow> groups_inv n g = groups_inv n h"
  by (simp add: groups_inv_def)

lemma samples_inv_cong:
  "ci_total g = ci_total h \<Longrightarrow> ci_samples g = ci_samples h \<Longrightarrow> samples_inv g = samples_inv h"
  by (simp add: samples_inv_def)

lemma keys_record_in: "set (keys_of (record_in sk k d err m)) = insert k (set (keys_of m))"
  "distinct (keys_of m) \<Longrightarrow> distinct (keys_of (record_in sk k d err m))"
  by (auto simp: record_in_def)

lemma names_inv_span:
  assumes inv: "names_inv g" and i: "intern v (ci_names g) = (i, names)"
    and h: "ci_total h = stats_record sk d err (ci_total g)" "ci_per_name h = record_in sk i d err (ci_per_name g)"
      "ci_names h = names"
  shows "names_inv h"
proof -
  have inv_i: "interner_inv (ci_names g)" using inv by (simp add: names_inv_def)
  note c = intern_cases[OF i inv_i] intern_keeps_capped[OF i]
  then show ?thesis using inv
    unfolding names_inv_def h keys_record_in(1)
    by (auto simp: keys_record_in(2) adds_up_record overflow_id_def first_real_id_def)
qed

lemma groups_inv_span:
  assumes inv: "groups_inv n g" and n: "0 < n"
    and over: "ids = (if map_of (ci_per_group g) ids0 = None \<and> max_group_tuples \<le> length (ci_per_group g)
      then replicate n overflow_id else ids0)"
    and h: "ci_total h = stats_record sk d err (ci_total g)" "ci_per_group h = record_in sk ids d err (ci_per_group g)"
  shows "groups_inv n h"
proof -
  let ?K = "set (keys_of (ci_per_group g))" and ?o = "replicate n overflow_id"
  have dist: "distinct (keys_of (ci_per_group g))" using inv by (simp add: groups_inv_def)
  then have card: "card ?K = length (ci_per_group g)" using distinct_card by fastforce
  have "card (insert ids ?K - {?o}) \<le> max_group_tuples"
  proof (cases "ids \<in> insert ?o ?K")
    case True
    then have "insert ids ?K - {?o} = ?K - {?o}" by auto
    then show ?thesis using inv by (simp add: groups_inv_def)
  next
    case False
    then have "length (ci_per_group g) < max_group_tuples"
      using over by (auto simp: map_of_eq_None_iff split: if_splits)
    moreover have "card (insert ids ?K - {?o}) \<le> card (insert ids ?K)" by (rule card_mono) auto
    moreover have "card (insert ids ?K) \<le> Suc (card ?K)" by (simp add: card_insert_if)
    ultimately show ?thesis using card by linarith
  qed
  moreover have "adds_up (ci_per_group h) (ci_total h)"
    using inv n unfolding h groups_inv_def by (intro adds_up_record) simp
  moreover have "distinct (keys_of (ci_per_group h))" unfolding h by (rule keys_record_in(2)[OF dist])
  ultimately show ?thesis using n unfolding groups_inv_def h(2) keys_record_in(1) by simp
qed

lemma well_formed_record:
  "xs_negative s + xs_malformed s \<le> xs_count s \<Longrightarrow>
     well_formed_count (stats_record sk d err s) = well_formed_count s + (case d of DurOk _ \<Rightarrow> 1 | _ \<Rightarrow> 0)"
  by (auto simp: well_formed_count_def stats_record_def Let_def case_prod_beta split: duration.split)

lemma push_retained:
  "has_samples (tr_level t) \<and> tr_complete (snd (tier_push r g t)) \<longrightarrow>
     tr_complete t \<and> tr_retained (snd (tier_push r g t)) = Suc (tr_retained t)"
  "tr_retained (snd (tier_push r g t)) \<le> Suc (tr_retained t)"
  by (auto simp: tier_push_def Let_def)

lemma samples_inv_span:
  assumes inv: "samples_inv g" and h: "ci_total h = stats_record sk d err (ci_total g)"
    and s: "ci_samples h = (case d of DurOk _ \<Rightarrow> snd (tier_push r gids (ci_samples g)) | _ \<Rightarrow> ci_samples g)"
  shows "samples_inv h"
proof -
  let ?s = "ci_total g"
  have le: "xs_negative ?s + xs_malformed ?s \<le> xs_count ?s" using inv by (simp add: samples_inv_def)
  have "xs_negative (ci_total h) + xs_malformed (ci_total h) \<le> xs_count (ci_total h)"
    unfolding h tn.tally_record tm.tally_record tc.tally_record using le by (auto split: duration.split)
  then show ?thesis
    using inv push_retained[where t = "ci_samples g" and r = r and g = gids] unfolding samples_inv_def h well_formed_record[OF le] s
    by (auto split: duration.splits)
qed

lemma classify_ok: "classify sp = DurOk d \<Longrightarrow> \<exists>a b. nanos_opt (sp_start_time sp) = Some a \<and> nanos_opt (sp_end_time sp) = Some b"
  by (auto simp: classify_def Let_def split: option.splits if_splits)

lemma ingest_keeps_def [simp]: "co_def (ingest sk ns sp c) = co_def c"
  by (simp add: ingest_def Let_def case_prod_beta)

lemma inner_inv_span:
  assumes inv: "inner_inv (length (cd_group_keys (co_def c))) (co_inner c)"
  shows "inner_inv (length (cd_group_keys (co_def c))) (co_inner (ingest sk ns sp c))"
proof -
  let ?g = "co_inner c" and ?h = "co_inner (ingest sk ns sp c)" and ?d = "classify sp" and ?e = "span_is_error sp"
  let ?keys = "cd_group_keys (co_def c)" and ?n = "length (cd_group_keys (co_def c))"
  obtain i names where i: "intern (sp_name sp) (ci_names ?g) = (i, names)" by (cases "intern (sp_name sp) (ci_names ?g)")
  obtain ids0 vals where ids0: "intern_groups ns (sp_attributes sp) ?keys (ci_group_values ?g) = (ids0, vals)"
    by (cases "intern_groups ns (sp_attributes sp) ?keys (ci_group_values ?g)")
  define ids where "ids = (if map_of (ci_per_group ?g) ids0 = None \<and> max_group_tuples \<le> length (ci_per_group ?g)
      then replicate ?n overflow_id else ids0)"
  have total: "ci_total ?h = stats_record sk ?d ?e (ci_total ?g)" and names: "ci_names ?h = names"
    and per_name: "ci_per_name ?h = record_in sk i ?d ?e (ci_per_name ?g)"
    and per_group: "ci_per_group ?h = (if ?keys = [] then ci_per_group ?g else record_in sk ids ?d ?e (ci_per_group ?g))"
    using i ids0 by (auto simp: ingest_def Let_def ids_def split: duration.split option.split)
  have samples: "\<exists>r gids. ci_samples ?h = (case ?d of DurOk _ \<Rightarrow> snd (tier_push r gids (ci_samples ?g)) | _ \<Rightarrow> ci_samples ?g)"
    using i ids0 classify_ok[of sp]
    by (cases ?d) (auto simp: ingest_def Let_def split: option.split)
  have "names_inv ?h" using names_inv_span[OF _ i total per_name names] inv by (simp add: inner_inv_def)
  moreover have "groups_inv ?n ?h"
  proof (cases "?keys = []")
    case True
    then show ?thesis using inv per_group by (simp add: inner_inv_def groups_inv_def)
  next
    case False
    then show ?thesis
      using groups_inv_span[OF _ _ ids_def total] inv per_group by (simp add: inner_inv_def)
  qed
  moreover have "samples_inv ?h" using samples samples_inv_span[OF _ total] inv by (auto simp: inner_inv_def)
  ultimately show ?thesis by (simp add: inner_inv_def)
qed

lemma collector_reachable_inv:
  "collector_reachable sk ns c \<Longrightarrow> inner_inv (length (cd_group_keys (co_def c))) (co_inner c)"
proof (induction rule: collector_reachable.induct)
  case (fresh d now)
  then show ?case using inner_inv_new by (simp add: collector_new_def)
next
  case (restored d armed_at restored_at)
  have "names_inv (co_inner (new_restored sk d armed_at restored_at)) = names_inv (inner_new sk d armed_at)"
    by (rule names_inv_cong) (simp_all add: new_restored_def collector_new_def Let_def)
  then show ?case using inner_inv_new[of "length (cd_group_keys d)" sk d armed_at]
    by (simp add: inner_inv_def new_restored_def collector_new_def Let_def groups_inv_def samples_inv_def)
next
  case (span c sp)
  then show ?case using inner_inv_span by simp
next
  case (reset c now)
  then show ?case using inner_inv_new[of "length (cd_group_keys (co_def c))" sk "co_def c"]
    by (simp add: inner_inv_def swap_def Let_def names_inv_def groups_inv_def samples_inv_def)
next
  case (redefined c d)
  then show ?case
    by (simp add: inner_inv_def with_def_def Let_def names_inv_def groups_inv_def samples_inv_def)
qed

text \<open>
  The tiers agree (C27). In every state a collector reaches from its arming or its restoration by
  spans, resets and changes of its description, the statistics by span name, and by group where it
  has group keys, add up to the total (spans, errors, nanoseconds, rejected and clamped durations),
  the breakdowns stay within their caps plus the overflow entry, a name folded into the overflow
  entry has set the flag that says so, and the sample tier holds no more records than there were
  spans of usable duration, and exactly that many while it calls itself complete.
\<close>

theorem collector_tiers_agree:
  assumes "collector_reachable sk ns c"
  shows "adds_up (ci_per_name (co_inner c)) (ci_total (co_inner c))
    \<and> (cd_group_keys (co_def c) \<noteq> [] \<longrightarrow> adds_up (ci_per_group (co_inner c)) (ci_total (co_inner c)))
    \<and> length (ci_per_name (co_inner c)) \<le> default_name_cap + 1
    \<and> length (ci_per_group (co_inner c)) \<le> max_group_tuples + 1
    \<and> (map_of (ci_per_name (co_inner c)) overflow_id \<noteq> None \<longrightarrow> cardinality_capped (co_inner c))
    \<and> tr_retained (ci_samples (co_inner c)) \<le> well_formed_count (ci_total (co_inner c))
    \<and> (has_samples (tr_level (ci_samples (co_inner c))) \<and> tr_complete (ci_samples (co_inner c))
         \<longrightarrow> tr_retained (ci_samples (co_inner c)) = well_formed_count (ci_total (co_inner c)))"
proof -
  let ?g = "co_inner c" and ?n = "length (cd_group_keys (co_def c))"
  have n: "names_inv ?g" and gr: "groups_inv ?n ?g" and s: "samples_inv ?g"
    using collector_reachable_inv[OF assms] by (auto simp: inner_inv_def)
  have "length (ci_per_name ?g) = card (set (keys_of (ci_per_name ?g)))"
    using n by (metis distinct_card length_map names_inv_def)
  also have "\<dots> \<le> card (insert overflow_id {first_real_id..<first_real_id + default_name_cap})"
    using n by (intro card_mono) (auto simp: names_inv_def)
  also have "\<dots> \<le> default_name_cap + 1" by (simp add: card_insert_if)
  finally have ln: "length (ci_per_name ?g) \<le> default_name_cap + 1" .
  let ?K = "set (keys_of (ci_per_group ?g))" and ?o = "replicate ?n overflow_id"
  have "length (ci_per_group ?g) = card ?K" using gr by (metis distinct_card length_map groups_inv_def)
  moreover have "card ?K \<le> card (?K - {?o}) + 1" by (auto simp: card_Diff_singleton_if)
  moreover have "card (?K - {?o}) \<le> max_group_tuples" using gr by (simp add: groups_inv_def)
  ultimately have lg: "length (ci_per_group ?g) \<le> max_group_tuples + 1" by linarith
  have "map_of (ci_per_name ?g) overflow_id \<noteq> None \<longrightarrow> cardinality_capped ?g"
    using n by (auto simp: names_inv_def cardinality_capped_def map_of_eq_None_iff)
  then show ?thesis using n gr s ln lg by (auto simp: names_inv_def groups_inv_def samples_inv_def split: if_splits)
qed

definition demo_sketch :: "f64 list sketch_crate" where
  "demo_sketch = \<lparr>dd_new = [], dd_add = (\<lambda>x s. s @ [x]), dd_merge = (\<lambda>a b. Some (a @ b))\<rparr>"

definition demo_collected_span :: "string \<Rightarrow> int \<Rightarrow> span_entry" where
  "demo_collected_span name stop =
     \<lparr>sp_seq = 1, sp_trace_id = 1, sp_span_id = 2, sp_parent_span_id = None, sp_start_time = 5, sp_end_time = stop,
      sp_duration_ms = Fin 0, sp_name = name, sp_kind = Server, sp_service_name = ''api'', sp_status = SError ''x'',
      sp_attributes = [(''db'', JString ''users'')], sp_events = []\<rparr>"

definition demo_definition :: collector_def where
  "demo_definition = \<lparr>cd_name = ''c'', cd_filter_string = ''ALL'', cd_filter = FAll, cd_level = Timing,
     cd_group_keys = [''db''], cd_max_sample_bytes = 0, cd_description = None, cd_threshold = None\<rparr>"

definition demo_collector :: "f64 list collector" where
  "demo_collector =
     ingest demo_sketch (\<lambda>_. []) (demo_collected_span ''get'' 3) (snd (swap demo_sketch 9
       (ingest demo_sketch (\<lambda>_. []) (demo_collected_span ''put'' 8) (collector_new demo_sketch demo_definition 1))))"

theorem collector_tiers_agree_witness:
  "collector_reachable demo_sketch (\<lambda>_. []) demo_collector
   \<and> adds_up (ci_per_name (co_inner demo_collector)) (ci_total (co_inner demo_collector))
   \<and> length (ci_per_group (co_inner demo_collector)) \<le> 257"
proof -
  have r: "collector_reachable demo_sketch (\<lambda>_. []) demo_collector"
    unfolding demo_collector_def by (intro collector_reachable.intros)
  then show ?thesis using collector_tiers_agree[OF r] by (simp add: max_group_tuples_def)
qed

section \<open>Merging\<close>

definition fold_opt :: "(int \<Rightarrow> int \<Rightarrow> int) \<Rightarrow> int option \<Rightarrow> duration \<Rightarrow> int option" where
  "fold_opt f a d = (case d of DurOk ns \<Rightarrow> Some (case a of None \<Rightarrow> ns | Some m \<Rightarrow> f m ns) | _ \<Rightarrow> a)"

lemma opt_combine_step:
  assumes "\<And>x y z. f (f x y) z = f x (f y z)"
  shows "opt_combine f a (fold_opt f b d) = fold_opt f (opt_combine f a b) d"
  using assms by (auto simp: opt_combine_def fold_opt_def split: duration.split option.split)

lemma record_list_snoc: "record_list sk (ds @ [(d, err)]) = stats_record sk d err (record_list sk ds)"
  by (simp add: record_list_def)

lemma record_extremes:
  "xs_min_ns (stats_record sk d err s) = fold_opt min (xs_min_ns s) d"
  "xs_max_ns (stats_record sk d err s) = fold_opt max (xs_max_ns s) d"
  by (auto simp: stats_record_def fold_opt_def Let_def case_prod_beta split: duration.split)

lemma record_list_extremes:
  "xs_min_ns (record_list sk (ds @ es)) = opt_combine min (xs_min_ns (record_list sk ds)) (xs_min_ns (record_list sk es))"
  "xs_max_ns (record_list sk (ds @ es)) = opt_combine max (xs_max_ns (record_list sk ds)) (xs_max_ns (record_list sk es))"
proof (induction es rule: rev_induct)
  case Nil
  { case 1 show ?case by (simp add: record_list_def stats_new_def opt_combine_def split: option.split) }
  { case 2 show ?case by (simp add: record_list_def stats_new_def opt_combine_def split: option.split) }
next
  case (snoc p es)
  obtain d err where p: "p = (d, err)" by (cases p)
  { case 1 show ?case
      using snoc(1) by (simp add: p record_list_snoc append_assoc[symmetric] record_extremes opt_combine_step min.assoc del: append_assoc) }
  { case 2 show ?case
      using snoc(2) by (simp add: p record_list_snoc append_assoc[symmetric] record_extremes opt_combine_step max.assoc del: append_assoc) }
qed

lemma record_list_layout: "dsk_layout (xs_sketch (record_list sk ds)) = current_layout"
proof (induction ds rule: rev_induct)
  case (snoc p ds)
  then show ?case by (cases p) (auto simp: record_list_snoc stats_record_def sketch_record_def Let_def split: duration.split)
qed (simp add: record_list_def stats_new_def sketch_new_def)

text \<open>
  Merging statistics. Where the sketch crate merges the two sketches, merging the statistics of
  two batches of spans gives the statistics of recording both, in every exact field, with the merged
  sketch; sketches of different layouts are refused.
\<close>

theorem stats_merge_is_concat:
  assumes "dd_merge sk (dsk_inner (xs_sketch (record_list sk ds))) (dsk_inner (xs_sketch (record_list sk es))) = Some m"
    and "dsk_layout old \<noteq> current_layout"
  shows "stats_merge sk (record_list sk ds) (record_list sk es)
      = Inr ((record_list sk (ds @ es))\<lparr>xs_sketch := \<lparr>dsk_inner = m, dsk_layout = current_layout\<rparr>\<rparr>)
    \<and> stats_merge sk (record_list sk ds) ((record_list sk es)\<lparr>xs_sketch := old\<rparr>)
      = Inl (LayoutMismatch (dsk_layout old) current_layout)"
proof -
  have sk: "sketch_merge sk (xs_sketch (record_list sk ds)) (xs_sketch (record_list sk es)) =
      Inr \<lparr>dsk_inner = m, dsk_layout = current_layout\<rparr>"
    using assms(1) record_list_layout[of sk ds] record_list_layout[of sk es]
    by (cases "xs_sketch (record_list sk ds)") (simp add: sketch_merge_def)
  have "stats_merge sk (record_list sk ds) (record_list sk es)
      = Inr ((record_list sk (ds @ es))\<lparr>xs_sketch := \<lparr>dsk_inner = m, dsk_layout = current_layout\<rparr>\<rparr>)"
    unfolding stats_merge_def sk bind_res_simps record_list_extremes[symmetric]
    by (intro arg_cong[where f = Inr] exact_stats.equality)
      (simp_all add: tc.tally_append te.tally_append tn.tally_append tm.tally_append tt.tally_append tr.tally_append)
  moreover have "stats_merge sk (record_list sk ds) ((record_list sk es)\<lparr>xs_sketch := old\<rparr>)
      = Inl (LayoutMismatch (dsk_layout old) current_layout)"
    using assms(2) record_list_layout[of sk ds] by (simp add: stats_merge_def sketch_merge_def)
  ultimately show ?thesis ..
qed

theorem stats_merge_is_concat_witness:
  "stats_merge demo_sketch (record_list demo_sketch [(DurOk 5, True)]) (record_list demo_sketch [(DurNegative 1, False), (DurOk 3, False)])
     = Inr ((record_list demo_sketch [(DurOk 5, True), (DurNegative 1, False), (DurOk 3, False)])\<lparr>xs_sketch :=
         \<lparr>dsk_inner = dsk_inner (xs_sketch (record_list demo_sketch [(DurOk 5, True)]))
             @ dsk_inner (xs_sketch (record_list demo_sketch [(DurNegative 1, False), (DurOk 3, False)])),
           dsk_layout = current_layout\<rparr>\<rparr>)"
proof -
  let ?old = "\<lparr>dsk_inner = [], dsk_layout = current_layout\<lparr>sl_max_num_bins := 1\<rparr>\<rparr> :: f64 list duration_sketch"
  have "dsk_layout ?old \<noteq> current_layout" by (simp add: current_layout_def max_num_bins_def)
  then show ?thesis
    using stats_merge_is_concat[of demo_sketch "[(DurOk 5, True)]" "[(DurNegative 1, False), (DurOk 3, False)]" _ ?old]
    by (simp add: demo_sketch_def)
qed

end
