(* ===== verification/Collector_Files.thy ===== *)
theory Collector_Files
  imports Collector_State Domain_Data
begin

text \<open>
  The recorded runs of a collector (\<open>collector/history.rs\<close>), the shape they and the collector have on
  disk and where the file lies (\<open>collector/persist.rs\<close>), and the span loss a run carries
  (\<open>receiver/metrics.rs\<close>). What a snapshot projects from its samples is opaque here, as it is to this
  code; the sketch crate's byte form is a pair of parameters.
\<close>

section \<open>Span loss\<close>

record trace_ingest_loss =
  tl_dropped :: u64
  tl_shed_batches :: u64
  tl_malformed :: u64

definition loss_since :: "trace_ingest_loss \<Rightarrow> trace_ingest_loss \<Rightarrow> trace_ingest_loss" where
  "loss_since l b =
     \<lparr>tl_dropped = tl_dropped l - tl_dropped b, tl_shed_batches = tl_shed_batches l - tl_shed_batches b,
      tl_malformed = tl_malformed l - tl_malformed b\<rparr>"

section \<open>Recorded runs\<close>

definition max_snapshots :: nat where "max_snapshots = 50"

record snapshot_policy =
  po_per_name :: bool
  po_per_group :: bool
  po_projections :: bool

definition policy_default :: snapshot_policy where
  "policy_default = \<lparr>po_per_name = True, po_per_group = True, po_projections = True\<rparr>"

definition policy_validate :: "retention \<Rightarrow> snapshot_policy \<Rightarrow> bool" where
  "policy_validate l p = (\<not> (po_projections p \<and> \<not> has_samples l))"

record ('s, 'p) stored_snapshot =
  sn_label :: string
  sn_description :: "string option"
  sn_meta :: json
  sn_taken_at :: int
  sn_def :: collector_def
  sn_policy :: snapshot_policy
  sn_window_start :: int
  sn_wall_ms :: f64
  sn_total :: "'s exact_stats"
  sn_per_name :: "(u32 \<times> 's exact_stats) list option"
  sn_per_group :: "(u32 list \<times> 's exact_stats) list option"
  sn_names :: interner
  sn_group_values :: "interner list"
  sn_ingest :: "trace_ingest_loss option"
  sn_projected :: 'p
  sn_sample_complete :: bool
  sn_cardinality_capped :: bool

text \<open>\<open>TimeDelta::num_microseconds\<close>: towards zero, absent outside 64 bits.\<close>

definition num_microseconds :: "int \<Rightarrow> int option" where
  "num_microseconds d =
     (let q = (if 0 \<le> d then d div 1000 else - ((- d) div 1000)) in if i64_min \<le> q \<and> q \<le> i64_max then Some q else None)"

definition wall_ms_of :: "int \<Rightarrow> int \<Rightarrow> f64" where
  "wall_ms_of taken_at start =
     (let us = (case num_microseconds (taken_at - start) of Some q \<Rightarrow> q | None \<Rightarrow> 0)
      in f64_max (f64_div_const (round_f64 (of_int us)) 1000) (Fin 0))"

definition from_view ::
  "string \<Rightarrow> string option \<Rightarrow> json \<Rightarrow> int \<Rightarrow> snapshot_policy \<Rightarrow> collector_def \<Rightarrow> 's collector_inner
     \<Rightarrow> trace_ingest_loss option \<Rightarrow> 'p \<Rightarrow> ('s, 'p) stored_snapshot" where
  "from_view label desc meta taken_at policy d g loss projected =
     \<lparr>sn_label = label, sn_description = desc, sn_meta = meta, sn_taken_at = taken_at, sn_def = d, sn_policy = policy,
      sn_window_start = window_start g, sn_wall_ms = wall_ms_of taken_at (window_start g), sn_total = ci_total g,
      sn_per_name = (if po_per_name policy then Some (ci_per_name g) else None),
      sn_per_group = (if po_per_group policy then Some (ci_per_group g) else None), sn_names = ci_names g,
      sn_group_values = ci_group_values g, sn_ingest = loss, sn_projected = projected,
      sn_sample_complete = tr_complete (ci_samples g), sn_cardinality_capped = cardinality_capped g\<rparr>"

record ('s, 'p) history =
  hi_snapshots :: "('s, 'p) stored_snapshot list"
  hi_next_auto :: u64
  hi_evicted :: u64
  hi_max :: nat

datatype history_error =
    DuplicateLabel string
  | InvalidLabel string
  | UnknownLabel string "string list"

definition is_valid_label :: "string \<Rightarrow> bool" where
  "is_valid_label l =
     (l \<noteq> [] \<and> list_all (\<lambda>c. is_ascii_alphanumeric c \<or> c = CHR ''.'' \<or> c = CHR ''_'' \<or> c = CHR ''-'') l)"

definition history_with_max :: "nat \<Rightarrow> ('s, 'p) history" where
  "history_with_max m = \<lparr>hi_snapshots = [], hi_next_auto = 1, hi_evicted = 0, hi_max = max m 1\<rparr>"

definition history_new :: "('s, 'p) history" where
  "history_new = history_with_max max_snapshots"

definition auto_label :: "nat \<Rightarrow> string" where
  "auto_label n = ''snapshot-'' @ nat_to_string n"

text \<open>The loop of \<open>reserve_label\<close>: it ends because each round passes a number some label has.\<close>

function reserve_auto :: "string list \<Rightarrow> nat \<Rightarrow> string \<times> nat" where
  "reserve_auto labels n =
     (if auto_label n \<in> set labels then reserve_auto labels (n + 1) else (auto_label n, n + 1))"
  by auto
termination
proof (relation "measure (\<lambda>(labels, n). card {k. n \<le> k \<and> auto_label k \<in> set labels})", goal_cases)
  case (2 labels n)
  have "inj auto_label" by (simp add: inj_def auto_label_def nat_to_string_inj)
  then have "finite {k. auto_label k \<in> set labels}" using finite_vimageI[of "set labels" auto_label] by (simp add: vimage_def)
  then have "finite {k. n \<le> k \<and> auto_label k \<in> set labels}" by (rule rev_finite_subset) auto
  moreover have "{k. n + 1 \<le> k \<and> auto_label k \<in> set labels} \<subset> {k. n \<le> k \<and> auto_label k \<in> set labels}"
    using 2 by (intro psubsetI) (auto simp: set_eq_iff intro!: exI[of _ n])
  ultimately show ?case by (auto intro: psubset_card_mono)
qed simp

declare reserve_auto.simps [simp del]

definition reserve_label :: "string option \<Rightarrow> ('s, 'p) history \<Rightarrow> (history_error + string) \<times> ('s, 'p) history" where
  "reserve_label requested h =
     (let labels = map sn_label (hi_snapshots h)
      in case requested of
           Some l \<Rightarrow>
             (if \<not> is_valid_label l then Inl (InvalidLabel l) else if l \<in> set labels then Inl (DuplicateLabel l) else Inr l, h)
         | None \<Rightarrow> (let (l, n) = reserve_auto labels (hi_next_auto h) in (Inr l, h\<lparr>hi_next_auto := n\<rparr>)))"

fun evict_oldest :: "nat \<Rightarrow> ('s, 'p) stored_snapshot list \<Rightarrow> u64 \<Rightarrow> ('s, 'p) stored_snapshot list \<times> u64" where
  "evict_oldest m [] n = ([], n)"
| "evict_oldest m (s # ss) n = (if m < length (s # ss) then evict_oldest m ss (n + 1) else (s # ss, n))"

definition history_push :: "('s, 'p) stored_snapshot \<Rightarrow> ('s, 'p) history \<Rightarrow> ('s, 'p) history" where
  "history_push s h =
     (let (ss, n) = evict_oldest (hi_max h) (hi_snapshots h @ [s]) (hi_evicted h) in h\<lparr>hi_snapshots := ss, hi_evicted := n\<rparr>)"

definition history_get :: "string \<Rightarrow> ('s, 'p) history \<Rightarrow> history_error + ('s, 'p) stored_snapshot" where
  "history_get l h =
     (case find (\<lambda>s. sn_label s = l) (hi_snapshots h) of
        Some s \<Rightarrow> Inr s | None \<Rightarrow> Inl (UnknownLabel l (map sn_label (hi_snapshots h))))"

definition restore_counters :: "u64 \<Rightarrow> u64 \<Rightarrow> ('s, 'p) history \<Rightarrow> ('s, 'p) history" where
  "restore_counters next_auto evicted h = h\<lparr>hi_next_auto := max next_auto 1, hi_evicted := evicted\<rparr>"

text \<open>Merging the runs of one arm; the check before each merge names the run that disagrees.\<close>

datatype merge_error =
    MergeEmpty
  | MergeLayoutMismatch sketch_layout sketch_layout
  | MergeDefinitionMismatch string string

definition sn_layout :: "('s, 'p) stored_snapshot \<Rightarrow> sketch_layout" where
  "sn_layout s = dsk_layout (xs_sketch (sn_total s))"

fun merge_rest ::
  "'s sketch_crate \<Rightarrow> sketch_layout \<Rightarrow> 's exact_stats \<Rightarrow> ('s, 'p) stored_snapshot list \<Rightarrow> merge_error + 's exact_stats" where
  "merge_rest sk layout acc [] = Inr acc"
| "merge_rest sk layout acc (s # ss) =
     (if sn_layout s \<noteq> layout then Inl (MergeLayoutMismatch layout (sn_layout s))
      else (case stats_merge sk acc (sn_total s) of
              Inl _ \<Rightarrow> Inl (MergeLayoutMismatch layout (sn_layout s))
            | Inr acc1 \<Rightarrow> merge_rest sk layout acc1 ss))"

definition history_merge :: "'s sketch_crate \<Rightarrow> ('s, 'p) stored_snapshot list \<Rightarrow> merge_error + 's exact_stats" where
  "history_merge sk ss =
     (case ss of [] \<Rightarrow> Inl MergeEmpty | s # rest \<Rightarrow> merge_rest sk (sn_layout s) (sn_total s) rest)"

section \<open>The form on disk\<close>

definition collector_format_version :: u32 where "collector_format_version = 1"

text \<open>\<open>i128::to_string\<close> and \<open>str::parse::<i128>\<close>.\<close>

definition int_to_string :: "int \<Rightarrow> string" where
  "int_to_string n = (if n < 0 then CHR ''-'' # nat_to_string (nat (- n)) else nat_to_string (nat n))"

definition parse_i128 :: "string \<Rightarrow> int option" where
  "parse_i128 s =
     (let (neg, ds) = (case strip_prefix ''-'' s of Some r \<Rightarrow> (True, r)
                       | None \<Rightarrow> (False, case strip_prefix ''+'' s of Some r \<Rightarrow> r | None \<Rightarrow> s));
          v = (if neg then - int (digits_value ds) else int (digits_value ds))
      in if ds = [] \<or> \<not> list_all is_ascii_digit ds \<or> v < - (2 ^ 127) \<or> 2 ^ 127 \<le> v then None else Some v)"

record sketch_bytes =
  pl_bytes :: "nat list"
  pl_layout :: sketch_layout

record persisted_exact =
  px_count :: u64
  px_total_ns :: string
  px_min_ns :: "int option"
  px_max_ns :: "int option"
  px_error_count :: u64
  px_negative :: u64
  px_malformed :: u64
  px_out_of_range :: u64
  px_sketch :: sketch_bytes

text \<open>\<open>to_bytes\<close> and \<open>from_bytes\<close> are the crate's; a layout of another algorithm or unit is unknown here.\<close>

definition exact_of :: "('s \<Rightarrow> nat list) \<Rightarrow> 's exact_stats \<Rightarrow> persisted_exact" where
  "exact_of to_bytes e =
     \<lparr>px_count = xs_count e, px_total_ns = int_to_string (xs_total_ns e), px_min_ns = xs_min_ns e, px_max_ns = xs_max_ns e,
      px_error_count = xs_error_count e, px_negative = xs_negative e, px_malformed = xs_malformed e,
      px_out_of_range = xs_out_of_range e,
      px_sketch = \<lparr>pl_bytes = to_bytes (dsk_inner (xs_sketch e)), pl_layout = dsk_layout (xs_sketch e)\<rparr>\<rparr>"

definition to_layout :: "sketch_layout \<Rightarrow> sketch_layout option" where
  "to_layout l = (if sl_algo l = sl_algo current_layout \<and> sl_unit l = sl_unit current_layout then Some l else None)"

datatype restore_error =
    UnknownLayout string
  | BadSketch
  | InconsistentCounts nat u64
  | TotalNotInteger
  | UnknownLevel string
  | FilterNoLongerParses string
  | BookmarkInFilter string
  | DomainInvalid string

definition exact_restore :: "(nat list \<Rightarrow> 's option) \<Rightarrow> persisted_exact \<Rightarrow> restore_error + 's exact_stats" where
  "exact_restore from_bytes p =
     (case to_layout (pl_layout (px_sketch p)) of
        None \<Rightarrow> Inl (UnknownLayout (sl_algo (pl_layout (px_sketch p))))
      | Some layout \<Rightarrow>
          (case from_bytes (pl_bytes (px_sketch p)) of
             None \<Rightarrow> Inl BadSketch
           | Some inner \<Rightarrow>
               let excluded = sat_add (px_negative p) (px_malformed p)
               in if px_count p < excluded then Inl (InconsistentCounts excluded (px_count p))
                  else (case parse_i128 (px_total_ns p) of
                          None \<Rightarrow> Inl TotalNotInteger
                        | Some tot \<Rightarrow>
                            Inr \<lparr>xs_count = px_count p, xs_total_ns = tot, xs_min_ns = px_min_ns p, xs_max_ns = px_max_ns p,
                                 xs_error_count = px_error_count p, xs_negative = px_negative p,
                                 xs_malformed = px_malformed p, xs_out_of_range = px_out_of_range p,
                                 xs_sketch = \<lparr>dsk_inner = inner, dsk_layout = layout\<rparr>\<rparr>)))"

record persisted_threshold =
  pt_metric :: string
  pt_group :: "string option"
  pt_op :: string
  pt_value :: f64
  pt_window_ms :: u64

definition threshold_of :: "threshold \<Rightarrow> persisted_threshold" where
  "threshold_of t =
     \<lparr>pt_metric = metric_as_str (th_metric t), pt_group = th_group t, pt_op = op_as_str (th_op t), pt_value = th_value t,
      pt_window_ms = th_window_ms t\<rparr>"

definition threshold_restore :: "persisted_threshold \<Rightarrow> threshold_parse_error + threshold" where
  "threshold_restore p =
     bind_res (metric_parse (pt_metric p)) (\<lambda>m. bind_res (op_parse (pt_op p)) (\<lambda>op.
       Inr \<lparr>th_metric = m, th_group = pt_group p, th_op = op, th_value = pt_value p, th_window_ms = pt_window_ms p\<rparr>))"

definition level_as_str :: "retention \<Rightarrow> string" where
  "level_as_str l = (case l of Scalar \<Rightarrow> ''scalar'' | Timing \<Rightarrow> ''timing'' | Tree \<Rightarrow> ''tree'')"

definition level_from_str :: "string \<Rightarrow> restore_error + retention" where
  "level_from_str s =
     (if s = ''scalar'' then Inr Scalar else if s = ''timing'' then Inr Timing else if s = ''tree'' then Inr Tree
      else Inl (UnknownLevel s))"

record 'p persisted_snapshot =
  ps_label :: string
  ps_description :: "string option"
  ps_meta :: json
  ps_taken_at :: int
  ps_window_start :: int
  ps_wall_ms :: f64
  ps_filter :: string
  ps_level :: string
  ps_group_keys :: "string list"
  ps_max_sample_bytes :: nat
  ps_collector_description :: "string option"
  ps_threshold :: "persisted_threshold option"
  ps_policy_per_name :: bool
  ps_policy_per_group :: bool
  ps_policy_projections :: bool
  ps_total :: persisted_exact
  ps_projected :: 'p
  ps_ingest_dropped :: "u64 option"
  ps_ingest_shed_batches :: "u64 option"
  ps_ingest_malformed :: "u64 option"
  ps_sample_complete :: bool
  ps_cardinality_capped :: bool

definition snapshot_of :: "('s \<Rightarrow> nat list) \<Rightarrow> ('s, 'p) stored_snapshot \<Rightarrow> 'p persisted_snapshot" where
  "snapshot_of to_bytes s =
     \<lparr>ps_label = sn_label s, ps_description = sn_description s, ps_meta = sn_meta s, ps_taken_at = sn_taken_at s,
      ps_window_start = sn_window_start s, ps_wall_ms = sn_wall_ms s, ps_filter = cd_filter_string (sn_def s),
      ps_level = level_as_str (cd_level (sn_def s)), ps_group_keys = cd_group_keys (sn_def s),
      ps_max_sample_bytes = cd_max_sample_bytes (sn_def s), ps_collector_description = cd_description (sn_def s),
      ps_threshold = map_option threshold_of (cd_threshold (sn_def s)), ps_policy_per_name = po_per_name (sn_policy s),
      ps_policy_per_group = po_per_group (sn_policy s), ps_policy_projections = po_projections (sn_policy s),
      ps_total = exact_of to_bytes (sn_total s), ps_projected = sn_projected s,
      ps_ingest_dropped = map_option tl_dropped (sn_ingest s), ps_ingest_shed_batches = map_option tl_shed_batches (sn_ingest s),
      ps_ingest_malformed = map_option tl_malformed (sn_ingest s), ps_sample_complete = sn_sample_complete s,
      ps_cardinality_capped = sn_cardinality_capped s\<rparr>"

text \<open>A threshold this build does not know is dropped, here and in a restored collector.\<close>

definition known_threshold :: "persisted_threshold option \<Rightarrow> threshold option" where
  "known_threshold t = (case t of None \<Rightarrow> None | Some p \<Rightarrow> (case threshold_restore p of Inl _ \<Rightarrow> None | Inr th \<Rightarrow> Some th))"

definition snapshot_restore ::
  "(string \<Rightarrow> bool) \<Rightarrow> (nat list \<Rightarrow> 's option) \<Rightarrow> string \<Rightarrow> 'p persisted_snapshot \<Rightarrow> restore_error + ('s, 'p) stored_snapshot" where
  "snapshot_restore rx from_bytes name p =
     bind_res (level_from_str (ps_level p)) (\<lambda>level.
       case parse_filter rx (ps_filter p) of
         Inl _ \<Rightarrow> Inl (FilterNoLongerParses (ps_filter p))
       | Inr flt \<Rightarrow>
           let loss = (case (ps_ingest_dropped p, ps_ingest_shed_batches p, ps_ingest_malformed p) of
                  (Some d, Some s, Some m) \<Rightarrow> Some \<lparr>tl_dropped = d, tl_shed_batches = s, tl_malformed = m\<rparr> | _ \<Rightarrow> None)
           in bind_res (exact_restore from_bytes (ps_total p)) (\<lambda>tot.
                Inr \<lparr>sn_label = ps_label p, sn_description = ps_description p, sn_meta = ps_meta p, sn_taken_at = ps_taken_at p,
                     sn_def = \<lparr>cd_name = name, cd_filter_string = ps_filter p, cd_filter = flt, cd_level = level,
                       cd_group_keys = ps_group_keys p, cd_max_sample_bytes = ps_max_sample_bytes p,
                       cd_description = ps_collector_description p, cd_threshold = known_threshold (ps_threshold p)\<rparr>,
                     sn_policy = \<lparr>po_per_name = ps_policy_per_name p, po_per_group = ps_policy_per_group p,
                       po_projections = ps_policy_projections p\<rparr>,
                     sn_window_start = ps_window_start p, sn_wall_ms = ps_wall_ms p, sn_total = tot, sn_per_name = None,
                     sn_per_group = None, sn_names = interner_new 0, sn_group_values = [], sn_ingest = loss,
                     sn_projected = ps_projected p, sn_sample_complete = ps_sample_complete p,
                     sn_cardinality_capped = ps_cardinality_capped p\<rparr>))"

record 'p persisted_collector =
  pc_version :: u32
  pc_name :: string
  pc_owner :: string
  pc_domain :: string
  pc_filter :: string
  pc_level :: string
  pc_group_keys :: "string list"
  pc_max_sample_bytes :: nat
  pc_description :: "string option"
  pc_threshold :: "persisted_threshold option"
  pc_armed_at :: int
  pc_snapshots :: "'p persisted_snapshot list"
  pc_next_auto_label :: u64
  pc_snapshots_evicted :: u64

text \<open>The runs that can be read, with the errors of the others.\<close>

fun restore_runs ::
  "(string \<Rightarrow> bool) \<Rightarrow> (nat list \<Rightarrow> 's option) \<Rightarrow> string \<Rightarrow> 'p persisted_snapshot list \<Rightarrow> ('s, 'p) history
     \<Rightarrow> ('s, 'p) history \<times> (string \<times> restore_error) list" where
  "restore_runs rx from_bytes name [] h = (h, [])"
| "restore_runs rx from_bytes name (p # ps) h =
     (case snapshot_restore rx from_bytes name p of
        Inr s \<Rightarrow> restore_runs rx from_bytes name ps (history_push s h)
      | Inl e \<Rightarrow> (case restore_runs rx from_bytes name ps h of (h1, errs) \<Rightarrow> (h1, (ps_label p, e) # errs)))"

definition restore_history ::
  "(string \<Rightarrow> bool) \<Rightarrow> (nat list \<Rightarrow> 's option) \<Rightarrow> 'p persisted_collector
     \<Rightarrow> ('s, 'p) history \<times> (string \<times> restore_error) list" where
  "restore_history rx from_bytes file =
     (case restore_runs rx from_bytes (pc_name file) (pc_snapshots file) history_new of
        (h, errs) \<Rightarrow> (restore_counters (pc_next_auto_label file) (pc_snapshots_evicted file) h, errs))"

section \<open>Where the file lies\<close>

definition max_full_name :: nat where "max_full_name = 200"
definition prefix_len :: nat where "prefix_len = 80"

definition fnv1a64 :: "string \<Rightarrow> 64 word" where
  "fnv1a64 s = fold (\<lambda>b h. (h XOR of_char b) * 0x100000001b3) s 0xcbf29ce484222325"

definition upper_hex :: "nat \<Rightarrow> char" where
  "upper_hex n = ''0123456789ABCDEF'' ! n"

definition lower_hex :: "nat \<Rightarrow> char" where
  "lower_hex n = ''0123456789abcdef'' ! n"

definition hex16 :: "nat \<Rightarrow> string" where
  "hex16 n = map (\<lambda>i. lower_hex (n div 16 ^ (15 - i) mod 16)) [0..<16]"

definition ascii_lower :: "char \<Rightarrow> char" where
  "ascii_lower c = (if is_ascii_upper c then char_of (of_char c + 32 :: nat) else c)"

definition encode_byte :: "char \<Rightarrow> string" where
  "encode_byte b =
     (if is_ascii_lower b \<or> is_ascii_digit b \<or> b = CHR ''-'' \<or> b = CHR ''_'' then [b]
      else if is_ascii_upper b then [CHR ''^'', ascii_lower b]
      else [CHR ''%'', upper_hex (of_char b div 16), upper_hex (of_char b mod 16)])"

definition encode :: "string \<Rightarrow> string" where
  "encode s = concat (map encode_byte s)"

text \<open>The file name under the directory of the collectors.\<close>

definition collector_path :: "string \<Rightarrow> string \<Rightarrow> string" where
  "collector_path owner name =
     (let owner_enc = encode owner; name_enc = encode name;
          full_len = length owner_enc + 1 + length name_enc + 5
      in if full_len \<le> max_full_name then owner_enc @ ''.'' @ name_enc @ ''.json''
         else take prefix_len owner_enc @ ''.'' @ take prefix_len name_enc @ ''.''
                @ hex16 (unat (fnv1a64 (owner @ [char_of (255 :: nat)] @ name))) @ ''.json'')"

end
