(* ===== verification/Collector_Registry.thy ===== *)
theory Collector_Registry
  imports Collector_Files Filter_Matcher Session
begin

text \<open>
  The registry of collectors (\<open>collector/registry.rs\<close>): arming under a daemon-wide byte budget, edits,
  resets, recorded runs, owners, and the files behind them. Each operation is given as the steps the
  code takes between releasing and acquiring its locks, so that other operations can come between
  them. Persistence is enabled. The counters of a domain are a handle, and reading one is an argument; \<open>cg_paths\<close> is the file
  ledger, with the stamp of the last write that succeeded on each path.
\<close>

section \<open>Entries and files\<close>

definition default_max_total_sample_bytes :: nat where
  "default_max_total_sample_bytes = 268435456"

datatype policy_reason = ProjectionsNeedSamples | InvalidFilter filter_parse_error | RepinNotZeroed

datatype collector_registry_error =
    CDuplicateName string
  | CNotFound string
  | CBudgetExceeded nat nat nat
  | CLabel history_error
  | CPolicyRejected policy_reason
  | CPersistFailed string

record ('s, 'p) collector_entry =
  ce_id :: u64
  ce_owner :: session_id
  ce_domain :: string
  ce_collector :: "'s collector"
  ce_metrics :: nat
  ce_ingest_baseline :: trace_ingest_loss
  ce_history :: "('s, 'p) history"
  ce_zeroed_by :: "string option"

abbreviation ce_def :: "('s, 'p) collector_entry \<Rightarrow> collector_def" where
  "ce_def e \<equiv> co_def (ce_collector e)"

abbreviation ce_name :: "('s, 'p) collector_entry \<Rightarrow> string" where
  "ce_name e \<equiv> cd_name (ce_def e)"

definition owned_as :: "session_id \<Rightarrow> string \<Rightarrow> ('s, 'p) collector_entry \<Rightarrow> bool" where
  "owned_as owner name e = (ce_owner e = owner \<and> ce_name e = name)"

definition persisted_with ::
  "('s \<Rightarrow> nat list) \<Rightarrow> collector_def \<Rightarrow> string \<Rightarrow> ('s, 'p) collector_entry \<Rightarrow> 'p persisted_collector" where
  "persisted_with to_bytes d domain e =
     \<lparr>pc_version = collector_format_version, pc_name = cd_name d, pc_owner = session_display (ce_owner e), pc_domain = domain,
      pc_filter = cd_filter_string d, pc_level = level_as_str (cd_level d), pc_group_keys = cd_group_keys d,
      pc_max_sample_bytes = cd_max_sample_bytes d, pc_description = cd_description d,
      pc_threshold = map_option threshold_of (cd_threshold d), pc_armed_at = ci_armed_at (co_inner (ce_collector e)),
      pc_snapshots = map (snapshot_of to_bytes) (hi_snapshots (ce_history e)), pc_next_auto_label = hi_next_auto (ce_history e),
      pc_snapshots_evicted = hi_evicted (ce_history e)\<rparr>"

definition to_persisted :: "('s \<Rightarrow> nat list) \<Rightarrow> ('s, 'p) collector_entry \<Rightarrow> 'p persisted_collector" where
  "to_persisted to_bytes e = persisted_with to_bytes (ce_def e) (ce_domain e) e"

record ('s, 'p) collector_registry =
  cg_entries :: "('s, 'p) collector_entry list"
  cg_max_total :: nat
  cg_paths :: "string \<rightharpoonup> u64"
  cg_seq :: u64
  cg_next_id :: u64
  cg_disk :: "string \<rightharpoonup> 'p persisted_collector"

definition with_budget :: "nat \<Rightarrow> ('s, 'p) collector_registry" where
  "with_budget max_total =
     \<lparr>cg_entries = [], cg_max_total = max_total, cg_paths = (\<lambda>_. None), cg_seq = 0, cg_next_id = 1, cg_disk = (\<lambda>_. None)\<rparr>"

definition reserved_of :: "('s, 'p) collector_entry list \<Rightarrow> nat" where
  "reserved_of es = sum_list (map (cd_max_sample_bytes \<circ> co_def \<circ> ce_collector) es)"

definition reserved_bytes :: "('s, 'p) collector_registry \<Rightarrow> nat" where
  "reserved_bytes r = reserved_of (cg_entries r)"

section \<open>Writing and deleting a file\<close>

definition file_path :: "'p persisted_collector \<Rightarrow> string" where
  "file_path f = collector_path (pc_owner f) (pc_name f)"

text \<open>\<open>path_lock\<close> makes the ledger entry of a path.\<close>

definition path_lock :: "string \<Rightarrow> ('s, 'p) collector_registry \<Rightarrow> ('s, 'p) collector_registry" where
  "path_lock p r = (if cg_paths r p = None then r\<lparr>cg_paths := (cg_paths r)(p \<mapsto> 0)\<rparr> else r)"

definition last_write :: "string \<Rightarrow> ('s, 'p) collector_registry \<Rightarrow> u64" where
  "last_write p r = (case cg_paths r p of None \<Rightarrow> 0 | Some s \<Rightarrow> s)"

text \<open>\<open>unused\<close> says whether no one else holds the entry.\<close>

definition forget_if_unused :: "bool \<Rightarrow> string \<Rightarrow> ('s, 'p) collector_registry \<Rightarrow> ('s, 'p) collector_registry" where
  "forget_if_unused unused p r = (if unused then r\<lparr>cg_paths := (cg_paths r)(p := None)\<rparr> else r)"

text \<open>The first half of \<open>write\<close>, up to the save: \<open>None\<close> when the collector is gone from where the file was prepared for.\<close>

definition write_begin ::
  "bool \<Rightarrow> u64 \<Rightarrow> 'p persisted_collector \<Rightarrow> ('s, 'p) collector_registry \<Rightarrow> u64 option \<times> ('s, 'p) collector_registry" where
  "write_begin unused i f r =
     (let p = file_path f; r1 = path_lock p r
      in if list_ex (\<lambda>e. ce_id e = i \<and> ce_owner e = Named (pc_owner f)) (cg_entries r1)
         then (Some (cg_seq r1 + 1), r1\<lparr>cg_seq := cg_seq r1 + 1\<rparr>)
         else (None, if last_write p r1 = 0 then forget_if_unused unused p r1 else r1))"

text \<open>The second half, with the outcome of the save.\<close>

definition write_end ::
  "string option \<Rightarrow> u64 \<Rightarrow> 'p persisted_collector \<Rightarrow> ('s, 'p) collector_registry \<Rightarrow> (string + bool) \<times> ('s, 'p) collector_registry" where
  "write_end save_error stamp f r =
     (case save_error of
        Some err \<Rightarrow> (Inl err, r)
      | None \<Rightarrow> (Inr True, r\<lparr>cg_disk := (cg_disk r)(file_path f \<mapsto> f), cg_paths := (cg_paths r)(file_path f \<mapsto> stamp)\<rparr>))"

definition registry_write ::
  "bool \<Rightarrow> string option \<Rightarrow> u64 \<Rightarrow> 'p persisted_collector \<Rightarrow> ('s, 'p) collector_registry
     \<Rightarrow> (string + bool) \<times> ('s, 'p) collector_registry" where
  "registry_write unused save_error i f r =
     (case write_begin unused i f r of
        (None, r1) \<Rightarrow> (Inr False, r1)
      | (Some stamp, r1) \<Rightarrow> write_end save_error stamp f r1)"

text \<open>\<open>unlinked\<close> says whether the file could be deleted, when there is one.\<close>

definition delete_unless_written_since ::
  "bool \<Rightarrow> bool \<Rightarrow> session_id \<Rightarrow> string \<Rightarrow> u64 \<Rightarrow> ('s, 'p) collector_registry \<Rightarrow> ('s, 'p) collector_registry" where
  "delete_unless_written_since unlinked unused owner name since r =
     (let p = collector_path (session_display owner) name; r1 = path_lock p r
      in if since < last_write p r1 then r1
         else if cg_disk r1 p \<noteq> None \<and> \<not> unlinked then r1
         else forget_if_unused unused p (r1\<lparr>cg_disk := (cg_disk r1)(p := None)\<rparr>))"

section \<open>Arming, editing, removing\<close>

text \<open>\<open>add\<close> up to its write: the entry and the file to write.\<close>

definition arm ::
  "'s sketch_crate \<Rightarrow> ('s \<Rightarrow> nat list) \<Rightarrow> (nat \<Rightarrow> trace_ingest_loss) \<Rightarrow> session_id \<Rightarrow> string \<Rightarrow> nat \<Rightarrow> collector_def \<Rightarrow> int
     \<Rightarrow> ('s, 'p) collector_registry
     \<Rightarrow> (collector_registry_error + (u64 \<times> 'p persisted_collector)) \<times> ('s, 'p) collector_registry" where
  "arm sk to_bytes loss_of owner domain metrics d now r =
     (if list_ex (owned_as owner (cd_name d)) (cg_entries r) then (Inl (CDuplicateName (cd_name d)), r)
      else let remaining = cg_max_total r - reserved_bytes r
           in if remaining < cd_max_sample_bytes d
              then (Inl (CBudgetExceeded (cd_max_sample_bytes d) remaining (cg_max_total r)), r)
              else let e = \<lparr>ce_id = cg_next_id r, ce_owner = owner, ce_domain = domain,
                            ce_collector = collector_new sk d now, ce_metrics = metrics,
                            ce_ingest_baseline = loss_of metrics, ce_history = history_new, ce_zeroed_by = None\<rparr>
                   in (Inr (ce_id e, to_persisted to_bytes e),
                       r\<lparr>cg_entries := cg_entries r @ [e], cg_next_id := cg_next_id r + 1\<rparr>))"

record collector_edit =
  ed_description :: "string option"
  ed_filter :: "string option"
  ed_level :: "retention option"
  ed_group_keys :: "string list option"
  ed_max_sample_bytes :: "nat option"
  ed_domain :: "string option"
  ed_threshold :: "threshold option option"

definition is_structural :: "collector_def \<Rightarrow> collector_edit \<Rightarrow> bool" where
  "is_structural d c =
     ((case ed_filter c of None \<Rightarrow> False | Some f \<Rightarrow> f \<noteq> cd_filter_string d)
      \<or> (case ed_level c of None \<Rightarrow> False | Some l \<Rightarrow> l \<noteq> cd_level d)
      \<or> (case ed_group_keys c of None \<Rightarrow> False | Some k \<Rightarrow> k \<noteq> cd_group_keys d)
      \<or> (case ed_max_sample_bytes c of None \<Rightarrow> False | Some b \<Rightarrow> b \<noteq> cd_max_sample_bytes d)
      \<or> (case ed_threshold c of None \<Rightarrow> False | Some t \<Rightarrow> t \<noteq> cd_threshold d))"

definition edited_def :: "(string \<Rightarrow> bool) \<Rightarrow> collector_edit \<Rightarrow> collector_def \<Rightarrow> filter_parse_error + collector_def" where
  "edited_def rx c d =
     (let d1 = (case ed_description c of None \<Rightarrow> d | Some s \<Rightarrow> d\<lparr>cd_description := (if s = [] then None else Some s)\<rparr>)
      in bind_res (case ed_filter c of None \<Rightarrow> Inr d1
                   | Some f \<Rightarrow> bind_res (parse_filter rx f) (\<lambda>flt. Inr (d1\<lparr>cd_filter := flt, cd_filter_string := f\<rparr>))) (\<lambda>d2.
           let d3 = (case ed_level c of None \<Rightarrow> d2 | Some l \<Rightarrow> d2\<lparr>cd_level := l\<rparr>);
               d4 = (case ed_group_keys c of None \<Rightarrow> d3 | Some k \<Rightarrow> d3\<lparr>cd_group_keys := k\<rparr>);
               d5 = (case ed_threshold c of None \<Rightarrow> d4 | Some t \<Rightarrow> d4\<lparr>cd_threshold := t\<rparr>)
           in Inr (case ed_max_sample_bytes c of None \<Rightarrow> d5 | Some b \<Rightarrow> d5\<lparr>cd_max_sample_bytes := b\<rparr>)))"

record 'p edit_plan =
  xp_id :: u64
  xp_owner :: session_id
  xp_name :: string
  xp_file :: "'p persisted_collector"
  xp_def :: collector_def
  xp_domain :: string
  xp_structural :: bool

text \<open>The first phase of \<open>edit\<close>: nothing is changed.\<close>

definition edit_plan_for ::
  "(string \<Rightarrow> bool) \<Rightarrow> ('s \<Rightarrow> nat list) \<Rightarrow> session_id \<Rightarrow> string \<Rightarrow> collector_edit \<Rightarrow> ('s, 'p) collector_registry
     \<Rightarrow> collector_registry_error + 'p edit_plan" where
  "edit_plan_for rx to_bytes owner name c r =
     (case find (owned_as owner name) (cg_entries r) of
        None \<Rightarrow> Inl (CNotFound name)
      | Some e \<Rightarrow>
          let structural = is_structural (ce_def e) c
          in case edited_def rx c (ce_def e) of
               Inl err \<Rightarrow> Inl (CPolicyRejected (InvalidFilter err))
             | Inr d \<Rightarrow>
                 let remaining = cg_max_total r - (reserved_bytes r - cd_max_sample_bytes (ce_def e))
                 in if structural \<and> remaining < cd_max_sample_bytes d
                    then Inl (CBudgetExceeded (cd_max_sample_bytes d) remaining (cg_max_total r))
                    else (case ed_domain c of
                            Some target \<Rightarrow>
                              if \<not> is_zeroed (ce_collector e) \<and> \<not> structural then Inl (CPolicyRejected RepinNotZeroed)
                              else Inr \<lparr>xp_id = ce_id e, xp_owner = owner, xp_name = name,
                                        xp_file = persisted_with to_bytes d target e, xp_def = d, xp_domain = target,
                                        xp_structural = structural\<rparr>
                          | None \<Rightarrow>
                              Inr \<lparr>xp_id = ce_id e, xp_owner = owner, xp_name = name,
                                   xp_file = persisted_with to_bytes d (ce_domain e) e, xp_def = d, xp_domain = ce_domain e,
                                   xp_structural = structural\<rparr>))"

fun update_entry ::
  "(('s, 'p) collector_entry \<Rightarrow> bool) \<Rightarrow> (('s, 'p) collector_entry \<Rightarrow> ('s, 'p) collector_entry)
     \<Rightarrow> ('s, 'p) collector_entry list \<Rightarrow> ('s, 'p) collector_entry list" where
  "update_entry P f [] = []"
| "update_entry P f (e # es) = (if P e then f e # es else e # update_entry P f es)"

definition edit_entry ::
  "'s sketch_crate \<Rightarrow> (nat \<Rightarrow> trace_ingest_loss) \<Rightarrow> nat option \<Rightarrow> int \<Rightarrow> 'p edit_plan \<Rightarrow> ('s, 'p) collector_entry
     \<Rightarrow> ('s, 'p) collector_entry" where
  "edit_entry sk loss_of new_metrics now pl e =
     (let e1 = e\<lparr>ce_domain := xp_domain pl\<rparr>;
          e2 = (case new_metrics of None \<Rightarrow> e1 | Some m \<Rightarrow> e1\<lparr>ce_metrics := m\<rparr>)
      in if xp_structural pl
         then e2\<lparr>ce_collector := collector_new sk (xp_def pl) now, ce_ingest_baseline := loss_of (ce_metrics e2),
                 ce_zeroed_by := Some ''edit''\<rparr>
         else e2\<lparr>ce_collector := with_def sk (xp_def pl) (ce_collector e2)\<rparr>)"

text \<open>The last phase, after the write: by identity and owner.\<close>

definition edit_commit ::
  "'s sketch_crate \<Rightarrow> (nat \<Rightarrow> trace_ingest_loss) \<Rightarrow> nat option \<Rightarrow> int \<Rightarrow> 'p edit_plan \<Rightarrow> (string + bool)
     \<Rightarrow> ('s, 'p) collector_registry \<Rightarrow> (collector_registry_error + bool) \<times> ('s, 'p) collector_registry" where
  "edit_commit sk loss_of new_metrics now pl written r =
     (let mine = (\<lambda>e. ce_id e = xp_id pl \<and> ce_owner e = xp_owner pl)
      in case written of
           Inl err \<Rightarrow> (Inl (CPersistFailed err), r)
         | Inr False \<Rightarrow> (Inl (CNotFound (xp_name pl)), r)
         | Inr True \<Rightarrow>
             if \<not> list_ex mine (cg_entries r) then (Inl (CNotFound (xp_name pl)), r)
             else (Inr (xp_structural pl),
                   r\<lparr>cg_entries := update_entry mine (edit_entry sk loss_of new_metrics now pl) (cg_entries r)\<rparr>))"

definition remove_collector ::
  "session_id \<Rightarrow> string \<Rightarrow> ('s, 'p) collector_registry \<Rightarrow> (collector_registry_error + u64) \<times> ('s, 'p) collector_registry" where
  "remove_collector owner name r =
     (let kept = filter (\<lambda>e. \<not> owned_as owner name e) (cg_entries r)
      in if length kept = length (cg_entries r) then (Inl (CNotFound name), r)
         else (Inr (cg_seq r), r\<lparr>cg_entries := kept\<rparr>))"

section \<open>Resets and recorded runs\<close>

definition reset_entry ::
  "'s sketch_crate \<Rightarrow> (nat \<Rightarrow> trace_ingest_loss) \<Rightarrow> int \<Rightarrow> string \<Rightarrow> ('s, 'p) collector_entry \<Rightarrow> ('s, 'p) collector_entry" where
  "reset_entry sk loss_of now why e =
     e\<lparr>ce_collector := snd (swap sk now (ce_collector e)), ce_ingest_baseline := loss_of (ce_metrics e),
       ce_zeroed_by := Some why\<rparr>"

definition reset_collector ::
  "'s sketch_crate \<Rightarrow> (nat \<Rightarrow> trace_ingest_loss) \<Rightarrow> session_id \<Rightarrow> string \<Rightarrow> int \<Rightarrow> ('s, 'p) collector_registry
     \<Rightarrow> (collector_registry_error + 's collector_inner) \<times> ('s, 'p) collector_registry" where
  "reset_collector sk loss_of owner name now r =
     (case find (owned_as owner name) (cg_entries r) of
        None \<Rightarrow> (Inl (CNotFound name), r)
      | Some e \<Rightarrow>
          (Inr (fst (swap sk now (ce_collector e))),
           r\<lparr>cg_entries := update_entry (owned_as owner name) (reset_entry sk loss_of now ''reset'') (cg_entries r)\<rparr>))"

record snapshot_request =
  rq_name :: string
  rq_label :: "string option"
  rq_description :: "string option"
  rq_meta :: json
  rq_policy :: snapshot_policy
  rq_reset :: bool
  rq_now :: int

record 's taken_run =
  tk_id :: u64
  tk_label :: string
  tk_def :: collector_def
  tk_view :: "'s collector_inner"
  tk_ingest :: trace_ingest_loss

text \<open>The first step of \<open>snapshot\<close>: reserve the label and take the data.\<close>

definition take_entry ::
  "'s sketch_crate \<Rightarrow> (nat \<Rightarrow> trace_ingest_loss) \<Rightarrow> snapshot_request \<Rightarrow> ('s, 'p) history \<Rightarrow> ('s, 'p) collector_entry
     \<Rightarrow> ('s, 'p) collector_entry" where
  "take_entry sk loss_of rq h e =
     (let e1 = e\<lparr>ce_history := h\<rparr> in if rq_reset rq then reset_entry sk loss_of (rq_now rq) ''snapshot'' e1 else e1)"

definition snapshot_take ::
  "'s sketch_crate \<Rightarrow> (nat \<Rightarrow> trace_ingest_loss) \<Rightarrow> session_id \<Rightarrow> snapshot_request \<Rightarrow> ('s, 'p) collector_registry
     \<Rightarrow> (collector_registry_error + 's taken_run) \<times> ('s, 'p) collector_registry" where
  "snapshot_take sk loss_of owner rq r =
     (case find (owned_as owner (rq_name rq)) (cg_entries r) of
        None \<Rightarrow> (Inl (CNotFound (rq_name rq)), r)
      | Some e \<Rightarrow>
          if \<not> policy_validate (cd_level (ce_def e)) (rq_policy rq) then (Inl (CPolicyRejected ProjectionsNeedSamples), r)
          else (case reserve_label (rq_label rq) (ce_history e) of
                  (Inl err, h) \<Rightarrow> (Inl (CLabel err), r)
                | (Inr label, h) \<Rightarrow>
                    (Inr \<lparr>tk_id = ce_id e, tk_label = label, tk_def = ce_def e, tk_view = co_inner (ce_collector e),
                          tk_ingest = loss_since (loss_of (ce_metrics e)) (ce_ingest_baseline e)\<rparr>,
                     r\<lparr>cg_entries := update_entry (owned_as owner (rq_name rq)) (take_entry sk loss_of rq h) (cg_entries r)\<rparr>)))"

text \<open>The third: file the run, by identity. \<open>project\<close> is the caller's, \<open>none\<close> what it is without projections.\<close>

definition stored_run ::
  "(collector_def \<Rightarrow> 's collector_inner \<Rightarrow> 'p) \<Rightarrow> 'p \<Rightarrow> snapshot_request \<Rightarrow> 's taken_run \<Rightarrow> ('s, 'p) stored_snapshot" where
  "stored_run project none rq tk =
     from_view (tk_label tk) (rq_description rq) (rq_meta rq) (rq_now rq) (rq_policy rq) (tk_def tk) (tk_view tk)
       (Some (tk_ingest tk)) (if po_projections (rq_policy rq) then project (tk_def tk) (tk_view tk) else none)"

definition snapshot_file ::
  "('s \<Rightarrow> nat list) \<Rightarrow> u64 \<Rightarrow> ('s, 'p) stored_snapshot \<Rightarrow> ('s, 'p) collector_registry
     \<Rightarrow> 'p persisted_collector option \<times> ('s, 'p) collector_registry" where
  "snapshot_file to_bytes i s r =
     (let es = update_entry (\<lambda>e. ce_id e = i) (\<lambda>e. e\<lparr>ce_history := history_push s (ce_history e)\<rparr>) (cg_entries r)
      in (map_option (to_persisted to_bytes) (find (\<lambda>e. ce_id e = i) es), r\<lparr>cg_entries := es\<rparr>))"

datatype persist_note = WriteFailed string | RemovedMeanwhile

definition snapshot_persist_error :: "u64 \<Rightarrow> (string + bool) \<Rightarrow> ('s, 'p) collector_registry \<Rightarrow> persist_note option" where
  "snapshot_persist_error i written r =
     (case written of
        Inr True \<Rightarrow> None
      | Inl err \<Rightarrow> Some (WriteFailed err)
      | Inr False \<Rightarrow> if list_ex (\<lambda>e. ce_id e = i) (cg_entries r) then None else Some RemovedMeanwhile)"

definition history_of ::
  "session_id \<Rightarrow> string \<Rightarrow> ('s, 'p) collector_registry
     \<Rightarrow> collector_registry_error + (('s, 'p) stored_snapshot list \<times> u64)" where
  "history_of owner name r =
     (case find (owned_as owner name) (cg_entries r) of
        None \<Rightarrow> Inl (CNotFound name)
      | Some e \<Rightarrow> Inr (hi_snapshots (ce_history e), hi_evicted (ce_history e)))"

definition get_snapshot ::
  "session_id \<Rightarrow> string \<Rightarrow> string \<Rightarrow> ('s, 'p) collector_registry \<Rightarrow> collector_registry_error + ('s, 'p) stored_snapshot" where
  "get_snapshot owner name label r =
     (case find (owned_as owner name) (cg_entries r) of
        None \<Rightarrow> Inl (CNotFound name)
      | Some e \<Rightarrow> map_sum CLabel id (history_get label (ce_history e)))"

section \<open>Owners\<close>

type_synonym pending_move = "session_id \<times> session_id \<times> string \<times> u64"
type_synonym pending_unlink = "session_id \<times> string \<times> u64"

definition move_owner ::
  "session_id \<Rightarrow> session_id \<Rightarrow> ('s, 'p) collector_registry \<Rightarrow> pending_move list \<times> ('s, 'p) collector_registry" where
  "move_owner old new r =
     (if old = new then ([], r)
      else (map (\<lambda>e. (old, new, ce_name e, cg_seq r)) (filter (\<lambda>e. ce_owner e = old) (cg_entries r)),
            r\<lparr>cg_entries := map (\<lambda>e. if ce_owner e = old then e\<lparr>ce_owner := new\<rparr> else e) (cg_entries r)\<rparr>))"

definition detach_session ::
  "session_id \<Rightarrow> ('s, 'p) collector_registry \<Rightarrow> pending_unlink list \<times> ('s, 'p) collector_registry" where
  "detach_session owner r =
     (map (\<lambda>e. (owner, ce_name e, cg_seq r)) (filter (\<lambda>e. ce_owner e = owner) (cg_entries r)),
      r\<lparr>cg_entries := filter (\<lambda>e. ce_owner e \<noteq> owner) (cg_entries r)\<rparr>)"

text \<open>The read of \<open>finish\<close> for one moved collector: its identity and its file now.\<close>

definition moved_file ::
  "('s \<Rightarrow> nat list) \<Rightarrow> session_id \<Rightarrow> string \<Rightarrow> ('s, 'p) collector_registry \<Rightarrow> (u64 \<times> 'p persisted_collector) option" where
  "moved_file to_bytes new name r =
     map_option (\<lambda>e. (ce_id e, to_persisted to_bytes e)) (find (owned_as new name) (cg_entries r))"

definition owners :: "('s, 'p) collector_registry \<Rightarrow> session_id list" where
  "owners r = fold (\<lambda>e seen. if ce_owner e \<in> set seen then seen else seen @ [ce_owner e]) (cg_entries r) []"

section \<open>Reads, ingestion, restart\<close>

record ('s, 'p) armed_collector =
  ac_owner :: session_id
  ac_latest_snapshot :: "(string \<times> int) option"
  ac_zeroed_by :: "string option"
  ac_snapshot_count :: nat
  ac_collector :: "'s collector"
  ac_domain :: string
  ac_metrics :: nat
  ac_ingest_baseline :: trace_ingest_loss

definition armed :: "('s, 'p) collector_entry \<Rightarrow> ('s, 'p) armed_collector" where
  "armed e =
     \<lparr>ac_owner = ce_owner e,
      ac_latest_snapshot = (let ss = hi_snapshots (ce_history e)
                            in if ss = [] then None else Some (sn_label (last ss), sn_taken_at (last ss))),
      ac_zeroed_by = ce_zeroed_by e, ac_snapshot_count = length (hi_snapshots (ce_history e)), ac_collector = ce_collector e,
      ac_domain = ce_domain e, ac_metrics = ce_metrics e, ac_ingest_baseline = ce_ingest_baseline e\<rparr>"

definition collector_get :: "session_id \<Rightarrow> string \<Rightarrow> ('s, 'p) collector_registry \<Rightarrow> ('s, 'p) armed_collector option" where
  "collector_get owner name r = map_option armed (find (owned_as owner name) (cg_entries r))"

definition collector_list :: "session_id \<Rightarrow> ('s, 'p) collector_registry \<Rightarrow> ('s, 'p) armed_collector list" where
  "collector_list owner r = map armed (filter (\<lambda>e. ce_owner e = owner) (cg_entries r))"

definition list_for_domain :: "string \<Rightarrow> ('s, 'p) collector_registry \<Rightarrow> ('s, 'p) armed_collector list" where
  "list_for_domain domain r = map armed (filter (\<lambda>e. ce_domain e = domain) (cg_entries r))"

definition ingest_entry ::
  "'s sketch_crate \<Rightarrow> match_env \<Rightarrow> (json \<Rightarrow> string) \<Rightarrow> string \<Rightarrow> span_entry \<Rightarrow> ('s, 'p) collector_entry \<Rightarrow> ('s, 'p) collector_entry" where
  "ingest_entry sk env ns domain sp e =
     (if ce_domain e = domain \<and> matches_span env (cd_filter (ce_def e)) sp
      then e\<lparr>ce_collector := ingest sk ns sp (ce_collector e)\<rparr> else e)"

definition ingest_span ::
  "'s sketch_crate \<Rightarrow> match_env \<Rightarrow> (json \<Rightarrow> string) \<Rightarrow> string \<Rightarrow> span_entry \<Rightarrow> ('s, 'p) collector_registry \<Rightarrow> ('s, 'p) collector_registry" where
  "ingest_span sk env ns domain sp r = r\<lparr>cg_entries := map (ingest_entry sk env ns domain sp) (cg_entries r)\<rparr>"

text \<open>A file read at boot, as an entry.\<close>

definition entry_from_file ::
  "'s sketch_crate \<Rightarrow> (string \<Rightarrow> bool) \<Rightarrow> (nat list \<Rightarrow> 's option) \<Rightarrow> (string \<Rightarrow> nat) \<Rightarrow> (nat \<Rightarrow> trace_ingest_loss) \<Rightarrow> int
     \<Rightarrow> u64 \<Rightarrow> 'p persisted_collector \<Rightarrow> restore_error + ('s, 'p) collector_entry" where
  "entry_from_file sk rx from_bytes metrics_for loss_of now i f =
     bind_res (level_from_str (pc_level f)) (\<lambda>level.
       case parse_filter rx (pc_filter f) of
         Inl _ \<Rightarrow> Inl (FilterNoLongerParses (pc_filter f))
       | Inr flt \<Rightarrow>
           if contains_bookmark_qualifier flt then Inl (BookmarkInFilter (pc_filter f))
           else if \<not> is_valid_name (pc_domain f) then Inl (DomainInvalid (pc_domain f))
           else let d = \<lparr>cd_name = pc_name f, cd_filter_string = pc_filter f, cd_filter = flt, cd_level = level,
                         cd_group_keys = pc_group_keys f, cd_max_sample_bytes = pc_max_sample_bytes f,
                         cd_description = pc_description f, cd_threshold = known_threshold (pc_threshold f)\<rparr>;
                    m = metrics_for (pc_domain f)
                in Inr \<lparr>ce_id = i, ce_owner = Named (pc_owner f), ce_domain = pc_domain f,
                        ce_collector = new_restored sk d (pc_armed_at f) now, ce_metrics = m, ce_ingest_baseline = loss_of m,
                        ce_history = fst (restore_history rx from_bytes f), ce_zeroed_by = Some ''daemon_restart''\<rparr>)"

fun restore_files ::
  "'s sketch_crate \<Rightarrow> (string \<Rightarrow> bool) \<Rightarrow> (nat list \<Rightarrow> 's option) \<Rightarrow> (string \<Rightarrow> nat) \<Rightarrow> (nat \<Rightarrow> trace_ingest_loss) \<Rightarrow> int
     \<Rightarrow> 'p persisted_collector list \<Rightarrow> ('s, 'p) collector_registry
     \<Rightarrow> (string \<times> restore_error) list \<times> ('s, 'p) collector_registry" where
  "restore_files sk rx from_bytes metrics_for loss_of now [] r = ([], r)"
| "restore_files sk rx from_bytes metrics_for loss_of now (f # fs) r =
     (let r1 = r\<lparr>cg_next_id := cg_next_id r + 1\<rparr>
      in case entry_from_file sk rx from_bytes metrics_for loss_of now (cg_next_id r) f of
           Inr e \<Rightarrow> restore_files sk rx from_bytes metrics_for loss_of now fs (r1\<lparr>cg_entries := cg_entries r1 @ [e]\<rparr>)
         | Inl err \<Rightarrow>
             (case restore_files sk rx from_bytes metrics_for loss_of now fs r1 of
                (rejected, r2) \<Rightarrow> ((pc_name f, err) # rejected, r2)))"

end
