(* ===== verification/Collector_Files_Props.thy ===== *)
theory Collector_Files_Props
  imports Collector_Files
begin

text \<open>
  What the files of the collectors guarantee: two collectors never share a file, even where the file
  system folds case; a run read back is the run recorded, less what is dropped on the way to disk on
  purpose; and a number once used in an automatic label is never used again, restarts included.
\<close>

section \<open>File names\<close>

text \<open>The names read back, from their case-folded form.\<close>

definition hex_value :: "char \<Rightarrow> nat" where
  "hex_value c = (if is_ascii_digit c then of_char c - 48 else of_char c - 87)"

fun decode :: "string \<Rightarrow> string" where
  "decode (c # d # e # s) =
     (if c = CHR ''^'' then char_of (of_char d - 32 :: nat) # decode (e # s)
      else if c = CHR ''%'' then char_of (16 * hex_value d + hex_value e) # decode s
      else c # decode (d # e # s))"
| "decode (c # d # s) =
     (if c = CHR ''^'' then [char_of (of_char d - 32 :: nat)] else c # decode (d # s))"
| "decode s = s"

lemma to_lowercase_append [simp]: "to_lowercase (a @ b) = to_lowercase a @ to_lowercase b"
  by (simp add: to_lowercase_def)

lemma to_lowercase_Cons: "to_lowercase (c # s) = ascii_lower c # to_lowercase s"
  by (simp add: to_lowercase_def ascii_lower_def)

lemma to_lowercase_Nil [simp]: "to_lowercase [] = []"
  by (simp add: to_lowercase_def)

lemma dot_code: "c = CHR ''.'' \<longleftrightarrow> (of_char c :: nat) = 46"
proof
  assume "(of_char c :: nat) = 46"
  then have "(of_char c :: nat) = of_char CHR ''.''" by simp
  then show "c = CHR ''.''" by (simp only: of_char_eq_iff)
qed simp

lemma upper_hex_folded:
  assumes "n < 16"
  shows "hex_value (ascii_lower (upper_hex n)) = n \<and> ascii_lower (upper_hex n) \<noteq> CHR ''.''"
proof -
  have "n \<in> set (rev [0..<16])" using assms by simp
  then show ?thesis
    unfolding dot_code
    by (simp add: upt_rec) (elim disjE; simp add: hex_value_def ascii_lower_def upper_hex_def is_ascii_upper_def is_ascii_digit_def)
qed

lemma nibbles: "(of_char b :: nat) div 16 < 16" "(of_char b :: nat) mod 16 < 16" for b :: char
proof -
  have "(of_char b :: nat) < 256" by simp
  then show "(of_char b :: nat) div 16 < 16" by (simp add: less_mult_imp_div_less)
qed simp

lemmas nibbles_folded = upper_hex_folded[OF nibbles(1)] upper_hex_folded[OF nibbles(2)]

lemma decode_caret: "decode (CHR ''^'' # d # s) = char_of (of_char d - 32 :: nat) # decode s"
  by (cases s) simp_all

lemma decode_plain: "c \<noteq> CHR ''^'' \<Longrightarrow> c \<noteq> CHR ''%'' \<Longrightarrow> decode (c # s) = c # decode s"
  by (cases s; cases "tl s") simp_all

lemma decode_encode_byte: "decode (to_lowercase (encode_byte b) @ s) = b # decode s"
proof -
  consider (plain) "is_ascii_lower b \<or> is_ascii_digit b \<or> b = CHR ''-'' \<or> b = CHR ''_''"
    | (upper) "is_ascii_upper b" "encode_byte b = [CHR ''^'', ascii_lower b]"
    | (hex) "encode_byte b = [CHR ''%'', upper_hex (of_char b div 16), upper_hex (of_char b mod 16)]"
    by (metis encode_byte_def)
  then show ?thesis
  proof cases
    case plain
    then have "to_lowercase (encode_byte b) = [b]" "b \<noteq> CHR ''^''" "b \<noteq> CHR ''%''"
      by (auto simp: encode_byte_def to_lowercase_def is_ascii_lower_def is_ascii_digit_def is_ascii_upper_def)
    then show ?thesis by (simp add: decode_plain)
  next
    case upper
    then have "to_lowercase (encode_byte b) = [CHR ''^'', ascii_lower b]"
      by (auto simp: to_lowercase_def ascii_lower_def is_ascii_upper_def)
    moreover have "char_of (of_char (ascii_lower b) - 32 :: nat) = b"
      using upper(1) by (auto simp: ascii_lower_def is_ascii_upper_def)
    ultimately show ?thesis by (simp add: decode_caret)
  next
    case hex
    have "to_lowercase (encode_byte b) =
        [CHR ''%'', ascii_lower (upper_hex (of_char b div 16)), ascii_lower (upper_hex (of_char b mod 16))]"
      unfolding hex by (simp add: to_lowercase_def ascii_lower_def is_ascii_upper_def)
    then show ?thesis using nibbles_folded[of b] by simp
  qed
qed

lemma decode_encode: "decode (to_lowercase (encode s)) = s"
proof (induction s)
  case (Cons b s)
  then show ?case using decode_encode_byte[of b "to_lowercase (encode s)"] by (simp add: encode_def)
qed (simp add: encode_def)

lemma no_dot_encode_byte: "CHR ''.'' \<notin> set (to_lowercase (encode_byte b))"
proof -
  consider (plain) "encode_byte b = [b]" "b \<noteq> CHR ''.''" "\<not> is_ascii_upper b"
    | (upper) "is_ascii_upper b" "encode_byte b = [CHR ''^'', ascii_lower b]"
    | (hex) "encode_byte b = [CHR ''%'', upper_hex (of_char b div 16), upper_hex (of_char b mod 16)]"
    by (fastforce simp: encode_byte_def is_ascii_lower_def is_ascii_digit_def is_ascii_upper_def split: if_splits)
  then show ?thesis
  proof cases
    case plain
    then show ?thesis by (simp add: to_lowercase_Cons ascii_lower_def)
  next
    case upper
    then have "(of_char (ascii_lower (ascii_lower b)) :: nat) \<noteq> of_char CHR ''.''"
      by (auto simp: ascii_lower_def is_ascii_upper_def)
    then have "ascii_lower (ascii_lower b) \<noteq> CHR ''.''" by metis
    then show ?thesis using upper(2) by (simp add: to_lowercase_Cons) (simp add: ascii_lower_def is_ascii_upper_def)
  next
    case hex
    have "ascii_lower CHR ''%'' \<noteq> CHR ''.''" by code_simp
    then show ?thesis using hex nibbles_folded[of b] by (auto simp: to_lowercase_Cons)
  qed
qed

lemma no_dot_encode: "CHR ''.'' \<notin> set (to_lowercase (encode s))"
  using no_dot_encode_byte by (induction s) (auto simp: encode_def)

lemma split_at_dot:
  "CHR ''.'' \<notin> set a \<Longrightarrow> CHR ''.'' \<notin> set b \<Longrightarrow> a @ CHR ''.'' # x = b @ CHR ''.'' # y \<longleftrightarrow> a = b \<and> x = y"
  by (induction a arbitrary: b) (case_tac b; auto)+

lemma folded_paths:
  "length (encode owner) + length (encode name) \<le> 194 \<Longrightarrow>
     to_lowercase (collector_path owner name) =
       to_lowercase (encode owner) @ CHR ''.'' # to_lowercase (encode name) @ CHR ''.'' # ''json''"
  "\<not> length (encode owner) + length (encode name) \<le> 194 \<Longrightarrow>
     \<exists>h. to_lowercase (collector_path owner name) =
       to_lowercase (take prefix_len (encode owner)) @ CHR ''.'' # to_lowercase (take prefix_len (encode name))
         @ CHR ''.'' # h @ CHR ''.'' # ''json''"
proof -
  have l: "ascii_lower (CHR ''.'') = CHR ''.''" "ascii_lower (CHR ''j'') = CHR ''j''" "ascii_lower (CHR ''s'') = CHR ''s''"
    "ascii_lower (CHR ''o'') = CHR ''o''" "ascii_lower (CHR ''n'') = CHR ''n''" by code_simp+
  show "length (encode owner) + length (encode name) \<le> 194 \<Longrightarrow>
     to_lowercase (collector_path owner name) =
       to_lowercase (encode owner) @ CHR ''.'' # to_lowercase (encode name) @ CHR ''.'' # ''json''"
    by (simp add: collector_path_def Let_def max_full_name_def to_lowercase_Cons l)
  show "\<not> length (encode owner) + length (encode name) \<le> 194 \<Longrightarrow>
     \<exists>h. to_lowercase (collector_path owner name) =
       to_lowercase (take prefix_len (encode owner)) @ CHR ''.'' # to_lowercase (take prefix_len (encode name))
         @ CHR ''.'' # h @ CHR ''.'' # ''json''"
    by (rule exI[of _ "to_lowercase (hex16 (unat (fnv1a64 (owner @ [char_of (255 :: nat)] @ name))))"])
      (simp add: collector_path_def Let_def max_full_name_def to_lowercase_Cons l)
qed

lemma no_dot_take: "CHR ''.'' \<notin> set (to_lowercase (take n (encode s)))"
  using no_dot_encode[of s] by (auto simp: to_lowercase_def dest: in_set_takeD)

lemma folded_paths_inj:
  assumes "length (encode owner) + length (encode name) \<le> 194"
    and "to_lowercase (collector_path owner name) = to_lowercase (collector_path owner2 name2)"
  shows "owner2 = owner \<and> name2 = name"
proof (cases "length (encode owner2) + length (encode name2) \<le> 194")
  case True
  then have "to_lowercase (encode owner) = to_lowercase (encode owner2) \<and> to_lowercase (encode name) = to_lowercase (encode name2)"
    using assms(2) unfolding folded_paths(1)[OF assms(1)] folded_paths(1)[OF True]
    by (simp add: split_at_dot no_dot_encode)
  then show ?thesis by (metis decode_encode)
next
  case False
  then obtain h where "to_lowercase (collector_path owner2 name2) =
      to_lowercase (take prefix_len (encode owner2)) @ CHR ''.'' # to_lowercase (take prefix_len (encode name2))
        @ CHR ''.'' # h @ CHR ''.'' # ''json''" using folded_paths(2) by blast
  then have "''json'' = h @ CHR ''.'' # ''json''"
    using assms(2) unfolding folded_paths(1)[OF assms(1)] by (simp add: split_at_dot no_dot_encode no_dot_take)
  then have "length ''json'' = length (h @ CHR ''.'' # ''json'')" by (rule arg_cong)
  then show ?thesis by simp
qed

text \<open>
  Files do not collide. A collector whose file name is not shortened shares it with no other
  collector of any session, even on a file system that folds the case of names: whatever bytes are in
  the two names, equal folded paths mean equal owner and equal name, and no shortened path is one of
  the full ones.
\<close>

theorem collector_paths_distinct:
  assumes "length (encode owner) + length (encode name) \<le> 194"
    and "to_lowercase (collector_path owner name) = to_lowercase (collector_path owner2 name2)"
  shows "owner2 = owner \<and> name2 = name"
  using assms by (rule folded_paths_inj)

theorem collector_paths_distinct_witness:
  "to_lowercase (collector_path ''a'' ''Perf'') \<noteq> to_lowercase (collector_path ''a'' ''perf'')"
proof
  assume e: "to_lowercase (collector_path ''a'' ''Perf'') = to_lowercase (collector_path ''a'' ''perf'')"
  have "length (encode ''a'') + length (encode ''Perf'') \<le> 194" by code_simp
  from collector_paths_distinct[OF this e] show False by simp
qed

section \<open>Labels\<close>

lemma auto_label_inj [simp]: "auto_label a = auto_label b \<longleftrightarrow> a = b"
  by (simp add: auto_label_def nat_to_string_inj)

lemma reserve_auto_found:
  "reserve_auto labels n = (l, m) \<Longrightarrow> l \<notin> set labels \<and> (\<exists>k. l = auto_label k \<and> n \<le> k \<and> m = k + 1)"
proof (induction labels n rule: reserve_auto.induct)
  case (1 labels n)
  show ?case
  proof (cases "auto_label n \<in> set labels")
    case True
    then obtain k where "l \<notin> set labels" "l = auto_label k" "n + 1 \<le> k" "m = k + 1"
      using 1 by (subst (asm) reserve_auto.simps) auto
    then show ?thesis by (intro conjI exI[of _ k]) auto
  next
    case False
    then have "l = auto_label n \<and> m = n + 1" using "1.prems" by (subst (asm) reserve_auto.simps) auto
    then show ?thesis using False by (intro conjI exI[of _ n]) auto
  qed
qed

lemma push_keeps_counter [simp]: "hi_next_auto (history_push s h) = hi_next_auto h"
  by (simp add: history_push_def case_prod_beta Let_def)

text \<open>The life of a history: automatic labels handed out, runs filed under any label, restarts.\<close>

inductive label_run ::
  "(string \<Rightarrow> bool) \<Rightarrow> (nat list \<Rightarrow> 's option) \<Rightarrow> string list \<Rightarrow> ('s, 'p) history \<Rightarrow> bool" for rx from_bytes where
  armed: "label_run rx from_bytes [] history_new"
| reserved: "label_run rx from_bytes ls h \<Longrightarrow> reserve_label None h = (Inr l, h2) \<Longrightarrow> label_run rx from_bytes (ls @ [l]) h2"
| filed: "label_run rx from_bytes ls h \<Longrightarrow> label_run rx from_bytes ls (history_push s h)"
| restarted: "label_run rx from_bytes ls h \<Longrightarrow> pc_next_auto_label file = hi_next_auto h
    \<Longrightarrow> label_run rx from_bytes ls (fst (restore_history rx from_bytes file))"

lemma restored_counter: "hi_next_auto (fst (restore_history rx fb file)) = max (pc_next_auto_label file) 1"
  by (simp add: restore_history_def restore_counters_def case_prod_beta)

lemma label_run_bounded:
  "label_run rx fb ls h \<Longrightarrow> distinct ls \<and> (\<forall>l \<in> set ls. \<exists>k. l = auto_label k \<and> k < hi_next_auto h)"
proof (induction rule: label_run.induct)
  case (reserved ls h l h2)
  obtain m where m: "reserve_auto (map sn_label (hi_snapshots h)) (hi_next_auto h) = (l, m)" "h2 = h\<lparr>hi_next_auto := m\<rparr>"
    using reserved(2) by (auto simp: reserve_label_def Let_def split: prod.splits)
  obtain k where k: "l = auto_label k" "hi_next_auto h \<le> k" "m = k + 1" using reserve_auto_found[OF m(1)] by auto
  then have "l \<notin> set ls" using reserved.IH by fastforce
  then show ?case using reserved.IH k m(2) by (fastforce intro: less_le_trans)
next
  case (restarted ls h pf)
  then show ?case using restored_counter[of rx fb pf] by (fastforce intro: less_le_trans)
qed simp_all

text \<open>
  Automatic labels. Over the life of a collector, restarts included, the search for an automatic
  label always ends, with a label that no run in the history has and that was never handed out
  before, even to a run the cap has dropped since.
\<close>

theorem auto_label_fresh:
  assumes "label_run rx from_bytes ls h"
  shows "\<exists>l h2. reserve_label None h = (Inr l, h2) \<and> l \<notin> set (map sn_label (hi_snapshots h)) \<and> l \<notin> set ls"
proof -
  obtain l m where r: "reserve_auto (map sn_label (hi_snapshots h)) (hi_next_auto h) = (l, m)" by fastforce
  have e: "reserve_label None h = (Inr l, h\<lparr>hi_next_auto := m\<rparr>)" using r by (simp add: reserve_label_def)
  have "distinct (ls @ [l])" using label_run_bounded[OF label_run.reserved[OF assms e]] by simp
  then show ?thesis using e reserve_auto_found[OF r] by auto
qed

theorem auto_label_fresh_witness:
  "\<exists>l h2. reserve_label None (history_new\<lparr>hi_next_auto := 2\<rparr> :: (f64 list, unit) history) = (Inr l, h2) \<and> l \<noteq> auto_label 1"
proof -
  have "reserve_label None (history_new :: (f64 list, unit) history) = (Inr (auto_label 1), history_new\<lparr>hi_next_auto := 2\<rparr>)"
    by (simp add: reserve_label_def history_new_def history_with_max_def reserve_auto.simps)
  from auto_label_fresh[OF label_run.reserved[OF label_run.armed this]] show ?thesis by auto
qed

section \<open>Runs read back\<close>

lemma metric_roundtrip [simp]: "metric_parse (metric_as_str m) = Inr m"
  by (cases m) (simp_all add: metric_parse_def metric_as_str_def)

lemma op_roundtrip [simp]: "op_parse (op_as_str p) = Inr p"
  by (cases p) (simp_all add: op_parse_def op_as_str_def)

lemma threshold_roundtrip [simp]: "threshold_restore (threshold_of t) = Inr t"
  by (simp add: threshold_restore_def threshold_of_def)

lemma known_threshold_of [simp]: "known_threshold (map_option threshold_of t) = t"
  by (cases t) (simp_all add: known_threshold_def)

lemma level_roundtrip [simp]: "level_from_str (level_as_str l) = Inr l"
  by (cases l) (simp_all add: level_from_str_def level_as_str_def)

lemma nat_to_string_hd: "\<exists>c cs. nat_to_string n = c # cs \<and> c \<noteq> CHR ''-'' \<and> c \<noteq> CHR ''+''"
proof -
  obtain c cs where c: "nat_to_string n = c # cs" using nat_to_string_digits[of n] by (cases "nat_to_string n") auto
  then have "is_ascii_digit c" using nat_to_string_digits[of n] by simp
  then show ?thesis using c by (auto simp: is_ascii_digit_def)
qed

lemma i128_roundtrip:
  assumes "- (2 ^ 127) \<le> n" and "n < 2 ^ 127"
  shows "parse_i128 (int_to_string n) = Some n"
proof (cases "n < 0")
  case True
  then show ?thesis using assms nat_to_string_digits[of "nat (- n)"]
    by (simp add: parse_i128_def int_to_string_def strip_prefix_def)
next
  case False
  obtain c cs where c: "nat_to_string (nat n) = c # cs" "c \<noteq> CHR ''-''" "c \<noteq> CHR ''+''" using nat_to_string_hd by blast
  then have "strip_prefix ''-'' (nat_to_string (nat n)) = None" "strip_prefix ''+'' (nat_to_string (nat n)) = None"
    by (auto simp: strip_prefix_None starts_with_iff)
  then show ?thesis using False assms nat_to_string_digits[of "nat n"]
    by (simp add: parse_i128_def int_to_string_def)
qed

text \<open>What a statistic must satisfy to be read back.\<close>

definition exact_ok :: "'s exact_stats \<Rightarrow> bool" where
  "exact_ok e \<longleftrightarrow>
     xs_negative e + xs_malformed e \<le> xs_count e \<and> xs_count e \<le> u64_max \<and> - (2 ^ 127) \<le> xs_total_ns e \<and> xs_total_ns e < 2 ^ 127
     \<and> sl_algo (dsk_layout (xs_sketch e)) = ''ddsketch'' \<and> sl_unit (dsk_layout (xs_sketch e)) = ''ns''"

lemma exact_roundtrip:
  assumes "\<And>x. from_bytes (to_bytes x) = Some x" and "exact_ok e"
  shows "exact_restore from_bytes (exact_of to_bytes e) = Inr e"
proof -
  have "sat_add (xs_negative e) (xs_malformed e) = xs_negative e + xs_malformed e"
    using assms(2) by (simp add: exact_ok_def sat_add_def)
  then show ?thesis using assms
    by (cases e; cases "xs_sketch e")
      (simp add: exact_restore_def exact_of_def exact_ok_def to_layout_def current_layout_def i128_roundtrip)
qed

definition run_ok :: "(string \<Rightarrow> bool) \<Rightarrow> ('s, 'p) stored_snapshot \<Rightarrow> bool" where
  "run_ok rx s \<longleftrightarrow> parse_filter rx (cd_filter_string (sn_def s)) = Inr (cd_filter (sn_def s)) \<and> exact_ok (sn_total s)"

text \<open>The run as disk keeps it: the breakdowns and their interners are dropped on purpose.\<close>

definition on_disk :: "string \<Rightarrow> ('s, 'p) stored_snapshot \<Rightarrow> ('s, 'p) stored_snapshot" where
  "on_disk name s = s\<lparr>sn_def := (sn_def s)\<lparr>cd_name := name\<rparr>, sn_per_name := None, sn_per_group := None,
     sn_names := interner_new 0, sn_group_values := []\<rparr>"

lemma run_roundtrip:
  assumes "\<And>x. from_bytes (to_bytes x) = Some x" and "run_ok rx s"
  shows "snapshot_restore rx from_bytes name (snapshot_of to_bytes s) = Inr (on_disk name s)"
proof -
  have "exact_restore from_bytes (exact_of to_bytes (sn_total s)) = Inr (sn_total s)"
    using assms by (intro exact_roundtrip) (auto simp: run_ok_def)
  then show ?thesis using assms(2)
    by (cases s; cases "sn_def s"; cases "sn_policy s"; cases "sn_ingest s")
      (auto simp: snapshot_restore_def snapshot_of_def on_disk_def run_ok_def)
qed

lemma evict_oldest_fits: "length ss \<le> m \<Longrightarrow> evict_oldest m ss n = (ss, n)"
  by (cases ss) auto

lemma restore_runs_all:
  assumes "\<And>x. from_bytes (to_bytes x) = Some x" and "\<forall>s \<in> set ss. run_ok rx s"
    and "length (hi_snapshots h) + length ss \<le> hi_max h"
  shows "restore_runs rx from_bytes name (map (snapshot_of to_bytes) ss) h
    = (h\<lparr>hi_snapshots := hi_snapshots h @ map (on_disk name) ss\<rparr>, [])"
  using assms(2,3)
proof (induction ss arbitrary: h)
  case (Cons s ss)
  have "snapshot_restore rx from_bytes name (snapshot_of to_bytes s) = Inr (on_disk name s)"
    using assms(1) Cons.prems by (intro run_roundtrip) auto
  moreover have "history_push (on_disk name s) h = h\<lparr>hi_snapshots := hi_snapshots h @ [on_disk name s]\<rparr>"
    using Cons.prems by (simp add: history_push_def evict_oldest_fits)
  ultimately show ?case using Cons by simp
qed simp

text \<open>
  Runs survive a restart, at the level of the record that is encoded: the JSON text between writing and
  reading is not modelled, and \<open>to_bytes\<close>, \<open>from_bytes\<close> are the sketch crate's. If the crate read back
  exactly the sketch it wrote, a history within the cap whose runs are \<open>run_ok\<close> (their filters parse to what
  they hold, their counts and totals fit the widths of the file) would come back from its file complete, in order and without
  errors: labels, definitions as of each run, policies, exact figures, projections and loss, with the
  counters that keep labels unambiguous. Only the per-name and per-group breakdowns are gone, and
  they read as absent.
\<close>

lemma history_survives_disk:
  assumes "\<And>x. from_bytes (to_bytes x) = Some x" and "\<forall>s \<in> set (hi_snapshots h). run_ok rx s"
    and "length (hi_snapshots h) \<le> max_snapshots" and "1 \<le> hi_next_auto h"
    and "pc_snapshots file = map (snapshot_of to_bytes) (hi_snapshots h)"
    and "pc_next_auto_label file = hi_next_auto h" and "pc_snapshots_evicted file = hi_evicted h"
  shows "restore_history rx from_bytes file
    = (\<lparr>hi_snapshots = map (on_disk (pc_name file)) (hi_snapshots h), hi_next_auto = hi_next_auto h,
        hi_evicted = hi_evicted h, hi_max = max_snapshots\<rparr>, [])"
  using restore_runs_all[OF assms(1,2), where h = history_new and name = "pc_name file"] assms(3-7)
  by (simp add: restore_history_def restore_counters_def history_new_def history_with_max_def max_snapshots_def)

definition demo_bytes_sketch :: "nat list sketch_crate" where
  "demo_bytes_sketch = \<lparr>dd_new = [], dd_add = (\<lambda>x s. s @ [1]), dd_merge = (\<lambda>a b. Some (a @ b))\<rparr>"

definition demo_run_def :: collector_def where
  "demo_run_def = \<lparr>cd_name = ''c'', cd_filter_string = ''ALL'', cd_filter = FAll, cd_level = Timing, cd_group_keys = [],
     cd_max_sample_bytes = 0, cd_description = None,
     cd_threshold = Some \<lparr>th_metric = MAvgMs, th_group = None, th_op = OpLte, th_value = Fin 5, th_window_ms = 100\<rparr>\<rparr>"

definition demo_recorded_run :: "(nat list, unit) stored_snapshot" where
  "demo_recorded_run = from_view ''snapshot-1'' None JNull 9 policy_default demo_run_def
     (inner_new demo_bytes_sketch demo_run_def 3) None ()"

definition demo_history :: "(nat list, unit) history" where
  "demo_history = \<lparr>hi_snapshots = [demo_recorded_run], hi_next_auto = 2, hi_evicted = 0, hi_max = max_snapshots\<rparr>"

definition demo_file :: "unit persisted_collector" where
  "demo_file = \<lparr>pc_version = 1, pc_name = ''c'', pc_owner = ''o'', pc_domain = ''default'', pc_filter = ''ALL'',
     pc_level = ''timing'', pc_group_keys = [], pc_max_sample_bytes = 0, pc_description = None, pc_threshold = None,
     pc_armed_at = 3, pc_snapshots = map (snapshot_of id) (hi_snapshots demo_history), pc_next_auto_label = 2,
     pc_snapshots_evicted = 0\<rparr>"

lemma history_survives_disk_witness:
  "restore_history (\<lambda>_. True) Some demo_file
     = (\<lparr>hi_snapshots = [on_disk ''c'' demo_recorded_run], hi_next_auto = 2, hi_evicted = 0, hi_max = max_snapshots\<rparr>, [])"
proof -
  have "parse_filter (\<lambda>_. True) ''ALL'' = Inr FAll" by code_simp
  then have "run_ok (\<lambda>_. True) demo_recorded_run"
    by (simp add: run_ok_def demo_recorded_run_def from_view_def demo_run_def_def exact_ok_def inner_new_def stats_new_def
        sketch_new_def current_layout_def)
  then show ?thesis
    using history_survives_disk[of Some id demo_history "\<lambda>_. True" demo_file]
    by (simp add: demo_history_def demo_file_def max_snapshots_def)
qed

end
