(* ===== verification/Collector_Ops.thy ===== *)
theory Collector_Ops
  imports Collector_Registry Collector_Files_Props
begin

text \<open>
  The registry's operations from end to end (\<open>collector/registry.rs\<close>), each the composition of the
  steps of \<open>Collector_Registry\<close> with nothing in between, and what they do to the daemon-wide
  reservation of sample bytes. The outcome of each file operation is an argument.
\<close>

section \<open>Whole operations\<close>

record disk_outcome =
  do_save :: "string \<Rightarrow> string option"
  do_unlinked :: "string \<Rightarrow> bool"
  do_unused :: bool

definition write_file ::
  "disk_outcome \<Rightarrow> u64 \<Rightarrow> 'p persisted_collector \<Rightarrow> ('s, 'p) collector_registry \<Rightarrow> (string + bool) \<times> ('s, 'p) collector_registry" where
  "write_file dk i f r = registry_write (do_unused dk) (do_save dk (file_path f)) i f r"

definition unlink_file :: "disk_outcome \<Rightarrow> session_id \<Rightarrow> string \<Rightarrow> u64 \<Rightarrow> ('s, 'p) collector_registry \<Rightarrow> ('s, 'p) collector_registry" where
  "unlink_file dk owner name since r =
     delete_unless_written_since (do_unlinked dk (collector_path (session_display owner) name)) (do_unused dk) owner name since r"

definition add_collector ::
  "'s sketch_crate \<Rightarrow> ('s \<Rightarrow> nat list) \<Rightarrow> disk_outcome \<Rightarrow> (nat \<Rightarrow> trace_ingest_loss) \<Rightarrow> session_id \<Rightarrow> string \<Rightarrow> nat
     \<Rightarrow> collector_def \<Rightarrow> int \<Rightarrow> ('s, 'p) collector_registry \<Rightarrow> (collector_registry_error + u64) \<times> ('s, 'p) collector_registry" where
  "add_collector sk to_bytes dk loss_of owner domain metrics d now r =
     (case arm sk to_bytes loss_of owner domain metrics d now r of
        (Inl err, r1) \<Rightarrow> (Inl err, r1)
      | (Inr (i, f), r1) \<Rightarrow> (Inr i, snd (write_file dk i f r1)))"

definition edit_collector ::
  "'s sketch_crate \<Rightarrow> ('s \<Rightarrow> nat list) \<Rightarrow> (string \<Rightarrow> bool) \<Rightarrow> disk_outcome \<Rightarrow> (nat \<Rightarrow> trace_ingest_loss) \<Rightarrow> session_id \<Rightarrow> string
     \<Rightarrow> collector_edit \<Rightarrow> nat option \<Rightarrow> int \<Rightarrow> ('s, 'p) collector_registry
     \<Rightarrow> (collector_registry_error + bool) \<times> ('s, 'p) collector_registry" where
  "edit_collector sk to_bytes rx dk loss_of owner name c new_metrics now r =
     (case edit_plan_for rx to_bytes owner name c r of
        Inl err \<Rightarrow> (Inl err, r)
      | Inr pl \<Rightarrow>
          (case write_file dk (xp_id pl) (xp_file pl) r of
             (written, r1) \<Rightarrow> edit_commit sk loss_of new_metrics now pl written r1))"

definition remove ::
  "disk_outcome \<Rightarrow> session_id \<Rightarrow> string \<Rightarrow> ('s, 'p) collector_registry \<Rightarrow> (collector_registry_error + unit) \<times> ('s, 'p) collector_registry" where
  "remove dk owner name r =
     (case remove_collector owner name r of
        (Inl err, r1) \<Rightarrow> (Inl err, r1)
      | (Inr since, r1) \<Rightarrow> (Inr (), unlink_file dk owner name since r1))"

definition snapshot ::
  "'s sketch_crate \<Rightarrow> ('s \<Rightarrow> nat list) \<Rightarrow> (collector_def \<Rightarrow> 's collector_inner \<Rightarrow> 'p) \<Rightarrow> 'p \<Rightarrow> disk_outcome
     \<Rightarrow> (nat \<Rightarrow> trace_ingest_loss) \<Rightarrow> session_id \<Rightarrow> snapshot_request \<Rightarrow> ('s, 'p) collector_registry
     \<Rightarrow> (collector_registry_error + (('s, 'p) stored_snapshot \<times> persist_note option)) \<times> ('s, 'p) collector_registry" where
  "snapshot sk to_bytes project none dk loss_of owner rq r =
     (case snapshot_take sk loss_of owner rq r of
        (Inl err, r1) \<Rightarrow> (Inl err, r1)
      | (Inr tk, r1) \<Rightarrow>
          let run = stored_run project none rq tk
          in case snapshot_file to_bytes (tk_id tk) run r1 of
               (None, r2) \<Rightarrow> (Inr (run, Some RemovedMeanwhile), r2)
             | (Some f, r2) \<Rightarrow>
                 (case write_file dk (tk_id tk) f r2 of
                    (written, r3) \<Rightarrow> (Inr (run, snapshot_persist_error (tk_id tk) written r3), r3)))"

fun finish_moves ::
  "('s \<Rightarrow> nat list) \<Rightarrow> disk_outcome \<Rightarrow> pending_move list \<Rightarrow> ('s, 'p) collector_registry \<Rightarrow> ('s, 'p) collector_registry" where
  "finish_moves to_bytes dk [] r = r"
| "finish_moves to_bytes dk ((old, new, name, since) # ms) r =
     finish_moves to_bytes dk ms
       (case moved_file to_bytes new name r of
          None \<Rightarrow> unlink_file dk old name since r
        | Some (i, f) \<Rightarrow>
            (case write_file dk i f r of
               (Inr _, r1) \<Rightarrow> unlink_file dk old name since r1
             | (Inl _, r1) \<Rightarrow> r1))"

fun finish_unlinks :: "disk_outcome \<Rightarrow> pending_unlink list \<Rightarrow> ('s, 'p) collector_registry \<Rightarrow> ('s, 'p) collector_registry" where
  "finish_unlinks dk [] r = r"
| "finish_unlinks dk ((owner, name, since) # us) r = finish_unlinks dk us (unlink_file dk owner name since r)"

definition finish ::
  "('s \<Rightarrow> nat list) \<Rightarrow> disk_outcome \<Rightarrow> pending_move list \<times> pending_unlink list \<Rightarrow> ('s, 'p) collector_registry
     \<Rightarrow> ('s, 'p) collector_registry" where
  "finish to_bytes dk pending r = finish_unlinks dk (snd pending) (finish_moves to_bytes dk (fst pending) r)"

definition rename_owner ::
  "('s \<Rightarrow> nat list) \<Rightarrow> disk_outcome \<Rightarrow> session_id \<Rightarrow> session_id \<Rightarrow> ('s, 'p) collector_registry \<Rightarrow> nat \<times> ('s, 'p) collector_registry" where
  "rename_owner to_bytes dk old new r =
     (case move_owner old new r of (ms, r1) \<Rightarrow> (length ms, finish to_bytes dk (ms, []) r1))"

definition drop_owner ::
  "('s \<Rightarrow> nat list) \<Rightarrow> disk_outcome \<Rightarrow> session_id \<Rightarrow> ('s, 'p) collector_registry \<Rightarrow> nat \<times> ('s, 'p) collector_registry" where
  "drop_owner to_bytes dk owner r =
     (case detach_session owner r of (us, r1) \<Rightarrow> (length us, finish to_bytes dk ([], us) r1))"

section \<open>The reservation\<close>

text \<open>File work changes no entry.\<close>

definition same_entries :: "('s, 'p) collector_registry \<Rightarrow> ('s, 'p) collector_registry \<Rightarrow> bool" where
  "same_entries r r' \<longleftrightarrow> cg_entries r' = cg_entries r \<and> cg_next_id r' = cg_next_id r \<and> cg_max_total r' = cg_max_total r"

lemma same_entries_refl [simp]: "same_entries r r"
  by (simp add: same_entries_def)

lemma same_entries_trans: "same_entries r1 r2 \<Longrightarrow> same_entries r2 r3 \<Longrightarrow> same_entries r1 r3"
  by (simp add: same_entries_def)

lemma write_same_entries: "same_entries r (snd (write_file dk i f r))"
  by (auto simp: same_entries_def write_file_def registry_write_def write_begin_def write_end_def Let_def path_lock_def
      forget_if_unused_def split: option.split)

lemma unlink_same_entries: "same_entries r (unlink_file dk owner name since r)"
  by (auto simp: same_entries_def unlink_file_def delete_unless_written_since_def Let_def path_lock_def forget_if_unused_def)

lemma moves_same_entries: "same_entries r (finish_moves to_bytes dk ms r)"
proof (induction to_bytes dk ms r rule: finish_moves.induct)
  case (2 to_bytes dk old new name since ms r)
  have "same_entries r (case write_file dk i f r of (Inr _, r1) \<Rightarrow> unlink_file dk old name since r1 | (Inl _, r1) \<Rightarrow> r1)" for i f
    using write_same_entries[of r dk i f] same_entries_trans[OF _ unlink_same_entries]
    by (cases "write_file dk i f r") (auto split: sum.split)
  then have "same_entries r (case moved_file to_bytes new name r of None \<Rightarrow> unlink_file dk old name since r
      | Some (i, f) \<Rightarrow> (case write_file dk i f r of (Inr _, r1) \<Rightarrow> unlink_file dk old name since r1 | (Inl _, r1) \<Rightarrow> r1))"
    by (simp add: unlink_same_entries split: option.split)
  from same_entries_trans[OF this 2] show ?case by simp
qed simp

lemma unlinks_same_entries: "same_entries r (finish_unlinks dk us r)"
  by (induction dk us r rule: finish_unlinks.induct) (auto intro: same_entries_trans[OF unlink_same_entries])

lemma finish_same_entries: "same_entries r (finish to_bytes dk pending r)"
  unfolding finish_def by (rule same_entries_trans[OF moves_same_entries unlinks_same_entries])

text \<open>
  The invariant of a registry whose operations come one at a time, under the budget \<open>b\<close>; \<open>M\<close> is the
  most that was reserved right after a restore.
\<close>

abbreviation entry_bytes :: "('s, 'p) collector_entry \<Rightarrow> nat" where
  "entry_bytes e \<equiv> cd_max_sample_bytes (ce_def e)"

definition reservation_ok :: "nat \<Rightarrow> nat \<Rightarrow> ('s, 'p) collector_registry \<Rightarrow> bool" where
  "reservation_ok b M r \<longleftrightarrow>
     cg_max_total r = b \<and> distinct (map ce_id (cg_entries r)) \<and> (\<forall>e \<in> set (cg_entries r). ce_id e < cg_next_id r) \<and> reserved_bytes r \<le> max b M"

lemma reservation_ok_same: "same_entries r r' \<Longrightarrow> reservation_ok b M r \<Longrightarrow> reservation_ok b M r'"
  by (simp add: same_entries_def reservation_ok_def reserved_bytes_def)

lemma reserved_of_simps [simp]: "reserved_of [] = 0" "reserved_of (e # es) = entry_bytes e + reserved_of es"
  "reserved_of (es @ es') = reserved_of es + reserved_of es'"
  by (simp_all add: reserved_of_def)

lemma reserved_of_filter: "reserved_of (filter P es) \<le> reserved_of es"
  by (induction es) auto

lemma reservation_ok_entries:
  assumes "reservation_ok b M r" and "map ce_id es = map ce_id (cg_entries r)" and "reserved_of es \<le> max b M"
  shows "reservation_ok b M (r\<lparr>cg_entries := es\<rparr>)"
proof -
  have "ce_id ` set es = ce_id ` set (cg_entries r)" using assms(2) by (metis set_map)
  then have "ce_id e < cg_next_id r" if "e \<in> set es" for e
    using that assms(1) unfolding reservation_ok_def by (metis imageE imageI)
  then show ?thesis using assms by (simp add: reservation_ok_def reserved_bytes_def)
qed

lemma reservation_ok_map:
  assumes "reservation_ok b M r" and "map ce_id es = map ce_id (cg_entries r)" and "map entry_bytes es = map entry_bytes (cg_entries r)"
  shows "reservation_ok b M (r\<lparr>cg_entries := es\<rparr>)"
proof (rule reservation_ok_entries[OF assms(1,2)])
  have "reserved_of es = reserved_of (cg_entries r)" using assms(3) unfolding reserved_of_def comp_def by argo
  then show "reserved_of es \<le> max b M" using assms(1) by (simp add: reservation_ok_def reserved_bytes_def)
qed

lemma reservation_ok_filter: "reservation_ok b M r \<Longrightarrow> reservation_ok b M (r\<lparr>cg_entries := filter P (cg_entries r)\<rparr>)"
  using reserved_of_filter[of P "cg_entries r"] by (auto simp: reservation_ok_def reserved_bytes_def distinct_map_filter)

lemma map_update_entry:
  "(\<And>e. e \<in> set es \<Longrightarrow> P e \<Longrightarrow> g (f e) = g e) \<Longrightarrow> map g (update_entry P f es) = map g es"
  by (induction es) auto

lemma reserved_update_entry:
  "e \<in> set es \<Longrightarrow> P e \<Longrightarrow> \<forall>x \<in> set es. P x \<longrightarrow> x = e
     \<Longrightarrow> entry_bytes e + reserved_of (update_entry P f es) = entry_bytes (f e) + reserved_of es"
proof (induction es)
  case (Cons x es)
  show ?case
  proof (cases "P x")
    case True
    then have "x = e" using Cons.prems(3) by (meson list.set_intros(1))
    then show ?thesis using True by simp
  next
    case False
    then have "e \<in> set es" using Cons.prems(1,2) by auto
    moreover have "\<forall>y \<in> set es. P y \<longrightarrow> y = e" using Cons.prems(3) by (meson list.set_intros(2))
    ultimately have "entry_bytes e + reserved_of (update_entry P f es) = entry_bytes (f e) + reserved_of es"
      using Cons.IH Cons.prems(2) by blast
    then show ?thesis using False by simp
  qed
qed simp

lemma reserved_of_member: "e \<in> set es \<Longrightarrow> entry_bytes e \<le> reserved_of es"
  by (induction es) auto

lemma find_member: "find P es = Some e \<Longrightarrow> e \<in> set es \<and> P e"
  by (induction es) (auto split: if_splits)

lemma edit_plan_fields:
  assumes "edit_plan_for rx tb owner name c r = Inr pl"
  shows "\<exists>e. find (owned_as owner name) (cg_entries r) = Some e \<and> xp_id pl = ce_id e
    \<and> (xp_structural pl \<longrightarrow> cd_max_sample_bytes (xp_def pl) \<le> cg_max_total r - (reserved_bytes r - entry_bytes e))
    \<and> (\<not> xp_structural pl \<longrightarrow> cd_max_sample_bytes (xp_def pl) = entry_bytes e)"
proof -
  obtain e where e: "find (owned_as owner name) (cg_entries r) = Some e"
    using assms by (auto simp: edit_plan_for_def split: option.splits)
  obtain d where d: "edited_def rx c (ce_def e) = Inr d"
    using assms e by (auto simp: edit_plan_for_def Let_def split: sum.splits)
  have plain: "cd_max_sample_bytes d = entry_bytes e" if "\<not> is_structural (ce_def e) c"
    using that d by (auto simp: is_structural_def edited_def_def Let_def bind_res_Inr split: option.splits)
  have "xp_id pl = ce_id e" "xp_def pl = d" "xp_structural pl = is_structural (ce_def e) c"
    "is_structural (ce_def e) c \<Longrightarrow> cd_max_sample_bytes d \<le> cg_max_total r - (reserved_bytes r - entry_bytes e)"
    using assms e d by (auto simp: edit_plan_for_def Let_def split: if_splits option.splits)
  then show ?thesis using e plain by simp
qed

lemma edit_file_armed_at:
  assumes "edit_plan_for rx tb owner name c r = Inr pl" and "find (owned_as owner name) (cg_entries r) = Some e" and "xp_structural pl"
  shows "pc_armed_at (xp_file pl) = ci_armed_at (co_inner (ce_collector e))
    \<and> ci_armed_at (co_inner (ce_collector (edit_entry sk loss_of nm now pl e))) = now"
  using assms
  by (auto simp: edit_plan_for_def Let_def persisted_with_def edit_entry_def collector_new_def inner_new_def split: sum.splits option.splits if_splits)

lemma edit_entry_bytes: "entry_bytes (edit_entry sk loss_of nm now pl e) = cd_max_sample_bytes (xp_def pl)"
  by (simp add: edit_entry_def Let_def collector_new_def with_def_def split: option.split)

lemma edit_entry_id [simp]: "ce_id (edit_entry sk loss_of nm now pl e) = ce_id e"
  by (simp add: edit_entry_def Let_def split: option.split)

lemma reservation_ok_edit:
  assumes ok: "reservation_ok b M r"
  shows "reservation_ok b M (snd (edit_collector sk tb rx dk loss_of owner name c nm now r))"
proof (cases "edit_plan_for rx tb owner name c r")
  case (Inr pl)
  obtain w r1 where w: "write_file dk (xp_id pl) (xp_file pl) r = (w, r1)" by (cases "write_file dk (xp_id pl) (xp_file pl) r")
  have same: "same_entries r r1" using write_same_entries[of r dk "xp_id pl" "xp_file pl"] w by simp
  have ok1: "reservation_ok b M r1" by (rule reservation_ok_same[OF same ok])
  let ?mine = "\<lambda>e. ce_id e = xp_id pl \<and> ce_owner e = xp_owner pl" and ?f = "edit_entry sk loss_of nm now pl"
  obtain e where e: "e \<in> set (cg_entries r)" "xp_id pl = ce_id e"
    "xp_structural pl \<longrightarrow> cd_max_sample_bytes (xp_def pl) \<le> cg_max_total r - (reserved_bytes r - entry_bytes e)"
    "\<not> xp_structural pl \<longrightarrow> cd_max_sample_bytes (xp_def pl) = entry_bytes e"
    using edit_plan_fields[OF Inr] find_member by metis
  have only: "\<forall>x \<in> set (cg_entries r). ?mine x \<longrightarrow> x = e"
    using e(1,2) ok unfolding reservation_ok_def distinct_map by (metis inj_onD)
  have "reserved_of (update_entry ?mine ?f (cg_entries r)) \<le> max b M" if "?mine e"
  proof -
    have "entry_bytes e + reserved_of (update_entry ?mine ?f (cg_entries r)) = cd_max_sample_bytes (xp_def pl) + reserved_of (cg_entries r)"
      using reserved_update_entry[OF e(1) that only, of ?f] by (simp add: edit_entry_bytes)
    moreover have "entry_bytes e \<le> reserved_of (cg_entries r)" "reserved_of (cg_entries r) \<le> max b M" "cg_max_total r = b"
      using reserved_of_member[OF e(1)] ok by (simp_all add: reservation_ok_def reserved_bytes_def)
    ultimately show ?thesis using e(3,4) unfolding reserved_bytes_def by (cases "xp_structural pl") (auto simp: max_def split: if_splits)
  qed
  moreover have "map ce_id (update_entry ?mine ?f (cg_entries r)) = map ce_id (cg_entries r)" by (rule map_update_entry) simp
  moreover have "list_ex ?mine (cg_entries r) \<Longrightarrow> ?mine e" using only unfolding list_ex_iff by metis
  ultimately have "list_ex ?mine (cg_entries r) \<Longrightarrow> reservation_ok b M (r1\<lparr>cg_entries := update_entry ?mine ?f (cg_entries r1)\<rparr>)"
    using reservation_ok_entries[OF ok1, of "update_entry ?mine ?f (cg_entries r)"] same by (simp add: same_entries_def)
  then show ?thesis
    using ok1 same Inr w by (auto simp: edit_collector_def edit_commit_def Let_def same_entries_def split: sum.split bool.split)
qed (use ok in \<open>simp add: edit_collector_def\<close>)

lemma reservation_ok_add:
  assumes ok: "reservation_ok b M r"
  shows "reservation_ok b M (snd (add_collector sk tb dk loss_of owner domain m d now r))"
proof (cases "arm sk tb loss_of owner domain m d now r")
  case (Pair res r1)
  have id: "ce_id e \<noteq> cg_next_id r" if "e \<in> set (cg_entries r)" for e using ok that by (auto simp: reservation_ok_def)
  have "reservation_ok b M r1"
  proof (cases res)
    case Inl
    then show ?thesis using ok Pair by (auto simp: arm_def Let_def split: if_splits)
  next
    case (Inr x)
    then obtain e where "r1 = r\<lparr>cg_entries := cg_entries r @ [e], cg_next_id := cg_next_id r + 1\<rparr>" "ce_id e = cg_next_id r"
      "entry_bytes e = cd_max_sample_bytes d" "cd_max_sample_bytes d \<le> cg_max_total r - reserved_bytes r"
      using Pair by (auto simp: arm_def Let_def collector_new_def split: if_splits)
    then show ?thesis using ok id by (auto simp: reservation_ok_def reserved_bytes_def less_Suc_eq)
  qed
  moreover have "reservation_ok b M (snd (write_file dk i f r1))" if "reservation_ok b M r1" for i f
    by (rule reservation_ok_same[OF write_same_entries that])
  ultimately show ?thesis using Pair by (auto simp: add_collector_def split: sum.split)
qed

lemma swap_keeps_def [simp]: "co_def (snd (swap sk now c)) = co_def c"
  by (simp add: swap_def Let_def)

lemma ingest_keeps_bytes [simp]: "co_def (ingest sk ns sp c) = co_def c"
  by (simp add: ingest_def Let_def case_prod_beta)

lemma reservation_ok_take: "reservation_ok b M r \<Longrightarrow> reservation_ok b M (snd (snapshot_take sk loss_of owner rq r))"
  by (auto simp: snapshot_take_def take_entry_def reset_entry_def Let_def split: option.split prod.split sum.split
      intro!: reservation_ok_map map_update_entry)

lemma reservation_ok_file: "reservation_ok b M r \<Longrightarrow> reservation_ok b M (snd (snapshot_file tb i run r))"
  by (auto simp: snapshot_file_def Let_def intro!: reservation_ok_map map_update_entry)

lemma reservation_ok_snapshot:
  assumes "reservation_ok b M r"
  shows "reservation_ok b M (snd (snapshot sk tb project none dk loss_of owner rq r))"
proof -
  obtain res r1 where t: "snapshot_take sk loss_of owner rq r = (res, r1)" by fastforce
  have r1: "reservation_ok b M r1" using reservation_ok_take[OF assms, of sk loss_of owner rq] t by simp
  have "reservation_ok b M r2" if "snapshot_file tb i run r1 = (x, r2)" for i run x r2
    using reservation_ok_file[OF r1, of tb i run] that by simp
  moreover have "reservation_ok b M r3" if "write_file dk i f r2 = (w, r3)" "reservation_ok b M r2" for i f w r2 r3
    using reservation_ok_same[OF write_same_entries that(2), of dk i f] that(1) by simp
  ultimately show ?thesis
    using t r1 by (auto simp: snapshot_def Let_def split: sum.split prod.split option.split) blast
qed

lemma reservation_ok_reset: "reservation_ok b M r \<Longrightarrow> reservation_ok b M (snd (reset_collector sk loss_of owner name now r))"
  by (auto simp: reset_collector_def reset_entry_def split: option.split intro!: reservation_ok_map map_update_entry)

lemma reservation_ok_remove:
  assumes "reservation_ok b M r"
  shows "reservation_ok b M (snd (remove dk owner name r))"
proof -
  obtain res r1 where t: "remove_collector owner name r = (res, r1)" by fastforce
  have "reservation_ok b M r1"
    using t reservation_ok_filter[OF assms] assms by (auto simp: remove_collector_def Let_def split: if_splits)
  then show ?thesis using t reservation_ok_same[OF unlink_same_entries] by (auto simp: remove_def split: sum.split)
qed

lemma reservation_ok_drop: "reservation_ok b M r \<Longrightarrow> reservation_ok b M (snd (drop_owner tb dk owner r))"
  by (simp add: drop_owner_def detach_session_def) (rule reservation_ok_same[OF finish_same_entries reservation_ok_filter])

lemma reservation_ok_rename:
  assumes "reservation_ok b M r"
  shows "reservation_ok b M (snd (rename_owner tb dk old new r))"
proof -
  have "reservation_ok b M (snd (move_owner old new r))"
    using assms by (auto simp: move_owner_def comp_def intro!: reservation_ok_map)
  then show ?thesis by (simp add: rename_owner_def case_prod_beta) (rule reservation_ok_same[OF finish_same_entries])
qed

lemma reservation_ok_ingest: "reservation_ok b M r \<Longrightarrow> reservation_ok b M (ingest_span sk env ns domain sp r)"
  unfolding ingest_span_def by (rule reservation_ok_map) (auto simp: ingest_entry_def)

inductive serial_step ::
  "'s sketch_crate \<Rightarrow> ('s \<Rightarrow> nat list) \<Rightarrow> (string \<Rightarrow> bool) \<Rightarrow> match_env \<Rightarrow> (json \<Rightarrow> string) \<Rightarrow> (collector_def \<Rightarrow> 's collector_inner \<Rightarrow> 'p) \<Rightarrow> 'p
     \<Rightarrow> ('s, 'p) collector_registry \<Rightarrow> ('s, 'p) collector_registry \<Rightarrow> bool" for sk tb rx env ns project none where
  serial_add: "serial_step sk tb rx env ns project none r (snd (add_collector sk tb dk loss_of owner domain m d now r))"
| serial_edit: "serial_step sk tb rx env ns project none r (snd (edit_collector sk tb rx dk loss_of owner name c nm now r))"
| serial_remove: "serial_step sk tb rx env ns project none r (snd (remove dk owner name r))"
| serial_reset: "serial_step sk tb rx env ns project none r (snd (reset_collector sk loss_of owner name now r))"
| serial_snapshot: "serial_step sk tb rx env ns project none r (snd (snapshot sk tb project none dk loss_of owner rq r))"
| serial_drop: "serial_step sk tb rx env ns project none r (snd (drop_owner tb dk owner r))"
| serial_rename: "serial_step sk tb rx env ns project none r (snd (rename_owner tb dk old new r))"
| serial_ingest: "serial_step sk tb rx env ns project none r (ingest_span sk env ns domain sp r)"

lemmas reservation_invs = reservation_ok_add reservation_ok_edit reservation_ok_remove reservation_ok_reset reservation_ok_snapshot
  reservation_ok_drop reservation_ok_rename reservation_ok_ingest

lemma reservation_ok_serial: "serial_step sk tb rx env ns project none r r' \<Longrightarrow> reservation_ok b M r \<Longrightarrow> reservation_ok b M r'"
  by (induction rule: serial_step.induct) (simp_all add: reservation_invs)

text \<open>
  A run: operations one at a time, and restores, which arm every collector found on disk. \<open>M\<close> is the
  most that was reserved right after a restore, 0 when there was none.
\<close>

inductive serial_run ::
  "'s sketch_crate \<Rightarrow> ('s \<Rightarrow> nat list) \<Rightarrow> (string \<Rightarrow> bool) \<Rightarrow> match_env \<Rightarrow> (json \<Rightarrow> string) \<Rightarrow> (collector_def \<Rightarrow> 's collector_inner \<Rightarrow> 'p) \<Rightarrow> 'p
     \<Rightarrow> (nat list \<Rightarrow> 's option) \<Rightarrow> nat \<Rightarrow> ('s, 'p) collector_registry \<Rightarrow> nat \<Rightarrow> bool" for sk tb rx env ns project none from_bytes b where
  run_starts: "serial_run sk tb rx env ns project none from_bytes b (with_budget b) 0"
| run_steps: "serial_run sk tb rx env ns project none from_bytes b r M \<Longrightarrow> serial_step sk tb rx env ns project none r r'
    \<Longrightarrow> serial_run sk tb rx env ns project none from_bytes b r' M"
| run_restores: "serial_run sk tb rx env ns project none from_bytes b r M
    \<Longrightarrow> r' = snd (restore_files sk rx from_bytes metrics_for loss_of now files r)
    \<Longrightarrow> serial_run sk tb rx env ns project none from_bytes b r' (max M (reserved_bytes r'))"

definition entries_ok :: "nat \<Rightarrow> ('s, 'p) collector_registry \<Rightarrow> bool" where
  "entries_ok b r \<longleftrightarrow>
     cg_max_total r = b \<and> distinct (map ce_id (cg_entries r)) \<and> (\<forall>e \<in> set (cg_entries r). ce_id e < cg_next_id r)"

lemma reservation_ok_iff: "reservation_ok b M r \<longleftrightarrow> entries_ok b r \<and> reserved_bytes r \<le> max b M"
  by (auto simp: reservation_ok_def entries_ok_def)

lemma entry_from_file_id: "entry_from_file sk rx from_bytes metrics_for loss_of now i f = Inr e \<Longrightarrow> ce_id e = i"
  by (cases "level_from_str (pc_level f)"; cases "parse_filter rx (pc_filter f)")
    (auto simp: entry_from_file_def Let_def split: if_splits)

lemma entries_ok_restore:
  "entries_ok b r \<Longrightarrow> entries_ok b (snd (restore_files sk rx from_bytes metrics_for loss_of now files r))"
proof (induction sk rx from_bytes metrics_for loss_of now files r rule: restore_files.induct)
  case (2 sk rx from_bytes metrics_for loss_of now f fs r)
  let ?r1 = "r\<lparr>cg_next_id := cg_next_id r + 1\<rparr>"
  show ?case
  proof (cases "entry_from_file sk rx from_bytes metrics_for loss_of now (cg_next_id r) f")
    case (Inl err)
    have "entries_ok b ?r1" using 2(3) by (auto simp: entries_ok_def less_Suc_eq)
    with 2(1)[OF refl Inl] Inl show ?thesis by (simp add: case_prod_beta Let_def)
  next
    case (Inr e)
    have "entries_ok b (?r1\<lparr>cg_entries := cg_entries ?r1 @ [e]\<rparr>)"
      using 2(3) entry_from_file_id [OF Inr] by (auto simp: entries_ok_def less_Suc_eq)
    with 2(2)[OF refl Inr] Inr show ?thesis by (simp add: Let_def)
  qed
qed simp

lemma reservation_ok_start: "reservation_ok b 0 (with_budget b)"
  by (simp add: reservation_ok_def with_budget_def reserved_bytes_def)

lemma reservation_ok_run: "serial_run sk tb rx env ns project none from_bytes b r M \<Longrightarrow> reservation_ok b M r"
proof (induction rule: serial_run.induct)
  case run_starts
  show ?case by (rule reservation_ok_start)
next
  case (run_steps r M r')
  show ?case by (rule reservation_ok_serial [OF run_steps(2) run_steps.IH])
next
  case (run_restores r M r' metrics_for loss_of now files)
  then show ?case using entries_ok_restore by (auto simp: reservation_ok_iff)
qed


definition demo_disk :: disk_outcome where
  "demo_disk = \<lparr>do_save = (\<lambda>_. None), do_unlinked = (\<lambda>_. True), do_unused = True\<rparr>"

definition demo_no_loss :: "nat \<Rightarrow> trace_ingest_loss" where
  "demo_no_loss m = \<lparr>tl_dropped = 0, tl_shed_batches = 0, tl_malformed = 0\<rparr>"

definition demo_collector_env :: match_env where
  "demo_collector_env = \<lparr>regex_is_match = (\<lambda>_ _. False), json_to_string = (\<lambda>_. [])\<rparr>"

definition demo_sized :: "string \<Rightarrow> nat \<Rightarrow> collector_def" where
  "demo_sized name bytes = demo_run_def\<lparr>cd_name := name, cd_max_sample_bytes := bytes\<rparr>"

abbreviation demo_add :: "string \<Rightarrow> (nat list, unit) collector_registry \<Rightarrow> (collector_registry_error + u64) \<times> (nat list, unit) collector_registry" where
  "demo_add name \<equiv> add_collector demo_bytes_sketch id demo_disk demo_no_loss (Named ''o'') ''default'' 0 (demo_sized name 60) 3"


end
