(* ===== verification/Collector_Registry_Props.thy ===== *)
theory Collector_Registry_Props
  imports Collector_Ops
begin

text \<open>
  The registry under concurrency. Operations interleave between their locked steps: a write that has
  taken its place in the order may be saving while its collector is removed, renamed away or armed
  again under the same name. The lemmas show what the file ledger makes of it: no dead collector's
  file outlives the work that removes it, and no delete takes a live collector's bytes.
\<close>

section \<open>Identities and paths\<close>

type_synonym entry_key = "u64 \<times> session_id \<times> string"

definition key_of :: "('s, 'p) collector_entry \<Rightarrow> entry_key" where
  "key_of e = (ce_id e, ce_owner e, ce_name e)"

abbreviation keys :: "('s, 'p) collector_registry \<Rightarrow> entry_key list" where
  "keys r \<equiv> map key_of (cg_entries r)"

definition owner_path :: "session_id \<Rightarrow> string \<Rightarrow> string" where
  "owner_path owner name = collector_path (session_display owner) name"

text \<open>Names short enough not to be shortened; owners are named sessions.\<close>

definition fits :: "session_id \<Rightarrow> string \<Rightarrow> bool" where
  "fits owner name \<longleftrightarrow>
     (\<exists>w. owner = Named w) \<and> length (encode (session_display owner)) + length (encode name) \<le> 194"

lemma owner_path_inj:
  assumes "fits o1 n1" and "fits o2 n2" and "owner_path o1 n1 = owner_path o2 n2"
  shows "o1 = o2 \<and> n1 = n2"
proof -
  obtain w1 w2 where w: "o1 = Named w1" "o2 = Named w2" using assms(1,2) by (auto simp: fits_def)
  have "length (encode w1) + length (encode n1) \<le> 194" using assms(1) w by (simp add: fits_def session_display_def)
  from folded_paths_inj[OF this, of w2 n2] show ?thesis using assms(3) w by (simp add: owner_path_def session_display_def)
qed

definition live :: "entry_key list \<Rightarrow> u64 \<Rightarrow> string \<Rightarrow> bool" where
  "live K i p \<longleftrightarrow> (\<exists>owner name. (i, owner, name) \<in> set K \<and> owner_path owner name = p)"

subsection \<open>What the operations do to identities\<close>

lemma keys_update_entry:
  "(\<And>e. e \<in> set es \<Longrightarrow> P e \<Longrightarrow> key_of (f e) = key_of e) \<Longrightarrow> map key_of (update_entry P f es) = map key_of es"
  by (induction es) auto

lemma swap_def_same [simp]: "co_def (snd (swap sk now c)) = co_def c"
  by (simp add: swap_def Let_def)

lemma ingest_def_same [simp]: "co_def (ingest sk ns sp c) = co_def c"
  by (simp add: ingest_def Let_def case_prod_beta)

lemma reset_entry_key [simp]: "key_of (reset_entry sk loss_of now why e) = key_of e"
  by (simp add: reset_entry_def key_of_def)

lemma take_entry_key [simp]: "key_of (take_entry sk loss_of rq h e) = key_of e"
  by (simp add: take_entry_def key_of_def reset_entry_def Let_def)

lemma edit_entry_key:
  "ce_name e = cd_name (xp_def pl) \<Longrightarrow> key_of (edit_entry sk loss_of nm now pl e) = key_of e"
  by (simp add: edit_entry_def key_of_def Let_def collector_new_def with_def_def split: option.split)

text \<open>The parts of the registry the ledger depends on.\<close>

definition same_ledger :: "('s, 'p) collector_registry \<Rightarrow> ('s, 'p) collector_registry \<Rightarrow> bool" where
  "same_ledger r r' \<longleftrightarrow>
     keys r' = keys r \<and> cg_paths r' = cg_paths r \<and> cg_seq r' = cg_seq r \<and> cg_next_id r' = cg_next_id r \<and> cg_disk r' = cg_disk r"

lemma same_ledger_reset: "same_ledger r (snd (reset_collector sk loss_of owner name now r))"
  by (auto simp: same_ledger_def reset_collector_def keys_update_entry split: option.split)

lemma same_ledger_take: "same_ledger r (snd (snapshot_take sk loss_of owner rq r))"
  by (auto simp: same_ledger_def snapshot_take_def keys_update_entry split: option.split prod.split sum.split)

lemma same_ledger_ingest: "same_ledger r (ingest_span sk env ns domain sp r)"
  by (auto simp: same_ledger_def ingest_span_def ingest_entry_def key_of_def)

lemma same_ledger_file: "same_ledger r (snd (snapshot_file tb i s r))"
  by (simp add: same_ledger_def snapshot_file_def Let_def keys_update_entry key_of_def)

lemma same_ledger_commit:
  assumes "\<And>e. e \<in> set (cg_entries r) \<Longrightarrow> ce_id e = xp_id pl \<Longrightarrow> ce_name e = cd_name (xp_def pl)"
  shows "same_ledger r (snd (edit_commit sk loss_of nm now pl w r))"
proof -
  have "map key_of (update_entry (\<lambda>e. ce_id e = xp_id pl \<and> ce_owner e = xp_owner pl) (edit_entry sk loss_of nm now pl)
      (cg_entries r)) = keys r"
    by (rule keys_update_entry) (use assms in \<open>auto intro: edit_entry_key\<close>)
  then show ?thesis by (auto simp: same_ledger_def edit_commit_def Let_def split: sum.split bool.split)
qed

lemma arm_keys:
  assumes "arm sk tb loss_of owner domain m d now r = (Inr (i, f), r')"
  shows "keys r' = keys r @ [(i, owner, cd_name d)]" "i = cg_next_id r" "cg_next_id r' = Suc i"
    "cg_paths r' = cg_paths r" "cg_seq r' = cg_seq r" "cg_disk r' = cg_disk r"
    "pc_owner f = session_display owner" "pc_name f = cd_name d" "\<forall>i. (i, owner, cd_name d) \<notin> set (keys r)"
  using assms
  by (auto simp: arm_def Let_def key_of_def to_persisted_def persisted_with_def collector_new_def list_ex_iff owned_as_def
      split: if_splits)

lemma find_key:
  "find P es = Some e \<Longrightarrow> e \<in> set es \<and> P e"
  by (auto simp: find_Some_iff)

lemma edited_def_name: "edited_def rx c d = Inr d' \<Longrightarrow> cd_name d' = cd_name d"
  by (auto simp: edited_def_def Let_def bind_res_Inr split: option.splits)

lemma edit_plan_file:
  assumes "edit_plan_for rx tb owner name c r = Inr pl"
  shows "\<exists>e \<in> set (cg_entries r). xp_id pl = ce_id e \<and> cd_name (xp_def pl) = ce_name e \<and> ce_name e = pc_name (xp_file pl)"
proof -
  obtain e where e: "find (owned_as owner name) (cg_entries r) = Some e"
    using assms by (auto simp: edit_plan_for_def split: option.splits)
  then show ?thesis
    using assms find_key[OF e] edited_def_name
    by (fastforce simp: edit_plan_for_def Let_def persisted_with_def split: sum.splits option.splits if_splits)
qed

lemma snapshot_file_prepared:
  assumes "snapshot_file tb i s r = (Some f, r')"
  shows "\<exists>e \<in> set (cg_entries r'). ce_id e = i \<and> ce_name e = pc_name f"
proof -
  obtain e where "find (\<lambda>e. ce_id e = i) (cg_entries r') = Some e" "f = to_persisted tb e"
    using assms by (auto simp: snapshot_file_def Let_def)
  then show ?thesis using find_key by (fastforce simp: to_persisted_def persisted_with_def)
qed

lemma moved_file_prepared:
  assumes "moved_file tb new name r = Some (i, f)"
  shows "\<exists>e \<in> set (cg_entries r). ce_id e = i \<and> ce_name e = pc_name f"
proof -
  obtain e where "find (owned_as new name) (cg_entries r) = Some e" "f = to_persisted tb e" "i = ce_id e"
    using assms by (auto simp: moved_file_def)
  then show ?thesis using find_key by (fastforce simp: to_persisted_def persisted_with_def)
qed

section \<open>Interleaved operations\<close>

text \<open>
  The registry with the work under way: edits between their phases, files prepared and not yet
  written (with the unlink that follows a moved collector's write), the write holding each path's
  lock, and the unlinks and moves still to finish. Beside it, for the statements: who wrote each file
  and when, when each collector came to its path, and the paths left behind by a failed save of a
  mover or a failed unlink.
\<close>

record ('s, 'p) registry_run =
  rs_reg :: "('s, 'p) collector_registry"
  rs_plans :: "'p edit_plan list"
  rs_prepared :: "(u64 \<times> 'p persisted_collector \<times> pending_unlink option) list"
  rs_writing :: "string \<rightharpoonup> u64 \<times> u64 \<times> 'p persisted_collector \<times> pending_unlink option"
  rs_deletes :: "pending_unlink list"
  rs_moves :: "pending_move list"
  rs_written :: "string \<rightharpoonup> u64 \<times> u64"
  rs_held :: "u64 \<Rightarrow> u64"
  rs_stranded :: "string set"

definition run_start :: "nat \<Rightarrow> ('s, 'p) registry_run" where
  "run_start budget =
     \<lparr>rs_reg = with_budget budget, rs_plans = [], rs_prepared = [], rs_writing = (\<lambda>_. None), rs_deletes = [], rs_moves = [],
      rs_written = (\<lambda>_. None), rs_held = (\<lambda>_. 0), rs_stranded = {}\<rparr>"

definition unlink_of :: "pending_unlink option \<Rightarrow> pending_unlink list" where
  "unlink_of c = (case c of None \<Rightarrow> [] | Some u \<Rightarrow> [u])"

definition unlink_path :: "pending_unlink \<Rightarrow> string" where
  "unlink_path u = (case u of (owner, name, since) \<Rightarrow> owner_path owner name)"

inductive registry_step ::
  "'s sketch_crate \<Rightarrow> ('s \<Rightarrow> nat list) \<Rightarrow> (string \<Rightarrow> bool) \<Rightarrow> match_env \<Rightarrow> (json \<Rightarrow> string)
     \<Rightarrow> ('s, 'p) registry_run \<Rightarrow> ('s, 'p) registry_run \<Rightarrow> bool" for sk tb rx env ns where
  arms: "arm sk tb loss_of owner domain m d now (rs_reg s) = (Inr (i, f), r) \<Longrightarrow> fits owner (cd_name d) \<Longrightarrow>
    registry_step sk tb rx env ns s (s\<lparr>rs_reg := r, rs_prepared := rs_prepared s @ [(i, f, None)],
      rs_held := (rs_held s)(i := cg_seq r)\<rparr>)"
| plans: "edit_plan_for rx tb owner name c (rs_reg s) = Inr pl \<Longrightarrow>
    registry_step sk tb rx env ns s (s\<lparr>rs_plans := pl # rs_plans s, rs_prepared := rs_prepared s @ [(xp_id pl, xp_file pl, None)]\<rparr>)"
| commits: "pl \<in> set (rs_plans s) \<Longrightarrow>
    registry_step sk tb rx env ns s (s\<lparr>rs_reg := snd (edit_commit sk loss_of nm now pl w (rs_reg s))\<rparr>)"
| resets: "registry_step sk tb rx env ns s (s\<lparr>rs_reg := snd (reset_collector sk loss_of owner name now (rs_reg s))\<rparr>)"
| takes: "registry_step sk tb rx env ns s (s\<lparr>rs_reg := snd (snapshot_take sk loss_of owner rq (rs_reg s))\<rparr>)"
| files: "snapshot_file tb i run (rs_reg s) = (Some f, r) \<Longrightarrow>
    registry_step sk tb rx env ns s (s\<lparr>rs_reg := r, rs_prepared := rs_prepared s @ [(i, f, None)]\<rparr>)"
| ingests: "registry_step sk tb rx env ns s (s\<lparr>rs_reg := ingest_span sk env ns domain sp (rs_reg s)\<rparr>)"
| begins: "(i, f, c) \<in> set (rs_prepared s) \<Longrightarrow> rs_writing s (file_path f) = None \<Longrightarrow>
    write_begin unused i f (rs_reg s) = (Some t, r) \<Longrightarrow>
    registry_step sk tb rx env ns s (s\<lparr>rs_reg := r, rs_prepared := remove1 (i, f, c) (rs_prepared s),
      rs_writing := (rs_writing s)(file_path f \<mapsto> (i, t, f, c))\<rparr>)"
| finds_gone: "(i, f, c) \<in> set (rs_prepared s) \<Longrightarrow> rs_writing s (file_path f) = None \<Longrightarrow>
    write_begin unused i f (rs_reg s) = (None, r) \<Longrightarrow>
    registry_step sk tb rx env ns s (s\<lparr>rs_reg := r, rs_prepared := remove1 (i, f, c) (rs_prepared s),
      rs_deletes := unlink_of c @ rs_deletes s\<rparr>)"
| saves: "rs_writing s p = Some (i, t, f, c) \<Longrightarrow> write_end None t f (rs_reg s) = (w, r) \<Longrightarrow>
    registry_step sk tb rx env ns s (s\<lparr>rs_reg := r, rs_writing := (rs_writing s)(p := None),
      rs_written := (rs_written s)(p \<mapsto> (i, t)), rs_deletes := unlink_of c @ rs_deletes s\<rparr>)"
| save_fails: "rs_writing s p = Some (i, t, f, c) \<Longrightarrow> write_end (Some err) t f (rs_reg s) = (w, r) \<Longrightarrow>
    registry_step sk tb rx env ns s (s\<lparr>rs_reg := r, rs_writing := (rs_writing s)(p := None),
      rs_stranded := unlink_path ` set (unlink_of c) \<union> rs_stranded s\<rparr>)"
| removes: "remove_collector owner name (rs_reg s) = (Inr since, r) \<Longrightarrow>
    registry_step sk tb rx env ns s (s\<lparr>rs_reg := r, rs_deletes := (owner, name, since) # rs_deletes s\<rparr>)"
| drops: "detach_session owner (rs_reg s) = (us, r) \<Longrightarrow>
    registry_step sk tb rx env ns s (s\<lparr>rs_reg := r, rs_deletes := us @ rs_deletes s\<rparr>)"
| renames: "detach_session new (rs_reg s) = (us, r1) \<Longrightarrow> move_owner old new r1 = (ms, r) \<Longrightarrow> old \<noteq> new \<Longrightarrow>
    (\<And>e. e \<in> set (cg_entries r1) \<Longrightarrow> ce_owner e = old \<Longrightarrow> fits new (ce_name e)) \<Longrightarrow>
    registry_step sk tb rx env ns s (s\<lparr>rs_reg := r, rs_deletes := us @ rs_deletes s, rs_moves := ms @ rs_moves s,
      rs_held := (\<lambda>i. if (\<exists>e \<in> set (cg_entries r1). ce_id e = i \<and> ce_owner e = old) then cg_seq r else rs_held s i)\<rparr>)"
| finds_moved: "(old, new, name, since) \<in> set (rs_moves s) \<Longrightarrow> moved_file tb new name (rs_reg s) = Some (i, f) \<Longrightarrow>
    registry_step sk tb rx env ns s (s\<lparr>rs_moves := remove1 (old, new, name, since) (rs_moves s),
      rs_prepared := rs_prepared s @ [(i, f, Some (old, name, since))]\<rparr>)"
| moved_gone: "(old, new, name, since) \<in> set (rs_moves s) \<Longrightarrow> moved_file tb new name (rs_reg s) = None \<Longrightarrow>
    registry_step sk tb rx env ns s (s\<lparr>rs_moves := remove1 (old, new, name, since) (rs_moves s),
      rs_deletes := (old, name, since) # rs_deletes s\<rparr>)"
| unlinks: "(owner, name, since) \<in> set (rs_deletes s) \<Longrightarrow> p = owner_path owner name \<Longrightarrow> rs_writing s p = None \<Longrightarrow>
    r = delete_unless_written_since unlinked unused owner name since (rs_reg s) \<Longrightarrow>
    registry_step sk tb rx env ns s (s\<lparr>rs_reg := r, rs_deletes := remove1 (owner, name, since) (rs_deletes s),
      rs_written := (if cg_disk r p = None then (rs_written s)(p := None) else rs_written s),
      rs_stranded := (if unlinked then rs_stranded s else insert p (rs_stranded s))\<rparr>)"

section \<open>The invariant of the ledger\<close>

text \<open>The unlinks under way, wherever they wait.\<close>

definition to_follow :: "(u64 \<times> 'p persisted_collector \<times> pending_unlink option) set \<Rightarrow> pending_unlink set" where
  "to_follow Q = {u. \<exists>i f. (i, f, Some u) \<in> Q}"

definition behind :: "(string \<rightharpoonup> u64 \<times> u64 \<times> 'p persisted_collector \<times> pending_unlink option) \<Rightarrow> pending_unlink set" where
  "behind W = {u. \<exists>p i t f. W p = Some (i, t, f, Some u)}"

definition under_way :: "('s, 'p) registry_run \<Rightarrow> pending_unlink set" where
  "under_way s =
     set (rs_deletes s) \<union> (\<lambda>(old, new, name, t). (old, name, t)) ` set (rs_moves s) \<union> to_follow (set (rs_prepared s)) \<union> behind (rs_writing s)"

lemma to_follow_simps [simp]:
  "to_follow {} = {}" "to_follow (insert (i, f, c) Q) = set (unlink_of c) \<union> to_follow Q" "to_follow (Q1 \<union> Q2) = to_follow Q1 \<union> to_follow Q2"
  by (auto simp: to_follow_def unlink_of_def split: option.splits)

lemma behind_none [simp]: "behind (\<lambda>_. None) = {}"
  by (simp add: behind_def)

lemma behind_ended: "W p = Some (i, t, f, c) \<Longrightarrow> behind W = set (unlink_of c) \<union> behind (W(p := None))"
proof (intro set_eqI iffI)
  fix u assume w: "W p = Some (i, t, f, c)" "u \<in> behind W"
  then obtain x j t2 g where "W x = Some (j, t2, g, Some u)" by (auto simp: behind_def)
  with w(1) show "u \<in> set (unlink_of c) \<union> behind (W(p := None))"
    by (cases "x = p") (auto simp: behind_def unlink_of_def)
next
  fix u assume w: "W p = Some (i, t, f, c)" "u \<in> set (unlink_of c) \<union> behind (W(p := None))"
  show "u \<in> behind W"
  proof (cases "u \<in> set (unlink_of c)")
    case True
    then have "c = Some u" by (cases c) (auto simp: unlink_of_def)
    then show ?thesis using w(1) by (auto simp: behind_def)
  next
    case False
    then obtain x j t2 g where "(W(p := None)) x = Some (j, t2, g, Some u)" using w(2) by (auto simp: behind_def)
    then show ?thesis unfolding behind_def by (metis (mono_tags, lifting) fun_upd_apply mem_Collect_eq option.distinct(1))
  qed
qed

lemma behind_begun: "W p = None \<Longrightarrow> behind (W(p \<mapsto> (i, t, f, c))) = set (unlink_of c) \<union> behind W"
  using behind_ended[of "W(p \<mapsto> (i, t, f, c))" p i t f c] by (simp add: fun_upd_idem)

text \<open>
  The invariant over the parts it reads: identities \<open>K\<close>, unlinks under way \<open>U\<close>, arrivals \<open>H\<close>, disk \<open>D\<close>,
  last stamps \<open>L\<close>, writers \<open>G\<close>, writes under way \<open>W\<close>, stranded paths \<open>S\<close>, and the sequence number \<open>q\<close>.
  Bytes on a path, or about to be, have their collector live there or an unlink under way that was
  decided no earlier than they were stamped.
\<close>

definition bytes_covered :: "entry_key list \<Rightarrow> pending_unlink set \<Rightarrow> string set \<Rightarrow> string \<Rightarrow> u64 \<Rightarrow> u64 \<Rightarrow> bool" where
  "bytes_covered K U S p i t \<longleftrightarrow>
     live K i p \<or> (\<exists>owner name since. (owner, name, since) \<in> U \<and> owner_path owner name = p \<and> t \<le> since) \<or> p \<in> S"

definition keys_ok :: "entry_key list \<Rightarrow> u64 \<Rightarrow> bool" where
  "keys_ok K nx \<longleftrightarrow>
     distinct (map fst K) \<and> distinct (map snd K) \<and> (\<forall>i owner name. (i, owner, name) \<in> set K \<longrightarrow> i < nx \<and> fits owner name)"

definition prepared_ok ::
  "entry_key list \<Rightarrow> u64 \<Rightarrow> (u64 \<times> 'p persisted_collector \<times> pending_unlink option) list \<Rightarrow> 'p edit_plan list \<Rightarrow> bool" where
  "prepared_ok K nx Q E \<longleftrightarrow>
     (\<forall>i f c. (i, f, c) \<in> set Q \<longrightarrow> i < nx \<and> (\<forall>owner name. (i, owner, name) \<in> set K \<longrightarrow> name = pc_name f))
     \<and> (\<forall>pl \<in> set E. xp_id pl < nx \<and> (\<forall>owner name. (xp_id pl, owner, name) \<in> set K \<longrightarrow> name = cd_name (xp_def pl)))"

definition stamps_ok ::
  "pending_unlink set \<Rightarrow> (u64 \<Rightarrow> u64) \<Rightarrow> (string \<rightharpoonup> 'p persisted_collector) \<Rightarrow> (string \<Rightarrow> u64) \<Rightarrow> (string \<rightharpoonup> u64 \<times> u64)
     \<Rightarrow> (string \<rightharpoonup> u64 \<times> u64 \<times> 'p persisted_collector \<times> pending_unlink option) \<Rightarrow> u64 \<Rightarrow> bool" where
  "stamps_ok U H D L G W q \<longleftrightarrow>
     (\<forall>owner name t. (owner, name, t) \<in> U \<longrightarrow> t \<le> q) \<and> (\<forall>i. H i \<le> q) \<and> (\<forall>p. D p = None \<longleftrightarrow> G p = None) \<and> (\<forall>p. L p \<le> q)
     \<and> (\<forall>p i t. G p = Some (i, t) \<longrightarrow> L p = t)
     \<and> (\<forall>p i t f c. W p = Some (i, t, f, c) \<longrightarrow> file_path f = p \<and> L p < t \<and> t \<le> q)"

definition covered_ok ::
  "entry_key list \<Rightarrow> pending_unlink set \<Rightarrow> (string \<rightharpoonup> u64 \<times> u64)
     \<Rightarrow> (string \<rightharpoonup> u64 \<times> u64 \<times> 'p persisted_collector \<times> pending_unlink option) \<Rightarrow> string set \<Rightarrow> bool" where
  "covered_ok K U G W S \<longleftrightarrow>
     (\<forall>p i t. G p = Some (i, t) \<longrightarrow> bytes_covered K U S p i t) \<and> (\<forall>p i t f c. W p = Some (i, t, f, c) \<longrightarrow> bytes_covered K U S p i t)"

definition held_ok ::
  "entry_key list \<Rightarrow> pending_unlink set \<Rightarrow> (u64 \<Rightarrow> u64)
     \<Rightarrow> (string \<rightharpoonup> u64 \<times> u64 \<times> 'p persisted_collector \<times> pending_unlink option) \<Rightarrow> bool" where
  "held_ok K U H W \<longleftrightarrow>
     (\<forall>i owner name o2 n2 t. (i, owner, name) \<in> set K \<longrightarrow> (o2, n2, t) \<in> U \<longrightarrow> owner_path o2 n2 = owner_path owner name \<longrightarrow> t \<le> H i)
     \<and> (\<forall>i owner name j t f c. (i, owner, name) \<in> set K \<longrightarrow> W (owner_path owner name) = Some (j, t, f, c) \<longrightarrow> j = i \<or> t \<le> H i)"

definition ledger_inv :: "('s, 'p) registry_run \<Rightarrow> bool" where
  "ledger_inv s \<longleftrightarrow>
     keys_ok (keys (rs_reg s)) (cg_next_id (rs_reg s))
     \<and> prepared_ok (keys (rs_reg s)) (cg_next_id (rs_reg s)) (rs_prepared s) (rs_plans s)
     \<and> stamps_ok (under_way s) (rs_held s) (cg_disk (rs_reg s)) (\<lambda>p. last_write p (rs_reg s)) (rs_written s) (rs_writing s)
         (cg_seq (rs_reg s))
     \<and> covered_ok (keys (rs_reg s)) (under_way s) (rs_written s) (rs_writing s) (rs_stranded s)
     \<and> held_ok (keys (rs_reg s)) (under_way s) (rs_held s) (rs_writing s)"

lemma ledger_inv_start: "ledger_inv (run_start budget)"
  by (simp add: ledger_inv_def keys_ok_def prepared_ok_def stamps_ok_def covered_ok_def held_ok_def run_start_def with_budget_def
      under_way_def last_write_def)

lemma ledger_invD:
  assumes "ledger_inv s"
  shows "keys_ok (keys (rs_reg s)) (cg_next_id (rs_reg s))"
    "prepared_ok (keys (rs_reg s)) (cg_next_id (rs_reg s)) (rs_prepared s) (rs_plans s)"
    "stamps_ok (under_way s) (rs_held s) (cg_disk (rs_reg s)) (\<lambda>p. last_write p (rs_reg s)) (rs_written s) (rs_writing s)
       (cg_seq (rs_reg s))"
    "covered_ok (keys (rs_reg s)) (under_way s) (rs_written s) (rs_writing s) (rs_stranded s)"
    "held_ok (keys (rs_reg s)) (under_way s) (rs_held s) (rs_writing s)"
  using assms by (simp_all add: ledger_inv_def)

subsection \<open>How the parts change\<close>

lemma bytes_covered_mono: "bytes_covered K U S p i t \<Longrightarrow> U \<subseteq> U' \<Longrightarrow> S \<subseteq> S' \<Longrightarrow> bytes_covered K U' S' p i t"
  by (auto simp: bytes_covered_def)

lemma live_unique:
  assumes "keys_ok K nx" and "live K i p" and "(j, owner, name) \<in> set K" and "owner_path owner name = p"
  shows "j = i"
proof -
  obtain o2 n2 where k: "(i, o2, n2) \<in> set K" "owner_path o2 n2 = p" using assms(2) by (auto simp: live_def)
  have "o2 = owner \<and> n2 = name" using owner_path_inj assms k by (metis keys_ok_def)
  moreover have "distinct (map snd K)" using assms(1) by (simp add: keys_ok_def)
  ultimately have "(i, owner, name) = (j, owner, name)"
    using assms(3) k(1) unfolding distinct_map by (intro inj_onD[where f = snd and A = "set K"]) auto
  then show ?thesis by simp
qed

lemma stamps_okD:
  assumes "stamps_ok U H D L G W q"
  shows "G p = Some (i, t) \<Longrightarrow> t \<le> q \<and> L p = t" "W p = Some (i, t, f, c) \<Longrightarrow> file_path f = p \<and> L p < t \<and> t \<le> q"
  using assms unfolding stamps_ok_def by metis+

text \<open>A write takes its place in the order.\<close>

lemma begin_parts:
  assumes "keys_ok K nx" and "stamps_ok U H D L G W q" and "covered_ok K U G W S" and "held_ok K U H W"
    and "live K i (file_path f)"
  shows "stamps_ok U H D L G (W(file_path f \<mapsto> (i, Suc q, f, c))) (Suc q)
    \<and> covered_ok K U G (W(file_path f \<mapsto> (i, Suc q, f, c))) S \<and> held_ok K U H (W(file_path f \<mapsto> (i, Suc q, f, c)))"
  using assms live_unique[OF assms(1,5)]
  by (auto simp: stamps_ok_def covered_ok_def held_ok_def bytes_covered_def le_Suc_eq less_Suc_eq_le)

text \<open>It ends, with the file replaced or as it was.\<close>

lemma save_parts:
  assumes "stamps_ok U H D L G W q" and "covered_ok K U G W S" and "held_ok K U H W" and "W p = Some (i, t, f, c)"
  shows "stamps_ok U H (D(p \<mapsto> f)) (L(p := t)) (G(p \<mapsto> (i, t))) (W(p := None)) q
    \<and> covered_ok K U (G(p \<mapsto> (i, t))) (W(p := None)) S \<and> held_ok K U H (W(p := None))"
proof -
  have "t \<le> q" using stamps_okD(2)[OF assms(1,4)] by simp
  then have "stamps_ok U H (D(p \<mapsto> f)) (L(p := t)) (G(p \<mapsto> (i, t))) (W(p := None)) q"
    using assms(1) by (simp add: stamps_ok_def)
  then show ?thesis using assms(2-4) by (auto simp: covered_ok_def held_ok_def)
qed

lemma fail_parts:
  assumes "stamps_ok U H D L G W q" and "covered_ok K U G W S" and "held_ok K U H W"
    and "U' \<subseteq> U" and "\<And>owner name t. (owner, name, t) \<in> U \<Longrightarrow> (owner, name, t) \<in> U' \<or> owner_path owner name \<in> S'" and "S \<subseteq> S'"
  shows "stamps_ok U' H D L G (W(p := None)) q \<and> covered_ok K U' G (W(p := None)) S' \<and> held_ok K U' H (W(p := None))"
proof -
  have "bytes_covered K U S x i t \<Longrightarrow> bytes_covered K U' S' x i t" for x i t
    using assms(5,6) unfolding bytes_covered_def by (metis subsetD)
  then show ?thesis using assms(1-4) by (auto simp: stamps_ok_def covered_ok_def held_ok_def)
qed

text \<open>Collectors come, go or change owner; the unlinks \<open>N\<close> this leaves are decided now.\<close>

lemma relocate_parts:
  assumes "stamps_ok U H D L G W q" and "covered_ok K U G W S" and "held_ok K U H W"
    and gone: "\<And>i owner name. (i, owner, name) \<in> set K \<Longrightarrow> (i, owner, name) \<in> set K' \<or> (owner, name, q) \<in> N"
    and now: "\<And>owner name t. (owner, name, t) \<in> N \<Longrightarrow> t = q"
    and here: "\<And>i owner name. (i, owner, name) \<in> set K' \<Longrightarrow> H' i = q \<or> (i, owner, name) \<in> set K \<and> H' i = H i
      \<and> (\<forall>o2 n2 t. (o2, n2, t) \<in> N \<longrightarrow> owner_path o2 n2 \<noteq> owner_path owner name)"
    and le: "\<And>i. H' i \<le> q"
  shows "stamps_ok (N \<union> U) H' D L G W q \<and> covered_ok K' (N \<union> U) G W S \<and> held_ok K' (N \<union> U) H' W"
proof (intro conjI)
  show "stamps_ok (N \<union> U) H' D L G W q" using assms(1) now le by (auto simp: stamps_ok_def)
  have cov: "bytes_covered K' (N \<union> U) S p i t" if "bytes_covered K U S p i t" "t \<le> q" for p i t
  proof -
    have "live K i p \<Longrightarrow> live K' i p \<or> (\<exists>owner name. (owner, name, q) \<in> N \<and> owner_path owner name = p)"
      using gone by (fastforce simp: live_def)
    then show ?thesis using that by (auto simp: bytes_covered_def)
  qed
  show "covered_ok K' (N \<union> U) G W S"
    using assms(2) cov stamps_okD[OF assms(1)] unfolding covered_ok_def by blast
  have u: "t \<le> q" if "(o2, n2, t) \<in> N \<union> U" for o2 n2 t using that assms(1) now by (auto simp: stamps_ok_def)
  have w: "t \<le> q" if "W p = Some (j, t, f, c)" for p j t f c using stamps_okD(2)[OF assms(1) that] by simp
  show "held_ok K' (N \<union> U) H' W"
    unfolding held_ok_def
  proof (intro conjI allI impI)
    fix i owner name o2 n2 t
    assume k: "(i, owner, name) \<in> set K'" "(o2, n2, t) \<in> N \<union> U" "owner_path o2 n2 = owner_path owner name"
    show "t \<le> H' i"
    proof (cases "H' i = q")
      case False
      then have "(i, owner, name) \<in> set K" "H' i = H i" "(o2, n2, t) \<notin> N" using here[OF k(1)] k(3) by blast+
      then show ?thesis using k(2,3) assms(3) unfolding held_ok_def by auto
    qed (use u[OF k(2)] in simp)
  next
    fix i owner name j t f c
    assume k: "(i, owner, name) \<in> set K'" "W (owner_path owner name) = Some (j, t, f, c)"
    show "j = i \<or> t \<le> H' i"
    proof (cases "H' i = q")
      case False
      then have "(i, owner, name) \<in> set K" "H' i = H i" using here[OF k(1)] by blast+
      then show ?thesis using k(2) assms(3) unfolding held_ok_def by metis
    qed (use w[OF k(2)] in simp)
  qed
qed

text \<open>An unlink is carried out, skipped for newer bytes, or fails.\<close>

lemma unlink_parts:
  assumes "stamps_ok U H D L G W q" and "covered_ok K U G W S" and "held_ok K U H W" and "W p = None"
    and U': "U' \<subseteq> U" "\<And>u. u \<in> U \<Longrightarrow> u \<in> U' \<or> u = (owner, name, since)" and p: "p = owner_path owner name"
    and "(D', L', G') = (if since < L p then (D, L, G) else if D p \<noteq> None \<and> \<not> ok then (D, L, G)
        else (D(p := None), if z then L(p := 0) else L, G(p := None)))"
    and S': "S' = (if ok then S else insert p S)"
  shows "stamps_ok U' H D' L' G' W q \<and> covered_ok K U' G' W S' \<and> held_ok K U' H W"
proof -
  have cov: "bytes_covered K U' S' x i t" if "bytes_covered K U S x i t" "x \<noteq> p \<or> since < t \<or> \<not> ok" for x i t
  proof -
    have "(o2, n2, t2) \<in> U' \<or> o2 = owner \<and> n2 = name \<and> t2 = since" if "(o2, n2, t2) \<in> U" for o2 n2 t2 using U'(2) that by auto
    then show ?thesis using that S' p by (fastforce simp: bytes_covered_def)
  qed
  have W: "bytes_covered K U' S' x i t" if "W x = Some (i, t, f, c)" for x i t f c
    using that assms(2,4) cov by (fastforce simp: covered_ok_def)
  have G: "bytes_covered K U' S' x i t" if "G' x = Some (i, t)" for x i t
  proof -
    have g: "G x = Some (i, t)" using that assms(8) by (auto split: if_splits)
    then have "L x = t" using assms(1) by (auto simp: stamps_ok_def)
    moreover have "x \<noteq> p \<or> since < L p \<or> \<not> ok"
      using that assms(8) by (auto split: if_splits)
    ultimately show ?thesis using g assms(2) cov by (auto simp: covered_ok_def)
  qed
  have "stamps_ok U' H D' L' G' W q"
    using assms(1,4,8) U'(1) by (auto simp: stamps_ok_def split: if_splits)
  moreover have "held_ok K U' H W" using assms(3) U'(1) by (auto simp: held_ok_def)
  ultimately show ?thesis using W G by (auto simp: covered_ok_def)
qed

subsection \<open>The steps\<close>

lemma last_path_lock [simp]: "last_write x (path_lock p r) = last_write x r"
  by (simp add: path_lock_def last_write_def)

lemma path_lock_same [simp]:
  "cg_entries (path_lock p r) = cg_entries r" "cg_seq (path_lock p r) = cg_seq r" "cg_next_id (path_lock p r) = cg_next_id r"
  "cg_disk (path_lock p r) = cg_disk r"
  by (simp_all add: path_lock_def)

lemma write_begin_Some:
  assumes "write_begin unused i f r = (Some t, r')"
  shows "t = Suc (cg_seq r) \<and> cg_seq r' = Suc (cg_seq r) \<and> keys r' = keys r \<and> cg_next_id r' = cg_next_id r \<and> cg_disk r' = cg_disk r
    \<and> (\<forall>x. last_write x r' = last_write x r) \<and> (\<exists>name. (i, Named (pc_owner f), name) \<in> set (keys r))"
proof -
  have "\<exists>e \<in> set (cg_entries r). ce_id e = i \<and> ce_owner e = Named (pc_owner f)"
    using assms by (auto simp: write_begin_def Let_def list_ex_iff split: if_splits)
  then have "\<exists>name. (i, Named (pc_owner f), name) \<in> set (keys r)" by (force simp: key_of_def)
  moreover have "last_write x (path_lock p r\<lparr>cg_seq := n\<rparr>) = last_write x r" for x p n
    using last_path_lock[of x p r] by (simp add: last_write_def)
  ultimately show ?thesis using assms by (auto simp: write_begin_def Let_def split: if_splits)
qed

lemma write_begin_None:
  assumes "write_begin unused i f r = (None, r')"
  shows "cg_seq r' = cg_seq r \<and> keys r' = keys r \<and> cg_next_id r' = cg_next_id r \<and> cg_disk r' = cg_disk r
    \<and> (\<forall>x. last_write x r' = last_write x r)"
proof -
  let ?p = "file_path f"
  have "last_write x (forget_if_unused unused ?p (path_lock ?p r)) = last_write x r" if "last_write ?p r = 0" for x
    using that last_path_lock[of x ?p r] by (auto simp: forget_if_unused_def last_write_def)
  then show ?thesis
    using assms by (auto simp: write_begin_def Let_def forget_if_unused_def split: if_splits)
qed

lemma write_end_None:
  assumes "write_end None t f r = (w, r')"
  shows "cg_seq r' = cg_seq r \<and> keys r' = keys r \<and> cg_next_id r' = cg_next_id r \<and> cg_disk r' = (cg_disk r)(file_path f \<mapsto> f)
    \<and> (\<lambda>x. last_write x r') = (\<lambda>x. last_write x r)(file_path f := t)"
  using assms by (auto simp: write_end_def last_write_def)

lemma set_remove1: "x \<in> set xs \<Longrightarrow> set xs = insert x (set (remove1 x xs))"
  by (induction xs) auto

lemma delete_parts:
  assumes "r' = delete_unless_written_since ok unused owner name since r" and "p = owner_path owner name"
  shows "keys r' = keys r \<and> cg_seq r' = cg_seq r \<and> cg_next_id r' = cg_next_id r
    \<and> (cg_disk r', \<lambda>x. last_write x r') =
       (if since < last_write p r then (cg_disk r, \<lambda>x. last_write x r)
        else if cg_disk r p \<noteq> None \<and> \<not> ok then (cg_disk r, \<lambda>x. last_write x r)
        else ((cg_disk r)(p := None), if unused then (\<lambda>x. last_write x r)(p := 0) else (\<lambda>x. last_write x r)))"
proof -
  have l: "last_write x (path_lock p r\<lparr>cg_disk := d\<rparr>) = last_write x r" for x d
    using last_path_lock[of x p r] by (simp add: last_write_def)
  have z: "(\<lambda>x. last_write x (path_lock p r\<lparr>cg_disk := d, cg_paths := (cg_paths (path_lock p r))(p := None)\<rparr>)) =
      (\<lambda>x. last_write x r)(p := 0)" for d
    using last_path_lock[of _ p r] by (auto simp: last_write_def fun_eq_iff)
  show ?thesis
    using l z assms
    by (auto simp: delete_unless_written_since_def owner_path_def Let_def forget_if_unused_def)
qed

lemma ledger_inv_same:
  assumes "ledger_inv s" and "same_ledger (rs_reg s) r"
    and "prepared_ok (keys r) (cg_next_id r) (rs_prepared s @ Q) E" and "\<forall>(i, f, c) \<in> set Q. c = None"
  shows "ledger_inv (s\<lparr>rs_reg := r, rs_plans := E, rs_prepared := rs_prepared s @ Q\<rparr>)"
proof -
  have "under_way (s\<lparr>rs_reg := r, rs_plans := E, rs_prepared := rs_prepared s @ Q\<rparr>) = under_way s"
    using assms(4) by (auto simp: under_way_def to_follow_def)
  then show ?thesis
    using assms(1-3) by (simp add: ledger_inv_def same_ledger_def last_write_def)
qed

lemma ledger_inv_local:
  assumes "ledger_inv s" and "same_ledger (rs_reg s) r"
  shows "ledger_inv (s\<lparr>rs_reg := r\<rparr>)"
proof -
  have "prepared_ok (keys r) (cg_next_id r) (rs_prepared s @ []) (rs_plans s)"
    using assms by (auto simp: ledger_inv_def same_ledger_def)
  from ledger_inv_same[OF assms this] show ?thesis by simp
qed

lemma prepared_for:
  assumes "ledger_inv s" and "same_ledger (rs_reg s) r" and "e \<in> set (cg_entries r)" and "ce_id e = i" and "ce_name e = name"
  shows "i < cg_next_id r \<and> (\<forall>o2 n2. (i, o2, n2) \<in> set (keys r) \<longrightarrow> n2 = name)"
proof -
  have k: "keys_ok (keys r) (cg_next_id r)" using assms(1,2) by (simp add: ledger_inv_def same_ledger_def)
  have e: "(i, ce_owner e, name) \<in> set (keys r)" using assms(3-5) by (force simp: key_of_def)
  have "n2 = name" if "(i, o2, n2) \<in> set (keys r)" for o2 n2
    using k e that unfolding keys_ok_def distinct_map by (metis fst_conv inj_onD prod.inject)
  then show ?thesis using k e by (auto simp: keys_ok_def)
qed

lemma prepared_ok_sub: "prepared_ok K nx Q E \<Longrightarrow> set Q' \<subseteq> set Q \<Longrightarrow> prepared_ok K nx Q' E"
  unfolding prepared_ok_def by blast

lemma prepared_ok_keys:
  assumes "prepared_ok K nx Q E" and "nx \<le> nx'"
    and "\<And>i owner name. (i, owner, name) \<in> set K' \<Longrightarrow> i < nx \<Longrightarrow> \<exists>o2. (i, o2, name) \<in> set K"
  shows "prepared_ok K' nx' Q E"
  using assms unfolding prepared_ok_def by (meson order_less_le_trans)

text \<open>Writes and the work they leave keep the invariant.\<close>

lemma begins_inv:
  assumes inv: "ledger_inv s" and q: "(i, f, c) \<in> set (rs_prepared s)" and w: "rs_writing s (file_path f) = None"
    and b: "write_begin unused i f (rs_reg s) = (Some t, r)"
  shows "ledger_inv (s\<lparr>rs_reg := r, rs_prepared := remove1 (i, f, c) (rs_prepared s),
      rs_writing := (rs_writing s)(file_path f \<mapsto> (i, t, f, c))\<rparr>)" (is "ledger_inv ?s")
proof -
  note I = ledger_invD[OF inv] and B = write_begin_Some[OF b]
  then obtain name where k: "(i, Named (pc_owner f), name) \<in> set (keys (rs_reg s))" by blast
  then have "name = pc_name f" using I(2) q unfolding prepared_ok_def by blast
  then have "live (keys (rs_reg s)) i (file_path f)"
    using k unfolding live_def owner_path_def file_path_def session_display_def by fastforce
  note P = begin_parts[OF I(1,3,4,5) this, of c]
  have "under_way ?s = under_way s"
    by (simp add: under_way_def behind_begun[of "rs_writing s", OF w] set_remove1[OF q] Un_ac)
  moreover have "prepared_ok (keys (rs_reg s)) (cg_next_id (rs_reg s)) (remove1 (i, f, c) (rs_prepared s)) (rs_plans s)"
    by (rule prepared_ok_sub[OF I(2) set_remove1_subset])
  ultimately show ?thesis using I(1) B P by (simp add: ledger_inv_def)
qed

lemma finds_gone_inv:
  assumes inv: "ledger_inv s" and q: "(i, f, c) \<in> set (rs_prepared s)" and b: "write_begin unused i f (rs_reg s) = (None, r)"
  shows "ledger_inv (s\<lparr>rs_reg := r, rs_prepared := remove1 (i, f, c) (rs_prepared s), rs_deletes := unlink_of c @ rs_deletes s\<rparr>)"
    (is "ledger_inv ?s")
proof -
  note I = ledger_invD[OF inv]
  have "under_way ?s = under_way s"
    by (simp add: under_way_def set_remove1[OF q] Un_ac)
  moreover have "prepared_ok (keys (rs_reg s)) (cg_next_id (rs_reg s)) (remove1 (i, f, c) (rs_prepared s)) (rs_plans s)"
    by (rule prepared_ok_sub[OF I(2) set_remove1_subset])
  ultimately show ?thesis using I write_begin_None[OF b] by (simp add: ledger_inv_def)
qed

lemma saves_inv:
  assumes inv: "ledger_inv s" and w: "rs_writing s p = Some (i, t, f, c)" and b: "write_end None t f (rs_reg s) = (res, r)"
  shows "ledger_inv (s\<lparr>rs_reg := r, rs_writing := (rs_writing s)(p := None), rs_written := (rs_written s)(p \<mapsto> (i, t)),
      rs_deletes := unlink_of c @ rs_deletes s\<rparr>)" (is "ledger_inv ?s")
proof -
  note I = ledger_invD[OF inv]
  note P = save_parts[OF I(3,4,5) w]
  have "under_way ?s = under_way s" by (simp add: under_way_def behind_ended[of "rs_writing s", OF w] Un_ac)
  then show ?thesis
    using I(1,2) P write_end_None[OF b] stamps_okD(2)[OF I(3) w] by (simp add: ledger_inv_def)
qed

lemma save_fails_inv:
  assumes inv: "ledger_inv s" and w: "rs_writing s p = Some (i, t, f, c)" and b: "write_end (Some err) t f (rs_reg s) = (res, r)"
  shows "ledger_inv (s\<lparr>rs_reg := r, rs_writing := (rs_writing s)(p := None),
      rs_stranded := unlink_path ` set (unlink_of c) \<union> rs_stranded s\<rparr>)" (is "ledger_inv ?s")
proof -
  note I = ledger_invD[OF inv]
  have r: "r = rs_reg s" using b by (simp add: write_end_def)
  have u: "under_way s = set (unlink_of c) \<union> under_way ?s" by (simp add: under_way_def behind_ended[of "rs_writing s", OF w] Un_ac)
  then have sub: "under_way ?s \<subseteq> under_way s" by blast
  have left: "(owner, name, t) \<in> under_way ?s \<or> owner_path owner name \<in> unlink_path ` set (unlink_of c) \<union> rs_stranded s"
    if "(owner, name, t) \<in> under_way s" for owner name t
    using that unfolding u by (force simp: unlink_path_def)
  note P = fail_parts[OF I(3,4,5) sub left Un_upper2, of p]
  show ?thesis using I(1,2) r P by (simp add: ledger_inv_def)
qed

text \<open>Collectors come and go.\<close>

lemma keys_ok_snoc:
  assumes "keys_ok K i" and "fits owner name" and "\<And>j. (j, owner, name) \<notin> set K"
  shows "keys_ok (K @ [(i, owner, name)]) (Suc i)"
proof -
  have "i \<notin> fst ` set K" "(owner, name) \<notin> snd ` set K" using assms(1,3) unfolding keys_ok_def by fastforce+
  then show ?thesis using assms(1,2) by (auto simp: keys_ok_def less_Suc_eq)
qed

lemma prepared_ok_snoc:
  assumes "prepared_ok K i Q E" and "keys_ok K i" and "pc_name f = name"
  shows "prepared_ok (K @ [(i, owner, name)]) (Suc i) (Q @ [(i, f, None)]) E"
proof -
  have "prepared_ok (K @ [(i, owner, name)]) (Suc i) Q E"
    by (rule prepared_ok_keys[OF assms(1)]) auto
  moreover have "(i, o2, n2) \<notin> set K" for o2 n2 using assms(2) by (auto simp: keys_ok_def)
  ultimately show ?thesis using assms(3) by (auto simp: prepared_ok_def)
qed

lemma arrive_parts:
  assumes "stamps_ok U H D L G W q" and "covered_ok K U G W S" and "held_ok K U H W"
  shows "stamps_ok U (H(i := q)) D L G W q \<and> covered_ok (K @ [(i, owner, name)]) U G W S
    \<and> held_ok (K @ [(i, owner, name)]) U (H(i := q)) W"
proof -
  have "stamps_ok ({} \<union> U) (H(i := q)) D L G W q \<and> covered_ok (K @ [(i, owner, name)]) ({} \<union> U) G W S
      \<and> held_ok (K @ [(i, owner, name)]) ({} \<union> U) (H(i := q)) W"
    by (rule relocate_parts[OF assms]) (use assms(1) in \<open>auto simp: stamps_ok_def\<close>)
  then show ?thesis by simp
qed

lemma ledger_invI:
  assumes "keys_ok K nx" and "prepared_ok K nx (rs_prepared s) (rs_plans s)"
    and "stamps_ok U (rs_held s) (cg_disk (rs_reg s)) L (rs_written s) (rs_writing s) q
      \<and> covered_ok K U (rs_written s) (rs_writing s) (rs_stranded s) \<and> held_ok K U (rs_held s) (rs_writing s)"
    and "keys (rs_reg s) = K" "cg_next_id (rs_reg s) = nx" "under_way s = U" "(\<lambda>p. last_write p (rs_reg s)) = L" "cg_seq (rs_reg s) = q"
  shows "ledger_inv s"
  using assms by (simp add: ledger_inv_def)

lemma arms_inv:
  assumes inv: "ledger_inv s" and a: "arm sk tb loss_of owner domain m d now (rs_reg s) = (Inr (i, f), r)" and fit: "fits owner (cd_name d)"
  shows "ledger_inv (s\<lparr>rs_reg := r, rs_prepared := rs_prepared s @ [(i, f, None)], rs_held := (rs_held s)(i := cg_seq r)\<rparr>)"
    (is "ledger_inv ?s")
proof (rule ledger_invI)
  note A = arm_keys[OF a] and I = ledger_invD[OF inv, folded arm_keys(2)[OF a]]
  show "keys_ok (keys (rs_reg s) @ [(i, owner, cd_name d)]) (Suc i)"
    by (rule keys_ok_snoc[OF I(1) fit]) (use A(9) in blast)
  show "prepared_ok (keys (rs_reg s) @ [(i, owner, cd_name d)]) (Suc i) (rs_prepared ?s) (rs_plans ?s)"
    using prepared_ok_snoc[OF I(2,1) A(8)] by simp
  show "stamps_ok (under_way s) (rs_held ?s) (cg_disk (rs_reg ?s)) (\<lambda>p. last_write p (rs_reg s)) (rs_written ?s) (rs_writing ?s)
      (cg_seq (rs_reg s)) \<and> covered_ok (keys (rs_reg s) @ [(i, owner, cd_name d)]) (under_way s) (rs_written ?s) (rs_writing ?s) (rs_stranded ?s)
      \<and> held_ok (keys (rs_reg s) @ [(i, owner, cd_name d)]) (under_way s) (rs_held ?s) (rs_writing ?s)"
    using arrive_parts[OF I(3,4,5), of i owner "cd_name d"] A(5,6) by simp
qed (use arm_keys[OF a] in \<open>simp_all add: under_way_def unlink_of_def last_write_def\<close>)

text \<open>The collectors that satisfy \<open>P\<close> leave.\<close>

definition leaving :: "(session_id \<times> string \<Rightarrow> bool) \<Rightarrow> entry_key list \<Rightarrow> u64 \<Rightarrow> pending_unlink set" where
  "leaving P K q = {(owner, name, t). t = q \<and> P (owner, name) \<and> (\<exists>i. (i, owner, name) \<in> set K)}"

lemma keys_ok_filter: "keys_ok K nx \<Longrightarrow> keys_ok (filter P K) nx"
  by (auto simp: keys_ok_def distinct_map_filter)

lemma leave_parts:
  assumes "keys_ok K nx" and "stamps_ok U H D L G W q" and "covered_ok K U G W S" and "held_ok K U H W"
  shows "stamps_ok (leaving P K q \<union> U) H D L G W q \<and> covered_ok (filter (\<lambda>k. \<not> P (snd k)) K) (leaving P K q \<union> U) G W S
    \<and> held_ok (filter (\<lambda>k. \<not> P (snd k)) K) (leaving P K q \<union> U) H W"
proof (rule relocate_parts[OF assms(2-4)])
  fix i owner name assume k: "(i, owner, name) \<in> set (filter (\<lambda>k. \<not> P (snd k)) K)"
  have "owner_path o2 n2 \<noteq> owner_path owner name" if u: "(o2, n2, t) \<in> leaving P K q" for o2 n2 t
  proof -
    obtain j where "(j, o2, n2) \<in> set K" "P (o2, n2)" using u by (auto simp: leaving_def)
    moreover have "(i, owner, name) \<in> set K" "\<not> P (owner, name)" using k by simp_all
    ultimately show ?thesis using assms(1) owner_path_inj unfolding keys_ok_def by metis
  qed
  then show "H i = q \<or> (i, owner, name) \<in> set K \<and> H i = H i
      \<and> (\<forall>o2 n2 t. (o2, n2, t) \<in> leaving P K q \<longrightarrow> owner_path o2 n2 \<noteq> owner_path owner name)"
    using k by auto
qed (use assms(2) in \<open>auto simp: leaving_def stamps_ok_def\<close>)

lemma leaves_inv:
  assumes inv: "ledger_inv s" and K: "keys r = filter (\<lambda>k. \<not> P (snd k)) (keys (rs_reg s))"
    and same: "cg_paths r = cg_paths (rs_reg s)" "cg_seq r = cg_seq (rs_reg s)" "cg_next_id r = cg_next_id (rs_reg s)"
      "cg_disk r = cg_disk (rs_reg s)"
    and us: "set us = leaving P (keys (rs_reg s)) (cg_seq (rs_reg s))"
  shows "ledger_inv (s\<lparr>rs_reg := r, rs_deletes := us @ rs_deletes s\<rparr>)" (is "ledger_inv ?s")
proof (rule ledger_invI)
  note I = ledger_invD[OF inv]
  let ?K = "filter (\<lambda>k. \<not> P (snd k)) (keys (rs_reg s))"
  show "keys_ok ?K (cg_next_id (rs_reg s))" by (rule keys_ok_filter[OF I(1)])
  show "prepared_ok ?K (cg_next_id (rs_reg s)) (rs_prepared ?s) (rs_plans ?s)"
    using prepared_ok_keys[OF I(2) order_refl, of ?K] by force
  show "stamps_ok (set us \<union> under_way s) (rs_held ?s) (cg_disk (rs_reg ?s)) (\<lambda>p. last_write p (rs_reg s)) (rs_written ?s) (rs_writing ?s)
      (cg_seq (rs_reg s)) \<and> covered_ok ?K (set us \<union> under_way s) (rs_written ?s) (rs_writing ?s) (rs_stranded ?s)
      \<and> held_ok ?K (set us \<union> under_way s) (rs_held ?s) (rs_writing ?s)"
    using leave_parts[OF I(1,3,4,5), of P] same unfolding us by simp
qed (use K same in \<open>simp_all add: under_way_def last_write_def Un_assoc\<close>)

lemma removes_inv:
  assumes inv: "ledger_inv s" and rm: "remove_collector owner name (rs_reg s) = (Inr since, r)"
  shows "ledger_inv (s\<lparr>rs_reg := r, rs_deletes := (owner, name, since) # rs_deletes s\<rparr>)"
proof -
  let ?P = "\<lambda>k. k = (owner, name)" and ?E = "cg_entries (rs_reg s)"
  have kept: "length (filter (\<lambda>e. \<not> owned_as owner name e) ?E) \<noteq> length ?E" and since: "since = cg_seq (rs_reg s)"
    and r: "r = rs_reg s\<lparr>cg_entries := filter (\<lambda>e. \<not> owned_as owner name e) ?E\<rparr>"
    using rm by (auto simp: remove_collector_def Let_def split: if_splits)
  have "\<exists>e \<in> set ?E. owned_as owner name e"
  proof (rule ccontr)
    assume "\<not> ?thesis"
    then have "filter (\<lambda>e. \<not> owned_as owner name e) ?E = ?E" by (simp add: filter_id_conv)
    then show False using kept by simp
  qed
  then obtain i where "(i, owner, name) \<in> set (keys (rs_reg s))" by (force simp: owned_as_def key_of_def)
  then have "set [(owner, name, since)] = leaving ?P (keys (rs_reg s)) (cg_seq (rs_reg s))"
    unfolding leaving_def since by fastforce
  moreover have "keys r = filter (\<lambda>k. \<not> ?P (snd k)) (keys (rs_reg s))"
    unfolding r by (auto simp: filter_map owned_as_def key_of_def intro!: arg_cong[where f = "map _"] filter_cong)
  ultimately show ?thesis
    using leaves_inv[OF inv, of r ?P "[(owner, name, since)]"] r by simp
qed

lemma detach_keys:
  assumes "detach_session owner r = (us, r')"
  shows "keys r' = filter (\<lambda>k. \<not> (\<lambda>(o2, n2). o2 = owner) (snd k)) (keys r)" "set us = leaving (\<lambda>(o2, n2). o2 = owner) (keys r) (cg_seq r)"
    "cg_paths r' = cg_paths r" "cg_seq r' = cg_seq r" "cg_next_id r' = cg_next_id r" "cg_disk r' = cg_disk r"
    "(i, owner, name) \<notin> set (keys r')"
proof -
  have r': "r' = r\<lparr>cg_entries := filter (\<lambda>e. ce_owner e \<noteq> owner) (cg_entries r)\<rparr>"
    and us: "us = map (\<lambda>e. (owner, ce_name e, cg_seq r)) (filter (\<lambda>e. ce_owner e = owner) (cg_entries r))"
    using assms by (simp_all add: detach_session_def)
  show "keys r' = filter (\<lambda>k. \<not> (\<lambda>(o2, n2). o2 = owner) (snd k)) (keys r)" "(i, owner, name) \<notin> set (keys r')"
    unfolding r' by (auto simp: filter_map key_of_def intro!: arg_cong[where f = "map _"] filter_cong)
  show "set us = leaving (\<lambda>(o2, n2). o2 = owner) (keys r) (cg_seq r)"
    unfolding us leaving_def by (auto simp: key_of_def)
qed (use assms in \<open>auto simp: detach_session_def\<close>)

lemma drops_inv:
  assumes "ledger_inv s" and "detach_session owner (rs_reg s) = (us, r)"
  shows "ledger_inv (s\<lparr>rs_reg := r, rs_deletes := us @ rs_deletes s\<rparr>)"
  by (rule leaves_inv[OF assms(1)]) (use detach_keys[OF assms(2)] in simp_all)

text \<open>The collectors of \<open>old\<close> become those of \<open>new\<close>, which has none.\<close>

definition moved_key :: "session_id \<Rightarrow> session_id \<Rightarrow> entry_key \<Rightarrow> entry_key" where
  "moved_key old new = (\<lambda>(i, owner, name). (i, if owner = old then new else owner, name))"

lemma keys_ok_moved:
  assumes "keys_ok K nx" and "\<And>i name. (i, new, name) \<notin> set K" and "\<And>i name. (i, old, name) \<in> set K \<Longrightarrow> fits new name"
  shows "keys_ok (map (moved_key old new) K) nx"
proof -
  have "map fst (map (moved_key old new) K) = map fst K" by (auto simp: moved_key_def)
  moreover have "distinct (map snd (map (moved_key old new) K))"
  proof -
    have d: "distinct K" "inj_on snd (set K)" using assms(1) by (auto simp: keys_ok_def distinct_map)
    have "inj_on (snd \<circ> moved_key old new) (set K)"
    proof (rule inj_onI)
      fix k1 k2 assume k: "k1 \<in> set K" "k2 \<in> set K" "(snd \<circ> moved_key old new) k1 = (snd \<circ> moved_key old new) k2"
      obtain i o1 n1 j o2 n2 where "k1 = (i, o1, n1)" "k2 = (j, o2, n2)" by (metis prod_cases3)
      then have "snd k1 = snd k2" using k assms(2) by (auto simp: moved_key_def split: if_splits)
      from inj_onD[OF d(2) this k(1,2)] show "k1 = k2" .
    qed
    then show ?thesis using d(1) by (simp add: distinct_map)
  qed
  moreover have "i < nx \<and> fits owner name" if "(i, owner, name) \<in> set (map (moved_key old new) K)" for i owner name
    using that assms(1,3) unfolding keys_ok_def moved_key_def by (force split: if_splits)
  ultimately show ?thesis using assms(1) unfolding keys_ok_def by metis
qed

lemma moved_key_from:
  "(i, owner, name) \<in> set (map (moved_key old new) K) \<Longrightarrow> \<exists>o1. (i, o1, name) \<in> set K \<and> owner = (if o1 = old then new else o1)"
  by (auto simp: moved_key_def)

lemma prepared_ok_moved: "prepared_ok K nx Q E \<Longrightarrow> prepared_ok (map (moved_key old new) K) nx Q E"
  by (erule prepared_ok_keys) (auto simp: moved_key_def)

lemma move_parts:
  assumes k: "keys_ok K nx" and "stamps_ok U H D L G W q" and "covered_ok K U G W S" and "held_ok K U H W"
    and H': "\<And>i. H' i = (if (\<exists>name. (i, old, name) \<in> set K) then q else H i)"
  shows "stamps_ok (leaving (\<lambda>(o2, n2). o2 = old) K q \<union> U) H' D L G W q
    \<and> covered_ok (map (moved_key old new) K) (leaving (\<lambda>(o2, n2). o2 = old) K q \<union> U) G W S
    \<and> held_ok (map (moved_key old new) K) (leaving (\<lambda>(o2, n2). o2 = old) K q \<union> U) H' W"
proof (rule relocate_parts[OF assms(2-4)])
  fix i owner name assume m: "(i, owner, name) \<in> set (map (moved_key old new) K)"
  then obtain o1 where o1: "(i, o1, name) \<in> set K" "owner = (if o1 = old then new else o1)" using moved_key_from by metis
  show "H' i = q \<or> (i, owner, name) \<in> set K \<and> H' i = H i
      \<and> (\<forall>o2 n2 t. (o2, n2, t) \<in> leaving (\<lambda>(o2, n2). o2 = old) K q \<longrightarrow> owner_path o2 n2 \<noteq> owner_path owner name)"
  proof (cases "\<exists>n. (i, old, n) \<in> set K")
    case False
    then have o: "o1 \<noteq> old" "owner = o1" using o1 by auto
    have "owner_path old n2 \<noteq> owner_path owner name" if "(j, old, n2) \<in> set K" for j n2
      using that o1(1) o k owner_path_inj unfolding keys_ok_def by metis
    then show ?thesis using False H' o o1(1) by (auto simp: leaving_def)
  qed (simp add: H')
next
  fix i owner name assume "(i, owner, name) \<in> set K"
  then show "(i, owner, name) \<in> set (map (moved_key old new) K) \<or> (owner, name, q) \<in> leaving (\<lambda>(o2, n2). o2 = old) K q"
    by (cases "owner = old") (force simp: leaving_def moved_key_def)+
qed (use assms(2) H' in \<open>auto simp: leaving_def stamps_ok_def\<close>)

lemma moves_inv:
  assumes inv: "ledger_inv s" and mv: "move_owner old new (rs_reg s) = (ms, r)" and "old \<noteq> new"
    and none: "\<And>i name. (i, new, name) \<notin> set (keys (rs_reg s))"
    and fit: "\<And>e. e \<in> set (cg_entries (rs_reg s)) \<Longrightarrow> ce_owner e = old \<Longrightarrow> fits new (ce_name e)"
    and H: "\<And>i. H' i = (if (\<exists>e \<in> set (cg_entries (rs_reg s)). ce_id e = i \<and> ce_owner e = old) then cg_seq (rs_reg s) else rs_held s i)"
  shows "ledger_inv (s\<lparr>rs_reg := r, rs_moves := ms @ rs_moves s, rs_held := H'\<rparr>)" (is "ledger_inv ?s")
proof (rule ledger_invI)
  note I = ledger_invD[OF inv]
  let ?K = "map (moved_key old new) (keys (rs_reg s))" and ?U = "leaving (\<lambda>(o2, n2). o2 = old) (keys (rs_reg s)) (cg_seq (rs_reg s)) \<union> under_way s"
  have ms: "ms = map (\<lambda>e. (old, new, ce_name e, cg_seq (rs_reg s))) (filter (\<lambda>e. ce_owner e = old) (cg_entries (rs_reg s)))"
    and r: "r = rs_reg s\<lparr>cg_entries := map (\<lambda>e. if ce_owner e = old then e\<lparr>ce_owner := new\<rparr> else e) (cg_entries (rs_reg s))\<rparr>"
    using mv assms(3) by (simp_all add: move_owner_def)
  have fits: "fits new name" if "(i, old, name) \<in> set (keys (rs_reg s))" for i name
    using that fit by (auto simp: key_of_def)
  have held: "H' i = (if (\<exists>name. (i, old, name) \<in> set (keys (rs_reg s))) then cg_seq (rs_reg s) else rs_held s i)" for i
    unfolding H by (auto simp: key_of_def image_iff)
  show "keys_ok ?K (cg_next_id (rs_reg s))" by (rule keys_ok_moved[OF I(1) none fits])
  have "prepared_ok ?K (cg_next_id (rs_reg s)) (rs_prepared s) (rs_plans s)"
    by (rule prepared_ok_moved[OF I(2)])
  then show "prepared_ok ?K (cg_next_id (rs_reg s)) (rs_prepared ?s) (rs_plans ?s)" by simp
  show "stamps_ok ?U (rs_held ?s) (cg_disk (rs_reg ?s)) (\<lambda>p. last_write p (rs_reg s)) (rs_written ?s) (rs_writing ?s)
      (cg_seq (rs_reg s)) \<and> covered_ok ?K ?U (rs_written ?s) (rs_writing ?s) (rs_stranded ?s) \<and> held_ok ?K ?U (rs_held ?s) (rs_writing ?s)"
    using move_parts[OF I(1,3,4,5) held] r by simp
  have "(\<lambda>(old, new, name, t). (old, name, t)) ` set ms = leaving (\<lambda>(o2, n2). o2 = old) (keys (rs_reg s)) (cg_seq (rs_reg s))"
    unfolding ms leaving_def by (auto simp: key_of_def image_iff)
  then show "under_way ?s = ?U" by (simp add: under_way_def image_Un Un_ac)
  show "keys (rs_reg ?s) = ?K" by (simp add: r key_of_def moved_key_def)
qed (use mv in \<open>auto simp: move_owner_def last_write_def split: if_splits\<close>)

lemma renames_inv:
  assumes inv: "ledger_inv s" and d: "detach_session new (rs_reg s) = (us, r1)" and mv: "move_owner old new r1 = (ms, r)" and "old \<noteq> new"
    and fit: "\<And>e. e \<in> set (cg_entries r1) \<Longrightarrow> ce_owner e = old \<Longrightarrow> fits new (ce_name e)"
  shows "ledger_inv (s\<lparr>rs_reg := r, rs_deletes := us @ rs_deletes s, rs_moves := ms @ rs_moves s,
      rs_held := (\<lambda>i. if (\<exists>e \<in> set (cg_entries r1). ce_id e = i \<and> ce_owner e = old) then cg_seq r else rs_held s i)\<rparr>)"
proof -
  have seq: "cg_seq r = cg_seq r1" using mv by (auto simp: move_owner_def split: if_splits)
  let ?s = "s\<lparr>rs_reg := r1, rs_deletes := us @ rs_deletes s\<rparr>"
  let ?H = "\<lambda>i. if (\<exists>e \<in> set (cg_entries r1). ce_id e = i \<and> ce_owner e = old) then cg_seq r else rs_held s i"
  have "ledger_inv (?s\<lparr>rs_reg := r, rs_moves := ms @ rs_moves ?s, rs_held := ?H\<rparr>)"
    by (rule moves_inv[OF drops_inv[OF inv d] _ assms(4)]) (use mv fit detach_keys(7)[OF d] seq in auto)
  then show ?thesis by (cases s) simp
qed

text \<open>The work that moves and removals leave.\<close>

lemma finds_moved_inv:
  assumes inv: "ledger_inv s" and m: "(old, new, name, since) \<in> set (rs_moves s)" and f: "moved_file tb new name (rs_reg s) = Some (i, f)"
  shows "ledger_inv (s\<lparr>rs_moves := remove1 (old, new, name, since) (rs_moves s),
      rs_prepared := rs_prepared s @ [(i, f, Some (old, name, since))]\<rparr>)" (is "ledger_inv ?s")
proof (rule ledger_invI)
  note I = ledger_invD[OF inv]
  obtain e where "e \<in> set (cg_entries (rs_reg s))" "ce_id e = i" "ce_name e = pc_name f" using moved_file_prepared[OF f] by blast
  from prepared_for[OF inv _ this] have "i < cg_next_id (rs_reg s) \<and> (\<forall>o2 n2. (i, o2, n2) \<in> set (keys (rs_reg s)) \<longrightarrow> n2 = pc_name f)"
    by (simp add: same_ledger_def)
  then show "prepared_ok (keys (rs_reg s)) (cg_next_id (rs_reg s)) (rs_prepared ?s) (rs_plans ?s)"
    using I(2) by (auto simp: prepared_ok_def simp del: set_map)
  show "under_way ?s = under_way s"
    by (simp add: under_way_def set_remove1[OF m] unlink_of_def Un_ac)
qed (use ledger_invD[OF inv] in simp_all)

lemma moved_gone_inv:
  assumes inv: "ledger_inv s" and m: "(old, new, name, since) \<in> set (rs_moves s)"
  shows "ledger_inv (s\<lparr>rs_moves := remove1 (old, new, name, since) (rs_moves s), rs_deletes := (old, name, since) # rs_deletes s\<rparr>)"
    (is "ledger_inv ?s")
proof -
  have "under_way ?s = under_way s" by (simp add: under_way_def set_remove1[OF m] Un_ac)
  then show ?thesis using inv by (simp add: ledger_inv_def)
qed

lemma unlinks_inv:
  assumes inv: "ledger_inv s" and u: "(owner, name, since) \<in> set (rs_deletes s)" and p: "p = owner_path owner name"
    and w: "rs_writing s p = None" and r: "r = delete_unless_written_since ok unused owner name since (rs_reg s)"
  shows "ledger_inv (s\<lparr>rs_reg := r, rs_deletes := remove1 (owner, name, since) (rs_deletes s),
      rs_written := (if cg_disk r p = None then (rs_written s)(p := None) else rs_written s),
      rs_stranded := (if ok then rs_stranded s else insert p (rs_stranded s))\<rparr>)" (is "ledger_inv ?s")
proof (rule ledger_invI)
  note I = ledger_invD[OF inv] and D = delete_parts[OF r p]
  have "under_way s = insert (owner, name, since) (under_way ?s)"
    by (simp add: under_way_def set_remove1[OF u])
  then have U: "under_way ?s \<subseteq> under_way s" "x \<in> under_way s \<Longrightarrow> x \<in> under_way ?s \<or> x = (owner, name, since)" for x by auto
  have "rs_written s p = None \<longleftrightarrow> cg_disk (rs_reg s) p = None" using I(3) by (auto simp: stamps_ok_def)
  then have new: "(cg_disk r, (\<lambda>x. last_write x r), rs_written ?s) =
      (if since < last_write p (rs_reg s) then (cg_disk (rs_reg s), (\<lambda>x. last_write x (rs_reg s)), rs_written s)
       else if cg_disk (rs_reg s) p \<noteq> None \<and> \<not> ok then (cg_disk (rs_reg s), (\<lambda>x. last_write x (rs_reg s)), rs_written s)
       else ((cg_disk (rs_reg s))(p := None), if unused then (\<lambda>x. last_write x (rs_reg s))(p := 0) else (\<lambda>x. last_write x (rs_reg s)),
             (rs_written s)(p := None)))"
    using D by (auto simp: fun_upd_idem split: if_splits)
  show "stamps_ok (under_way ?s) (rs_held ?s) (cg_disk (rs_reg ?s)) (\<lambda>x. last_write x r) (rs_written ?s) (rs_writing ?s)
      (cg_seq (rs_reg s)) \<and> covered_ok (keys (rs_reg s)) (under_way ?s) (rs_written ?s) (rs_writing ?s) (rs_stranded ?s)
      \<and> held_ok (keys (rs_reg s)) (under_way ?s) (rs_held ?s) (rs_writing ?s)"
    using unlink_parts[OF I(3,4,5) w U p new refl] by simp
qed (use ledger_invD[OF inv] delete_parts[OF r p] in simp_all)

text \<open>Steps that leave the identities and the ledger as they are.\<close>

lemma prepares_inv:
  assumes inv: "ledger_inv s" and same: "same_ledger (rs_reg s) r" and e: "e \<in> set (cg_entries r)" "ce_id e = i" "ce_name e = pc_name f"
    and E: "set E \<subseteq> set (rs_plans s) \<union> {pl. xp_id pl = i \<and> cd_name (xp_def pl) = pc_name f}"
  shows "ledger_inv (s\<lparr>rs_reg := r, rs_plans := E, rs_prepared := rs_prepared s @ [(i, f, None)]\<rparr>)"
proof (rule ledger_inv_same[OF inv same])
  have "prepared_ok (keys r) (cg_next_id r) (rs_prepared s) (rs_plans s)"
    using ledger_invD(2)[OF inv] same by (simp add: same_ledger_def)
  then show "prepared_ok (keys r) (cg_next_id r) (rs_prepared s @ [(i, f, None)]) E"
    using prepared_for[OF inv same e] E unfolding prepared_ok_def by (auto simp del: set_map dest!: subsetD)
qed simp

lemma plans_inv:
  assumes inv: "ledger_inv s" and p: "edit_plan_for rx tb owner name c (rs_reg s) = Inr pl"
  shows "ledger_inv (s\<lparr>rs_plans := pl # rs_plans s, rs_prepared := rs_prepared s @ [(xp_id pl, xp_file pl, None)]\<rparr>)"
proof -
  obtain e where e: "e \<in> set (cg_entries (rs_reg s))" "xp_id pl = ce_id e" "cd_name (xp_def pl) = ce_name e" "ce_name e = pc_name (xp_file pl)"
    using edit_plan_file[OF p] by blast
  from prepares_inv[OF inv _ e(1) e(2)[symmetric] e(4), of "pl # rs_plans s"] show ?thesis
    using e(3,4) by (auto simp: same_ledger_def)
qed

lemma commits_inv:
  assumes inv: "ledger_inv s" and "pl \<in> set (rs_plans s)"
  shows "ledger_inv (s\<lparr>rs_reg := snd (edit_commit sk loss_of nm now pl w (rs_reg s))\<rparr>)"
proof (rule ledger_inv_local[OF inv same_ledger_commit])
  fix e assume "e \<in> set (cg_entries (rs_reg s))" "ce_id e = xp_id pl"
  then have "(xp_id pl, ce_owner e, ce_name e) \<in> set (keys (rs_reg s))" by (force simp: key_of_def)
  then show "ce_name e = cd_name (xp_def pl)" using ledger_invD(2)[OF inv] assms(2) unfolding prepared_ok_def by blast
qed

lemma files_inv:
  assumes inv: "ledger_inv s" and f: "snapshot_file tb i run (rs_reg s) = (Some f, r)"
  shows "ledger_inv (s\<lparr>rs_reg := r, rs_prepared := rs_prepared s @ [(i, f, None)]\<rparr>)"
proof -
  obtain e where e: "e \<in> set (cg_entries r)" "ce_id e = i" "ce_name e = pc_name f" using snapshot_file_prepared[OF f] by blast
  have "same_ledger (rs_reg s) r" using same_ledger_file[of "rs_reg s" tb i run] f by simp
  from prepares_inv[OF inv this e, of "rs_plans s"] show ?thesis by simp
qed

lemmas step_invs = arms_inv plans_inv commits_inv files_inv begins_inv finds_gone_inv saves_inv save_fails_inv removes_inv drops_inv
  renames_inv finds_moved_inv moved_gone_inv unlinks_inv
  ledger_inv_local[OF _ same_ledger_reset] ledger_inv_local[OF _ same_ledger_take] ledger_inv_local[OF _ same_ledger_ingest]

lemma ledger_inv_step: "registry_step sk tb rx env ns s s' \<Longrightarrow> ledger_inv s \<Longrightarrow> ledger_inv s'"
  by (induction rule: registry_step.induct) (blast intro: step_invs)+

definition registry_reachable ::
  "'s sketch_crate \<Rightarrow> ('s \<Rightarrow> nat list) \<Rightarrow> (string \<Rightarrow> bool) \<Rightarrow> match_env \<Rightarrow> (json \<Rightarrow> string) \<Rightarrow> ('s, 'p) registry_run \<Rightarrow> bool" where
  "registry_reachable sk tb rx env ns s \<longleftrightarrow> (\<exists>budget. (registry_step sk tb rx env ns)\<^sup>*\<^sup>* (run_start budget) s)"

lemma reachable_start: "registry_reachable sk tb rx env ns (run_start budget)"
  unfolding registry_reachable_def by blast

lemma reachable_step:
  "registry_reachable sk tb rx env ns s \<Longrightarrow> registry_step sk tb rx env ns s s' \<Longrightarrow> registry_reachable sk tb rx env ns s'"
  unfolding registry_reachable_def by (meson rtranclp.rtrancl_into_rtrancl)

lemma reachable_ledger_inv: "registry_reachable sk tb rx env ns s \<Longrightarrow> ledger_inv s"
proof -
  have "(registry_step sk tb rx env ns)\<^sup>*\<^sup>* s0 s \<Longrightarrow> ledger_inv s0 \<Longrightarrow> ledger_inv s" for s0
    by (induction rule: rtranclp_induct) (auto intro: ledger_inv_step)
  then show "registry_reachable sk tb rx env ns s \<Longrightarrow> ledger_inv s"
    unfolding registry_reachable_def using ledger_inv_start by blast
qed

section \<open>What the ledger guarantees\<close>

text \<open>A collector's own bytes, written since it came to its path.\<close>

definition own_file :: "u64 \<Rightarrow> string \<Rightarrow> u64 \<Rightarrow> ('s, 'p) registry_run \<Rightarrow> bool" where
  "own_file i p t s \<longleftrightarrow> rs_written s p = Some (i, t) \<and> rs_held s i < t"

lemma own_file_saved:
  assumes inv: "ledger_inv s" and l: "live (keys (rs_reg s)) i p" and f: "own_file i p t s" and w: "rs_writing s p = Some (j, t2, g, c)"
  shows "j = i \<and> t \<le> t2"
proof -
  note I = ledger_invD[OF inv]
  obtain owner name where k: "(i, owner, name) \<in> set (keys (rs_reg s))" "owner_path owner name = p" using l by (auto simp: live_def)
  have "last_write p (rs_reg s) = t" using stamps_okD(1)[OF I(3)] f by (auto simp: own_file_def)
  then have "t < t2" using stamps_okD(2)[OF I(3) w] by simp
  moreover have "j = i \<or> t2 \<le> rs_held s i" using I(5) k w unfolding held_ok_def by metis
  ultimately show ?thesis using f by (auto simp: own_file_def)
qed

lemma own_file_unlinked:
  assumes inv: "ledger_inv s" and l: "live (keys (rs_reg s)) i p" and f: "own_file i p t s" and u: "(owner, name, since) \<in> under_way s"
    and p: "p = owner_path owner name"
  shows "cg_disk (delete_unless_written_since ok unused owner name since (rs_reg s)) p \<noteq> None"
proof -
  note I = ledger_invD[OF inv]
  obtain o1 n1 where k: "(i, o1, n1) \<in> set (keys (rs_reg s))" "owner_path o1 n1 = p" using l by (auto simp: live_def)
  have "since \<le> rs_held s i" using I(5) k u p unfolding held_ok_def by metis
  moreover have "last_write p (rs_reg s) = t" using stamps_okD(1)[OF I(3)] f by (auto simp: own_file_def)
  moreover have "cg_disk (rs_reg s) p \<noteq> None" using I(3) f by (auto simp: own_file_def stamps_ok_def)
  ultimately show ?thesis
    using delete_parts[OF refl p, where ok = ok and unused = unused and since = since and r = "rs_reg s"] f by (auto simp: own_file_def)
qed

lemma moved_away:
  assumes inv: "ledger_inv s" and d: "detach_session new (rs_reg s) = (us, r1)" and mv: "move_owner old new r1 = (ms, r)" and "old \<noteq> new"
    and fit: "\<And>e. e \<in> set (cg_entries r1) \<Longrightarrow> ce_owner e = old \<Longrightarrow> fits new (ce_name e)"
    and l: "live (keys (rs_reg s)) i p" "live (keys r) i p" and e: "e \<in> set (cg_entries r1)" "ce_id e = i" "ce_owner e = old"
  shows False
proof -
  have K: "keys_ok (keys (rs_reg s)) (cg_next_id (rs_reg s))" using ledger_invD(1)[OF inv] .
  have "(i, old, ce_name e) \<in> set (keys r1)" using e by (force simp: key_of_def)
  then have k: "(i, old, ce_name e) \<in> set (keys (rs_reg s))" using detach_keys(1)[OF d] by simp
  have p: "owner_path old (ce_name e) = p"
  proof -
    obtain o1 n1 where "(i, o1, n1) \<in> set (keys (rs_reg s))" "owner_path o1 n1 = p" using l(1) by (auto simp: live_def)
    then show ?thesis using K k unfolding keys_ok_def distinct_map by (metis fst_conv inj_onD prod.inject)
  qed
  obtain o2 n2 where k2: "(i, o2, n2) \<in> set (keys r)" "owner_path o2 n2 = p" using l(2) by (auto simp: live_def)
  have "keys r = map (moved_key old new) (keys r1)" using mv assms(4) by (auto simp: move_owner_def key_of_def moved_key_def)
  then obtain o3 where k3: "(i, o3, n2) \<in> set (keys r1)" "o2 = (if o3 = old then new else o3)" using k2(1) moved_key_from by metis
  then have "(i, o3, n2) \<in> set (keys (rs_reg s))" using detach_keys(1)[OF d] by simp
  then have "o3 = old \<and> n2 = ce_name e" using K k unfolding keys_ok_def distinct_map by (metis fst_conv inj_onD prod.inject)
  then have "o2 = new" "n2 = ce_name e" using k3(2) by auto
  then have "old = new" using owner_path_inj[of old "ce_name e" new "ce_name e"] p k2(2) K k fit[OF e(1,3)] unfolding keys_ok_def by metis
  then show False using assms(4) by simp
qed

lemma own_file_step:
  assumes "registry_step sk tb rx env ns s s'" and "ledger_inv s" and "live (keys (rs_reg s)) i p" and "live (keys (rs_reg s')) i p"
    and "own_file i p t s"
  shows "\<exists>t2 \<ge> t. own_file i p t2 s'"
  using assms
proof (induction rule: registry_step.induct)
  case (arms loss_of owner domain m d now s j f r)
  have "i < cg_next_id (rs_reg s)" using ledger_invD(1)[OF arms(3)] arms(4) by (auto simp: keys_ok_def live_def)
  then have "j \<noteq> i" using arm_keys(2)[OF arms(1)] by simp
  then show ?case using arms(6) by (auto simp: own_file_def)
next
  case (saves s x j t2 f c w r)
  have "x = p \<Longrightarrow> j = i \<and> t \<le> t2" using own_file_saved[OF saves(3,4,6)] saves(1) by blast
  then show ?case using saves(6) by (cases "x = p") (auto simp: own_file_def)
next
  case (renames new s us r1 old ms r)
  have "\<not> (\<exists>e \<in> set (cg_entries r1). ce_id e = i \<and> ce_owner e = old)"
    using moved_away[OF renames(5,1,2,3) renames(4) renames(6)] renames(7) by auto
  then show ?case using renames(8) by (auto simp: own_file_def)
next
  case (unlinks owner name since s x r unlinked unused)
  have "(owner, name, since) \<in> under_way s" using unlinks(1) by (simp add: under_way_def)
  then have "x = p \<Longrightarrow> cg_disk r x \<noteq> None"
    using own_file_unlinked[OF unlinks(5,6,8), of owner name since unlinked unused] unlinks(2,4) by auto
  then show ?case using unlinks(8) by (auto simp: own_file_def)
qed (auto simp: own_file_def)

text \<open>The steps during which collector \<open>i\<close> stays where it is.\<close>

definition step_keeping ::
  "'s sketch_crate \<Rightarrow> ('s \<Rightarrow> nat list) \<Rightarrow> (string \<Rightarrow> bool) \<Rightarrow> match_env \<Rightarrow> (json \<Rightarrow> string) \<Rightarrow> u64 \<Rightarrow> string
     \<Rightarrow> ('s, 'p) registry_run \<Rightarrow> ('s, 'p) registry_run \<Rightarrow> bool" where
  "step_keeping sk tb rx env ns i p s s' \<longleftrightarrow>
     registry_step sk tb rx env ns s s' \<and> live (keys (rs_reg s)) i p \<and> live (keys (rs_reg s')) i p"

lemma own_file_run:
  assumes "(step_keeping sk tb rx env ns i p)\<^sup>*\<^sup>* s s'" and "ledger_inv s" and "own_file i p t s"
  shows "ledger_inv s' \<and> (\<exists>t2 \<ge> t. own_file i p t2 s')"
  using assms
proof (induction rule: rtranclp_induct)
  case (step y z)
  then obtain t2 where t2: "t \<le> t2" "own_file i p t2 y" "ledger_inv y" by blast
  have st: "registry_step sk tb rx env ns y z" using step(2) by (simp add: step_keeping_def)
  obtain t3 where "t2 \<le> t3" "own_file i p t3 z" using own_file_step[OF st t2(3) _ _ t2(2)] step(2) by (auto simp: step_keeping_def)
  then show ?case using ledger_inv_step[OF st t2(3)] t2(1) le_trans by blast
qed auto

text \<open>Nothing is left to finish: no unlink, no move, no write under way.\<close>

definition settled :: "('s, 'p) registry_run \<Rightarrow> bool" where
  "settled s \<longleftrightarrow>
     rs_deletes s = [] \<and> rs_moves s = [] \<and> list_all (\<lambda>(i, f, c). c = None) (rs_prepared s) \<and> rs_writing s = (\<lambda>_. None)"

lemma settled_under_way: "settled s \<Longrightarrow> under_way s = {}"
  by (auto simp: settled_def under_way_def to_follow_def list_all_iff)

text \<open>Arming a collector and saving its file, with nothing else going on.\<close>

lemma armed_and_saved:
  fixes r :: "('s, 'p) collector_registry"
  assumes a: "arm sk tb loss_of owner domain m d now (with_budget b) = (Inr (i, f), r)" and fit: "fits owner (cd_name d)"
  shows "\<exists>s :: ('s, 'p) registry_run. registry_reachable sk tb rx env ns s \<and> settled s \<and> rs_stranded s = {} \<and> live (keys (rs_reg s)) i (owner_path owner (cd_name d))
    \<and> own_file i (owner_path owner (cd_name d)) 1 s \<and> cg_disk (rs_reg s) (owner_path owner (cd_name d)) \<noteq> None"
proof -
  let ?step = "registry_step sk tb rx env ns" and ?p = "owner_path owner (cd_name d)"
  obtain w where w: "owner = Named w" using fit by (auto simp: fits_def)
  note A = arm_keys[OF a]
  have p: "file_path f = ?p" using A(7,8) by (simp add: file_path_def owner_path_def)
  have r: "cg_seq r = 0" "cg_paths r = (\<lambda>_. None)" using A by (simp_all add: with_budget_def)
  let ?s0 = "run_start b :: ('s, 'p) registry_run"
  have a0: "arm sk tb loss_of owner domain m d now (rs_reg ?s0) = (Inr (i, f), r)" using a by (simp add: run_start_def)
  obtain s1 where s1: "s1 = ?s0\<lparr>rs_reg := r, rs_prepared := rs_prepared ?s0 @ [(i, f, None)], rs_held := (rs_held ?s0)(i := cg_seq r)\<rparr>" by blast
  have 1: "?step ?s0 s1" unfolding s1 by (rule arms[OF a0 fit])
  have f1: "rs_reg s1 = r" "rs_prepared s1 = [(i, f, None)]" "rs_held s1 i = 0" "rs_writing s1 = (\<lambda>_. None)" "rs_deletes s1 = []"
    "rs_moves s1 = []" "rs_stranded s1 = {}" by (simp_all add: s1 run_start_def r)
  have k: "(i, owner, cd_name d) \<in> set (keys r)" using A(1) by simp
  then have "list_ex (\<lambda>e. ce_id e = i \<and> ce_owner e = Named (pc_owner f)) (cg_entries r)"
    using A(7) w by (auto simp: key_of_def list_ex_iff session_display_def)
  then have b: "write_begin False i f (rs_reg s1) = (Some 1, (path_lock ?p r)\<lparr>cg_seq := 1\<rparr>)"
    using r f1(1) by (simp add: write_begin_def Let_def p path_lock_def)
  obtain s2 where s2: "s2 = s1\<lparr>rs_reg := (path_lock ?p r)\<lparr>cg_seq := 1\<rparr>, rs_prepared := remove1 (i, f, None) (rs_prepared s1),
      rs_writing := (rs_writing s1)(file_path f \<mapsto> (i, 1, f, None))\<rparr>" by blast
  have 2: "?step s1 s2" unfolding s2 by (rule begins[OF _ _ b]) (simp_all add: f1)
  have f2: "keys (rs_reg s2) = keys r" "rs_prepared s2 = []" "rs_held s2 i = 0" "rs_writing s2 = [?p \<mapsto> (i, 1, f, None)]" "rs_deletes s2 = []"
    "rs_moves s2 = []" "rs_stranded s2 = {}" by (simp_all add: s2 f1 p)
  have e: "write_end None 1 f (rs_reg s2) = (Inr True, (rs_reg s2)\<lparr>cg_disk := (cg_disk (rs_reg s2))(?p \<mapsto> f), cg_paths := (cg_paths (rs_reg s2))(?p \<mapsto> 1)\<rparr>)"
    by (simp add: write_end_def p)
  have w2: "rs_writing s2 ?p = Some (i, 1, f, None)" using f2(4) by simp
  obtain s3 where s3: "s3 = s2\<lparr>rs_reg := (rs_reg s2)\<lparr>cg_disk := (cg_disk (rs_reg s2))(?p \<mapsto> f), cg_paths := (cg_paths (rs_reg s2))(?p \<mapsto> 1)\<rparr>,
      rs_writing := (rs_writing s2)(?p := None), rs_written := (rs_written s2)(?p \<mapsto> (i, 1)), rs_deletes := unlink_of None @ rs_deletes s2\<rparr>" by blast
  have 3: "?step s2 s3" unfolding s3 by (rule saves[OF w2 e])
  have "registry_reachable sk tb rx env ns s3"
    by (rule reachable_step[OF reachable_step[OF reachable_step[OF reachable_start 1] 2] 3])
  moreover have "keys (rs_reg s3) = keys r" using f2(1) by (simp add: s3)
  then have "live (keys (rs_reg s3)) i ?p" using k unfolding live_def by metis
  moreover have "settled s3" by (simp add: settled_def s3 f2 unlink_of_def)
  moreover have "rs_stranded s3 = {}" by (simp add: s3 f2)
  moreover have "own_file i ?p 1 s3" unfolding own_file_def by (simp add: s3 f2)
  moreover have "cg_disk (rs_reg s3) ?p \<noteq> None" by (simp add: s3)
  ultimately show ?thesis by blast
qed

abbreviation demo_step :: "(nat list, unit) registry_run \<Rightarrow> (nat list, unit) registry_run \<Rightarrow> bool" where
  "demo_step \<equiv> registry_step demo_bytes_sketch id (\<lambda>_. True) demo_collector_env (\<lambda>_. [])"

abbreviation demo_reachable :: "(nat list, unit) registry_run \<Rightarrow> bool" where
  "demo_reachable \<equiv> registry_reachable demo_bytes_sketch id (\<lambda>_. True) demo_collector_env (\<lambda>_. [])"

lemma demo_fits: "fits (Named ''o'') (cd_name demo_run_def)"
proof -
  have "length (encode ''o'') + length (encode ''c'') \<le> 194" by code_simp
  then show ?thesis by (simp add: fits_def session_display_def demo_run_def_def)
qed

lemma demo_saved:
  "\<exists>s i. demo_reachable s \<and> settled s \<and> rs_stranded s = {} \<and> live (keys (rs_reg s)) i (owner_path (Named ''o'') ''c'')
    \<and> own_file i (owner_path (Named ''o'') ''c'') 1 s \<and> cg_disk (rs_reg s) (owner_path (Named ''o'') ''c'') \<noteq> None"
proof -
  obtain i f and r :: "(nat list, unit) collector_registry" where "arm demo_bytes_sketch id (\<lambda>_. \<lparr>tl_dropped = 0, tl_shed_batches = 0, tl_malformed = 0\<rparr>) (Named ''o'') ''default'' 0
      demo_run_def 3 (with_budget 1000000) = (Inr (i, f), r)"
    by (simp add: arm_def with_budget_def reserved_bytes_def reserved_of_def demo_run_def_def Let_def)
  from armed_and_saved[OF this demo_fits, of "\<lambda>_. True" demo_collector_env "\<lambda>_. []"] show ?thesis
    unfolding demo_run_def_def collector_def.simps by blast
qed

text \<open>
  Removed collectors stay removed (C28). However operations interleave, once nothing is left to finish
  every file on disk is that of a live collector with that path, and its bytes are ones that very
  collector wrote: no write, however late it lands, leaves the file of a removed or renamed collector
  to be restored at the next boot. The exceptions are the ones the code reports: a path whose unlink
  failed, or whose mover could not save.
\<close>

theorem dead_files_are_gone:
  assumes "registry_reachable sk tb rx env ns s" and "settled s" and "cg_disk (rs_reg s) p = Some f" and "p \<notin> rs_stranded s"
  shows "\<exists>e \<in> set (cg_entries (rs_reg s)). \<exists>t. owner_path (ce_owner e) (ce_name e) = p \<and> rs_written s p = Some (ce_id e, t)"
proof -
  note I = ledger_invD[OF reachable_ledger_inv[OF assms(1)]]
  obtain i t where g: "rs_written s p = Some (i, t)" using I(3) assms(3) unfolding stamps_ok_def by (metis option.exhaust surj_pair option.distinct(1))
  then have "bytes_covered (keys (rs_reg s)) (under_way s) (rs_stranded s) p i t" using I(4) by (auto simp: covered_ok_def)
  then have "live (keys (rs_reg s)) i p" using assms(4) settled_under_way[OF assms(2)] by (simp add: bytes_covered_def)
  then show ?thesis using g by (auto simp: live_def key_of_def)
qed

theorem dead_files_are_gone_witness:
  "\<exists>s. demo_reachable s \<and> cg_disk (rs_reg s) (owner_path (Named ''o'') ''c'') \<noteq> None
    \<and> (\<exists>e \<in> set (cg_entries (rs_reg s)). \<exists>t. owner_path (ce_owner e) (ce_name e) = owner_path (Named ''o'') ''c''
        \<and> rs_written s (owner_path (Named ''o'') ''c'') = Some (ce_id e, t))"
proof -
  obtain s where s: "demo_reachable s" "settled s" "rs_stranded s = {}" "cg_disk (rs_reg s) (owner_path (Named ''o'') ''c'') \<noteq> None"
    using demo_saved by blast
  then obtain f where "cg_disk (rs_reg s) (owner_path (Named ''o'') ''c'') = Some f" by blast
  from dead_files_are_gone[OF s(1,2) this] show ?thesis using s by auto
qed

text \<open>
  A live collector keeps its file (C29). Once a collector has saved its file where it is, it has one
  there for as long as it stays, whatever else happens: every unlink that reaches the path was decided
  before those bytes were stamped and spares them, and only the collector's own later writes replace
  them.
\<close>

theorem live_file_survives:
  assumes "registry_reachable sk tb rx env ns s" and "own_file i p t s" and "(step_keeping sk tb rx env ns i p)\<^sup>*\<^sup>* s s'"
  shows "\<exists>t2. t \<le> t2 \<and> own_file i p t2 s' \<and> cg_disk (rs_reg s') p \<noteq> None"
proof -
  obtain t2 where t2: "t \<le> t2" "own_file i p t2 s'" and inv: "ledger_inv s'"
    using own_file_run[OF assms(3) reachable_ledger_inv[OF assms(1)] assms(2)] by blast
  then show ?thesis using ledger_invD(3)[OF inv] by (auto simp: own_file_def stamps_ok_def)
qed

theorem live_file_survives_witness:
  "\<exists>s s' i t. demo_step s s' \<and> own_file i (owner_path (Named ''o'') ''c'') t s' \<and> cg_disk (rs_reg s') (owner_path (Named ''o'') ''c'') \<noteq> None"
proof -
  let ?p = "owner_path (Named ''o'') ''c''"
  obtain s i where s: "demo_reachable s" "live (keys (rs_reg s)) i ?p" "own_file i ?p 1 s" using demo_saved by blast
  define s' where "s' = s\<lparr>rs_reg := snd (reset_collector demo_bytes_sketch (\<lambda>_. \<lparr>tl_dropped = 0, tl_shed_batches = 0, tl_malformed = 0\<rparr>)
      (Named ''o'') ''c'' 5 (rs_reg s))\<rparr>"
  have st: "demo_step s s'" unfolding s'_def by (rule resets)
  have "keys (rs_reg s') = keys (rs_reg s)" using same_ledger_reset[of "rs_reg s"] by (simp add: s'_def same_ledger_def)
  then have "step_keeping demo_bytes_sketch id (\<lambda>_. True) demo_collector_env (\<lambda>_. []) i ?p s s'" using st s(2) by (simp add: step_keeping_def)
  from live_file_survives[OF s(1,3) r_into_rtranclp[of "step_keeping demo_bytes_sketch id (\<lambda>_. True) demo_collector_env (\<lambda>_. []) i ?p", OF this]]
  show ?thesis using st by blast
qed

definition demo_collector_entry :: "u64 \<Rightarrow> string \<Rightarrow> nat \<Rightarrow> (nat list, unit) collector_entry" where
  "demo_collector_entry i name bytes =
     \<lparr>ce_id = i, ce_owner = Named ''o'', ce_domain = ''default'', ce_collector = collector_new demo_bytes_sketch (demo_sized name bytes) 3,
      ce_metrics = 0, ce_ingest_baseline = demo_no_loss 0, ce_history = history_new, ce_zeroed_by = None\<rparr>"

definition demo_registry :: "(nat list, unit) collector_entry list \<Rightarrow> u64 \<Rightarrow> (nat list, unit) collector_registry" where
  "demo_registry es n = (with_budget 100)\<lparr>cg_entries := es, cg_next_id := n\<rparr>"

lemma demo_arms:
  assumes "\<not> list_ex (owned_as (Named ''o'') name) es" and "reserved_of es + bytes \<le> 100"
  shows "arm demo_bytes_sketch id demo_no_loss (Named ''o'') ''default'' 0 (demo_sized name bytes) 3 (demo_registry es n)
    = (Inr (n, to_persisted id (demo_collector_entry n name bytes)), demo_registry (es @ [demo_collector_entry n name bytes]) (Suc n))"
  using assms by (auto simp: arm_def Let_def demo_registry_def with_budget_def reserved_bytes_def demo_collector_entry_def demo_sized_def)

definition demo_raise :: collector_edit where
  "demo_raise = \<lparr>ed_description = None, ed_filter = None, ed_level = None, ed_group_keys = None, ed_max_sample_bytes = Some 60,
     ed_domain = None, ed_threshold = None\<rparr>"

definition demo_plan :: "unit edit_plan" where
  "demo_plan = \<lparr>xp_id = 1, xp_owner = Named ''o'', xp_name = ''c'',
     xp_file = persisted_with id (demo_sized ''c'' 60) ''default'' (demo_collector_entry 1 ''c'' 0), xp_def = demo_sized ''c'' 60,
     xp_domain = ''default'', xp_structural = True\<rparr>"

lemma demo_plans: "edit_plan_for (\<lambda>_. True) id (Named ''o'') ''c'' demo_raise (demo_registry [demo_collector_entry 1 ''c'' 0] 2) = Inr demo_plan"
  by (simp add: edit_plan_for_def demo_registry_def with_budget_def demo_collector_entry_def owned_as_def collector_new_def demo_sized_def demo_run_def_def
      edited_def_def is_structural_def demo_raise_def reserved_bytes_def demo_plan_def Let_def persisted_with_def)

text \<open>What an arming and a landed edit do to the reservation.\<close>

lemma arm_Inr:
  assumes "arm sk tb loss_of owner domain m d now r = (Inr x, r1)"
  shows "\<exists>e. cg_entries r1 = cg_entries r @ [e] \<and> cg_max_total r1 = cg_max_total r \<and> ce_id e = cg_next_id r \<and> ce_owner e = owner
    \<and> cd_name (ce_def e) = cd_name d \<and> entry_bytes e = cd_max_sample_bytes d
    \<and> cd_max_sample_bytes d \<le> cg_max_total r - reserved_bytes r \<and> reserved_bytes r1 = reserved_bytes r + cd_max_sample_bytes d"
  using assms by (auto simp: arm_def Let_def collector_new_def reserved_bytes_def split: if_splits)

lemma edit_commit_reserves:
  assumes c: "edit_commit sk loss_of nm now pl (Inr True) r = (Inr z, r')" and d: "distinct (map ce_id (cg_entries r))"
    and e: "e \<in> set (cg_entries r)" "xp_id pl = ce_id e"
  shows "entry_bytes e + reserved_bytes r' = cd_max_sample_bytes (xp_def pl) + reserved_bytes r \<and> cg_max_total r' = cg_max_total r"
proof -
  let ?mine = "\<lambda>e. ce_id e = xp_id pl \<and> ce_owner e = xp_owner pl"
  have only: "\<forall>x \<in> set (cg_entries r). ?mine x \<longrightarrow> x = e" using e d unfolding distinct_map by (metis inj_onD)
  have r': "list_ex ?mine (cg_entries r)" "r' = r\<lparr>cg_entries := update_entry ?mine (edit_entry sk loss_of nm now pl) (cg_entries r)\<rparr>"
    using c by (auto simp: edit_commit_def Let_def split: if_splits)
  then have "?mine e" using only unfolding list_ex_iff by metis
  from reserved_update_entry[OF e(1) this only, of "edit_entry sk loss_of nm now pl"] show ?thesis
    by (simp add: r'(2) reserved_bytes_def edit_entry_bytes)
qed

lemma find_append_Some: "find P xs = Some x \<Longrightarrow> find P (xs @ ys) = Some x"
  by (induction xs) auto

lemma edit_refused_when_full:
  assumes "edit_plan_for rx tb owner name c r = Inr pl" and "xp_structural pl" and "find (owned_as owner name) (cg_entries r) = Some e"
    and "cg_entries r1 = cg_entries r @ es" and "cg_max_total r1 = cg_max_total r"
    and "cg_max_total r1 - (reserved_bytes r1 - entry_bytes e) < cd_max_sample_bytes (xp_def pl)"
  shows "\<exists>x y t. edit_plan_for rx tb owner name c r1 = Inl (CBudgetExceeded x y t)"
proof -
  have "find (owned_as owner name) (cg_entries r1) = Some e" using assms(3,4) find_append_Some by simp
  moreover obtain d where "edited_def rx c (ce_def e) = Inr d" "xp_def pl = d" "is_structural (ce_def e) c"
    using assms(1-3) by (auto simp: edit_plan_for_def Let_def split: sum.splits option.splits if_splits)
  ultimately show ?thesis using assms(6) by (simp add: edit_plan_for_def Let_def)
qed

lemma write_file_lands:
  assumes "list_ex (\<lambda>e. ce_id e = i \<and> ce_owner e = Named (pc_owner f)) (cg_entries r)" and "do_save dk (file_path f) = None"
  shows "fst (write_file dk i f r) = Inr True"
  using assms by (simp add: write_file_def registry_write_def write_begin_def write_end_def path_lock_def Let_def)

text \<open>
  An edit does not hold what it checked (C31). An edit checks the budget, releases the lock to write its
  file, and applies the new definition afterwards without checking again. When another collector is armed in
  between, the arming is checked against the old bytes of the edited collector, so each of the two passes
  alone and the reservation afterwards is the old one, less the edited collector's old bytes, plus
  both grants. It exceeds the budget exactly when both do not fit; and then a structural edit that had been
  checked after the arming would have been refused.
\<close>

theorem edit_race_reservation:
  assumes "distinct (map ce_id (cg_entries r))" and "\<forall>e \<in> set (cg_entries r). ce_id e < cg_next_id r"
    and "edit_plan_for rx tb owner name c r = Inr pl" and "xp_structural pl"
    and "arm sk tb loss_of owner' domain m d now r = (Inr x, r1)"
    and "write_file dk (xp_id pl) (xp_file pl) r1 = (Inr True, r2)"
    and "edit_commit sk loss_of nm now' pl (Inr True) r2 = (Inr z, r3)"
  shows "\<exists>e. find (owned_as owner name) (cg_entries r) = Some e
    \<and> reserved_bytes r3 = reserved_bytes r - entry_bytes e + cd_max_sample_bytes (xp_def pl) + cd_max_sample_bytes d
    \<and> reserved_bytes r - entry_bytes e + cd_max_sample_bytes (xp_def pl) \<le> max (cg_max_total r) (reserved_bytes r - entry_bytes e)
    \<and> reserved_bytes r + cd_max_sample_bytes d \<le> max (cg_max_total r) (reserved_bytes r)
    \<and> (cg_max_total r3 < reserved_bytes r3 \<and> 0 < cd_max_sample_bytes (xp_def pl)
        \<longrightarrow> (\<exists>a b t. edit_plan_for rx tb owner name c r1 = Inl (CBudgetExceeded a b t)))"
proof -
  obtain e where e: "find (owned_as owner name) (cg_entries r) = Some e" "xp_id pl = ce_id e"
      "cd_max_sample_bytes (xp_def pl) \<le> cg_max_total r - (reserved_bytes r - entry_bytes e)"
    using edit_plan_fields[OF assms(3)] assms(4) by blast
  have in_r: "e \<in> set (cg_entries r)" using find_member[OF e(1)] by simp
  obtain a where a: "cg_entries r1 = cg_entries r @ [a]" "cg_max_total r1 = cg_max_total r" "ce_id a = cg_next_id r"
      "cd_max_sample_bytes d \<le> cg_max_total r - reserved_bytes r" "reserved_bytes r1 = reserved_bytes r + cd_max_sample_bytes d"
    using arm_Inr[OF assms(5)] by blast
  have same: "same_entries r1 r2" using write_same_entries[of r1 dk "xp_id pl" "xp_file pl"] assms(6) by simp
  then have r2: "cg_entries r2 = cg_entries r @ [a]" "cg_max_total r2 = cg_max_total r" "reserved_bytes r2 = reserved_bytes r + cd_max_sample_bytes d"
    using a by (simp_all add: same_entries_def reserved_bytes_def)
  have "distinct (map ce_id (cg_entries r2))" using assms(1,2) a(3) r2(1) by auto
  then have r3: "entry_bytes e + reserved_bytes r3 = cd_max_sample_bytes (xp_def pl) + reserved_bytes r2" "cg_max_total r3 = cg_max_total r"
    using edit_commit_reserves[OF assms(7) _ _ e(2)] in_r r2 by auto
  have le: "entry_bytes e \<le> reserved_bytes r" using reserved_of_member[OF in_r] by (simp add: reserved_bytes_def)
  have sum: "reserved_bytes r3 = reserved_bytes r - entry_bytes e + cd_max_sample_bytes (xp_def pl) + cd_max_sample_bytes d"
    using r3(1) r2(3) le by simp
  have "\<exists>x y t. edit_plan_for rx tb owner name c r1 = Inl (CBudgetExceeded x y t)"
    if "cg_max_total r3 < reserved_bytes r3" "0 < cd_max_sample_bytes (xp_def pl)"
    by (rule edit_refused_when_full[OF assms(3,4) e(1) a(1,2)]) (use that sum r3(2) a(2,5) le in linarith)
  then show ?thesis using e(1,3) a(4) sum by (intro exI[of _ e]) auto
qed

theorem edit_race_reservation_witness:
  "\<exists>r1 r2 r3 :: (nat list, unit) collector_registry. \<exists>x z.
     edit_plan_for (\<lambda>_. True) id (Named ''o'') ''c'' demo_raise (demo_registry [demo_collector_entry 1 ''c'' 0] 2) = Inr demo_plan
     \<and> arm demo_bytes_sketch id demo_no_loss (Named ''o'') ''default'' 0 (demo_sized ''d'' 60) 3 (demo_registry [demo_collector_entry 1 ''c'' 0] 2) = (Inr x, r1)
     \<and> write_file demo_disk 1 (xp_file demo_plan) r1 = (Inr True, r2)
     \<and> edit_commit demo_bytes_sketch demo_no_loss None 5 demo_plan (Inr True) r2 = (Inr z, r3)
     \<and> reserved_bytes r3 = 120 \<and> cg_max_total r3 = 100
     \<and> (\<exists>a b t. edit_plan_for (\<lambda>_. True) id (Named ''o'') ''c'' demo_raise r1 = Inl (CBudgetExceeded a b t))"
proof -
  let ?A = "demo_collector_entry 1 ''c'' 0" and ?B = "demo_collector_entry 2 ''d'' 60"
  let ?r = "demo_registry [?A] 2" and ?r1 = "demo_registry [?A, ?B] 3"
  have a: "arm demo_bytes_sketch id demo_no_loss (Named ''o'') ''default'' 0 (demo_sized ''d'' 60) 3 ?r = (Inr (2, to_persisted id ?B), ?r1)"
    using demo_arms[of "''d''" "[?A]" 60 2]
    by (simp add: owned_as_def demo_collector_entry_def collector_new_def demo_sized_def numeral_3_eq_3)
  obtain r2 where w: "write_file demo_disk 1 (xp_file demo_plan) ?r1 = (Inr True, r2)"
    using write_file_lands[of 1 "xp_file demo_plan" ?r1 demo_disk] by (cases "write_file demo_disk 1 (xp_file demo_plan) ?r1")
      (simp add: demo_disk_def demo_registry_def demo_plan_def persisted_with_def demo_collector_entry_def session_display_def)
  then have "cg_entries r2 = [?A, ?B]" "cg_max_total r2 = 100"
    using write_same_entries[of ?r1 demo_disk 1 "xp_file demo_plan"] by (simp_all add: same_entries_def demo_registry_def with_budget_def)
  then obtain z r3 where c: "edit_commit demo_bytes_sketch demo_no_loss None 5 demo_plan (Inr True) r2 = (Inr z, r3)" "cg_max_total r3 = 100"
    by (auto simp: edit_commit_def demo_plan_def demo_collector_entry_def)
  have "distinct (map ce_id (cg_entries ?r))" "\<forall>e \<in> set (cg_entries ?r). ce_id e < cg_next_id ?r" "xp_structural demo_plan" "xp_id demo_plan = 1"
    "reserved_bytes ?r = 0" "cd_max_sample_bytes (xp_def demo_plan) = 60" "cd_max_sample_bytes (demo_sized ''d'' 60) = 60"
    by (simp_all add: demo_registry_def demo_collector_entry_def demo_plan_def demo_sized_def reserved_bytes_def collector_new_def)
  note h = this
  have w': "write_file demo_disk (xp_id demo_plan) (xp_file demo_plan) ?r1 = (Inr True, r2)" using w h(4) by simp
  have "reserved_bytes r3 = 120 \<and> (\<exists>a b t. edit_plan_for (\<lambda>_. True) id (Named ''o'') ''c'' demo_raise ?r1 = Inl (CBudgetExceeded a b t))"
    using edit_race_reservation[OF h(1,2) demo_plans h(3) a w' c(1)] h c(2) by auto
  then show ?thesis using demo_plans a w c by blast
qed

end
