(* ===== verification/Rows.thy ===== *)
theory Rows
  imports Collector_Files Span_Store
begin

text \<open>
  What the reports of rows share: products and quotients of doubles, comparison of strings, joined
  labels, ids in hexadecimal, and the locale \<open>ranking\<close> of the comparisons rows are sorted by, with the
  results every sort by one has.
\<close>

section \<open>Numbers\<close>

definition f64_mul :: "f64 \<Rightarrow> f64 \<Rightarrow> f64" where
  "f64_mul a b =
     (case (a, b) of
        (Fin x, Fin y) \<Rightarrow> round_f64 (x * y)
      | (NaN, _) \<Rightarrow> NaN | (_, NaN) \<Rightarrow> NaN
      | (Fin x, _) \<Rightarrow> if x = 0 then NaN else if (0 < x) = (b = PInf) then PInf else NInf
      | (_, Fin y) \<Rightarrow> if y = 0 then NaN else if (0 < y) = (a = PInf) then PInf else NInf
      | _ \<Rightarrow> if a = b then PInf else NInf)"

definition f64_div :: "f64 \<Rightarrow> f64 \<Rightarrow> f64" where
  "f64_div a b =
     (case (a, b) of
        (NaN, _) \<Rightarrow> NaN | (_, NaN) \<Rightarrow> NaN
      | (Fin x, Fin y) \<Rightarrow> if y = 0 then (if x = 0 then NaN else if 0 < x then PInf else NInf) else round_f64 (x / y)
      | (Fin _, _) \<Rightarrow> Fin 0
      | (_, Fin y) \<Rightarrow> if (0 \<le> y) = (a = PInf) then PInf else NInf
      | _ \<Rightarrow> NaN)"

section \<open>Text\<close>

text \<open>Strings compare by their bytes.\<close>

definition str_less :: "string \<Rightarrow> string \<Rightarrow> bool" where
  "str_less a b = lexordp (\<lambda>x y. (of_char x :: nat) < of_char y) a b"

fun join_with :: "string \<Rightarrow> string list \<Rightarrow> string" where
  "join_with sep [] = []"
| "join_with sep [s] = s"
| "join_with sep (s # t # ss) = s @ sep @ join_with sep (t # ss)"

definition hex32 :: "nat \<Rightarrow> string" where
  "hex32 n = map (\<lambda>k. lower_hex (n div 16 ^ k mod 16)) (rev [0..<32])"

section \<open>Ranked rows\<close>

text \<open>
  A comparison that is a strict order and decides between any two rows of different keys. Sorting rows
  of distinct keys by it has one result, whatever order a hash map yields them in.
\<close>

locale ranking =
  fixes before :: "'a \<Rightarrow> 'a \<Rightarrow> bool" and key :: "'a \<Rightarrow> 'k"
  assumes before_irrefl: "\<not> before a a"
    and before_trans: "before a b \<Longrightarrow> before b c \<Longrightarrow> before a c"
    and before_total: "key a \<noteq> key b \<Longrightarrow> before a b \<or> before b a"
    and before_between: "before a c \<Longrightarrow> before a b \<or> before b c"
begin

lemma before_asym: "before a b \<Longrightarrow> \<not> before b a"
  using before_trans before_irrefl by blast

lemma insert_ranked: "sorted_wrt before ys \<Longrightarrow> key x \<notin> key ` set ys \<Longrightarrow> sorted_wrt before (insert_by before x ys)"
proof (induction ys)
  case (Cons y ys)
  then have "before y x \<or> before x y" using before_total[of y x] by auto
  then show ?case using Cons before_trans by auto
qed simp

lemma sort_ranked: "distinct (map key xs) \<Longrightarrow> sorted_wrt before (sort_by before xs)"
  by (induction xs) (auto intro!: insert_ranked)

lemma insert_weak: "sorted_wrt (\<lambda>a b. \<not> before b a) ys \<Longrightarrow> sorted_wrt (\<lambda>a b. \<not> before b a) (insert_by before x ys)"
proof (induction ys)
  case (Cons y ys)
  then have IH: "sorted_wrt (\<lambda>a b. \<not> before b a) (insert_by before x ys)" and later: "\<forall>z \<in> set ys. \<not> before z y" by simp_all
  show ?case
  proof (cases "before y x")
    case True
    then show ?thesis using IH later before_asym[of y x] by simp
  next
    case False
    then have "\<forall>z \<in> set ys. \<not> before z x" using later before_between[of _ x y] by blast
    then show ?thesis using False Cons.prems by simp
  qed
qed simp

lemma sort_weak: "sorted_wrt (\<lambda>a b. \<not> before b a) (sort_by before xs)"
  by (induction xs) (simp_all add: insert_weak)

lemma ranked_unique: "sorted_wrt before xs \<Longrightarrow> sorted_wrt before ys \<Longrightarrow> set xs = set ys \<Longrightarrow> xs = ys"
proof (induction xs arbitrary: ys)
  case (Cons x xs)
  then obtain y zs where ys: "ys = y # zs" by (cases ys) auto
  have "x = y"
  proof (rule ccontr)
    assume "x \<noteq> y"
    then have "before x y" "before y x" using Cons.prems ys by auto
    then show False using before_asym by blast
  qed
  moreover have "x \<notin> set xs" "y \<notin> set zs" using Cons.prems ys before_irrefl by auto
  ultimately show ?case using Cons ys by (metis insert_ident list.simps(15) sorted_wrt.simps(2))
qed simp

lemma rank_deterministic: "distinct (map key xs) \<Longrightarrow> distinct (map key ys) \<Longrightarrow> set xs = set ys \<Longrightarrow> sort_by before xs = sort_by before ys"
  by (rule ranked_unique) (simp_all add: sort_ranked)

end

lemma lexordp_strict:
  assumes "\<And>a. \<not> r a a" and "\<And>a b c. r a b \<Longrightarrow> r b c \<Longrightarrow> r a c" and "\<And>a b. r a b \<or> a = b \<or> r b a"
  shows "\<not> lexordp r xs xs" and "lexordp r xs ys \<Longrightarrow> lexordp r ys zs \<Longrightarrow> lexordp r xs zs"
    and "lexordp r xs ys \<or> xs = ys \<or> lexordp r ys xs"
proof -
  let ?R = "{(x, y). r x y}"
  show "\<not> lexordp r xs xs" using assms(1) by (simp add: lexordp_def lexord_irreflexive)
  have "trans ?R" using assms(2) by (auto simp: trans_def)
  then show "lexordp r xs ys \<Longrightarrow> lexordp r ys zs \<Longrightarrow> lexordp r xs zs"
    using lexord_transI[of ?R] by (auto simp: lexordp_def trans_def)
  have "total ?R" using assms(3) by (auto simp: total_on_def)
  then show "lexordp r xs ys \<or> xs = ys \<or> lexordp r ys xs"
    using total_lexord[of ?R] by (auto simp: lexordp_def total_on_def)
qed

lemma str_less_strict:
  "\<not> str_less a a" "str_less a b \<Longrightarrow> str_less b c \<Longrightarrow> str_less a c" "str_less a b \<or> a = b \<or> str_less b a"
proof -
  let ?r = "\<lambda>x y. (of_char x :: nat) < of_char y"
  have tot: "?r x y \<or> x = y \<or> ?r y x" for x y using of_char_eq_iff[of x y] by (metis linorder_neqE_nat)
  show "\<not> str_less a a" "str_less a b \<Longrightarrow> str_less b c \<Longrightarrow> str_less a c" "str_less a b \<or> a = b \<or> str_less b a"
    unfolding str_less_def using lexordp_strict[of ?r] tot by (blast intro: less_trans)+
qed

lemma sort_by_cong: "(\<And>a b. a \<in> set xs \<Longrightarrow> b \<in> set xs \<Longrightarrow> f a b = g a b) \<Longrightarrow> sort_by f xs = sort_by g xs"
proof (induction xs)
  case (Cons x xs)
  have "insert_by f x ys = insert_by g x ys" if "set ys \<subseteq> set xs" for ys
    using that Cons.prems by (induction ys) auto
  then show ?case using Cons by simp
qed simp

end
