(* ===== verification/Collector_Project.thy ===== *)
theory Collector_Project
  imports Rows "HOL-Library.Product_Lexorder"
begin

text \<open>
  Projections of a collector's window (\<open>collector/project.rs\<close>): self time by clipped interval union,
  percentiles, call paths, breakdowns by trace, name and group, and the profile that assembles them.
  A \<open>HashMap\<close> is an association list whose order stands for the unspecified iteration order.
  Sorting a slice in place is part of a function's result. The reason a figure is withheld is a
  constructor for its text.
\<close>

section \<open>Numbers\<close>

fun isqrt :: "nat \<Rightarrow> nat" where
  "isqrt n = (if n = 0 then 0 else let r = 2 * isqrt (n div 4) in if (r + 1) * (r + 1) \<le> n then r + 1 else r)"

declare isqrt.simps [simp del]

text \<open>\<open>f64::sqrt\<close>: correctly rounded. The root of a 53-bit number is never halfway between two others.\<close>

definition f64_sqrt :: "f64 \<Rightarrow> f64" where
  "f64_sqrt a =
     (case a of
        Fin x \<Rightarrow>
          if x < 0 then NaN
          else if x = 0 then Fin 0
          else let u = binexp x div 2 - 52; y = x / pow2i (2 * u); n = of_nat (isqrt (nat \<lfloor>y\<rfloor>)) :: rat
               in Fin ((if y < (n + 1 / 2) * (n + 1 / 2) then n else n + 1) * pow2i u)
      | PInf \<Rightarrow> PInf
      | _ \<Rightarrow> NaN)"

definition f64_of_int :: "int \<Rightarrow> f64" where
  "f64_of_int n = round_f64 (of_int n)"

definition ns_to_ms :: "int \<Rightarrow> f64" where
  "ns_to_ms ns = f64_div_const (f64_of_int ns) 1000000"

definition percentiles :: "f64 list" where
  "percentiles = map round_f64 [1 / 2, 4 / 5, 19 / 20, 99 / 100]"

definition max_inline_durations :: nat where "max_inline_durations = 50"
definition max_path_depth :: nat where "max_path_depth = 64"

definition quantile_index :: "nat \<Rightarrow> f64 \<Rightarrow> nat option" where
  "quantile_index n q =
     (if n = 0 then None
      else let rank = f64_add (Fin 1) (f64_mul q (f64_sub (f64_of_nat n) (Fin 1)));
               down = (case rank of Fin x \<Rightarrow> Fin (of_int \<lfloor>x\<rfloor>) | _ \<Rightarrow> rank);
               k = nat (f64_as_int 0 (2 ^ 64 - 1) down)
           in Some (min n (max 1 k) - 1))"

definition quantile_sorted :: "int list \<Rightarrow> f64 \<Rightarrow> int option" where
  "quantile_sorted xs q = map_option (\<lambda>i. xs ! i) (quantile_index (length xs) q)"

definition sample_stddev_ms :: "int list \<Rightarrow> f64 option" where
  "sample_stddev_ms durations =
     (if length durations < 2 then None
      else let n = f64_of_nat (length durations);
               sum = (\<lambda>xs. fold (\<lambda>x acc. f64_add acc x) xs (Fin 0));
               mean = f64_div (sum (map f64_of_int durations)) n;
               variance = f64_div (sum (map (\<lambda>d. let dev = f64_sub (f64_of_int d) mean in f64_mul dev dev) durations)) (f64_sub n (Fin 1))
           in Some (f64_div_const (f64_sqrt variance) 1000000))"

section \<open>Intervals\<close>

record interval =
  iv_start :: int
  iv_end :: int

definition interval_len :: "interval \<Rightarrow> int" where
  "interval_len iv = wrap_i64 (iv_end iv - iv_start iv)"

definition clip :: "interval \<Rightarrow> interval \<Rightarrow> interval option" where
  "clip iv bounds =
     (let start = max (iv_start iv) (iv_start bounds); stop = min (iv_end iv) (iv_end bounds)
      in if start < stop then Some \<lparr>iv_start = start, iv_end = stop\<rparr> else None)"

fun union_loop :: "int \<Rightarrow> int \<Rightarrow> int \<Rightarrow> (int \<times> int) list \<Rightarrow> int" where
  "union_loop acc cs ce [] = acc + wrap_i64 (ce - cs)"
| "union_loop acc cs ce ((s, e) # ivs) =
     (if s \<le> ce then union_loop acc cs (max ce e) ivs
      else union_loop (acc + wrap_i64 (ce - cs)) s e ivs)"

text \<open>The measure of the union, and the slice it leaves sorted.\<close>

definition union_len :: "(int \<times> int) list \<Rightarrow> int \<times> (int \<times> int) list" where
  "union_len ivs =
     (case sort ivs of
        [] \<Rightarrow> (0, ivs)
      | (cs, ce) # rest \<Rightarrow> (union_loop 0 cs ce rest, sort ivs))"

section \<open>Self time\<close>

text \<open>The columns a projection builds from the records past the warm-up cut.\<close>

type_synonym span_key = "u128 \<times> u64"

record columns =
  cl_durations :: "int list"
  cl_intervals :: "(int \<times> int) list"
  cl_by_id :: "(span_key \<times> nat) list"
  cl_parents :: "u64 list"
  cl_traces :: "u128 list"
  cl_names :: "u32 list"

definition past_cut :: "int option \<Rightarrow> sample_record \<Rightarrow> bool" where
  "past_cut cutoff r = (case cutoff of None \<Rightarrow> True | Some c \<Rightarrow> \<not> sr_start_ns r < c)"

definition add_record :: "sample_record \<Rightarrow> columns \<Rightarrow> columns" where
  "add_record r c =
     \<lparr>cl_durations = cl_durations c @ [wrap_i64 (sr_end_ns r - sr_start_ns r)],
      cl_intervals = cl_intervals c @ [(sr_start_ns r, sr_end_ns r)],
      cl_by_id = hm_insert (sr_trace_id r, sr_span_id r) (length (cl_durations c)) (cl_by_id c),
      cl_parents = cl_parents c @ [sr_parent_span_id r], cl_traces = cl_traces c @ [sr_trace_id r],
      cl_names = cl_names c @ [sr_name_id r]\<rparr>"

definition columns_of :: "int option \<Rightarrow> sample_record list \<Rightarrow> columns" where
  "columns_of cutoff rs =
     fold add_record (filter (past_cut cutoff) rs)
       \<lparr>cl_durations = [], cl_intervals = [], cl_by_id = [], cl_parents = [], cl_traces = [], cl_names = []\<rparr>"

record self_times =
  st_self_ns :: int
  st_nested_matches :: nat
  st_clipped_away_ns :: int
  st_clipped_spans :: nat

definition pair_interval :: "int \<times> int \<Rightarrow> interval" where
  "pair_interval p = \<lparr>iv_start = fst p, iv_end = snd p\<rparr>"

definition interval_pair :: "interval \<Rightarrow> int \<times> int" where
  "interval_pair iv = (iv_start iv, iv_end iv)"

text \<open>The parent of span \<open>i\<close>, when it is retained and neither its own nor a mutual parent.\<close>

definition matched_parent :: "columns \<Rightarrow> nat \<Rightarrow> nat option" where
  "matched_parent c i =
     (if cl_parents c ! i = 0 then None
      else case map_of (cl_by_id c) (cl_traces c ! i, cl_parents c ! i) of
             None \<Rightarrow> None
           | Some p \<Rightarrow>
               if p = i \<or> map_of (cl_by_id c) (cl_traces c ! p, cl_parents c ! p) = Some i then None else Some p)"

record self_state =
  ss_children :: "(nat \<times> interval list) list"
  ss_nested :: nat
  ss_clipped_ns :: int
  ss_clipped_spans :: nat

definition push_child :: "nat \<Rightarrow> interval \<Rightarrow> (nat \<times> interval list) list \<Rightarrow> (nat \<times> interval list) list" where
  "push_child p iv m = hm_insert p ((case map_of m p of None \<Rightarrow> [] | Some ivs \<Rightarrow> ivs) @ [iv]) m"

definition self_child :: "columns \<Rightarrow> nat \<Rightarrow> self_state \<Rightarrow> self_state" where
  "self_child c i st =
     (case matched_parent c i of
        None \<Rightarrow> st
      | Some p \<Rightarrow>
          let st1 = st\<lparr>ss_nested := ss_nested st + 1\<rparr>;
              child = pair_interval (cl_intervals c ! i); bounds = pair_interval (cl_intervals c ! p)
          in case clip child bounds of
               Some part \<Rightarrow>
                 let lost = interval_len child - interval_len part;
                     st2 = (if 0 < lost
                            then st1\<lparr>ss_clipped_ns := ss_clipped_ns st1 + lost, ss_clipped_spans := ss_clipped_spans st1 + 1\<rparr> else st1)
                 in st2\<lparr>ss_children := push_child p part (ss_children st2)\<rparr>
             | None \<Rightarrow>
                 st1\<lparr>ss_clipped_ns := ss_clipped_ns st1 + interval_len child, ss_clipped_spans := ss_clipped_spans st1 + 1\<rparr>)"

definition children_covered :: "(nat \<times> interval list) list \<Rightarrow> nat \<Rightarrow> int" where
  "children_covered m i = (case map_of m i of None \<Rightarrow> 0 | Some ivs \<Rightarrow> fst (union_len (map interval_pair ivs)))"

definition self_ns_of :: "int list \<Rightarrow> (nat \<times> interval list) list \<Rightarrow> nat \<Rightarrow> int" where
  "self_ns_of durations m i = max (durations ! i - children_covered m i) 0"

definition self_time :: "columns \<Rightarrow> self_times" where
  "self_time c =
     (let st = fold (self_child c) [0..<length (cl_parents c)]
                 \<lparr>ss_children = [], ss_nested = 0, ss_clipped_ns = 0, ss_clipped_spans = 0\<rparr>
      in \<lparr>st_self_ns = sum_list (map (self_ns_of (cl_durations c) (ss_children st)) [0..<length (cl_durations c)]),
          st_nested_matches = ss_nested st, st_clipped_away_ns = ss_clipped_ns st, st_clipped_spans = ss_clipped_spans st\<rparr>)"

section \<open>The sampled figures\<close>

datatype withheld =
    WExcludedByWarmup bool
  | WExactUnwindowed
  | WEstimatedUnwindowed
  | WNoSamples retention
  | WDurationsIncomplete
  | WDurationsCapped nat
  | WSelfNoParents
  | WSelfNotNested
  | WIngestGone
  | WIngestNoWindow
  | WGroupsNeedTree string retention
  | WGroupsNoKeys
  | WGroupsUnwindowed string bool

record profile_sampled =
  ps_complete :: bool
  ps_sample_count :: nat
  ps_stddev_ms :: "f64 option"
  ps_durations_ms :: "f64 list option"
  ps_self_ms :: "f64 option"
  ps_nested_matches :: nat
  ps_overlapping_child_ms :: f64
  ps_overlapping_child_spans :: nat
  ps_wall_union_ms :: "f64 option"
  ps_achieved_concurrency :: "f64 option"
  ps_p50_ms :: "f64 option"
  ps_p80_ms :: "f64 option"
  ps_p95_ms :: "f64 option"
  ps_p99_ms :: "f64 option"

definition percentile_ms :: "int list \<Rightarrow> nat \<Rightarrow> f64 option" where
  "percentile_ms ordered k = map_option (\<lambda>ns. f64_div_const (f64_of_int ns) 1000000) (quantile_sorted ordered (percentiles ! k))"

text \<open>
  \<open>union_len\<close> sorts the intervals in place, and the self time is then computed over the sorted slice
  beside the columns in the order of ingestion.
\<close>

definition sampled_view :: "sample_tier \<Rightarrow> int option \<Rightarrow> bool \<Rightarrow> profile_sampled \<times> withheld list" where
  "sampled_view samples cutoff tree =
     (let c = columns_of cutoff (tier_records samples); durations = cl_durations c; count = length durations;
          total_ns = sum_list durations; (wall_union_ns, intervals) = union_len (cl_intervals c);
          c1 = c\<lparr>cl_intervals := intervals\<rparr>; ordered = sort durations;
          (durations_ms, w1) =
            (if \<not> tr_complete samples then (None, [WDurationsIncomplete])
             else if max_inline_durations < count then (None, [WDurationsCapped count])
             else (Some (map ns_to_ms durations), []));
          out = \<lparr>ps_complete = tr_complete samples, ps_sample_count = count, ps_stddev_ms = sample_stddev_ms durations,
                 ps_durations_ms = durations_ms, ps_self_ms = None, ps_nested_matches = 0, ps_overlapping_child_ms = Fin 0,
                 ps_overlapping_child_spans = 0,
                 ps_wall_union_ms = (if 0 < count then Some (ns_to_ms wall_union_ns) else None),
                 ps_achieved_concurrency =
                   (if 0 < wall_union_ns then Some (f64_div (f64_of_int total_ns) (f64_of_int wall_union_ns)) else None),
                 ps_p50_ms = percentile_ms ordered 0, ps_p80_ms = percentile_ms ordered 1, ps_p95_ms = percentile_ms ordered 2,
                 ps_p99_ms = percentile_ms ordered 3\<rparr>
      in if \<not> tree then (out, w1 @ [WSelfNoParents])
         else let st = self_time c1;
                  out1 = out\<lparr>ps_nested_matches := st_nested_matches st, ps_overlapping_child_ms := ns_to_ms (st_clipped_away_ns st),
                             ps_overlapping_child_spans := st_clipped_spans st\<rparr>
              in if st_nested_matches st = 0 then (out1, w1 @ [WSelfNotNested])
                 else (out1\<lparr>ps_self_ms := Some (ns_to_ms (st_self_ns st))\<rparr>, w1))"

definition warmup_cutoff_ns :: "sample_tier \<Rightarrow> f64 \<Rightarrow> int option" where
  "warmup_cutoff_ns samples ms =
     (case map sr_start_ns (tier_records samples) of
        [] \<Rightarrow> None
      | s # ss \<Rightarrow>
          let offset = f64_as_int i64_min i64_max (f64_min (f64_mul ms (Fin 1000000)) (f64_of_int i64_max))
          in Some (max i64_min (min i64_max (fold min ss s + offset))))"

section \<open>Call paths\<close>

text \<open>Frames from the span up, with the spans visited; the depth cap bounds the loop.\<close>

function walk_loop :: "columns \<Rightarrow> interner \<Rightarrow> nat \<Rightarrow> nat list \<Rightarrow> string list \<Rightarrow> string list \<times> bool" where
  "walk_loop c names cur visited chain =
     (if cl_parents c ! cur = 0 then (chain, False)
      else case map_of (cl_by_id c) (cl_traces c ! cur, cl_parents c ! cur) of
             None \<Rightarrow> (chain, True)
           | Some p \<Rightarrow>
               if p \<in> set visited \<or> max_path_depth \<le> length visited then (chain, True)
               else walk_loop c names p (visited @ [p]) (chain @ [resolve (cl_names c ! p) names]))"
  by auto
termination
  by (relation "measure (\<lambda>(c, names, cur, visited, chain). max_path_depth - length visited)") auto

declare walk_loop.simps [simp del]

definition walk_path :: "columns \<Rightarrow> interner \<Rightarrow> nat \<Rightarrow> string list \<times> bool" where
  "walk_path c names start =
     (case walk_loop c names start [start] [resolve (cl_names c ! start) names] of (chain, incomplete) \<Rightarrow> (rev chain, incomplete))"

record path_aggregate =
  pa_frames :: "string list"
  pa_self_ns :: int
  pa_count :: nat
  pa_incomplete :: bool

text \<open>The parent of a span for its path's self time: only a span that is its own parent is left out.\<close>

definition path_parent :: "columns \<Rightarrow> nat \<Rightarrow> nat option" where
  "path_parent c i =
     (if cl_parents c ! i = 0 then None
      else case map_of (cl_by_id c) (cl_traces c ! i, cl_parents c ! i) of
             None \<Rightarrow> None
           | Some p \<Rightarrow> if p = i then None else Some p)"

definition path_child :: "columns \<Rightarrow> nat \<Rightarrow> (nat \<times> interval list) list \<Rightarrow> (nat \<times> interval list) list" where
  "path_child c i m =
     (case path_parent c i of
        None \<Rightarrow> m
      | Some p \<Rightarrow>
          (case clip (pair_interval (cl_intervals c ! i)) (pair_interval (cl_intervals c ! p)) of
             None \<Rightarrow> m
           | Some part \<Rightarrow> push_child p part m))"

definition path_children :: "columns \<Rightarrow> (nat \<times> interval list) list" where
  "path_children c = fold (path_child c) [0..<length (cl_parents c)] []"

definition path_row :: "columns \<Rightarrow> interner \<Rightarrow> nat \<Rightarrow> ((string list \<times> bool) \<times> int \<times> nat) list \<Rightarrow> ((string list \<times> bool) \<times> int \<times> nat) list" where
  "path_row c names i rows =
     (let key = walk_path c names i; (ns, n) = (case map_of rows key of None \<Rightarrow> (0, 0) | Some r \<Rightarrow> r)
      in hm_insert key (ns + self_ns_of (cl_durations c) (path_children c) i, n + 1) rows)"

text \<open>Lists of strings and \<open>bool\<close> compare as Rust orders them.\<close>

definition path_before :: "path_aggregate \<Rightarrow> path_aggregate \<Rightarrow> bool" where
  "path_before a b =
     (pa_self_ns b < pa_self_ns a
      \<or> pa_self_ns a = pa_self_ns b
          \<and> (lexordp str_less (pa_frames a) (pa_frames b)
             \<or> pa_frames a = pa_frames b \<and> \<not> pa_incomplete a \<and> pa_incomplete b))"

definition path_aggregates :: "'s collector_inner \<Rightarrow> int option \<Rightarrow> path_aggregate list" where
  "path_aggregates snap cutoff =
     (let c = columns_of cutoff (tier_records (ci_samples snap));
          rows = fold (path_row c (ci_names snap)) [0..<length (cl_durations c)] []
      in sort_by path_before
           (map (\<lambda>((frames, incomplete), ns, n). \<lparr>pa_frames = frames, pa_self_ns = ns, pa_count = n, pa_incomplete = incomplete\<rparr>) rows))"

definition aggregate_path :: "path_aggregate \<Rightarrow> string" where
  "aggregate_path p = (let joined = join_with '' > '' (pa_frames p) in if pa_incomplete p then ''[?] > '' @ joined else joined)"

section \<open>Breakdowns\<close>

record profile_exact =
  px_count :: nat
  px_total_ms :: f64
  px_avg_ms :: "f64 option"
  px_min_ms :: "f64 option"
  px_max_ms :: "f64 option"
  px_error_count :: nat
  px_out_of_range_spans :: nat

definition exact_view :: "'s exact_stats \<Rightarrow> profile_exact" where
  "exact_view e =
     \<lparr>px_count = xs_count e, px_total_ms = ns_to_ms (xs_total_ns e),
      px_avg_ms = map_option (\<lambda>ns. f64_div_const ns 1000000) (avg_ns e),
      px_min_ms = map_option ns_to_ms (xs_min_ns e), px_max_ms = map_option ns_to_ms (xs_max_ns e),
      px_error_count = xs_error_count e, px_out_of_range_spans = xs_out_of_range e\<rparr>"

record profile_estimated =
  pe_axis :: string
  pe_alpha_pct :: f64
  pe_p50_ms :: "f64 option"
  pe_p80_ms :: "f64 option"
  pe_p95_ms :: "f64 option"
  pe_p99_ms :: "f64 option"

text \<open>\<open>quantile\<close> is the crate's.\<close>

definition estimated_view :: "('s \<Rightarrow> f64 \<Rightarrow> f64 option) \<Rightarrow> 's exact_stats \<Rightarrow> string \<Rightarrow> profile_estimated" where
  "estimated_view quantile e axis =
     (let q = (\<lambda>k. map_option (\<lambda>ns. f64_div_const ns 1000000) (quantile (dsk_inner (xs_sketch e)) (percentiles ! k)))
      in \<lparr>pe_axis = axis, pe_alpha_pct = f64_mul (round_f64 (1 / 100)) (Fin 100), pe_p50_ms = q 0, pe_p80_ms = q 1,
          pe_p95_ms = q 2, pe_p99_ms = q 3\<rparr>)"

record profile_group =
  pg_key :: string
  pg_exact :: "profile_exact option"
  pg_estimated :: "profile_estimated option"
  pg_sampled :: "profile_sampled option"
  pg_path_incomplete :: bool

text \<open>\<open>f64::total_cmp\<close>: less.\<close>

definition total_less :: "f64 \<Rightarrow> f64 \<Rightarrow> bool" where
  "total_less a b = (if is_nan a then False else if is_nan b then True else f64_lt a b)"

definition group_total :: "profile_group \<Rightarrow> f64" where
  "group_total g = (case pg_exact g of None \<Rightarrow> Fin 0 | Some e \<Rightarrow> px_total_ms e)"

definition group_before :: "profile_group \<Rightarrow> profile_group \<Rightarrow> bool" where
  "group_before a b =
     (total_less (group_total b) (group_total a)
      \<or> \<not> total_less (group_total a) (group_total b) \<and> str_less (pg_key a) (pg_key b))"

definition rank_and_truncate :: "profile_group list \<Rightarrow> nat \<Rightarrow> profile_group list \<times> nat" where
  "rank_and_truncate v top_n = (take top_n (sort_by group_before v), length v)"

definition exact_rows ::
  "('s \<Rightarrow> f64 \<Rightarrow> f64 option) \<Rightarrow> (string \<times> 's exact_stats) list \<Rightarrow> string \<Rightarrow> nat \<Rightarrow> profile_group list \<times> nat" where
  "exact_rows quantile rows axis top_n =
     rank_and_truncate
       (map (\<lambda>(key, e). \<lparr>pg_key = key, pg_exact = Some (exact_view e), pg_estimated = Some (estimated_view quantile e axis),
                         pg_sampled = None, pg_path_incomplete = False\<rparr>) rows) top_n"

definition group_label :: "interner list \<Rightarrow> u32 list \<Rightarrow> string" where
  "group_label interners ids =
     (if length ids = 1
      then (case interners of [] \<Rightarrow> overflow_label | t # _ \<Rightarrow> resolve (hd ids) t)
      else join_with '' / ''
             (map (\<lambda>(i, k). if i < length interners then resolve k (interners ! i) else overflow_label) (enumerate 0 ids)))"

text \<open>Durations and intervals of each trace.\<close>

definition push_trace :: "sample_record \<Rightarrow> (u128 \<times> int list \<times> (int \<times> int) list) list \<Rightarrow> (u128 \<times> int list \<times> (int \<times> int) list) list" where
  "push_trace r m =
     (let (ds, ivs) = (case map_of m (sr_trace_id r) of None \<Rightarrow> ([], []) | Some x \<Rightarrow> x)
      in hm_insert (sr_trace_id r)
           (ds @ [wrap_i64 (sr_end_ns r - sr_start_ns r)], ivs @ [(sr_start_ns r, sr_end_ns r)]) m)"

definition trace_row :: "bool \<Rightarrow> u128 \<times> int list \<times> (int \<times> int) list \<Rightarrow> profile_group" where
  "trace_row whole t =
     (case t of (trace, ds, ivs) \<Rightarrow>
        let durations = sort ds; total = sum_list durations; union = fst (union_len ivs)
        in \<lparr>pg_key = hex32 trace, pg_exact = None, pg_estimated = None,
            pg_sampled = Some \<lparr>ps_complete = whole, ps_sample_count = length durations, ps_stddev_ms = sample_stddev_ms durations,
              ps_durations_ms = None, ps_self_ms = None, ps_nested_matches = 0, ps_overlapping_child_ms = Fin 0,
              ps_overlapping_child_spans = 0, ps_wall_union_ms = Some (ns_to_ms union),
              ps_achieved_concurrency = (if 0 < union then Some (f64_div (f64_of_int total) (f64_of_int union)) else None),
              ps_p50_ms = percentile_ms durations 0, ps_p80_ms = percentile_ms durations 1, ps_p95_ms = percentile_ms durations 2,
              ps_p99_ms = percentile_ms durations 3\<rparr>,
            pg_path_incomplete = False\<rparr>)"

definition trace_rows :: "sample_tier \<Rightarrow> int option \<Rightarrow> nat \<Rightarrow> profile_group list \<times> nat" where
  "trace_rows samples cutoff top_n =
     rank_and_truncate (map (trace_row (tr_complete samples)) (fold push_trace (filter (past_cut cutoff) (tier_records samples)) [])) top_n"

definition path_group :: "bool \<Rightarrow> path_aggregate \<Rightarrow> profile_group" where
  "path_group whole p =
     \<lparr>pg_key = aggregate_path p, pg_exact = None, pg_estimated = None,
      pg_sampled = Some \<lparr>ps_complete = whole, ps_sample_count = pa_count p, ps_stddev_ms = None, ps_durations_ms = None,
        ps_self_ms = Some (ns_to_ms (pa_self_ns p)), ps_nested_matches = 0, ps_overlapping_child_ms = Fin 0, ps_overlapping_child_spans = 0,
        ps_wall_union_ms = None, ps_achieved_concurrency = None, ps_p50_ms = None, ps_p80_ms = None, ps_p95_ms = None, ps_p99_ms = None\<rparr>,
      pg_path_incomplete = pa_incomplete p\<rparr>"

definition path_rows :: "'s collector_inner \<Rightarrow> int option \<Rightarrow> nat \<Rightarrow> profile_group list \<times> nat" where
  "path_rows snap cutoff top_n =
     (let all = path_aggregates snap cutoff
      in (map (path_group (tr_complete (ci_samples snap))) (take top_n all), length all))"

definition snapshot_path_rows :: nat where "snapshot_path_rows = 200"
definition snapshot_path_bytes :: nat where "snapshot_path_bytes = 65536"

record stored_path =
  pr_frames :: "string list"
  pr_self_ms :: f64
  pr_count :: nat
  pr_incomplete :: bool

definition path_bytes :: "path_aggregate \<Rightarrow> nat" where
  "path_bytes p = sum_list (map length (pa_frames p))"

fun keep_paths :: "nat \<Rightarrow> path_aggregate list \<Rightarrow> path_aggregate list \<Rightarrow> path_aggregate list" where
  "keep_paths bytes out [] = out"
| "keep_paths bytes out (p # ps) =
     (let b = bytes + path_bytes p
      in if snapshot_path_bytes < b \<and> out \<noteq> [] then out else keep_paths b (out @ [p]) ps)"

definition project_paths :: "collector_def \<Rightarrow> 's collector_inner \<Rightarrow> stored_path list \<times> bool" where
  "project_paths d snap =
     (if \<not> has_tree (cd_level d) then ([], False)
      else let all = path_aggregates snap None; kept = keep_paths 0 [] (take snapshot_path_rows all)
           in (map (\<lambda>p. \<lparr>pr_frames = pa_frames p, pr_self_ms = ns_to_ms (pa_self_ns p), pr_count = pa_count p,
                         pr_incomplete = pa_incomplete p\<rparr>) kept,
               length kept < length all))"

definition project_samples :: "collector_def \<Rightarrow> 's collector_inner \<Rightarrow> profile_sampled option" where
  "project_samples d snap =
     (if \<not> has_samples (cd_level d) then None
      else Some (fst (sampled_view (ci_samples snap) None (has_tree (cd_level d)))))"

record projected =
  pj_sampled :: "profile_sampled option"
  pj_paths :: "stored_path list"
  pj_paths_truncated :: bool

definition projected_default :: projected where
  "projected_default = \<lparr>pj_sampled = None, pj_paths = [], pj_paths_truncated = False\<rparr>"

definition project_for_snapshot :: "collector_def \<Rightarrow> 's collector_inner \<Rightarrow> projected" where
  "project_for_snapshot d snap =
     (case project_paths d snap of
        (paths, truncated) \<Rightarrow> \<lparr>pj_sampled = project_samples d snap, pj_paths = paths, pj_paths_truncated = truncated\<rparr>)"

section \<open>The profile\<close>

datatype group_by = GNone | GName | GGroup | GTrace | GPath

definition group_by_as_str :: "group_by \<Rightarrow> string" where
  "group_by_as_str g = (case g of GNone \<Rightarrow> ''none'' | GName \<Rightarrow> ''name'' | GGroup \<Rightarrow> ''group'' | GTrace \<Rightarrow> ''trace'' | GPath \<Rightarrow> ''path'')"

definition group_by_parse :: "string \<Rightarrow> group_by option" where
  "group_by_parse s =
     (if s = ''none'' \<or> s = '''' then Some GNone else if s = ''name'' then Some GName else if s = ''group'' then Some GGroup
      else if s = ''trace'' then Some GTrace else if s = ''path'' then Some GPath else None)"

definition is_sample_derived :: "group_by \<Rightarrow> bool" where
  "is_sample_derived g = (g = GTrace \<or> g = GPath)"

record profile_options =
  op_group_by :: group_by
  op_skip_warmup_ms :: "f64 option"
  op_top_n :: nat

definition profile_options_default :: profile_options where
  "profile_options_default = \<lparr>op_group_by = GNone, op_skip_warmup_ms = None, op_top_n = 20\<rparr>"

datatype ingest_basis = SameCounters trace_ingest_loss trace_ingest_loss | BasisUnavailable | NoWindow

record profile_window =
  pw_armed_at :: "int option"
  pw_zeroed_at :: "int option"
  pw_read_at :: "int option"
  pw_wall_ms :: f64

definition window_view :: "'s collector_inner \<Rightarrow> int \<Rightarrow> profile_window" where
  "window_view snap read_at =
     \<lparr>pw_armed_at = Some (ci_armed_at snap), pw_zeroed_at = ci_zeroed_at snap, pw_read_at = Some read_at,
      pw_wall_ms = wall_ms_of read_at (window_start snap)\<rparr>"

record profile_ingest =
  pi_drops_in_window :: u64
  pi_shed_batches :: u64
  pi_malformed_dropped :: u64
  pi_malformed_timestamps :: nat
  pi_negative_duration_spans :: nat
  pi_attribution :: string

definition ingest_view :: "'s collector_inner \<Rightarrow> ingest_basis \<Rightarrow> profile_ingest option \<times> withheld list" where
  "ingest_view snap basis =
     (case basis of
        BasisUnavailable \<Rightarrow> (None, [WIngestGone])
      | NoWindow \<Rightarrow> (None, [WIngestNoWindow])
      | SameCounters baseline current \<Rightarrow>
          let d = loss_since current baseline
          in (Some \<lparr>pi_drops_in_window = tl_dropped d, pi_shed_batches = tl_shed_batches d, pi_malformed_dropped = tl_malformed d,
                    pi_malformed_timestamps = xs_malformed (ci_total snap), pi_negative_duration_spans = xs_negative (ci_total snap),
                    pi_attribution = ''domain''\<rparr>, []))"

definition group_rows ::
  "('s \<Rightarrow> f64 \<Rightarrow> f64 option) \<Rightarrow> collector_def \<Rightarrow> 's collector_inner \<Rightarrow> profile_options \<Rightarrow> int option
     \<Rightarrow> (profile_group list \<times> nat option) \<times> withheld list" where
  "group_rows quantile d snap opts cutoff =
     (let g = op_group_by opts; level = cd_level d;
          withhold = (\<lambda>rows_total. if cutoff \<noteq> None \<and> (g = GName \<or> g = GGroup)
                        then (([], None), [WGroupsUnwindowed (group_by_as_str g) (has_tree level)])
                        else ((fst rows_total, Some (snd rows_total)), []))
      in if is_sample_derived g \<and> \<not> has_tree level then (([], None), [WGroupsNeedTree (group_by_as_str g) level])
         else case g of
                GNone \<Rightarrow> (([], None), [])
              | GName \<Rightarrow> withhold (exact_rows quantile (map (\<lambda>(k, e). (resolve k (ci_names snap), e)) (ci_per_name snap)) ''name'' (op_top_n opts))
              | GGroup \<Rightarrow>
                  if cd_group_keys d = [] then (([], None), [WGroupsNoKeys])
                  else withhold (exact_rows quantile (map (\<lambda>(ids, e). (group_label (ci_group_values snap) ids, e)) (ci_per_group snap))
                         ''group'' (op_top_n opts))
              | GTrace \<Rightarrow> withhold (trace_rows (ci_samples snap) cutoff (op_top_n opts))
              | GPath \<Rightarrow> withhold (path_rows snap cutoff (op_top_n opts)))"

record profile_result =
  rp_collector :: string
  rp_description :: "string option"
  rp_filter :: string
  rp_level :: string
  rp_matched :: nat
  rp_nesting :: string
  rp_window :: profile_window
  rp_ingest :: "profile_ingest option"
  rp_exact :: "profile_exact option"
  rp_estimated :: "profile_estimated option"
  rp_sampled :: "profile_sampled option"
  rp_grouped_by :: "string option"
  rp_groups :: "profile_group list"
  rp_groups_total :: "nat option"
  rp_excluded_by_warmup :: "nat option"
  rp_cardinality_capped :: bool
  rp_suppressed :: "withheld list"

definition profile ::
  "('s \<Rightarrow> f64 \<Rightarrow> f64 option) \<Rightarrow> collector_def \<Rightarrow> 's collector_inner \<Rightarrow> ingest_basis \<Rightarrow> profile_options \<Rightarrow> int \<Rightarrow> profile_result" where
  "profile quantile d snap basis opts read_at =
     (let level = cd_level d;
          warmup = (case op_skip_warmup_ms opts of None \<Rightarrow> None | Some ms \<Rightarrow> if f64_lt (Fin 0) ms then Some ms else None);
          cutoff = (case warmup of None \<Rightarrow> None | Some ms \<Rightarrow> warmup_cutoff_ns (ci_samples snap) ms);
          excluded = map_option (\<lambda>c. length (filter (\<lambda>r. sr_start_ns r < c) (tier_records (ci_samples snap)))) cutoff;
          w1 = (if warmup \<noteq> None \<and> cutoff = None then [WExcludedByWarmup (has_samples level)] else []);
          exact = (if warmup \<noteq> None then None else Some (exact_view (ci_total snap)));
          w2 = (if warmup \<noteq> None then [WExactUnwindowed] else []);
          estimated = (if warmup \<noteq> None then None else Some (estimated_view quantile (ci_total snap) ''collector''));
          w3 = (if warmup \<noteq> None then [WEstimatedUnwindowed] else []);
          (sampled, w4) = (if has_samples level
                           then (case sampled_view (ci_samples snap) cutoff (has_tree level) of (s, w) \<Rightarrow> (Some s, w))
                           else (None, [WNoSamples level]));
          nesting = (if \<not> has_tree level then ''unknown''
                     else if (case sampled of None \<Rightarrow> False | Some s \<Rightarrow> 0 < ps_nested_matches s) then ''detected'' else ''undetected'');
          ((groups, groups_total), w5) = (if op_group_by opts = GNone then (([], None), []) else group_rows quantile d snap opts cutoff);
          (ingest, w6) = ingest_view snap basis
      in \<lparr>rp_collector = cd_name d, rp_description = cd_description d, rp_filter = cd_filter_string d, rp_level = level_as_str level,
          rp_matched = xs_count (ci_total snap), rp_nesting = nesting, rp_window = window_view snap read_at, rp_ingest = ingest,
          rp_exact = exact, rp_estimated = estimated, rp_sampled = sampled,
          rp_grouped_by = (if op_group_by opts = GNone then None else Some (group_by_as_str (op_group_by opts))),
          rp_groups = groups, rp_groups_total = groups_total, rp_excluded_by_warmup = excluded,
          rp_cardinality_capped = cardinality_capped snap, rp_suppressed = w1 @ w2 @ w3 @ w4 @ w5 @ w6\<rparr>)"

end
