(* ===== verification/Collector_Project_Props.thy ===== *)
theory Collector_Project_Props
  imports Collector_Project Collector_Props
begin

text \<open>
  What the projections compute. Instants are integers, so the measure of a union of intervals is the
  number of instants in it: self time counts the instants of a span outside its matched children, and
  paths share it out without loss. The two ways the code finds a span's children are one interface,
  the locale \<open>parent_choice\<close>.
\<close>

section \<open>Unions of intervals\<close>

definition instants :: "int \<times> int \<Rightarrow> int set" where
  "instants p = {fst p..<snd p}"

definition sane :: "int \<times> int \<Rightarrow> bool" where
  "sane p \<longleftrightarrow> 0 \<le> fst p \<and> fst p \<le> snd p \<and> snd p \<le> i64_max"

lemma wrap_i64_id: "i64_min \<le> x \<Longrightarrow> x \<le> i64_max \<Longrightarrow> wrap_i64 x = x"
  by (simp add: wrap_i64_def i64_min_def i64_max_def)

lemma wrap_length: "sane (s, e) \<Longrightarrow> wrap_i64 (e - s) = int (card {s..<e})"
  by (simp add: sane_def wrap_i64_id i64_min_def i64_max_def)

lemma union_loop_card:
  assumes "sorted (map fst ivs)" and "\<forall>p \<in> set ivs. cs \<le> fst p \<and> sane p" and "sane (cs, ce)"
  shows "union_loop acc cs ce ivs = acc + int (card ({cs..<ce} \<union> (\<Union>p \<in> set ivs. instants p)))"
  using assms
proof (induction ivs arbitrary: acc cs ce)
  case Nil
  then show ?case by (simp add: wrap_length)
next
  case (Cons p ivs)
  obtain s e where p: "p = (s, e)" by fastforce
  have se: "cs \<le> s" "sane (s, e)" "sane (cs, ce)" "sorted (map fst ivs)" "\<forall>q \<in> set ivs. s \<le> fst q \<and> cs \<le> fst q \<and> sane q"
    using Cons.prems p by auto
  let ?R = "\<Union>q \<in> set ivs. instants q"
  show ?case
  proof (cases "s \<le> ce")
    case True
    have "sane (cs, max ce e)" using se(2,3) by (auto simp: sane_def)
    moreover have "{cs..<max ce e} = {cs..<ce} \<union> {s..<e}" using True se(1-3) by (auto simp: sane_def)
    ultimately show ?thesis using Cons.IH[of cs "max ce e" acc] se True by (simp add: p instants_def Un_assoc)
  next
    case False
    have "finite ({s..<e} \<union> ?R)" by (simp add: instants_def)
    moreover have "{cs..<ce} \<inter> ({s..<e} \<union> ?R) = {}" using False se(5) by (fastforce simp: instants_def)
    ultimately have "card ({cs..<ce} \<union> ({s..<e} \<union> ?R)) = card {cs..<ce} + card ({s..<e} \<union> ?R)"
      by (intro card_Un_disjoint) simp_all
    then show ?thesis
      using Cons.IH[of s e "acc + wrap_i64 (ce - cs)"] se False wrap_length[OF se(3)] by (simp add: p instants_def)
  qed
qed

lemma union_len_card:
  assumes "\<forall>p \<in> set ivs. sane p"
  shows "fst (union_len ivs) = int (card (\<Union>p \<in> set ivs. instants p))"
proof (cases "sort ivs")
  case Nil
  then have "ivs = []" using set_sort[of "\<lambda>x. x" ivs] by (metis set_empty)
  then show ?thesis by (simp add: union_len_def)
next
  case (Cons q rest)
  obtain cs ce where q: "q = (cs, ce)" by fastforce
  have sorted: "sorted (q # rest)" using sorted_sort[of ivs] Cons by simp
  then have "sorted_wrt (\<le>) rest" by simp
  then have "sorted_wrt (\<lambda>x y. fst x \<le> fst y) rest"
    by (rule sorted_wrt_mono_rel[rotated]) (auto simp: less_eq_prod_def)
  then have fsts: "sorted (map fst rest)" "\<forall>p \<in> set rest. cs \<le> fst p"
    using sorted by (auto simp: sorted_map q less_eq_prod_def)
  have set: "set ivs = insert q (set rest)" using set_sort[of "\<lambda>x. x" ivs] Cons by simp
  then have "union_loop 0 cs ce rest = 0 + int (card ({cs..<ce} \<union> (\<Union>p \<in> set rest. instants p)))"
    using fsts assms q by (intro union_loop_card) auto
  then show ?thesis using Cons set by (simp add: union_len_def q instants_def)
qed

text \<open>
  Overlap is counted once. For spans within the range of a 64-bit clock, the length of a set of
  intervals as the profile measures it is the number of nanoseconds at least one of them covers,
  whatever their order and however they overlap.
\<close>

theorem union_len_measures:
  assumes "\<forall>p \<in> set ivs. sane p"
  shows "fst (union_len ivs) = int (card {t. \<exists>s e. (s, e) \<in> set ivs \<and> s \<le> t \<and> t < e})"
proof -
  have "(\<Union>p \<in> set ivs. instants p) = {t. \<exists>s e. (s, e) \<in> set ivs \<and> s \<le> t \<and> t < e}" by (force simp: instants_def)
  then show ?thesis using union_len_card[OF assms] by simp
qed

theorem union_len_measures_witness:
  "fst (union_len [(50, 90), (0, 60), (100, 110)]) = int (card {t. \<exists>s e. (s, e) \<in> set [(50, 90), (0, 60), (100, 110)] \<and> s \<le> t \<and> t < (e :: int)})"
  using union_len_measures[of "[(50, 90), (0, 60), (100, 110)]"] by (simp add: sane_def i64_max_def)

section \<open>Columns\<close>

abbreviation record_interval :: "sample_record \<Rightarrow> int \<times> int" where
  "record_interval r \<equiv> (sr_start_ns r, sr_end_ns r)"

abbreviation kept_records :: "int option \<Rightarrow> sample_record list \<Rightarrow> sample_record list" where
  "kept_records cutoff rs \<equiv> filter (past_cut cutoff) rs"

lemma columns_fields:
  "cl_durations (columns_of cutoff rs) = map (\<lambda>r. wrap_i64 (sr_end_ns r - sr_start_ns r)) (kept_records cutoff rs)
   \<and> cl_intervals (columns_of cutoff rs) = map record_interval (kept_records cutoff rs)
   \<and> cl_parents (columns_of cutoff rs) = map sr_parent_span_id (kept_records cutoff rs)
   \<and> cl_traces (columns_of cutoff rs) = map sr_trace_id (kept_records cutoff rs)
   \<and> cl_names (columns_of cutoff rs) = map sr_name_id (kept_records cutoff rs)
   \<and> (\<forall>k p. map_of (cl_by_id (columns_of cutoff rs)) k = Some p \<longrightarrow> p < length (kept_records cutoff rs))"
proof (induction rs rule: rev_induct)
  case (snoc r rs)
  show ?case
  proof (cases "past_cut cutoff r")
    case True
    have "columns_of cutoff (rs @ [r]) = add_record r (columns_of cutoff rs)" using True by (simp add: columns_of_def)
    then show ?thesis using snoc True by (auto simp: add_record_def map_of_hm_insert less_Suc_eq split: if_splits)
  next
    case False
    then show ?thesis using snoc by (simp add: columns_of_def)
  qed
qed (simp add: columns_of_def)

lemma columns_lengths [simp]:
  "length (cl_durations (columns_of cutoff rs)) = length (kept_records cutoff rs)"
  "length (cl_intervals (columns_of cutoff rs)) = length (kept_records cutoff rs)"
  "length (cl_parents (columns_of cutoff rs)) = length (kept_records cutoff rs)"
  using columns_fields[of cutoff rs] by simp_all

text \<open>The instants of span \<open>i\<close>.\<close>

definition own :: "columns \<Rightarrow> nat \<Rightarrow> int set" where
  "own c i = instants (cl_intervals c ! i)"

definition all_sane :: "columns \<Rightarrow> bool" where
  "all_sane c \<longleftrightarrow>
     length (cl_durations c) = length (cl_intervals c) \<and> length (cl_parents c) = length (cl_intervals c)
     \<and> (\<forall>i < length (cl_intervals c). sane (cl_intervals c ! i) \<and> cl_durations c ! i = int (card (own c i)))
     \<and> (\<forall>k p. map_of (cl_by_id c) k = Some p \<longrightarrow> p < length (cl_intervals c))"

lemma columns_nth:
  assumes "i < length (kept_records cutoff rs)"
  shows "cl_intervals (columns_of cutoff rs) ! i = record_interval (kept_records cutoff rs ! i)"
    and "cl_durations (columns_of cutoff rs) ! i = wrap_i64 (sr_end_ns (kept_records cutoff rs ! i) - sr_start_ns (kept_records cutoff rs ! i))"
  using columns_fields[of cutoff rs] nth_map[OF assms] by simp_all

lemma columns_sane:
  assumes "\<forall>r \<in> set (kept_records cutoff rs). sane (record_interval r)"
  shows "all_sane (columns_of cutoff rs)"
proof -
  let ?c = "columns_of cutoff rs"
  have "sane (cl_intervals ?c ! i) \<and> cl_durations ?c ! i = int (card (own ?c i))" if i: "i < length (kept_records cutoff rs)" for i
  proof -
    have "sane (record_interval (kept_records cutoff rs ! i))" using assms nth_mem[OF i] by (rule bspec)
    then show ?thesis using wrap_length by (simp only: own_def columns_nth[OF i] instants_def fst_conv snd_conv)
  qed
  moreover have "\<forall>k p. map_of (cl_by_id ?c) k = Some p \<longrightarrow> p < length (kept_records cutoff rs)"
    using columns_fields[of cutoff rs] by (elim conjE)
  ultimately show ?thesis unfolding all_sane_def columns_lengths by blast
qed

lemma clip_instants:
  "sane a \<Longrightarrow> sane b \<Longrightarrow> clip (pair_interval a) (pair_interval b) = Some x
     \<Longrightarrow> instants (interval_pair x) = instants a \<inter> instants b \<and> sane (interval_pair x)"
  "clip (pair_interval a) (pair_interval b) = None \<Longrightarrow> instants a \<inter> instants b = {}"
  by (auto simp: clip_def Let_def pair_interval_def interval_pair_def instants_def sane_def split: if_splits)

section \<open>Children\<close>

definition kids_of :: "(nat \<times> interval list) list \<Rightarrow> nat \<Rightarrow> interval list" where
  "kids_of m p = (case map_of m p of None \<Rightarrow> [] | Some ivs \<Rightarrow> ivs)"

lemma kids_push [simp]: "kids_of (push_child p iv m) q = (if q = p then kids_of m p @ [iv] else kids_of m q)"
  by (simp add: kids_of_def push_child_def map_of_hm_insert)

lemma covered_kids: "children_covered m i = fst (union_len (map interval_pair (kids_of m i)))"
  by (simp add: children_covered_def kids_of_def union_len_def split: option.split)

text \<open>The parts of its children within a span, in the order the children come.\<close>

definition part_of :: "(columns \<Rightarrow> nat \<Rightarrow> nat option) \<Rightarrow> columns \<Rightarrow> nat \<Rightarrow> nat \<Rightarrow> interval list" where
  "part_of parent c p j =
     (if parent c j = Some p
      then (case clip (pair_interval (cl_intervals c ! j)) (pair_interval (cl_intervals c ! p)) of None \<Rightarrow> [] | Some x \<Rightarrow> [x])
      else [])"

definition parts :: "(columns \<Rightarrow> nat \<Rightarrow> nat option) \<Rightarrow> columns \<Rightarrow> nat \<Rightarrow> nat \<Rightarrow> interval list" where
  "parts parent c k p = concat (map (part_of parent c p) [0..<k])"

lemma parts_simps [simp]: "parts parent c 0 p = []" "parts parent c (Suc k) p = parts parent c k p @ part_of parent c p k"
  by (simp_all add: parts_def)

lemma part_of_instants:
  assumes "sane (cl_intervals c ! k)" and "sane (cl_intervals c ! i)"
  shows "(\<Union>x \<in> set (part_of parent c i k). instants (interval_pair x)) = (if parent c k = Some i then own c k \<inter> own c i else {})
    \<and> (\<forall>x \<in> set (part_of parent c i k). sane (interval_pair x))"
proof (cases "clip (pair_interval (cl_intervals c ! k)) (pair_interval (cl_intervals c ! i))")
  case None
  have "part_of parent c i k = []" by (simp add: part_of_def None)
  then show ?thesis using clip_instants(2)[OF None] by (simp add: own_def)
next
  case (Some x)
  have "part_of parent c i k = (if parent c k = Some i then [x] else [])" by (simp add: part_of_def Some)
  then show ?thesis using clip_instants(1)[OF assms Some] by (simp add: own_def)
qed

locale parent_choice =
  fixes parent :: "columns \<Rightarrow> nat \<Rightarrow> nat option" and gathered :: "columns \<Rightarrow> (nat \<times> interval list) list"
  assumes parent_retained: "parent c i = Some p \<Longrightarrow> \<exists>k. map_of (cl_by_id c) k = Some p"
    and gathered_parts: "kids_of (gathered c) p = parts parent c (length (cl_parents c)) p"
begin

definition below :: "columns \<Rightarrow> nat \<Rightarrow> int set" where
  "below c i = (\<Union>j \<in> {j. j < length (cl_parents c) \<and> parent c j = Some i}. own c j)"

lemma parent_in_range: "all_sane c \<Longrightarrow> parent c i = Some p \<Longrightarrow> p < length (cl_intervals c)"
  using parent_retained unfolding all_sane_def by blast

lemma parts_instants:
  assumes c: "all_sane c" and "k \<le> length (cl_parents c)" and "i < length (cl_intervals c)"
  shows "(\<Union>x \<in> set (parts parent c k i). instants (interval_pair x)) = (\<Union>j \<in> {j. j < k \<and> parent c j = Some i}. own c j) \<inter> own c i
    \<and> (\<forall>x \<in> set (parts parent c k i). sane (interval_pair x))"
  using assms(2)
proof (induction k)
  case (Suc k)
  have s: "sane (cl_intervals c ! k)" "sane (cl_intervals c ! i)" using c assms(3) Suc.prems by (auto simp: all_sane_def)
  have "(\<Union>x \<in> set (part_of parent c i k). instants (interval_pair x)) = (if parent c k = Some i then own c k \<inter> own c i else {})
      \<and> (\<forall>x \<in> set (part_of parent c i k). sane (interval_pair x))"
    by (rule part_of_instants[OF s])
  moreover have "{j. j < Suc k \<and> parent c j = Some i} = {j. j < k \<and> parent c j = Some i} \<union> (if parent c k = Some i then {k} else {})"
    by (auto simp: less_Suc_eq)
  ultimately show ?case using Suc.IH Suc.prems
    by (cases "parent c k = Some i") (simp_all add: UN_Un Int_Un_distrib2 ball_Un Un_commute del: Collect_conj_eq)
qed simp

lemma self_ns_uncovered:
  assumes c: "all_sane c" and i: "i < length (cl_intervals c)"
  shows "self_ns_of (cl_durations c) (gathered c) i = int (card (own c i - below c i))"
proof -
  note P = parts_instants[OF c order_refl i]
  have fin: "finite (own c i)" by (simp add: own_def instants_def)
  have "children_covered (gathered c) i = int (card (below c i \<inter> own c i))"
    using union_len_card[of "map interval_pair (parts parent c (length (cl_parents c)) i)"] P
    by (simp add: covered_kids gathered_parts below_def)
  moreover have "cl_durations c ! i = int (card (own c i))" using c i by (simp add: all_sane_def)
  moreover have "card (own c i - below c i) = card (own c i) - card (own c i \<inter> below c i)" using fin by (simp add: card_Diff_subset_Int)
  moreover have "card (own c i \<inter> below c i) \<le> card (own c i)" using fin by (simp add: card_mono)
  ultimately show ?thesis by (simp add: self_ns_of_def Int_commute)
qed

end

lemma path_children_parts: "kids_of (fold (path_child c) [0..<k] []) p = parts path_parent c k p"
proof (induction k)
  case (Suc k)
  let ?m = "fold (path_child c) [0..<k] []"
  have "kids_of (path_child c k ?m) p = kids_of ?m p @ part_of path_parent c p k"
    by (simp add: path_child_def part_of_def split: option.split)
  then show ?case using Suc by simp
qed (simp add: kids_of_def)

abbreviation self_start :: self_state where
  "self_start \<equiv> \<lparr>ss_children = [], ss_nested = 0, ss_clipped_ns = 0, ss_clipped_spans = 0\<rparr>"

definition self_children :: "columns \<Rightarrow> (nat \<times> interval list) list" where
  "self_children c = ss_children (fold (self_child c) [0..<length (cl_parents c)] self_start)"

lemma self_children_parts: "kids_of (ss_children (fold (self_child c) [0..<k] self_start)) p = parts matched_parent c k p"
proof (induction k)
  case (Suc k)
  let ?st = "fold (self_child c) [0..<k] self_start"
  have "kids_of (ss_children (self_child c k ?st)) p = kids_of (ss_children ?st) p @ part_of matched_parent c p k"
    by (simp add: self_child_def part_of_def Let_def split: option.split)
  then show ?case using Suc by simp
qed (simp add: kids_of_def)

interpretation sample_tree: parent_choice matched_parent self_children
proof
  show "\<exists>k. map_of (cl_by_id c) k = Some p" if "matched_parent c i = Some p" for c i p
    using that by (auto simp: matched_parent_def split: if_splits option.splits)
  show "kids_of (self_children c) p = parts matched_parent c (length (cl_parents c)) p" for c p
    by (simp add: self_children_def self_children_parts)
qed

interpretation path_tree: parent_choice path_parent path_children
proof
  show "\<exists>k. map_of (cl_by_id c) k = Some p" if "path_parent c i = Some p" for c i p
    using that by (auto simp: path_parent_def split: if_splits option.splits)
  show "kids_of (path_children c) p = parts path_parent c (length (cl_parents c)) p" for c p
    by (simp add: path_children_def path_children_parts)
qed

section \<open>Self time\<close>

text \<open>Time of span \<open>j\<close> outside its matched parent.\<close>

definition outside :: "columns \<Rightarrow> nat \<Rightarrow> int" where
  "outside c j = (case matched_parent c j of None \<Rightarrow> 0 | Some p \<Rightarrow> int (card (own c j - own c p)))"

lemma interval_len_card: "sane p \<Longrightarrow> interval_len (pair_interval p) = int (card (instants p))"
  using wrap_length[of "fst p" "snd p"] by (simp add: interval_len_def pair_interval_def instants_def)

lemma pair_of_interval [simp]: "pair_interval (interval_pair x) = x"
  by (simp add: pair_interval_def interval_pair_def)

lemma card_minus_part:
  assumes "clip (pair_interval a) (pair_interval b) = Some x" and "sane a" and "sane b"
  shows "interval_len (pair_interval a) - interval_len x = int (card (instants a - instants b))"
proof -
  note I = clip_instants(1)[OF assms(2,3,1)]
  have "interval_len x = int (card (instants a \<inter> instants b))" using interval_len_card[of "interval_pair x"] I by simp
  moreover have "card (instants a - instants b) = card (instants a) - card (instants a \<inter> instants b)" "card (instants a \<inter> instants b) \<le> card (instants a)"
    by (simp_all add: card_Diff_subset_Int card_mono instants_def)
  ultimately show ?thesis by (simp add: interval_len_card assms(2))
qed

lemma self_child_figures:
  assumes c: "all_sane c" and i: "i < length (cl_intervals c)"
  shows "ss_nested (self_child c i st) = ss_nested st + (if matched_parent c i = None then 0 else 1)
    \<and> ss_clipped_ns (self_child c i st) = ss_clipped_ns st + outside c i"
proof (cases "matched_parent c i")
  case (Some p)
  have p: "p < length (cl_intervals c)" using sample_tree.parent_in_range[OF c Some] .
  have s: "sane (cl_intervals c ! i)" "sane (cl_intervals c ! p)" using c i p by (auto simp: all_sane_def)
  show ?thesis
  proof (cases "clip (pair_interval (cl_intervals c ! i)) (pair_interval (cl_intervals c ! p))")
    case None
    have "instants (cl_intervals c ! i) - instants (cl_intervals c ! p) = instants (cl_intervals c ! i)"
      using clip_instants(2)[OF None] by blast
    then show ?thesis using None Some by (simp add: self_child_def outside_def own_def interval_len_card s)
  next
    case (Some x)
    then show ?thesis using \<open>matched_parent c i = Some p\<close> card_minus_part[OF Some s]
      by (simp add: self_child_def outside_def own_def Let_def)
  qed
qed (simp add: self_child_def outside_def)

lemma self_fold_figures:
  assumes c: "all_sane c" and "k \<le> length (cl_intervals c)"
  shows "ss_nested (fold (self_child c) [0..<k] self_start) = card {j. j < k \<and> matched_parent c j \<noteq> None}
    \<and> ss_clipped_ns (fold (self_child c) [0..<k] self_start) = (\<Sum>j<k. outside c j)"
  using assms(2)
proof (induction k)
  case (Suc k)
  have "{j. j < Suc k \<and> matched_parent c j \<noteq> None} = {j. j < k \<and> matched_parent c j \<noteq> None} \<union> (if matched_parent c k = None then {} else {k})"
    by (auto simp: less_Suc_eq)
  then show ?case using Suc self_child_figures[OF c, of k] by (cases "matched_parent c k") simp_all
qed simp

text \<open>What a profile's sampled figures take from the self time: the intervals are those \<open>union_len\<close> has sorted.\<close>

lemma sampled_self_figures:
  fixes samples cutoff
  defines "c \<equiv> columns_of cutoff (tier_records samples)" and "s \<equiv> fst (sampled_view samples cutoff True)"
  shows "ps_self_ms s = (let st = self_time (c\<lparr>cl_intervals := snd (union_len (cl_intervals c))\<rparr>)
      in if st_nested_matches st = 0 then None else Some (ns_to_ms (st_self_ns st)))"
    and "ps_nested_matches s = st_nested_matches (self_time (c\<lparr>cl_intervals := snd (union_len (cl_intervals c))\<rparr>))"
    and "ps_overlapping_child_ms s = ns_to_ms (st_clipped_away_ns (self_time (c\<lparr>cl_intervals := snd (union_len (cl_intervals c))\<rparr>)))"
  by (simp_all add: s_def c_def sampled_view_def Let_def split: prod.split)

lemma union_len_keeps_sorted: "sorted ivs \<Longrightarrow> snd (union_len ivs) = ivs"
  using sorted_sort_id[of ivs] by (auto simp: union_len_def split: list.split)

lemma sampled_self_when_ordered:
  assumes "sorted (cl_intervals (columns_of cutoff (tier_records samples)))"
  shows "ps_self_ms (fst (sampled_view samples cutoff True))
      = (let st = self_time (columns_of cutoff (tier_records samples)) in if st_nested_matches st = 0 then None else Some (ns_to_ms (st_self_ns st)))"
    and "ps_nested_matches (fst (sampled_view samples cutoff True)) = st_nested_matches (self_time (columns_of cutoff (tier_records samples)))"
    and "ps_overlapping_child_ms (fst (sampled_view samples cutoff True)) = ns_to_ms (st_clipped_away_ns (self_time (columns_of cutoff (tier_records samples))))"
  using assms by (simp_all add: sampled_self_figures union_len_keeps_sorted)

lemma self_time_figures:
  assumes "\<forall>r \<in> set rs. sane (sr_start_ns r, sr_end_ns r)" and c: "c = columns_of cutoff rs"
  shows "st_self_ns (self_time c)
      = (\<Sum>i < length (cl_durations c). int (card (own c i - (\<Union>j \<in> {j. j < length (cl_durations c) \<and> matched_parent c j = Some i}. own c j))))
    \<and> st_nested_matches (self_time c) = card {j. j < length (cl_durations c) \<and> matched_parent c j \<noteq> None}
    \<and> st_clipped_away_ns (self_time c) = (\<Sum>j < length (cl_durations c). outside c j)"
proof -
  have s: "all_sane c" using assms(1) unfolding c by (intro columns_sane) simp
  then have len: "length (cl_durations c) = length (cl_intervals c)" "length (cl_parents c) = length (cl_intervals c)"
    by (simp_all add: all_sane_def)
  have "self_ns_of (cl_durations c) (self_children c) i = int (card (own c i - sample_tree.below c i))" if "i < length (cl_intervals c)" for i
    using sample_tree.self_ns_uncovered[OF s that] .
  then have "sum_list (map (self_ns_of (cl_durations c) (self_children c)) [0..<length (cl_intervals c)])
      = (\<Sum>i < length (cl_intervals c). int (card (own c i - sample_tree.below c i)))"
    by (simp add: interv_sum_list_conv_sum_set_nat atLeast0LessThan)
  then show ?thesis using self_fold_figures[OF s order_refl]
    by (simp add: self_time_def Let_def len self_children_def sample_tree.below_def)
qed

text \<open>
  Self time is the uncovered time (C32). Take retained records within the clock's range and their columns, each
  interval beside the duration, trace and parent of its own record. Over these columns \<open>self_time\<close> is, summed
  over the spans, the nanoseconds of a span that none of its matched children covers, so concurrent
  children are not subtracted twice; its matches are the spans with a retained parent, and its clipped
  time is the children's time outside their parents. When the records were retained in the order of
  their intervals, these are the figures the profile of a tree-level collector reports, and it reports no
  self time exactly when nothing matched. In another order the profile computes them from intervals
  that its union measure has sorted in place, and the lemma \<open>sampled_self_time_misaligned\<close> shows that
  they differ.
\<close>

theorem self_time_is_uncovered:
  fixes samples cutoff
  assumes "\<forall>r \<in> set (tier_records samples). sane (sr_start_ns r, sr_end_ns r)"
    and c: "c = columns_of cutoff (tier_records samples)" and n: "n = length (cl_durations c)"
    and self: "self_ns = (\<Sum>i<n. int (card (own c i - (\<Union>j \<in> {j. j < n \<and> matched_parent c j = Some i}. own c j))))"
    and matches: "matches = card {j. j < n \<and> matched_parent c j \<noteq> None}" and outs: "clipped_ns = (\<Sum>j<n. outside c j)"
  shows "st_self_ns (self_time c) = self_ns \<and> st_nested_matches (self_time c) = matches \<and> st_clipped_away_ns (self_time c) = clipped_ns
    \<and> (sorted (cl_intervals c) \<longrightarrow>
        ps_self_ms (fst (sampled_view samples cutoff True)) = (if matches = 0 then None else Some (ns_to_ms self_ns))
        \<and> ps_nested_matches (fst (sampled_view samples cutoff True)) = matches
        \<and> ps_overlapping_child_ms (fst (sampled_view samples cutoff True)) = ns_to_ms clipped_ns)"
proof -
  have f: "st_self_ns (self_time c) = self_ns" "st_nested_matches (self_time c) = matches" "st_clipped_away_ns (self_time c) = clipped_ns"
    unfolding self matches outs n using self_time_figures[OF assms(1) c] by blast+
  show ?thesis using sampled_self_when_ordered[of cutoff samples, folded c] by (simp only: f Let_def) blast
qed

definition demo_span :: "u64 \<Rightarrow> u64 \<Rightarrow> int \<Rightarrow> int \<Rightarrow> sample_record" where
  "demo_span i parent s e =
     \<lparr>sr_start_ns = s, sr_end_ns = e, sr_name_id = 1, sr_flags = 0, sr_span_id = i, sr_parent_span_id = parent, sr_trace_id = 9\<rparr>"

definition demo_samples :: "sample_record list \<Rightarrow> sample_tier" where
  "demo_samples rs = push_all (map (\<lambda>r. (r, [])) rs) (tier_new Tree 0 1000000)"

lemma demo_samples_records:
  assumes "length rs \<le> 1000"
  shows "tier_records (demo_samples rs) = rs"
proof -
  have "length (map (\<lambda>r. (r, [] :: u32 list)) rs) \<le> tier_capacity (tier_new Tree 0 1000000)"
    using assms by (simp add: tier_capacity_def max_chunks_def chunk_records_def)
  then have "tier_holds (demo_samples rs) (map (\<lambda>r. (r, [])) rs)"
    using push_all_holds[of Tree "tier_new Tree 0 1000000" 0 1000000 "map (\<lambda>r. (r, [])) rs"] by (simp add: demo_samples_def has_samples_def)
  then show ?thesis using tier_contents(1)[of "demo_samples rs" "map (\<lambda>r. (r, [])) rs"]
    by (simp add: demo_samples_def tier_new_def kept_fields_def comp_def has_tree_def)
qed

text \<open>A span of 100 nanoseconds with two children that overlap: 10 of its nanoseconds are its own.\<close>

definition demo_fork :: "sample_record list" where
  "demo_fork = [demo_span 1 0 0 100, demo_span 2 1 10 60, demo_span 3 1 40 100]"

lemma demo_fork_self:
  "st_self_ns (self_time (columns_of None demo_fork)) = 120 \<and> st_nested_matches (self_time (columns_of None demo_fork)) = 2"
  by code_simp

theorem self_time_is_uncovered_witness:
  "ps_self_ms (fst (sampled_view (demo_samples demo_fork) None True)) = Some (ns_to_ms 120)
   \<and> ps_nested_matches (fst (sampled_view (demo_samples demo_fork) None True)) = 2"
proof -
  have r: "tier_records (demo_samples demo_fork) = demo_fork" by (rule demo_samples_records) (simp add: demo_fork_def)
  have "\<forall>r \<in> set demo_fork. sane (sr_start_ns r, sr_end_ns r)" by (simp add: demo_fork_def demo_span_def sane_def i64_max_def)
  moreover have "sorted (cl_intervals (columns_of None demo_fork))" by code_simp
  ultimately have "\<exists>self_ns matches. st_self_ns (self_time (columns_of None demo_fork)) = self_ns
      \<and> st_nested_matches (self_time (columns_of None demo_fork)) = matches
      \<and> ps_self_ms (fst (sampled_view (demo_samples demo_fork) None True)) = (if matches = 0 then None else Some (ns_to_ms self_ns))
      \<and> ps_nested_matches (fst (sampled_view (demo_samples demo_fork) None True)) = matches"
    using self_time_is_uncovered[of "demo_samples demo_fork", OF _ refl refl refl refl refl, of None] unfolding r by blast
  then show ?thesis using demo_fork_self by auto
qed

text \<open>Two calls, each span recorded when it ends: the children before their parents.\<close>

definition demo_calls :: "sample_record list" where
  "demo_calls = [demo_span 1 3 2 4, demo_span 2 4 110 190, demo_span 3 0 0 10, demo_span 4 0 100 200]"

abbreviation demo_tier :: sample_tier where
  "demo_tier \<equiv> demo_samples demo_calls"

lemma demo_tier_records: "tier_records demo_tier = demo_calls"
  by (rule demo_samples_records) (simp add: demo_calls_def)

lemma demo_calls_self:
  "st_self_ns (self_time (columns_of None demo_calls)) = 110"
  "let c = columns_of None demo_calls; st = self_time (c\<lparr>cl_intervals := snd (union_len (cl_intervals c))\<rparr>)
   in st_self_ns st = 192 \<and> st_nested_matches st = 2"
  by code_simp+

text \<open>
  A profile's self time over spans recorded as they end. Two calls of one child each, ingested
  child before parent: the spans' self time is 110 nanoseconds, the profile reports 192. The measure of
  the union sorts the intervals in place, and the self time pairs the sorted intervals with the
  durations and parents in the order of ingestion.
\<close>

lemma sampled_self_time_misaligned:
  "tier_records demo_tier = demo_calls
   \<and> st_self_ns (self_time (columns_of None (tier_records demo_tier))) = 110
   \<and> ps_self_ms (fst (sampled_view demo_tier None True)) = Some (ns_to_ms 192)"
  using demo_calls_self by (simp add: sampled_self_figures demo_tier_records Let_def)

section \<open>Call paths\<close>

definition calls_up :: "columns \<Rightarrow> nat \<Rightarrow> nat \<Rightarrow> bool" where
  "calls_up c i j \<longleftrightarrow> cl_parents c ! i \<noteq> 0 \<and> map_of (cl_by_id c) (cl_traces c ! i, cl_parents c ! i) = Some j"

abbreviation span_name :: "columns \<Rightarrow> interner \<Rightarrow> nat \<Rightarrow> string" where
  "span_name c names i \<equiv> resolve (cl_names c ! i) names"

text \<open>A chain of spans that goes up and does not repeat, and where a walk may leave off.\<close>

definition upward :: "columns \<Rightarrow> nat list \<Rightarrow> bool" where
  "upward c vs \<longleftrightarrow> vs \<noteq> [] \<and> distinct vs \<and> length vs \<le> max_path_depth \<and> successively (calls_up c) vs"

definition walk_ends :: "columns \<Rightarrow> nat list \<Rightarrow> bool" where
  "walk_ends c vs \<longleftrightarrow> length vs = max_path_depth \<or> (\<forall>p. calls_up c (last vs) p \<longrightarrow> p \<in> set vs)"

lemma walk_loop_chain:
  assumes "upward c visited" and "last visited = cur"
  shows "\<exists>vs. upward c vs \<and> hd vs = hd visited \<and> walk_ends c vs
    \<and> walk_loop c names cur visited (map (span_name c names) visited) = (map (span_name c names) vs, cl_parents c ! last vs \<noteq> 0)"
  using assms
proof (induction "max_path_depth - length visited" arbitrary: visited cur rule: less_induct)
  case less
  let ?step = "walk_loop c names cur visited (map (span_name c names) visited)"
  consider (stop) "walk_ends c visited" | (up) p where "calls_up c cur p" "p \<notin> set visited" "length visited < max_path_depth"
    using less.prems by (auto simp: walk_ends_def upward_def le_less)
  then show ?case
  proof cases
    case stop
    then have "?step = (map (span_name c names) visited, cl_parents c ! cur \<noteq> 0)"
      using less.prems by (auto simp: walk_loop.simps[of c names cur] walk_ends_def calls_up_def split: option.split)
    then show ?thesis using stop less.prems by blast
  next
    case up
    have "upward c (visited @ [p])" using less.prems up by (auto simp: upward_def successively_append_iff)
    moreover have "max_path_depth - length (visited @ [p]) < max_path_depth - length visited" using up(3) by simp
    ultimately have "\<exists>vs. upward c vs \<and> hd vs = hd (visited @ [p]) \<and> walk_ends c vs
        \<and> walk_loop c names p (visited @ [p]) (map (span_name c names) (visited @ [p])) = (map (span_name c names) vs, cl_parents c ! last vs \<noteq> 0)"
      using less.hyps[of "visited @ [p]" p] by simp
    moreover have "?step = walk_loop c names p (visited @ [p]) (map (span_name c names) (visited @ [p]))"
      using up by (simp add: walk_loop.simps[of c names cur] calls_up_def)
    moreover have "hd (visited @ [p]) = hd visited" using less.prems by (simp add: upward_def)
    ultimately show ?thesis by simp
  qed
qed

text \<open>
  A call path ends and does not repeat (C34). From any span, over any parent links, cyclic ones too, the
  walk returns the names, root first, of a chain of at most 64 distinct spans that leads from the span
  from parent to parent. The path is marked a suffix exactly when its topmost span has a parent, and
  then that parent is not retained, is already on the path, or the path has reached the depth cap.
\<close>

theorem walk_path_chain:
  "\<exists>vs. vs \<noteq> [] \<and> hd vs = start \<and> distinct vs \<and> length vs \<le> max_path_depth \<and> successively (calls_up c) vs
     \<and> walk_path c names start = (rev (map (\<lambda>i. resolve (cl_names c ! i) names) vs), cl_parents c ! last vs \<noteq> 0)
     \<and> (length vs = max_path_depth \<or> {p. calls_up c (last vs) p} \<subseteq> set vs)"
proof -
  have "upward c [start]" by (simp add: upward_def max_path_depth_def)
  from walk_loop_chain[OF this] obtain vs where "upward c vs" "hd vs = start" "walk_ends c vs"
      "walk_loop c names start [start] [span_name c names start] = (map (span_name c names) vs, cl_parents c ! last vs \<noteq> 0)"
    by auto
  then have "vs \<noteq> [] \<and> hd vs = start \<and> distinct vs \<and> length vs \<le> max_path_depth \<and> successively (calls_up c) vs"
    and "walk_path c names start = (rev (map (span_name c names) vs), cl_parents c ! last vs \<noteq> 0)"
    and "length vs = max_path_depth \<or> {p. calls_up c (last vs) p} \<subseteq> set vs"
    by (auto simp: upward_def walk_path_def walk_ends_def)
  then show ?thesis by blast
qed

section \<open>Ranked rows\<close>

lemma frames_less_strict:
  "\<not> lexordp str_less xs xs" "lexordp str_less xs ys \<Longrightarrow> lexordp str_less ys zs \<Longrightarrow> lexordp str_less xs zs"
  "lexordp str_less xs ys \<or> xs = ys \<or> lexordp str_less ys xs"
  using lexordp_strict[of str_less] str_less_strict by blast+

interpretation path_rank: ranking path_before "\<lambda>p. (pa_frames p, pa_incomplete p)"
proof
  note L = frames_less_strict
  show "\<not> path_before a a" for a using L(1) by (simp add: path_before_def)
  show "path_before a b \<Longrightarrow> path_before b c \<Longrightarrow> path_before a c" for a b c
    using L(2)[of "pa_frames a" "pa_frames b" "pa_frames c"] by (auto simp: path_before_def)
  show "(pa_frames a, pa_incomplete a) \<noteq> (pa_frames b, pa_incomplete b) \<Longrightarrow> path_before a b \<or> path_before b a" for a b
    using L(3)[of "pa_frames a" "pa_frames b"] by (auto simp: path_before_def)
  show "path_before a c \<Longrightarrow> path_before a b \<or> path_before b c" for a b c
    using L(2)[of "pa_frames b" "pa_frames a" "pa_frames c"] L(2)[of "pa_frames a" "pa_frames c" "pa_frames b"]
      L(3)[of "pa_frames a" "pa_frames b"] L(3)[of "pa_frames b" "pa_frames c"] by (auto simp: path_before_def)
qed

lemma total_less_strict:
  "\<not> total_less a a" "total_less a b \<Longrightarrow> total_less b c \<Longrightarrow> total_less a c" "total_less a c \<Longrightarrow> total_less a b \<or> total_less b c"
proof -
  show "\<not> total_less a a" by (cases a) (simp_all add: total_less_def f64_lt_def is_nan_def)
  show "total_less a c" if "total_less a b" "total_less b c"
    using that by (cases a; cases b; cases c) (simp_all add: total_less_def f64_lt_def is_nan_def)
  show "total_less a b \<or> total_less b c" if "total_less a c"
    using that by (cases a; cases b; cases c) (simp_all add: total_less_def f64_lt_def is_nan_def, linarith)
qed

interpretation group_rank: ranking group_before pg_key
proof
  show "\<not> group_before a a" for a by (simp add: group_before_def total_less_strict(1) str_less_strict(1))
  show "group_before a c" if "group_before a b" "group_before b c" for a b c
    using that total_less_strict(2)[of "group_total c" "group_total b" "group_total a"]
      total_less_strict(3)[of "group_total c" "group_total b" "group_total a"]
      total_less_strict(3)[of "group_total b" "group_total a" "group_total c"]
      total_less_strict(3)[of "group_total a" "group_total c" "group_total b"]
      total_less_strict(2)[of "group_total a" "group_total c" "group_total b"]
      total_less_strict(3)[of "group_total b" "group_total c" "group_total a"]
      str_less_strict(2)[of "pg_key a" "pg_key b" "pg_key c"]
    unfolding group_before_def by satx
  show "pg_key a \<noteq> pg_key b \<Longrightarrow> group_before a b \<or> group_before b a" for a b
    using str_less_strict(3)[of "pg_key a" "pg_key b"] by (auto simp: group_before_def)
  show "group_before a b \<or> group_before b c" if "group_before a c" for a b c
    using that total_less_strict(3)[of "group_total c" "group_total a" "group_total b"]
      total_less_strict(3)[of "group_total a" "group_total b" "group_total c"]
      total_less_strict(3)[of "group_total b" "group_total c" "group_total a"]
      total_less_strict(2)[of "group_total b" "group_total a" "group_total b"] total_less_strict(1)[of "group_total b"]
      str_less_strict(2)[of "pg_key b" "pg_key a" "pg_key c"] str_less_strict(2)[of "pg_key a" "pg_key c" "pg_key b"]
      str_less_strict(3)[of "pg_key a" "pg_key b"] str_less_strict(3)[of "pg_key b" "pg_key c"]
    unfolding group_before_def by auto
qed

section \<open>Rows by path\<close>

text \<open>The spans of a path, among the first \<open>k\<close>.\<close>

definition on_path :: "columns \<Rightarrow> interner \<Rightarrow> nat \<Rightarrow> string list \<times> bool \<Rightarrow> nat set" where
  "on_path c names k key = {i. i < k \<and> walk_path c names i = key}"

lemma on_path_Suc: "on_path c names (Suc k) key = (if walk_path c names k = key then insert k (on_path c names k key) else on_path c names k key)"
  by (auto simp: on_path_def less_Suc_eq)

lemma on_path_finite [simp]: "finite (on_path c names k key)" "k \<notin> on_path c names k key"
  by (simp_all add: on_path_def)

abbreviation path_self :: "columns \<Rightarrow> nat \<Rightarrow> int" where
  "path_self c i \<equiv> self_ns_of (cl_durations c) (path_children c) i"

lemma path_row_fold:
  "distinct (keys_of (fold (path_row c names) [0..<k] []))
   \<and> map_of (fold (path_row c names) [0..<k] []) key =
       (if on_path c names k key = {} then None
        else Some (\<Sum>i \<in> on_path c names k key. path_self c i, card (on_path c names k key)))"
proof (induction k)
  case (Suc k)
  let ?rows = "fold (path_row c names) [0..<k] []"
  obtain ns n where old: "(case map_of ?rows (walk_path c names k) of None \<Rightarrow> (0, 0) | Some r \<Rightarrow> r) = (ns, n)" by fastforce
  have step: "fold (path_row c names) [0..<Suc k] [] = hm_insert (walk_path c names k) (ns + path_self c k, n + 1) ?rows"
    by (simp add: path_row_def old)
  show ?case
  proof (cases "walk_path c names k = key")
    case True
    then have "ns = (\<Sum>i \<in> on_path c names k key. path_self c i) \<and> n = card (on_path c names k key)"
      using old Suc by (cases "on_path c names k key = {}") simp_all
    then show ?thesis using True Suc unfolding step by (simp add: on_path_Suc)
  next
    case False
    then show ?thesis using Suc unfolding step by (simp add: on_path_Suc)
  qed
qed (simp add: on_path_def)

definition path_of_row :: "(string list \<times> bool) \<times> int \<times> nat \<Rightarrow> path_aggregate" where
  "path_of_row r = (case r of ((frames, incomplete), ns, n) \<Rightarrow>
     \<lparr>pa_frames = frames, pa_self_ns = ns, pa_count = n, pa_incomplete = incomplete\<rparr>)"

lemma path_of_row_key [simp]: "(pa_frames (path_of_row r), pa_incomplete (path_of_row r)) = fst r"
  by (simp add: path_of_row_def split: prod.split)

text \<open>The row of the path a span is on.\<close>

definition path_total :: "columns \<Rightarrow> interner \<Rightarrow> nat \<Rightarrow> string list \<times> bool \<Rightarrow> path_aggregate" where
  "path_total c names k key =
     \<lparr>pa_frames = fst key, pa_self_ns = (\<Sum>i \<in> on_path c names k key. path_self c i), pa_count = card (on_path c names k key),
      pa_incomplete = snd key\<rparr>"

lemma path_rows_set:
  "set (map path_of_row (fold (path_row c names) [0..<k] [])) = path_total c names k ` (walk_path c names ` {..<k})"
proof -
  let ?rows = "fold (path_row c names) [0..<k] []"
  have mem: "(key, v) \<in> set ?rows \<longleftrightarrow> map_of ?rows key = Some v" for key v
    by (rule map_of_eq_Some_iff[symmetric]) (simp add: path_row_fold)
  have "(key, v) \<in> set ?rows \<longleftrightarrow>
      on_path c names k key \<noteq> {} \<and> v = (\<Sum>i \<in> on_path c names k key. path_self c i, card (on_path c names k key))" for key v
    unfolding mem using path_row_fold[of c names k key] by auto
  then have "set ?rows = (\<lambda>key. (key, \<Sum>i \<in> on_path c names k key. path_self c i, card (on_path c names k key))) ` {key. on_path c names k key \<noteq> {}}"
    by (auto simp: image_iff)
  moreover have "on_path c names k key \<noteq> {} \<longleftrightarrow> key \<in> walk_path c names ` {..<k}" for key by (auto simp: on_path_def)
  then have "{key. on_path c names k key \<noteq> {}} = walk_path c names ` {..<k}" by blast
  ultimately show ?thesis by (simp add: image_image path_of_row_def path_total_def case_prod_beta)
qed

lemma path_aggregates_rows:
  "path_aggregates snap cutoff =
     sort_by path_before (map path_of_row (fold (path_row (columns_of cutoff (tier_records (ci_samples snap))) (ci_names snap))
       [0..<length (cl_durations (columns_of cutoff (tier_records (ci_samples snap))))] []))"
proof -
  have "path_of_row = (\<lambda>((frames, incomplete), ns, n). \<lparr>pa_frames = frames, pa_self_ns = ns, pa_count = n, pa_incomplete = incomplete\<rparr>)"
    by (simp add: fun_eq_iff path_of_row_def)
  then show ?thesis by (simp only: path_aggregates_def Let_def)
qed

lemma path_aggregates_ranked: "sorted_wrt path_before (path_aggregates snap cutoff)"
  unfolding path_aggregates_rows
  by (rule path_rank.sort_ranked) (simp add: comp_def path_row_fold)

lemma ranked_distinct: "sorted_wrt path_before ps \<Longrightarrow> distinct ps"
  by (induction ps) (auto simp: path_rank.before_irrefl)

lemma path_total_inj: "inj_on (path_total c names k) X"
  by (rule inj_onI) (simp add: path_total_def prod_eq_iff)

lemma path_sums:
  fixes g :: "nat \<Rightarrow> 'b :: comm_monoid_add"
  shows "(\<Sum>key \<in> walk_path c names ` {..<k}. \<Sum>i \<in> on_path c names k key. g i) = (\<Sum>i<k. g i)"
  using sum.image_gen[of "{..<k}" g "walk_path c names"] by (simp add: on_path_def lessThan_def)

text \<open>
  Paths share the self time out (C33). Over any records within the clock's range, the path rows are one for
  each distinct call path, with the number of spans on it and their self time: the nanoseconds of a span
  that no retained child of it covers. Over all rows the counts add up to the spans and the times to
  the spans' self time. The rows are strictly ranked, by self time and then by path, so their order is
  the same however the map of paths is iterated.
\<close>

theorem path_aggregates_partition:
  assumes "\<forall>r \<in> set (tier_records (ci_samples snap)). sane (sr_start_ns r, sr_end_ns r)"
    and c: "c = columns_of cutoff (tier_records (ci_samples snap))" and n: "n = length (cl_durations c)"
  shows "set (path_aggregates snap cutoff) = path_total c (ci_names snap) n ` (walk_path c (ci_names snap) ` {..<n})
    \<and> sorted_wrt path_before (path_aggregates snap cutoff)
    \<and> sum_list (map pa_count (path_aggregates snap cutoff)) = n
    \<and> sum_list (map pa_self_ns (path_aggregates snap cutoff))
      = (\<Sum>i<n. int (card (own c i - (\<Union>j \<in> {j. j < n \<and> path_parent c j = Some i}. own c j))))"
proof -
  let ?ps = "path_aggregates snap cutoff" and ?K = "walk_path c (ci_names snap) ` {..<n}"
  have s: "all_sane c" using assms(1) unfolding c by (intro columns_sane) simp
  have set: "set ?ps = path_total c (ci_names snap) n ` ?K"
    unfolding path_aggregates_rows set_sort_by c[symmetric] n[symmetric] by (rule path_rows_set)
  have total: "sum_list (map f ?ps) = (\<Sum>key \<in> ?K. f (path_total c (ci_names snap) n key))" for f :: "path_aggregate \<Rightarrow> 'b :: comm_monoid_add"
    using ranked_distinct[OF path_aggregates_ranked, of snap cutoff] path_total_inj[of c "ci_names snap" n ?K]
    by (simp add: sum_list_distinct_conv_sum_set set sum.reindex)
  have "path_self c i = int (card (own c i - (\<Union>j \<in> {j. j < n \<and> path_parent c j = Some i}. own c j)))" if "i < n" for i
    using path_tree.self_ns_uncovered[OF s, of i] s that n by (simp add: path_tree.below_def all_sane_def)
  then have "sum_list (map pa_self_ns ?ps) = (\<Sum>i<n. int (card (own c i - (\<Union>j \<in> {j. j < n \<and> path_parent c j = Some i}. own c j))))"
    by (simp add: total path_total_def path_sums)
  moreover have "sum_list (map pa_count ?ps) = n"
    using path_sums[where g = "\<lambda>_. 1 :: nat" and k = n and c = c and names = "ci_names snap"] by (simp add: total path_total_def)
  ultimately show ?thesis using set path_aggregates_ranked by simp
qed

definition demo_profiled :: "f64 list collector_inner" where
  "demo_profiled = (inner_new demo_sketch demo_definition 0)\<lparr>ci_samples := demo_tier\<rparr>"

theorem path_aggregates_partition_witness:
  "sorted_wrt path_before (path_aggregates demo_profiled None)
   \<and> sum_list (map pa_count (path_aggregates demo_profiled None)) = 4
   \<and> sum_list (map pa_self_ns (path_aggregates demo_profiled None))
     = (\<Sum>i<4. int (card (own (columns_of None demo_calls) i
         - (\<Union>j \<in> {j. j < 4 \<and> path_parent (columns_of None demo_calls) j = Some i}. own (columns_of None demo_calls) j))))"
proof -
  have r: "tier_records (ci_samples demo_profiled) = demo_calls" by (simp add: demo_profiled_def demo_tier_records)
  have "\<forall>r \<in> set demo_calls. sane (sr_start_ns r, sr_end_ns r)" by (simp add: demo_calls_def demo_span_def sane_def i64_max_def)
  moreover have "4 = length (cl_durations (columns_of None demo_calls))" by (simp add: demo_calls_def past_cut_def)
  ultimately show ?thesis using path_aggregates_partition[of demo_profiled "columns_of None demo_calls" None 4] unfolding r by simp
qed

section \<open>Rows by trace\<close>

lemma trace_rows_keys:
  "distinct (keys_of (fold push_trace rs [])) \<and> fst ` set (fold push_trace rs []) = sr_trace_id ` set rs"
  by (induction rs rule: rev_induct) (auto simp: push_trace_def split: prod.split)

lemma trace_row_exact [simp]: "pg_exact (trace_row whole t) = None"
  by (simp add: trace_row_def Let_def split: prod.split)

lemma untimed_before: "pg_exact a = None \<Longrightarrow> pg_exact b = None \<Longrightarrow> group_before a b = str_less (pg_key a) (pg_key b)"
  by (simp add: group_before_def group_total_def total_less_strict(1))

text \<open>
  A breakdown by trace is ranked by trace id, where the documentation of \<open>top_n\<close> says by total time. Its rows have no exact figures, the ones rows are
  ranked by, so the rows kept are the first of the traces in the order of their hexadecimal ids,
  however long each trace took. The count beside them is the number of distinct traces.
\<close>

lemma trace_rows_ranked_by_id:
  "sorted_wrt (\<lambda>a b. \<not> str_less (pg_key b) (pg_key a)) (fst (trace_rows samples cutoff top_n))
   \<and> fst (trace_rows samples cutoff top_n)
     = take top_n (sort_by (\<lambda>a b. str_less (pg_key a) (pg_key b))
         (map (trace_row (tr_complete samples)) (fold push_trace (filter (past_cut cutoff) (tier_records samples)) [])))
   \<and> snd (trace_rows samples cutoff top_n) = card (sr_trace_id ` set (filter (past_cut cutoff) (tier_records samples)))"
proof -
  let ?m = "fold push_trace (filter (past_cut cutoff) (tier_records samples)) []"
  let ?rows = "map (trace_row (tr_complete samples)) ?m"
  have untimed: "group_before a b = str_less (pg_key a) (pg_key b)" if "a \<in> set ?rows" "b \<in> set ?rows" for a b
    using that by (auto intro!: untimed_before)
  have rows: "fst (trace_rows samples cutoff top_n) = take top_n (sort_by group_before ?rows)" by (simp add: trace_rows_def rank_and_truncate_def)
  have "sorted_wrt (\<lambda>a b. \<not> group_before b a) (take top_n (sort_by group_before ?rows))"
    using group_rank.sort_weak by (rule sorted_wrt_take)
  then have "sorted_wrt (\<lambda>a b. \<not> str_less (pg_key b) (pg_key a)) (take top_n (sort_by group_before ?rows))"
    by (rule sorted_wrt_mono_rel[rotated]) (auto dest!: in_set_takeD simp: untimed simp del: set_map)
  moreover have "sort_by group_before ?rows = sort_by (\<lambda>a b. str_less (pg_key a) (pg_key b)) ?rows"
    by (rule sort_by_cong) (rule untimed)
  moreover have "length ?m = card (sr_trace_id ` set (filter (past_cut cutoff) (tier_records samples)))"
    using trace_rows_keys[of "filter (past_cut cutoff) (tier_records samples)"] by (metis distinct_card length_map list.set_map)
  ultimately show ?thesis by (simp add: rows) (simp add: trace_rows_def rank_and_truncate_def)
qed

section \<open>Paths kept in a snapshot\<close>

lemma keep_paths_prefix:
  assumes "sum_list (map path_bytes out) = bytes" and "bytes \<le> snapshot_path_bytes \<or> length out \<le> 1"
  shows "\<exists>m. keep_paths bytes out ps = out @ take m ps
    \<and> (sum_list (map path_bytes (out @ take m ps)) \<le> snapshot_path_bytes \<or> length (out @ take m ps) \<le> 1)"
  using assms
proof (induction ps arbitrary: out bytes)
  case (Cons p ps)
  show ?case
  proof (cases "snapshot_path_bytes < bytes + path_bytes p \<and> out \<noteq> []")
    case True
    then show ?thesis using Cons.prems by (intro exI[of _ 0]) (auto simp: Let_def)
  next
    case False
    then have "\<exists>m. keep_paths (bytes + path_bytes p) (out @ [p]) ps = (out @ [p]) @ take m ps
        \<and> (sum_list (map path_bytes ((out @ [p]) @ take m ps)) \<le> snapshot_path_bytes \<or> length ((out @ [p]) @ take m ps) \<le> 1)"
      using Cons.prems by (intro Cons.IH) auto
    then obtain m where "keep_paths (bytes + path_bytes p) (out @ [p]) ps = (out @ [p]) @ take m ps"
      "sum_list (map path_bytes ((out @ [p]) @ take m ps)) \<le> snapshot_path_bytes \<or> length ((out @ [p]) @ take m ps) \<le> 1" by blast
    then show ?thesis using False by (intro exI[of _ "Suc m"]) auto
  qed
qed simp

text \<open>
  A recorded path list is capped: the best ranked paths, at most 200, of at most 64 KiB of names unless it
  is a single path, and it is marked truncated exactly when a path was left out.
\<close>

theorem project_paths_capped:
  "\<exists>m. map pr_frames (fst (project_paths d snap)) = map pa_frames (take m (path_aggregates snap None))
     \<and> length (fst (project_paths d snap)) \<le> snapshot_path_rows
     \<and> (sum_list (map (sum_list \<circ> map length \<circ> pr_frames) (fst (project_paths d snap))) \<le> snapshot_path_bytes
        \<or> length (fst (project_paths d snap)) \<le> 1)
     \<and> (snd (project_paths d snap) \<longleftrightarrow> has_tree (cd_level d) \<and> length (fst (project_paths d snap)) < length (path_aggregates snap None))"
proof (cases "has_tree (cd_level d)")
  case True
  let ?all = "path_aggregates snap None"
  obtain m where m: "keep_paths 0 [] (take snapshot_path_rows ?all) = take m (take snapshot_path_rows ?all)"
    "sum_list (map path_bytes (take m (take snapshot_path_rows ?all))) \<le> snapshot_path_bytes \<or> length (take m (take snapshot_path_rows ?all)) \<le> 1"
    using keep_paths_prefix[of "[]" 0 "take snapshot_path_rows ?all"] by auto
  have "path_bytes = sum_list \<circ> map length \<circ> pa_frames" by (simp add: fun_eq_iff path_bytes_def)
  then show ?thesis using m True
    by (intro exI[of _ "min m snapshot_path_rows"]) (auto simp: project_paths_def Let_def comp_def)
next
  case False
  then show ?thesis by (intro exI[of _ 0]) (simp add: project_paths_def)
qed

section \<open>No figure missing without a reason\<close>

definition group_reason :: "withheld \<Rightarrow> bool" where
  "group_reason w = (case w of WGroupsNeedTree _ _ \<Rightarrow> True | WGroupsNoKeys \<Rightarrow> True | WGroupsUnwindowed _ _ \<Rightarrow> True | _ \<Rightarrow> False)"

lemma sampled_view_reasons:
  "set (snd (sampled_view samples cutoff tree)) =
     (if ps_durations_ms (fst (sampled_view samples cutoff tree)) \<noteq> None then {}
      else if tr_complete samples then {WDurationsCapped (ps_sample_count (fst (sampled_view samples cutoff tree)))}
      else {WDurationsIncomplete})
     \<union> (if ps_self_ms (fst (sampled_view samples cutoff tree)) \<noteq> None then {} else if tree then {WSelfNotNested} else {WSelfNoParents})"
  by (auto simp: sampled_view_def Let_def split: prod.split)

lemma group_rows_reasons:
  "w \<in> set (snd (group_rows quantile d snap opts cutoff)) \<Longrightarrow> group_reason w"
  "op_group_by opts \<noteq> GNone \<Longrightarrow> snd (fst (group_rows quantile d snap opts cutoff)) = None \<longleftrightarrow> snd (group_rows quantile d snap opts cutoff) \<noteq> []"
  by (cases "op_group_by opts"; auto simp: group_rows_def Let_def group_reason_def is_sample_derived_def split: if_splits)+

lemma ingest_view_reasons:
  "set (snd (ingest_view snap basis)) =
     (if fst (ingest_view snap basis) \<noteq> None then {} else if basis = NoWindow then {WIngestNoWindow} else {WIngestGone})"
  by (cases basis) (simp_all add: ingest_view_def Let_def)

definition warmup_of :: "profile_options \<Rightarrow> f64 option" where
  "warmup_of opts = (case op_skip_warmup_ms opts of None \<Rightarrow> None | Some ms \<Rightarrow> if f64_lt (Fin 0) ms then Some ms else None)"

definition cutoff_of :: "'s collector_inner \<Rightarrow> profile_options \<Rightarrow> int option" where
  "cutoff_of snap opts = (case warmup_of opts of None \<Rightarrow> None | Some ms \<Rightarrow> warmup_cutoff_ns (ci_samples snap) ms)"

lemma profile_fields:
  fixes quantile d snap basis opts read_at
  defines "r \<equiv> profile quantile d snap basis opts read_at" and "w \<equiv> warmup_of opts" and "cut_at \<equiv> cutoff_of snap opts"
    and "view \<equiv> sampled_view (ci_samples snap) (cutoff_of snap opts) (has_tree (cd_level d))"
    and "groups \<equiv> group_rows quantile d snap opts (cutoff_of snap opts)"
  shows "rp_exact r = (if w \<noteq> None then None else Some (exact_view (ci_total snap)))"
    and "rp_estimated r = (if w \<noteq> None then None else Some (estimated_view quantile (ci_total snap) ''collector''))"
    and "rp_sampled r = (if has_samples (cd_level d) then Some (fst view) else None)"
    and "rp_groups_total r = (if op_group_by opts = GNone then None else snd (fst groups))"
    and "rp_ingest r = fst (ingest_view snap basis)"
    and "rp_excluded_by_warmup r = None \<longleftrightarrow> cut_at = None"
    and "rp_grouped_by r = None \<longleftrightarrow> op_group_by opts = GNone"
    and "rp_suppressed r =
      (if w \<noteq> None \<and> cut_at = None then [WExcludedByWarmup (has_samples (cd_level d))] else [])
      @ (if w \<noteq> None then [WExactUnwindowed, WEstimatedUnwindowed] else [])
      @ (if has_samples (cd_level d) then snd view else [WNoSamples (cd_level d)])
      @ (if op_group_by opts = GNone then [] else snd groups) @ snd (ingest_view snap basis)"
  unfolding r_def profile_def Let_def warmup_of_def[symmetric] cutoff_of_def[symmetric]
  by (simp_all add: w_def cut_at_def view_def groups_def case_prod_beta)

lemma reasons_apart [simp]:
  "WExactUnwindowed \<notin> set (snd (sampled_view s c tr))" "WEstimatedUnwindowed \<notin> set (snd (sampled_view s c tr))"
  "WExcludedByWarmup b \<notin> set (snd (sampled_view s c tr))" "WNoSamples l \<notin> set (snd (sampled_view s c tr))"
  "WIngestGone \<notin> set (snd (sampled_view s c tr))" "WIngestNoWindow \<notin> set (snd (sampled_view s c tr))"
  "w \<in> set (snd (sampled_view s c tr)) \<Longrightarrow> \<not> group_reason w"
  by (auto simp: sampled_view_reasons group_reason_def split: if_splits)

lemma ingest_apart [simp]:
  "w \<in> set (snd (ingest_view snap basis)) \<longleftrightarrow>
     w = WIngestNoWindow \<and> fst (ingest_view snap basis) = None \<and> basis = NoWindow
     \<or> w = WIngestGone \<and> fst (ingest_view snap basis) = None \<and> basis \<noteq> NoWindow"
  by (auto simp: ingest_view_reasons)

lemma group_reasons_only [simp]: "\<not> group_reason w \<Longrightarrow> w \<notin> set (snd (group_rows quantile d snap opts cutoff))"
  using group_rows_reasons(1) by blast

lemma not_group_reason [simp]:
  "\<not> group_reason WExactUnwindowed" "\<not> group_reason WEstimatedUnwindowed" "\<not> group_reason (WExcludedByWarmup b)"
  "\<not> group_reason (WNoSamples l)" "\<not> group_reason WIngestGone" "\<not> group_reason WIngestNoWindow"
  "\<not> group_reason WDurationsIncomplete" "\<not> group_reason (WDurationsCapped n)" "\<not> group_reason WSelfNoParents" "\<not> group_reason WSelfNotNested"
  by (simp_all add: group_reason_def)

lemma quantile_sorted_None [simp]: "quantile_sorted xs q = None \<longleftrightarrow> xs = []"
  by (simp add: quantile_sorted_def quantile_index_def Let_def)

lemma percentile_ms_None [simp]: "percentile_ms (sort xs) k = None \<longleftrightarrow> length xs = 0"
  by (simp add: percentile_ms_def flip: length_0_conv)

lemma sampled_view_gaps:
  fixes samples cutoff tree
  defines "s \<equiv> fst (sampled_view samples cutoff tree)"
  shows "ps_stddev_ms s = None \<longleftrightarrow> ps_sample_count s < 2" "ps_wall_union_ms s = None \<longleftrightarrow> ps_sample_count s = 0"
    "ps_p50_ms s = None \<longleftrightarrow> ps_sample_count s = 0" "ps_p80_ms s = None \<longleftrightarrow> ps_sample_count s = 0"
    "ps_p95_ms s = None \<longleftrightarrow> ps_sample_count s = 0" "ps_p99_ms s = None \<longleftrightarrow> ps_sample_count s = 0"
    "ps_achieved_concurrency s = None \<longleftrightarrow> fst (union_len (cl_intervals (columns_of cutoff (tier_records samples)))) \<le> 0"
  by (simp_all add: s_def sampled_view_def sample_stddev_ms_def Let_def case_prod_beta not_less del: length_0_conv)

lemma exact_view_gaps: "px_avg_ms (exact_view e) = None \<longleftrightarrow> well_formed_count e = 0"
  by (simp add: exact_view_def avg_ns_def Let_def)


end
