(* ===== verification/Log_Profile.thy ===== *)
theory Log_Profile
  imports Rows Cursor_Read
begin

text \<open>
  Summaries of the records a read visits: their distribution along an axis (\<open>logs/profile.rs\<close>) and the
  fields they carry (\<open>logs/fields.rs\<close>). Both fold records into maps with a cap on their keys. A
  \<open>HashMap\<close> is an association list whose order stands for the unspecified iteration order. The
  rendering of a JSON value that is no string is a field of \<open>match_env\<close>, whether a JSON number is a
  float a parameter. The reason an axis is announced as absent is a constructor for its text.
\<close>

section \<open>Axes\<close>

datatype axis = AxNone | AxLevel | AxMessage | AxHost | AxFacility | AxFile | AxLine | AxTraceId | AxSpanId | AxField

definition axis_all :: "axis list" where
  "axis_all = [AxNone, AxLevel, AxMessage, AxHost, AxFacility, AxFile, AxLine, AxTraceId, AxSpanId, AxField]"

definition axis_as_str :: "axis \<Rightarrow> string" where
  "axis_as_str a =
     (case a of AxNone \<Rightarrow> ''none'' | AxLevel \<Rightarrow> ''level'' | AxMessage \<Rightarrow> ''message'' | AxHost \<Rightarrow> ''host''
      | AxFacility \<Rightarrow> ''facility'' | AxFile \<Rightarrow> ''file'' | AxLine \<Rightarrow> ''line'' | AxTraceId \<Rightarrow> ''trace_id''
      | AxSpanId \<Rightarrow> ''span_id'' | AxField \<Rightarrow> ''field'')"

definition axis_parse :: "string \<Rightarrow> axis option" where
  "axis_parse s =
     (if s = ''none'' \<or> s = '''' then Some AxNone else if s = ''level'' then Some AxLevel
      else if s = ''message'' then Some AxMessage else if s = ''host'' then Some AxHost
      else if s = ''facility'' then Some AxFacility else if s = ''file'' then Some AxFile
      else if s = ''line'' then Some AxLine else if s = ''trace_id'' then Some AxTraceId
      else if s = ''span_id'' then Some AxSpanId else if s = ''field'' then Some AxField else None)"

definition member_label :: "axis \<Rightarrow> string list \<Rightarrow> nat \<Rightarrow> string" where
  "member_label a keys i = (if a = AxField then (if i < length keys then keys ! i else []) else axis_as_str a)"

definition suppressed_field :: "axis \<Rightarrow> nat \<Rightarrow> string" where
  "suppressed_field a i = (if a = AxField then ''group_keys['' @ nat_to_string i @ '']'' else ''group_by'')"

section \<open>Keys\<close>

datatype member_key = KValue string | KAbsent | KOverflow

definition member_text :: "member_key \<Rightarrow> string" where
  "member_text m = (case m of KValue s \<Rightarrow> s | KAbsent \<Rightarrow> absent_label | KOverflow \<Rightarrow> overflow_label)"

datatype reserved = RAbsent | ROverflow

definition reserved_kind :: "member_key list \<Rightarrow> reserved option" where
  "reserved_kind key =
     (if list_all (\<lambda>m. m = KAbsent) key then Some RAbsent
      else if list_all (\<lambda>m. m = KOverflow) key then Some ROverflow else None)"

definition key_label :: "member_key list \<Rightarrow> string" where
  "key_label key = (if length key = 1 then member_text (hd key) else join_with '' / '' (map member_text key))"

definition key_cap :: nat where "key_cap = default_group_value_cap"

section \<open>Accumulators\<close>

record level_counts =
  lc_trace :: nat
  lc_debug :: nat
  lc_info :: nat
  lc_warn :: nat
  lc_error :: nat

definition level_counts_default :: level_counts where
  "level_counts_default = \<lparr>lc_trace = 0, lc_debug = 0, lc_info = 0, lc_warn = 0, lc_error = 0\<rparr>"

definition bump_level :: "level \<Rightarrow> level_counts \<Rightarrow> level_counts" where
  "bump_level l c =
     (case l of
        Trace \<Rightarrow> c\<lparr>lc_trace := lc_trace c + 1\<rparr> | Debug \<Rightarrow> c\<lparr>lc_debug := lc_debug c + 1\<rparr>
      | Info \<Rightarrow> c\<lparr>lc_info := lc_info c + 1\<rparr> | Warn \<Rightarrow> c\<lparr>lc_warn := lc_warn c + 1\<rparr>
      | Error \<Rightarrow> c\<lparr>lc_error := lc_error c + 1\<rparr>)"

record group_acc =
  ga_count :: nat
  ga_levels :: level_counts
  ga_first_seq :: u64
  ga_first_time :: int
  ga_first_exemplar :: string
  ga_last_seq :: u64
  ga_last_time :: int
  ga_last_exemplar :: string

definition acc_new :: "log_entry \<Rightarrow> group_acc" where
  "acc_new e =
     \<lparr>ga_count = 1, ga_levels = bump_level (le_level e) level_counts_default, ga_first_seq = le_seq e,
      ga_first_time = le_timestamp e, ga_first_exemplar = le_message e, ga_last_seq = le_seq e,
      ga_last_time = le_timestamp e, ga_last_exemplar = le_message e\<rparr>"

definition acc_observe :: "log_entry \<Rightarrow> group_acc \<Rightarrow> group_acc" where
  "acc_observe e a =
     (let a1 = a\<lparr>ga_count := ga_count a + 1, ga_levels := bump_level (le_level e) (ga_levels a)\<rparr>;
          a2 = (if le_seq e < ga_first_seq a1
                then a1\<lparr>ga_first_seq := le_seq e, ga_first_time := le_timestamp e, ga_first_exemplar := le_message e\<rparr> else a1)
      in if ga_last_seq a2 < le_seq e
         then a2\<lparr>ga_last_seq := le_seq e, ga_last_time := le_timestamp e, ga_last_exemplar := le_message e\<rparr> else a2)"

record group_map =
  gm_axis :: axis
  gm_keys :: "string list"
  gm_accs :: "(member_key list \<times> group_acc) list"
  gm_capped :: bool
  gm_present :: "nat list"
  gm_structured :: "nat list"
  gm_alt :: "nat list"
  gm_levels :: level_counts
  gm_matched :: nat
  gm_first_seq :: "u64 option"
  gm_last_seq :: "u64 option"
  gm_first_time :: "int option"
  gm_last_time :: "int option"

record bounds =
  bd_first_seq :: "u64 option"
  bd_last_seq :: "u64 option"
  bd_first_time :: "int option"
  bd_last_time :: "int option"

datatype extracted = XValue string | XMissing | XStructured

definition members_of :: "axis \<Rightarrow> string list \<Rightarrow> nat" where
  "members_of a keys = (if a = AxField then max (length keys) 1 else 1)"

definition group_map_new :: "axis \<Rightarrow> string list \<Rightarrow> group_map" where
  "group_map_new a keys =
     \<lparr>gm_axis = a, gm_keys = keys, gm_accs = [], gm_capped = False, gm_present = replicate (members_of a keys) 0,
      gm_structured = replicate (members_of a keys) 0, gm_alt = replicate (members_of a keys) 0,
      gm_levels = level_counts_default, gm_matched = 0, gm_first_seq = None, gm_last_seq = None, gm_first_time = None,
      gm_last_time = None\<rparr>"

definition is_dimension :: "json \<Rightarrow> bool" where
  "is_dimension v = (case v of JString _ \<Rightarrow> True | JNumber _ _ \<Rightarrow> True | JBool _ \<Rightarrow> True | _ \<Rightarrow> False)"

definition extract_member :: "match_env \<Rightarrow> axis \<Rightarrow> string list \<Rightarrow> log_entry \<Rightarrow> nat \<Rightarrow> extracted" where
  "extract_member env a keys e i =
     (let of_opt = (\<lambda>x. case x of Some s \<Rightarrow> XValue s | None \<Rightarrow> XMissing)
      in case a of
           AxLevel \<Rightarrow> XValue (level_display (le_level e))
         | AxMessage \<Rightarrow> XValue (le_message e)
         | AxHost \<Rightarrow> of_opt (if le_host e = [] then None else Some (le_host e))
         | AxFacility \<Rightarrow> of_opt (le_facility e)
         | AxFile \<Rightarrow> of_opt (le_file e)
         | AxLine \<Rightarrow> of_opt (map_option nat_to_string (le_line e))
         | AxTraceId \<Rightarrow> of_opt (map_option hex32 (le_trace_id e))
         | AxSpanId \<Rightarrow> of_opt (map_option hex16 (le_span_id e))
         | AxField \<Rightarrow>
             if i < length keys
             then (case map_of (le_additional_fields e) (keys ! i) of
                     None \<Rightarrow> XMissing
                   | Some v \<Rightarrow> if is_dimension v then XValue (field_text env v) else XStructured)
             else XMissing
         | AxNone \<Rightarrow> XMissing)"

definition member_of :: "extracted \<Rightarrow> member_key" where
  "member_of x = (case x of XValue s \<Rightarrow> KValue s | _ \<Rightarrow> KAbsent)"

definition add_where :: "bool list \<Rightarrow> nat list \<Rightarrow> nat list" where
  "add_where hits ns = map (\<lambda>(h, n). if h then n + 1 else n) (zip hits ns)"

text \<open>The ends of the population move with the record that holds them.\<close>

definition observe_ends :: "log_entry \<Rightarrow> group_map \<Rightarrow> group_map" where
  "observe_ends e g =
     (let g1 = g\<lparr>gm_matched := gm_matched g + 1, gm_levels := bump_level (le_level e) (gm_levels g)\<rparr>;
          g2 = (if (case gm_first_seq g1 of None \<Rightarrow> True | Some s \<Rightarrow> le_seq e < s)
                then g1\<lparr>gm_first_seq := Some (le_seq e), gm_first_time := Some (le_timestamp e)\<rparr> else g1)
      in if (case gm_last_seq g2 of None \<Rightarrow> True | Some s \<Rightarrow> s < le_seq e)
         then g2\<lparr>gm_last_seq := Some (le_seq e), gm_last_time := Some (le_timestamp e)\<rparr> else g2)"

definition file_under :: "member_key list \<Rightarrow> log_entry \<Rightarrow> group_map \<Rightarrow> group_map" where
  "file_under key e g =
     (let fold_it = (reserved_kind key = None \<and> map_of (gm_accs g) key = None \<and> key_cap \<le> length (gm_accs g));
          k = (if fold_it then replicate (length key) KOverflow else key);
          a = (case map_of (gm_accs g) k of Some a \<Rightarrow> acc_observe e a | None \<Rightarrow> acc_new e)
      in g\<lparr>gm_capped := gm_capped g \<or> fold_it, gm_accs := hm_insert k a (gm_accs g)\<rparr>)"

definition group_observe :: "match_env \<Rightarrow> log_entry \<Rightarrow> group_map \<Rightarrow> group_map" where
  "group_observe env e g =
     (let g1 = observe_ends e g
      in if gm_axis g1 = AxNone then g1
         else let g2 = (if gm_axis g1 \<noteq> AxField \<and> map_of (le_additional_fields e) (axis_as_str (gm_axis g1)) \<noteq> None
                        then g1\<lparr>gm_alt := (gm_alt g1)[0 := gm_alt g1 ! 0 + 1]\<rparr> else g1);
                  xs = map (extract_member env (gm_axis g2) (gm_keys g2) e) [0..<length (gm_present g2)];
                  g3 = g2\<lparr>gm_present := add_where (map (\<lambda>x. case x of XValue _ \<Rightarrow> True | _ \<Rightarrow> False) xs) (gm_present g2),
                          gm_structured := add_where (map (\<lambda>x. x = XStructured) xs) (gm_structured g2)\<rparr>
              in file_under (map member_of xs) e g3)"

definition group_bounds :: "group_map \<Rightarrow> bounds" where
  "group_bounds g =
     \<lparr>bd_first_seq = gm_first_seq g, bd_last_seq = gm_last_seq g, bd_first_time = gm_first_time g, bd_last_time = gm_last_time g\<rparr>"

section \<open>Rows\<close>

datatype axis_reason =
    NotADimension nat nat string bool
  | NeverAppeared string nat

record axis_withheld =
  aw_field :: string
  aw_reason :: axis_reason
  aw_remedy :: "(string \<times> f64) option"

text \<open>A remedy names the additional field and the share of records it covers.\<close>

definition member_withheld :: "group_map \<Rightarrow> nat \<Rightarrow> axis_withheld list" where
  "member_withheld g i =
     (let name = member_label (gm_axis g) (gm_keys g) i; present = gm_present g ! i; structured = gm_structured g ! i
      in if 0 < structured
         then [\<lparr>aw_field = suppressed_field (gm_axis g) i,
                aw_reason = NotADimension structured (gm_matched g) name (present = 0), aw_remedy = None\<rparr>]
         else if present = 0
         then [\<lparr>aw_field = suppressed_field (gm_axis g) i, aw_reason = NeverAppeared name (gm_matched g),
                aw_remedy =
                  (if 0 < gm_alt g ! i
                   then Some (name, f64_div (f64_mul (Fin 100) (f64_of_nat (gm_alt g ! i))) (f64_of_nat (gm_matched g)))
                   else None)\<rparr>]
         else [])"

definition group_suppressed :: "group_map \<Rightarrow> axis_withheld list" where
  "group_suppressed g =
     (if gm_matched g = 0 \<or> gm_axis g = AxNone then []
      else concat (map (member_withheld g) [0..<length (gm_present g)]))"

record log_group =
  lg_key :: string
  lg_reserved :: "reserved option"
  lg_count :: nat
  lg_levels :: level_counts
  lg_first_seq :: u64
  lg_first_time :: int
  lg_first_exemplar :: string
  lg_last_seq :: u64
  lg_last_time :: int
  lg_last_exemplar :: string

definition log_row :: "member_key list \<times> group_acc \<Rightarrow> log_group" where
  "log_row ka =
     (case ka of (key, a) \<Rightarrow>
        \<lparr>lg_key = key_label key, lg_reserved = reserved_kind key, lg_count = ga_count a, lg_levels = ga_levels a,
         lg_first_seq = ga_first_seq a, lg_first_time = ga_first_time a, lg_first_exemplar = ga_first_exemplar a,
         lg_last_seq = ga_last_seq a, lg_last_time = ga_last_time a, lg_last_exemplar = ga_last_exemplar a\<rparr>)"

definition log_before :: "log_group \<Rightarrow> log_group \<Rightarrow> bool" where
  "log_before x y =
     (lg_count y < lg_count x
      \<or> lg_count x = lg_count y
          \<and> (str_less (lg_key x) (lg_key y) \<or> lg_key x = lg_key y \<and> lg_first_seq x < lg_first_seq y))"

definition reserved_rank :: "reserved option \<Rightarrow> nat" where
  "reserved_rank r = (if r = Some ROverflow then 1 else 0)"

definition group_finish :: "group_map \<Rightarrow> nat \<Rightarrow> log_group list \<times> nat" where
  "group_finish g top_n =
     (if gm_axis g = AxNone then ([], 0)
      else let rows = map log_row (gm_accs g);
               real = filter (\<lambda>r. lg_reserved r = None) rows; kept = filter (\<lambda>r. lg_reserved r \<noteq> None) rows
           in (take top_n (sort_by log_before real)
               @ sort_by (\<lambda>x y. reserved_rank (lg_reserved x) < reserved_rank (lg_reserved y)) kept,
               length (gm_accs g)))"

definition group_summarize :: "match_env \<Rightarrow> log_entry list \<Rightarrow> axis \<Rightarrow> string list \<Rightarrow> nat \<Rightarrow> log_group list \<times> nat" where
  "group_summarize env es a keys top_n = group_finish (fold (group_observe env) es (group_map_new a keys)) top_n"

section \<open>Fields\<close>

datatype field_source = Builtin | Additional | Promoted
datatype value_kind = VString | VInteger | VFloat | VBool | VNumber | VMixed | VOther

definition name_cap :: nat where "name_cap = default_group_value_cap"
definition distinct_cap :: nat where "distinct_cap = default_group_value_cap"

definition kind_of :: "(json \<Rightarrow> bool) \<Rightarrow> json \<Rightarrow> value_kind" where
  "kind_of is_f64 v =
     (case v of
        JString _ \<Rightarrow> VString | JBool _ \<Rightarrow> VBool
      | JNumber _ _ \<Rightarrow> if is_f64 v then VFloat else VInteger
      | _ \<Rightarrow> VOther)"

definition merge_kind :: "value_kind \<Rightarrow> value_kind \<Rightarrow> value_kind" where
  "merge_kind a b =
     (if a = b then a
      else if a \<in> {VInteger, VFloat, VNumber} \<and> b \<in> {VInteger, VFloat, VNumber} then VNumber else VMixed)"

type_synonym row_key = "field_source \<times> string"

record field_acc =
  fa_present :: nat
  fa_counts :: "(string \<times> nat) list"
  fa_capped :: bool
  fa_kind :: "value_kind option"

definition field_acc_default :: field_acc where
  "field_acc_default = \<lparr>fa_present = 0, fa_counts = [], fa_capped = False, fa_kind = None\<rparr>"

definition field_acc_observe :: "string \<Rightarrow> value_kind \<Rightarrow> field_acc \<Rightarrow> field_acc" where
  "field_acc_observe shown kind a =
     (let a1 = a\<lparr>fa_present := fa_present a + 1,
                 fa_kind := Some (case fa_kind a of Some k \<Rightarrow> merge_kind k kind | None \<Rightarrow> kind)\<rparr>
      in if distinct_cap \<le> length (fa_counts a1) \<and> map_of (fa_counts a1) shown = None then a1\<lparr>fa_capped := True\<rparr>
         else a1\<lparr>fa_counts := hm_insert shown ((case map_of (fa_counts a1) shown of None \<Rightarrow> 0 | Some n \<Rightarrow> n) + 1) (fa_counts a1)\<rparr>)"

record field_map =
  fm_accs :: "(row_key \<times> field_acc) list"
  fm_names_capped :: bool

definition builtins :: "(string \<times> field_source \<times> string option \<times> value_kind) list" where
  "builtins =
     [(''level'', Builtin, Some ''l'', VString), (''message'', Builtin, Some ''m'', VString),
      (''host'', Builtin, Some ''h'', VString), (''facility'', Builtin, Some ''fa'', VString),
      (''file'', Builtin, Some ''fi'', VString), (''line'', Builtin, Some ''ln'', VInteger),
      (''trace_id'', Promoted, None, VString), (''span_id'', Promoted, None, VString)]"

definition find_builtin :: "field_source \<Rightarrow> string \<Rightarrow> (string \<times> field_source \<times> string option \<times> value_kind) option" where
  "find_builtin source name = find (\<lambda>(n, s, _). n = name \<and> s = source) builtins"

definition builtin_kind :: "field_source \<Rightarrow> string \<Rightarrow> value_kind option" where
  "builtin_kind source name = map_option (\<lambda>(_, _, _, k). k) (find_builtin source name)"

definition field_map_new :: field_map where
  "field_map_new =
     \<lparr>fm_accs = fold (\<lambda>(name, source, _, kind) m.
          if map_of m (source, name) = None then hm_insert (source, name) (field_acc_default\<lparr>fa_kind := Some kind\<rparr>) m else m) builtins [],
      fm_names_capped = False\<rparr>"

definition field_bump :: "string \<Rightarrow> field_source \<Rightarrow> string \<Rightarrow> value_kind \<Rightarrow> field_map \<Rightarrow> field_map" where
  "field_bump name source shown kind m =
     (case map_of (fm_accs m) (source, name) of
        None \<Rightarrow>
          if name_cap \<le> length (fm_accs m) then m\<lparr>fm_names_capped := True\<rparr>
          else m\<lparr>fm_accs := hm_insert (source, name) (field_acc_observe shown kind field_acc_default) (fm_accs m)\<rparr>
      | Some a \<Rightarrow> m\<lparr>fm_accs := hm_insert (source, name) (field_acc_observe shown kind a) (fm_accs m)\<rparr>)"

text \<open>The fields of a record, in the order they are observed.\<close>

definition fields_of :: "match_env \<Rightarrow> (json \<Rightarrow> bool) \<Rightarrow> log_entry \<Rightarrow> (row_key \<times> string \<times> value_kind) list" where
  "fields_of env is_f64 e =
     [((Builtin, ''level''), level_display (le_level e), VString), ((Builtin, ''message''), le_message e, VString)]
     @ (if le_host e = [] then [] else [((Builtin, ''host''), le_host e, VString)])
     @ (case le_facility e of None \<Rightarrow> [] | Some v \<Rightarrow> [((Builtin, ''facility''), v, VString)])
     @ (case le_file e of None \<Rightarrow> [] | Some v \<Rightarrow> [((Builtin, ''file''), v, VString)])
     @ (case le_line e of None \<Rightarrow> [] | Some v \<Rightarrow> [((Builtin, ''line''), nat_to_string v, VInteger)])
     @ (case le_trace_id e of None \<Rightarrow> [] | Some t \<Rightarrow> [((Promoted, ''trace_id''), hex32 t, VString)])
     @ (case le_span_id e of None \<Rightarrow> [] | Some s \<Rightarrow> [((Promoted, ''span_id''), hex16 s, VString)])
     @ map (\<lambda>(k, v). ((Additional, k), field_text env v, kind_of is_f64 v)) (le_additional_fields e)"

definition field_observe :: "match_env \<Rightarrow> (json \<Rightarrow> bool) \<Rightarrow> log_entry \<Rightarrow> field_map \<Rightarrow> field_map" where
  "field_observe env is_f64 e m =
     fold (\<lambda>((source, name), shown, kind). field_bump name source shown kind) (fields_of env is_f64 e) m"

record field_stats =
  fs_field :: string
  fs_source :: field_source
  fs_selector :: "string option"
  fs_present :: nat
  fs_coverage_pct :: f64
  fs_distinct :: "nat option"
  fs_top_values :: "(string \<times> nat) list"
  fs_kind :: value_kind

definition value_before :: "string \<times> nat \<Rightarrow> string \<times> nat \<Rightarrow> bool" where
  "value_before x y = (snd y < snd x \<or> snd x = snd y \<and> str_less (fst x) (fst y))"

definition field_row :: "(string \<Rightarrow> bool) \<Rightarrow> nat \<Rightarrow> nat \<Rightarrow> row_key \<times> field_acc \<Rightarrow> field_stats" where
  "field_row rx matched top_values ka =
     (case ka of ((source, name), a) \<Rightarrow>
        \<lparr>fs_field = name, fs_source = source,
         fs_selector =
           (if source = Additional then additional_field_selector rx name
            else (case find_builtin source name of None \<Rightarrow> None | Some (_, _, sel, _) \<Rightarrow> sel)),
         fs_present = fa_present a,
         fs_coverage_pct =
           (if matched = 0 then Fin 0 else f64_div (f64_mul (Fin 100) (f64_of_nat (fa_present a))) (f64_of_nat matched)),
         fs_distinct = (if fa_capped a then None else Some (length (fa_counts a))),
         fs_top_values = take top_values (sort_by value_before (fa_counts a)),
         fs_kind =
           (case fa_kind a of Some k \<Rightarrow> k
            | None \<Rightarrow> (case builtin_kind source name of Some k \<Rightarrow> k | None \<Rightarrow> VOther))\<rparr>)"

definition source_debug :: "field_source \<Rightarrow> string" where
  "source_debug s = (case s of Builtin \<Rightarrow> ''Builtin'' | Additional \<Rightarrow> ''Additional'' | Promoted \<Rightarrow> ''Promoted'')"

definition field_before :: "field_stats \<Rightarrow> field_stats \<Rightarrow> bool" where
  "field_before x y =
     (fs_present y < fs_present x
      \<or> fs_present x = fs_present y
          \<and> (str_less (fs_field x) (fs_field y)
             \<or> fs_field x = fs_field y \<and> str_less (source_debug (fs_source x)) (source_debug (fs_source y))))"

definition field_finish :: "(string \<Rightarrow> bool) \<Rightarrow> field_map \<Rightarrow> nat \<Rightarrow> nat \<Rightarrow> field_stats list" where
  "field_finish rx m matched top_values = sort_by field_before (map (field_row rx matched top_values) (fm_accs m))"

definition field_summarize :: "match_env \<Rightarrow> (string \<Rightarrow> bool) \<Rightarrow> (json \<Rightarrow> bool) \<Rightarrow> log_entry list \<Rightarrow> nat \<Rightarrow> nat \<Rightarrow> field_stats list" where
  "field_summarize env rx is_f64 es matched top_values =
     field_finish rx (fold (field_observe env is_f64) es field_map_new) matched top_values"

end
