(* ===== verification/Log_Profile_Props.thy ===== *)
theory Log_Profile_Props
  imports Log_Profile
begin

text \<open>
  The rows of a log profile are exact: each record lands in one row, a row other than the overflow row
  describes every record of its key, and the overflow row describes exactly the records whose key has no
  row. The rows of the field map count the records that carry a field.
\<close>

section \<open>One row\<close>

text \<open>What a row should say of the records that fall in it.\<close>

definition aggregate :: "log_entry list \<Rightarrow> group_acc option" where
  "aggregate es = fold (\<lambda>e a. Some (case a of None \<Rightarrow> acc_new e | Some a \<Rightarrow> acc_observe e a)) es None"

lemma aggregate_simps [simp]:
  "aggregate [] = None"
  "aggregate (es @ [e]) = Some (case aggregate es of None \<Rightarrow> acc_new e | Some a \<Rightarrow> acc_observe e a)"
  by (simp_all add: aggregate_def)

lemma aggregate_None [simp]: "aggregate es = None \<longleftrightarrow> es = []"
  by (cases es rule: rev_cases) simp_all

text \<open>The counts of a level, and their total.\<close>

definition level_count :: "level \<Rightarrow> level_counts \<Rightarrow> nat" where
  "level_count l c = (case l of Trace \<Rightarrow> lc_trace c | Debug \<Rightarrow> lc_debug c | Info \<Rightarrow> lc_info c | Warn \<Rightarrow> lc_warn c | Error \<Rightarrow> lc_error c)"

lemma level_count_simps [simp]:
  "level_count l level_counts_default = 0" "level_count l (bump_level l' c) = level_count l c + (if l = l' then 1 else 0)"
  by (cases l; simp add: level_count_def level_counts_default_def) (cases l; cases l'; simp add: level_count_def bump_level_def)

definition first_of :: "log_entry \<Rightarrow> group_acc \<Rightarrow> bool" where
  "first_of e a \<longleftrightarrow> ga_first_seq a = le_seq e \<and> ga_first_time a = le_timestamp e \<and> ga_first_exemplar a = le_message e"

definition last_of :: "log_entry \<Rightarrow> group_acc \<Rightarrow> bool" where
  "last_of e a \<longleftrightarrow> ga_last_seq a = le_seq e \<and> ga_last_time a = le_timestamp e \<and> ga_last_exemplar a = le_message e"

definition describes :: "group_acc \<Rightarrow> log_entry list \<Rightarrow> bool" where
  "describes a es \<longleftrightarrow>
     ga_count a = length es \<and> (\<forall>l. level_count l (ga_levels a) = length (filter (\<lambda>e. le_level e = l) es))
     \<and> (\<exists>e \<in> set es. first_of e a) \<and> (\<forall>e \<in> set es. ga_first_seq a \<le> le_seq e)
     \<and> (\<exists>e \<in> set es. last_of e a) \<and> (\<forall>e \<in> set es. le_seq e \<le> ga_last_seq a)"

lemma describes_new: "describes (acc_new e) [e]"
  by (simp add: describes_def acc_new_def first_of_def last_of_def)

lemma describes_observe:
  assumes "describes a es"
  shows "describes (acc_observe e a) (es @ [e])"
proof -
  have counts: "ga_count (acc_observe e a) = Suc (ga_count a)" "ga_levels (acc_observe e a) = bump_level (le_level e) (ga_levels a)"
    by (simp_all add: acc_observe_def Let_def)
  have first: "if le_seq e < ga_first_seq a then first_of e (acc_observe e a) else \<forall>x. first_of x (acc_observe e a) = first_of x a"
    and last: "if ga_last_seq a < le_seq e then last_of e (acc_observe e a) else \<forall>x. last_of x (acc_observe e a) = last_of x a"
    and seqs: "ga_first_seq (acc_observe e a) = min (ga_first_seq a) (le_seq e)" "ga_last_seq (acc_observe e a) = max (ga_last_seq a) (le_seq e)"
    by (auto simp: acc_observe_def Let_def first_of_def last_of_def)
  have "(\<exists>x \<in> set (es @ [e]). first_of x (acc_observe e a))" using first assms by (auto simp: describes_def split: if_splits)
  moreover have "(\<exists>x \<in> set (es @ [e]). last_of x (acc_observe e a))" using last assms by (auto simp: describes_def split: if_splits)
  moreover have "\<forall>x \<in> set (es @ [e]). ga_first_seq (acc_observe e a) \<le> le_seq x \<and> le_seq x \<le> ga_last_seq (acc_observe e a)"
    using assms by (auto simp: seqs describes_def)
  ultimately show ?thesis using assms by (simp add: describes_def counts)
qed

lemma aggregate_describes: "aggregate es = Some a \<Longrightarrow> describes a es"
proof (induction es arbitrary: a rule: rev_induct)
  case (snoc e es)
  then show ?case using describes_new describes_observe by (cases "aggregate es") auto
qed simp

section \<open>Filing a record\<close>

lemma sum_hm_insert:
  fixes f :: "'v \<Rightarrow> nat"
  shows "distinct (keys_of m) \<Longrightarrow>
    sum_list (map (f \<circ> snd) (hm_insert k v m)) + (case map_of m k of None \<Rightarrow> 0 | Some w \<Rightarrow> f w) = sum_list (map (f \<circ> snd) m) + f v"
  by (induction k v m rule: hm_insert.induct) (auto split: option.splits dest: map_of_SomeD)

text \<open>The state of the map after the records \<open>es\<close>, where \<open>K\<close> is the key of a record and \<open>ov\<close> the overflow key.\<close>

definition filed :: "(log_entry \<Rightarrow> member_key list) \<Rightarrow> member_key list \<Rightarrow> log_entry list \<Rightarrow> (member_key list \<times> group_acc) list \<Rightarrow> bool" where
  "filed K ov es accs \<longleftrightarrow>
     distinct (keys_of accs)
     \<and> (\<forall>k. k \<noteq> ov \<longrightarrow> map_of accs k \<noteq> None \<longrightarrow> map_of accs k = aggregate (filter (\<lambda>e. K e = k) es))
     \<and> (\<forall>e \<in> set es. map_of accs (K e) = None \<longrightarrow> key_cap \<le> length accs \<and> reserved_kind (K e) = None)
     \<and> map_of accs ov = aggregate (filter (\<lambda>e. map_of accs (K e) = None) es)
     \<and> card {k \<in> fst ` set accs. reserved_kind k = None} \<le> key_cap
     \<and> fst ` set accs \<subseteq> insert ov (K ` set es)
     \<and> sum_list (map (ga_count \<circ> snd) accs) = length es"

lemma length_hm_insert: "length (hm_insert k v m) = (if map_of m k = None then Suc (length m) else length m)"
  by (induction k v m rule: hm_insert.induct) auto

lemma acc_counts [simp]: "ga_count (acc_observe e a) = Suc (ga_count a)" "ga_count (acc_new e) = 1"
  by (simp_all add: acc_observe_def acc_new_def Let_def)

lemma add_to_row: "sum_list (map (ga_count \<circ> snd) (hm_insert k (case map_of m k of Some a \<Rightarrow> acc_observe e a | None \<Rightarrow> acc_new e) m))
    = Suc (sum_list (map (ga_count \<circ> snd) m))" if "distinct (keys_of m)"
  using sum_hm_insert[OF that, of ga_count k "case map_of m k of Some a \<Rightarrow> acc_observe e a | None \<Rightarrow> acc_new e"]
  by (cases "map_of m k") simp_all

lemma filed_fold:
  assumes f: "filed K ov es m" and ov: "\<And>e. K e \<noteq> ov" "reserved_kind ov \<noteq> None"
    and fold: "reserved_kind (K e) = None" "map_of m (K e) = None" "key_cap \<le> length m"
    and m': "m' = hm_insert ov (case map_of m ov of Some a \<Rightarrow> acc_observe e a | None \<Rightarrow> acc_new e) m"
  shows "filed K ov (es @ [e]) m' \<and> map_of m' (K e) = None"
proof -
  have same: "map_of m' (K x) = map_of m (K x)" for x using ov(1)[of x] by (simp add: m')
  have "length m \<le> length m'" by (simp add: m' length_hm_insert)
  then have unrowed: "\<forall>x \<in> set (es @ [e]). map_of m' (K x) = None \<longrightarrow> key_cap \<le> length m' \<and> reserved_kind (K x) = None"
    using f fold unfolding same by (auto simp: filed_def)
  have rows: "\<forall>k. k \<noteq> ov \<longrightarrow> map_of m' k \<noteq> None \<longrightarrow> map_of m' k = aggregate (filter (\<lambda>x. K x = k) (es @ [e]))"
    using f fold(2) by (auto simp: filed_def m')
  have overflow: "map_of m' ov = aggregate (filter (\<lambda>x. map_of m' (K x) = None) (es @ [e]))"
    unfolding same using f fold(2) by (simp add: filed_def m' split: option.split)
  have "{k \<in> fst ` set m'. reserved_kind k = None} = {k \<in> fst ` set m. reserved_kind k = None}" using ov(2) by (auto simp: m')
  then show ?thesis using f unrowed rows overflow add_to_row[of m ov e] fold(2) by (auto simp: filed_def m' ov(1))
qed

lemma filed_add:
  assumes f: "filed K ov es m" and ov: "\<And>e. K e \<noteq> ov"
    and room: "reserved_kind (K e) = None \<longrightarrow> map_of m (K e) \<noteq> None \<or> length m < key_cap"
    and m': "m' = hm_insert (K e) (case map_of m (K e) of Some a \<Rightarrow> acc_observe e a | None \<Rightarrow> acc_new e) m"
  shows "filed K ov (es @ [e]) m' \<and> map_of m' (K e) \<noteq> None"
proof -
  have len: "length m \<le> length m'" by (simp add: m' length_hm_insert)
  have own: "map_of m (K e) = aggregate (filter (\<lambda>x. K x = K e) es)"
  proof (cases "map_of m (K e)")
    case None
    have "K x \<noteq> K e" if "x \<in> set es" for x
    proof
      assume eq: "K x = K e"
      then have "key_cap \<le> length m" "reserved_kind (K e) = None" using f that None unfolding filed_def by metis+
      then show False using room None by simp
    qed
    then have "filter (\<lambda>x. K x = K e) es = []" by (simp add: filter_empty_conv)
    then show ?thesis using None by simp
  next
    case (Some a)
    then show ?thesis using f ov[of e] unfolding filed_def by simp
  qed
  have seen: "map_of m' (K x) = None \<longleftrightarrow> map_of m (K x) = None" if "x \<in> set es" for x
  proof -
    have "filter (\<lambda>x. K x = K e) es \<noteq> []" if "K x = K e" using that \<open>x \<in> set es\<close> by (auto simp: filter_empty_conv)
    then show ?thesis using own by (auto simp: m')
  qed
  have rows: "\<forall>k. k \<noteq> ov \<longrightarrow> map_of m' k \<noteq> None \<longrightarrow> map_of m' k = aggregate (filter (\<lambda>x. K x = k) (es @ [e]))"
  proof (intro allI impI)
    fix k assume k: "k \<noteq> ov" "map_of m' k \<noteq> None"
    show "map_of m' k = aggregate (filter (\<lambda>x. K x = k) (es @ [e]))"
    proof (cases "k = K e")
      case True
      then show ?thesis by (simp add: m' own split: option.split)
    next
      case False
      then show ?thesis using f k unfolding filed_def by (simp add: m')
    qed
  qed
  have unrowed: "key_cap \<le> length m' \<and> reserved_kind (K x) = None" if x: "x \<in> set (es @ [e])" "map_of m' (K x) = None" for x
  proof -
    have "x \<in> set es" using x by (auto simp: m')
    then have "key_cap \<le> length m \<and> reserved_kind (K x) = None" using f x(2) seen unfolding filed_def by blast
    then show ?thesis using len by simp
  qed
  have "filter (\<lambda>x. map_of m' (K x) = None) es = filter (\<lambda>x. map_of m (K x) = None) es" using seen by (auto intro: filter_cong)
  then have overflow: "map_of m' ov = aggregate (filter (\<lambda>x. map_of m' (K x) = None) (es @ [e]))"
    using f ov[of e] by (simp add: filed_def m')
  have "card {k \<in> fst ` set m'. reserved_kind k = None} \<le> key_cap"
  proof (cases "reserved_kind (K e) = None \<and> map_of m (K e) = None")
    case True
    have "card {k \<in> fst ` set m'. reserved_kind k = None} \<le> card (fst ` set m')" by (auto intro: card_mono)
    also have "\<dots> \<le> length m'" by (metis card_length list.set_map length_map)
    also have "\<dots> \<le> key_cap" using True room by (simp add: m' length_hm_insert)
    finally show ?thesis .
  next
    case False
    then have "{k \<in> fst ` set m'. reserved_kind k = None} = {k \<in> fst ` set m. reserved_kind k = None}"
      by (auto simp: m' map_of_eq_None_iff)
    then show ?thesis using f by (simp add: filed_def)
  qed
  moreover have "distinct (keys_of m')" "fst ` set m' \<subseteq> insert ov (K ` set (es @ [e]))" "sum_list (map (ga_count \<circ> snd) m') = length (es @ [e])"
    using f add_to_row[of m "K e" e] by (auto simp: filed_def m')
  ultimately show ?thesis using rows unrowed overflow unfolding filed_def by (simp add: m')
qed

section \<open>The map after a walk\<close>

abbreviation profiled :: "match_env \<Rightarrow> axis \<Rightarrow> string list \<Rightarrow> log_entry list \<Rightarrow> group_map" where
  "profiled env a keys es \<equiv> fold (group_observe env) es (group_map_new a keys)"

definition key_of :: "match_env \<Rightarrow> axis \<Rightarrow> string list \<Rightarrow> log_entry \<Rightarrow> member_key list" where
  "key_of env a keys e = map (member_of \<circ> extract_member env a keys e) [0..<members_of a keys]"

definition overflow_key :: "axis \<Rightarrow> string list \<Rightarrow> member_key list" where
  "overflow_key a keys = replicate (members_of a keys) KOverflow"

lemma members_pos: "members_of a keys \<noteq> 0"
  by (auto simp: members_of_def max_def)

lemma key_of_facts:
  "length (key_of env a keys e) = members_of a keys" "key_of env a keys e \<noteq> overflow_key a keys" "reserved_kind (overflow_key a keys) \<noteq> None"
proof -
  obtain n where n: "members_of a keys = Suc n" using members_pos not0_implies_Suc by blast
  show "length (key_of env a keys e) = members_of a keys" by (simp add: key_of_def)
  have "hd (key_of env a keys e) \<noteq> KOverflow" by (simp add: key_of_def n upt_conv_Cons member_of_def split: extracted.split del: upt_Suc)
  then show "key_of env a keys e \<noteq> overflow_key a keys" by (auto simp: overflow_key_def n)
  show "reserved_kind (overflow_key a keys) \<noteq> None" by (simp add: reserved_kind_def overflow_key_def n list_all_iff)
qed

lemma observe_ends_keeps [simp]:
  "gm_axis (observe_ends e g) = gm_axis g" "gm_keys (observe_ends e g) = gm_keys g" "gm_present (observe_ends e g) = gm_present g"
  "gm_accs (observe_ends e g) = gm_accs g" "gm_capped (observe_ends e g) = gm_capped g" "gm_structured (observe_ends e g) = gm_structured g"
  by (simp_all add: observe_ends_def Let_def)

lemma file_under_keeps [simp]:
  "gm_axis (file_under k e g) = gm_axis g" "gm_keys (file_under k e g) = gm_keys g" "gm_present (file_under k e g) = gm_present g"
  "gm_structured (file_under k e g) = gm_structured g" "gm_matched (file_under k e g) = gm_matched g" "gm_levels (file_under k e g) = gm_levels g"
  "gm_first_seq (file_under k e g) = gm_first_seq g" "gm_last_seq (file_under k e g) = gm_last_seq g"
  by (simp_all add: file_under_def Let_def)

lemma length_add_where [simp]: "length (add_where hits ns) = min (length hits) (length ns)"
  by (simp add: add_where_def)

lemma observe_keeps [simp]:
  "gm_axis (group_observe env e g) = gm_axis g" "gm_keys (group_observe env e g) = gm_keys g"
  "length (gm_present (group_observe env e g)) = length (gm_present g)"
  by (simp_all add: group_observe_def Let_def)

lemma profiled_shape [simp]:
  "gm_axis (profiled env a keys es) = a" "gm_keys (profiled env a keys es) = keys" "length (gm_present (profiled env a keys es)) = members_of a keys"
  by (induction es rule: rev_induct) (simp_all add: group_map_new_def)

definition files :: "member_key list \<Rightarrow> log_entry \<Rightarrow> (member_key list \<times> group_acc) list \<Rightarrow> (member_key list \<times> group_acc) list" where
  "files key e m = gm_accs (file_under key e \<lparr>gm_axis = AxNone, gm_keys = [], gm_accs = m, gm_capped = False, gm_present = [],
     gm_structured = [], gm_alt = [], gm_levels = level_counts_default, gm_matched = 0, gm_first_seq = None, gm_last_seq = None,
     gm_first_time = None, gm_last_time = None\<rparr>)"

lemma file_under_accs:
  "gm_accs (file_under key e g) = files key e (gm_accs g)"
  "gm_capped (file_under key e g) \<longleftrightarrow>
     gm_capped g \<or> reserved_kind key = None \<and> map_of (gm_accs g) key = None \<and> key_cap \<le> length (gm_accs g)"
  by (simp_all add: files_def file_under_def Let_def)

lemma observe_accs:
  assumes "a \<noteq> AxNone" and "gm_axis g = a" and "gm_keys g = keys" and "length (gm_present g) = members_of a keys"
  shows "gm_accs (group_observe env e g) = files (key_of env a keys e) e (gm_accs g)"
    and "gm_capped (group_observe env e g) \<longleftrightarrow> gm_capped g \<or>
      reserved_kind (key_of env a keys e) = None \<and> map_of (gm_accs g) (key_of env a keys e) = None \<and> key_cap \<le> length (gm_accs g)"
  using assms by (simp_all add: group_observe_def Let_def file_under_accs key_of_def)

lemma filed_step:
  assumes f: "filed K ov es m" and K: "\<And>e. K e \<noteq> ov" "\<And>e. replicate (length (K e)) KOverflow = ov" and ov: "reserved_kind ov \<noteq> None"
  shows "filed K ov (es @ [e]) (files (K e) e m)
    \<and> (map_of (files (K e) e m) (K e) = None \<longleftrightarrow> reserved_kind (K e) = None \<and> map_of m (K e) = None \<and> key_cap \<le> length m)"
proof (cases "reserved_kind (K e) = None \<and> map_of m (K e) = None \<and> key_cap \<le> length m")
  case True
  then have "files (K e) e m = hm_insert ov (case map_of m ov of Some a \<Rightarrow> acc_observe e a | None \<Rightarrow> acc_new e) m"
    by (simp add: files_def file_under_def Let_def K(2))
  then show ?thesis using filed_fold[OF f K(1) ov, of e] True by simp
next
  case False
  then have "files (K e) e m = hm_insert (K e) (case map_of m (K e) of Some a \<Rightarrow> acc_observe e a | None \<Rightarrow> acc_new e) m"
    by (auto simp: files_def file_under_def Let_def)
  then show ?thesis using filed_add[OF f K(1), of e] False by auto
qed

lemma files_row_stays: "map_of m k \<noteq> None \<Longrightarrow> map_of (files key e m) k \<noteq> None"
  by (simp add: files_def file_under_def Let_def)

lemma files_None:
  assumes f: "filed K ov es m" and K: "\<And>e. K e \<noteq> ov" "\<And>e. replicate (length (K e)) KOverflow = ov"
    and x: "x \<in> set es" and none: "map_of m (K x) = None"
  shows "map_of (files (K e) e m) (K x) = None"
proof -
  have full: "key_cap \<le> length m" "reserved_kind (K x) = None" using f x none unfolding filed_def by blast+
  have "K x \<noteq> ov" "K e \<noteq> ov" by (rule K(1))+
  then show ?thesis using none full by (auto simp: files_def file_under_def Let_def K(2))
qed

lemma profiled_filed:
  assumes a: "a \<noteq> AxNone"
  shows "filed (key_of env a keys) (overflow_key a keys) es (gm_accs (profiled env a keys es))
    \<and> (gm_capped (profiled env a keys es) \<longleftrightarrow> (\<exists>e \<in> set es. map_of (gm_accs (profiled env a keys es)) (key_of env a keys e) = None))"
proof (induction es rule: rev_induct)
  case Nil
  show ?case by (simp add: filed_def group_map_new_def)
next
  case (snoc e es)
  let ?K = "key_of env a keys" and ?ov = "overflow_key a keys" and ?g = "profiled env a keys es"
  let ?m = "gm_accs ?g" and ?m' = "gm_accs (profiled env a keys (es @ [e]))"
  have K: "\<And>e. ?K e \<noteq> ?ov" "\<And>e. replicate (length (?K e)) KOverflow = ?ov" "reserved_kind ?ov \<noteq> None"
    by (simp_all add: key_of_facts overflow_key_def[symmetric])
  have m': "?m' = files (?K e) e ?m" using observe_accs(1)[OF a, of ?g keys] by simp
  note step = filed_step[OF conjunct1[OF snoc] K, of e]
  have "(\<exists>x \<in> set es. map_of ?m' (?K x) = None) \<longleftrightarrow> (\<exists>x \<in> set es. map_of ?m (?K x) = None)"
    unfolding m' using files_None[OF conjunct1[OF snoc] K(1,2)] files_row_stays by metis
  moreover have "gm_capped (profiled env a keys (es @ [e])) \<longleftrightarrow> gm_capped ?g \<or> map_of ?m' (?K e) = None"
    unfolding m' using step observe_accs(2)[OF a, of ?g keys env e] by simp
  ultimately have "gm_capped (profiled env a keys (es @ [e])) \<longleftrightarrow> (\<exists>x \<in> set (es @ [e]). map_of ?m' (?K x) = None)"
    using snoc by auto
  then show ?case using step unfolding m' by blast
qed

lemma row_bound:
  assumes "filed (key_of env a keys) (overflow_key a keys) es m"
  shows "length m \<le> key_cap + 2"
proof -
  let ?R = "{k \<in> fst ` set m. reserved_kind k \<noteq> None}" and ?N = "{k \<in> fst ` set m. reserved_kind k = None}"
  have "k = replicate (members_of a keys) KAbsent \<or> k = overflow_key a keys" if "k \<in> ?R" for k
  proof -
    have "k \<in> insert (overflow_key a keys) (key_of env a keys ` set es)" using that assms unfolding filed_def by blast
    then have "length k = members_of a keys" using key_of_facts(1) by (auto simp: overflow_key_def)
    moreover have "list_all (\<lambda>x. x = KAbsent) k \<or> list_all (\<lambda>x. x = KOverflow) k" using that by (simp add: reserved_kind_def split: if_splits)
    ultimately show ?thesis unfolding overflow_key_def list_all_iff by (metis replicate_eqI)
  qed
  then have "?R \<subseteq> {replicate (members_of a keys) KAbsent, overflow_key a keys}" by (intro subsetI) simp
  then have "card ?R \<le> card {replicate (members_of a keys) KAbsent, overflow_key a keys}" by (rule card_mono[rotated]) simp
  moreover have "card {replicate (members_of a keys) KAbsent, overflow_key a keys} \<le> 2" by (simp add: card_insert_if)
  ultimately have "card ?R \<le> 2" by (rule order_trans)
  moreover have "card ?N \<le> key_cap" using assms unfolding filed_def by (elim conjE)
  moreover have U: "?N \<union> ?R = fst ` set m" by (intro set_eqI) auto
  have "card (fst ` set m) \<le> card ?N + card ?R" using card_Un_le[of ?N ?R] by (simp only: U)
  moreover have "distinct (keys_of m)" using assms unfolding filed_def by (elim conjE)
  then have "card (fst ` set m) = length m" using distinct_card[of "keys_of m"] by simp
  ultimately show ?thesis by linarith
qed

text \<open>
  The rows of a log profile are exact (C38). However many keys there are, each visited record is counted
  in one row. A row other than the overflow row describes all the records of its key, its count, its
  levels and the records at both its ends by seq; the overflow row describes exactly the records whose
  key got no row. The cap is reported exactly when there are such records, and there are never more
  than the cap and the two reserved rows.
\<close>

theorem log_profile_exact:
  assumes "a \<noteq> AxNone" and g: "g = fold (group_observe env) es (group_map_new a keys)"
  shows "(\<forall>k acc. map_of (gm_accs g) k = Some acc \<longrightarrow>
        describes acc (filter (\<lambda>e. if k = overflow_key a keys then map_of (gm_accs g) (key_of env a keys e) = None
                                   else key_of env a keys e = k) es))
    \<and> (gm_capped g \<longleftrightarrow> (\<exists>e \<in> set es. map_of (gm_accs g) (key_of env a keys e) = None))
    \<and> sum_list (map (ga_count \<circ> snd) (gm_accs g)) = length es
    \<and> distinct (map fst (gm_accs g)) \<and> length (gm_accs g) \<le> key_cap + 2"
proof -
  have f: "filed (key_of env a keys) (overflow_key a keys) es (gm_accs g)" and
    "gm_capped g \<longleftrightarrow> (\<exists>e \<in> set es. map_of (gm_accs g) (key_of env a keys e) = None)"
    using profiled_filed[OF assms(1), of env keys es] by (simp_all add: g)
  moreover have "describes acc (filter (\<lambda>e. if k = overflow_key a keys then map_of (gm_accs g) (key_of env a keys e) = None
      else key_of env a keys e = k) es)" if "map_of (gm_accs g) k = Some acc" for k acc
  proof (cases "k = overflow_key a keys")
    case True
    then have "aggregate (filter (\<lambda>e. map_of (gm_accs g) (key_of env a keys e) = None) es) = Some acc" using f that unfolding filed_def by simp
    then show ?thesis using True aggregate_describes by simp
  next
    case False
    then have "aggregate (filter (\<lambda>e. key_of env a keys e = k) es) = Some acc" using f that unfolding filed_def by simp
    then show ?thesis using False aggregate_describes by simp
  qed
  ultimately show ?thesis using row_bound[OF f] by (simp add: filed_def)
qed

definition demo_log :: "nat \<Rightarrow> string \<Rightarrow> log_entry" where
  "demo_log n host = (synthetic 7 Warn ''m'')\<lparr>le_seq := n, le_host := host\<rparr>"

definition demo_hosts :: group_map where
  "demo_hosts = fold (group_observe demo_env) [demo_log 4 ''a'', demo_log 2 [], demo_log 9 ''a''] (group_map_new AxHost [])"

lemma demo_hosts_row: "map_of (gm_accs demo_hosts) [KValue ''a''] = Some (acc_observe (demo_log 9 ''a'') (acc_new (demo_log 4 ''a'')))"
  by code_simp

theorem log_profile_exact_witness:
  "describes (acc_observe (demo_log 9 ''a'') (acc_new (demo_log 4 ''a'')))
     (filter (\<lambda>e. key_of demo_env AxHost [] e = [KValue ''a'']) [demo_log 4 ''a'', demo_log 2 [], demo_log 9 ''a''])
   \<and> sum_list (map (ga_count \<circ> snd) (gm_accs demo_hosts)) = 3"
proof -
  note P = log_profile_exact[of AxHost demo_hosts demo_env "[demo_log 4 ''a'', demo_log 2 [], demo_log 9 ''a'']" "[]", OF _ demo_hosts_def]
  have "[KValue ''a''] \<noteq> overflow_key AxHost []" by (simp add: overflow_key_def members_of_def)
  then show ?thesis using P[THEN conjunct1, rule_format, OF _ demo_hosts_row] P by simp
qed

section \<open>The order of the rows\<close>

interpretation log_rank: ranking log_before lg_first_seq
proof
  note S = str_less_strict
  show "\<not> log_before x x" for x using S(1) by (simp add: log_before_def)
  show "log_before x y \<Longrightarrow> log_before y z \<Longrightarrow> log_before x z" for x y z
    using S(2)[of "lg_key x" "lg_key y" "lg_key z"] by (auto simp: log_before_def)
  show "lg_first_seq x \<noteq> lg_first_seq y \<Longrightarrow> log_before x y \<or> log_before y x" for x y
    using S(3)[of "lg_key x" "lg_key y"] by (auto simp: log_before_def)
  show "log_before x z \<Longrightarrow> log_before x y \<or> log_before y z" for x y z
    using S(2)[of "lg_key y" "lg_key x" "lg_key z"] S(2)[of "lg_key x" "lg_key z" "lg_key y"]
      S(3)[of "lg_key x" "lg_key y"] S(3)[of "lg_key y" "lg_key z"] by (auto simp: log_before_def)
qed

lemma log_row_first: "lg_first_seq (log_row p) = ga_first_seq (snd p)" "lg_reserved (log_row p) = reserved_kind (fst p)"
  by (simp_all add: log_row_def split: prod.split)

text \<open>Rows of a walk over distinct records start at distinct records.\<close>

lemma row_starts_at:
  assumes f: "filed K ov es m" and p: "(k, acc) \<in> set m" and k: "reserved_kind k = None" and ov: "reserved_kind ov \<noteq> None"
  shows "\<exists>e \<in> set es. K e = k \<and> ga_first_seq acc = le_seq e"
proof -
  have "distinct (keys_of m)" using f unfolding filed_def by (elim conjE)
  then have "map_of m k = Some acc" using p by simp
  moreover have "k \<noteq> ov" using k ov by auto
  ultimately have "aggregate (filter (\<lambda>e. K e = k) es) = Some acc" using f unfolding filed_def by auto
  then have "describes acc (filter (\<lambda>e. K e = k) es)" by (rule aggregate_describes)
  then show ?thesis by (auto simp: describes_def first_of_def)
qed

lemma real_rows_distinct:
  assumes f: "filed K ov es m" and ov: "reserved_kind ov \<noteq> None" and seqs: "distinct (map le_seq es)"
  shows "distinct (map lg_first_seq (filter (\<lambda>r. lg_reserved r = None) (map log_row m)))"
proof -
  let ?real = "filter (\<lambda>p. reserved_kind (fst p) = None) m"
  have d: "distinct (keys_of m)" using f unfolding filed_def by (elim conjE)
  have "inj_on (ga_first_seq \<circ> snd) (set ?real)"
  proof (rule inj_onI)
    fix p q assume p: "p \<in> set ?real" and q: "q \<in> set ?real" and eq: "(ga_first_seq \<circ> snd) p = (ga_first_seq \<circ> snd) q"
    obtain x where x: "x \<in> set es" "K x = fst p" "ga_first_seq (snd p) = le_seq x"
      using row_starts_at[OF f, of "fst p" "snd p"] p ov by auto
    obtain y where y: "y \<in> set es" "K y = fst q" "ga_first_seq (snd q) = le_seq y"
      using row_starts_at[OF f, of "fst q" "snd q"] q ov by auto
    have "x = y" using seqs x(1,3) y(1,3) eq by (auto simp: distinct_map dest: inj_onD)
    then have "fst p = fst q" using x y by simp
    then show "p = q" using d p q by (auto simp: distinct_map dest: inj_onD)
  qed
  moreover have "distinct ?real" using d by (simp add: distinct_map)
  ultimately have "distinct (map (ga_first_seq \<circ> snd) ?real)" by (simp add: distinct_map)
  then show ?thesis by (simp add: filter_map comp_def log_row_first)
qed

text \<open>
  The order of a log profile: over records of distinct seqs the real rows are strictly ranked, by count,
  then by key, then by first record, so the rows returned do not depend on the map's iteration order; the
  reserved rows come after them, outside the number asked for.
\<close>

theorem log_rows_ranked:
  assumes "a \<noteq> AxNone" and "distinct (map le_seq es)"
  shows "\<exists>real kept. fst (group_summarize env es a keys top_n) = take top_n real @ kept \<and> sorted_wrt log_before real
    \<and> set real = log_row ` {p \<in> set (gm_accs (profiled env a keys es)). reserved_kind (fst p) = None}
    \<and> set kept = log_row ` {p \<in> set (gm_accs (profiled env a keys es)). reserved_kind (fst p) \<noteq> None}
    \<and> snd (group_summarize env es a keys top_n) = length (gm_accs (profiled env a keys es))"
proof -
  let ?rows = "map log_row (gm_accs (profiled env a keys es))"
  have f: "filed (key_of env a keys) (overflow_key a keys) es (gm_accs (profiled env a keys es))" using profiled_filed[OF assms(1)] by blast
  have "sorted_wrt log_before (sort_by log_before (filter (\<lambda>r. lg_reserved r = None) ?rows))"
    by (rule log_rank.sort_ranked) (rule real_rows_distinct[OF f key_of_facts(3) assms(2)])
  moreover have "set (filter (\<lambda>r. lg_reserved r = None) ?rows) = log_row ` {p \<in> set (gm_accs (profiled env a keys es)). reserved_kind (fst p) = None}"
    "set (filter (\<lambda>r. lg_reserved r \<noteq> None) ?rows) = log_row ` {p \<in> set (gm_accs (profiled env a keys es)). reserved_kind (fst p) \<noteq> None}"
    by (auto simp: log_row_first)
  ultimately show ?thesis using assms(1)
    by (intro exI[of _ "sort_by log_before (filter (\<lambda>r. lg_reserved r = None) ?rows)"]
        exI[of _ "sort_by (\<lambda>x y. reserved_rank (lg_reserved x) < reserved_rank (lg_reserved y)) (filter (\<lambda>r. lg_reserved r \<noteq> None) ?rows)"])
      (simp add: group_summarize_def group_finish_def Let_def)
qed

section \<open>Tables that stop learning\<close>

text \<open>
  A table that takes up a new key only while it has room, and keeps counting under the keys it knows.
\<close>

locale capped_table =
  fixes cap :: nat and key :: "'x \<Rightarrow> 'k" and upd :: "'x \<Rightarrow> 'v option \<Rightarrow> 'v" and step :: "'x \<Rightarrow> ('k \<times> 'v) list \<Rightarrow> ('k \<times> 'v) list"
  assumes step_full: "map_of m (key x) = None \<Longrightarrow> cap \<le> length m \<Longrightarrow> step x m = m"
    and step_known: "map_of m (key x) \<noteq> None \<or> length m < cap \<Longrightarrow> step x m = hm_insert (key x) (upd x (map_of m (key x))) m"
begin

definition refused :: "'x \<Rightarrow> ('k \<times> 'v) list \<Rightarrow> bool" where
  "refused x m \<longleftrightarrow> map_of m (key x) = None \<and> cap \<le> length m"

lemma step_cases: "step x m = (if refused x m then m else hm_insert (key x) (upd x (map_of m (key x))) m)"
  using step_full step_known by (auto simp: refused_def not_le)

lemma step_lookup:
  "map_of (step x m) k = (if refused x m \<or> k \<noteq> key x then map_of m k else Some (upd x (map_of m k)))"
  by (simp add: step_cases)

lemma step_length: "length m \<le> length (step x m)" "length (step x m) \<le> max cap (length m)"
  by (auto simp: step_cases length_hm_insert refused_def)

lemma fold_length: "length m \<le> length (fold step xs m)" "length (fold step xs m) \<le> max cap (length m)"
proof (induction xs rule: rev_induct)
  case (snoc x xs)
  case 1
  then show ?case using snoc step_length(1)[of "fold step xs m" x] by simp
next
  case (snoc x xs)
  case 2
  then show ?case using snoc step_length(2)[of x "fold step xs m"] by simp
qed simp_all

lemma fold_distinct: "distinct (keys_of m) \<Longrightarrow> distinct (keys_of (fold step xs m))"
  by (induction xs rule: rev_induct) (simp_all add: step_cases)

lemma fold_row_stays: "map_of m k \<noteq> None \<Longrightarrow> map_of (fold step xs m) k \<noteq> None"
  by (induction xs rule: rev_induct) (simp_all add: step_lookup)

lemma unknown_full: "x \<in> set xs \<Longrightarrow> map_of (fold step xs m) (key x) = None \<Longrightarrow> cap \<le> length (fold step xs m)"
proof (induction xs rule: rev_induct)
  case (snoc y xs)
  have le: "length (fold step xs m) \<le> length (fold step (xs @ [y]) m)" using step_length(1)[of "fold step xs m" y] by simp
  have none: "map_of (fold step xs m) (key x) = None" using snoc.prems(2) by (simp add: step_lookup split: if_splits)
  show ?case
  proof (cases "x \<in> set xs")
    case True
    then show ?thesis using snoc.IH none le by simp
  next
    case False
    then have "refused x (fold step xs m)" using snoc.prems by (simp add: step_lookup split: if_splits)
    then show ?thesis using le by (simp add: refused_def)
  qed
qed simp

lemma fold_lookup:
  "map_of (fold step xs m) k \<noteq> None \<Longrightarrow>
   map_of (fold step xs m) k = fold (\<lambda>x w. Some (upd x w)) (filter (\<lambda>x. key x = k) xs) (map_of m k)"
proof (induction xs rule: rev_induct)
  case (snoc x xs)
  let ?m = "fold step xs m"
  show ?case
  proof (cases "map_of ?m k")
    case None
    then have x: "key x = k" "\<not> refused x ?m" using snoc.prems by (auto simp: step_lookup split: if_splits)
    then have room: "\<not> cap \<le> length ?m" using None by (simp add: refused_def)
    have "key y \<noteq> k" if "y \<in> set xs" for y
    proof
      assume "key y = k"
      then show False using unknown_full[OF that, of m] None room by simp
    qed
    then have "filter (\<lambda>x. key x = k) xs = []" by (simp add: filter_empty_conv)
    moreover have "map_of m k = None" using fold_row_stays[of m k xs] None by (cases "map_of m k") auto
    ultimately show ?thesis using None x by (simp add: step_lookup)
  next
    case (Some v)
    then have "fold (\<lambda>x w. Some (upd x w)) (filter (\<lambda>x. key x = k) xs) (map_of m k) = Some v" using snoc.IH by simp
    moreover have "\<not> refused x ?m" if "key x = k" using Some that by (simp add: refused_def)
    ultimately show ?thesis using Some by (cases "key x = k") (simp_all add: step_lookup)
  qed
qed simp

lemma refused_snoc:
  "(\<exists>y \<in> set (xs @ [x]). map_of (fold step (xs @ [x]) m) (key y) = None) \<longleftrightarrow>
   (\<exists>y \<in> set xs. map_of (fold step xs m) (key y) = None) \<or> refused x (fold step xs m)"
proof -
  let ?m = "fold step xs m"
  have "map_of (step x ?m) (key y) = None \<longleftrightarrow> map_of ?m (key y) = None" if y: "y \<in> set xs" for y
  proof (cases "map_of ?m (key y)")
    case None
    then have "cap \<le> length ?m" using unknown_full[OF y] by simp
    then show ?thesis using None by (auto simp: step_lookup refused_def)
  qed (simp add: step_lookup)
  moreover have "map_of (step x ?m) (key x) = None \<longleftrightarrow> refused x ?m" by (auto simp: step_lookup refused_def)
  ultimately show ?thesis by auto
qed

end

section \<open>The field map\<close>

definition count_step :: "string \<Rightarrow> (string \<times> nat) list \<Rightarrow> (string \<times> nat) list" where
  "count_step v m = fa_counts (field_acc_observe v VOther (field_acc_default\<lparr>fa_counts := m\<rparr>))"

definition row_step :: "row_key \<times> string \<times> value_kind \<Rightarrow> (row_key \<times> field_acc) list \<Rightarrow> (row_key \<times> field_acc) list" where
  "row_step ob m = (case ob of ((source, name), v, kind) \<Rightarrow> fm_accs (field_bump name source v kind \<lparr>fm_accs = m, fm_names_capped = False\<rparr>))"

interpretation value_table: capped_table distinct_cap "\<lambda>v. v" "\<lambda>v w. (case w of None \<Rightarrow> 0 | Some n \<Rightarrow> n) + 1" count_step
  by unfold_locales (auto simp: count_step_def field_acc_observe_def Let_def)

interpretation row_table: capped_table name_cap fst
  "\<lambda>ob w. field_acc_observe (fst (snd ob)) (snd (snd ob)) (case w of None \<Rightarrow> field_acc_default | Some a \<Rightarrow> a)" row_step
  by unfold_locales (auto simp: row_step_def field_bump_def split: prod.split option.split)

lemma observe_fields [simp]:
  "fa_present (field_acc_observe v kind a) = Suc (fa_present a)" "fa_counts (field_acc_observe v kind a) = count_step v (fa_counts a)"
  "fa_capped (field_acc_observe v kind a) \<longleftrightarrow> fa_capped a \<or> value_table.refused v (fa_counts a)"
  by (auto simp: count_step_def field_acc_observe_def Let_def value_table.refused_def)

text \<open>A row after the values \<open>vs\<close>, from a row that has seen none.\<close>

definition tells :: "field_acc \<Rightarrow> string list \<Rightarrow> bool" where
  "tells a vs \<longleftrightarrow>
     fa_present a = length vs \<and> (\<forall>v n. map_of (fa_counts a) v = Some n \<longrightarrow> n = count_list vs v)
     \<and> (fa_capped a \<longleftrightarrow> (\<exists>v \<in> set vs. map_of (fa_counts a) v = None))
     \<and> distinct (keys_of (fa_counts a)) \<and> fst ` set (fa_counts a) \<subseteq> set vs"

lemma count_steps: "fold (\<lambda>x w. Some ((case w of None \<Rightarrow> 0 | Some n \<Rightarrow> n) + 1)) (filter (\<lambda>x. x = v) vs) None
    = (if v \<in> set vs then Some (count_list vs v) else None)"
  by (induction vs rule: rev_induct) auto

lemma counted: "map_of (fold count_step vs []) v = Some n \<Longrightarrow> n = count_list vs v"
  using value_table.fold_lookup[of vs "[]" v] count_steps[of v vs] by (simp split: if_splits)

lemma count_keys: "fst ` set (fold count_step vs []) \<subseteq> set vs"
  by (induction vs rule: rev_induct) (auto simp: value_table.step_cases)

lemma observed_tells:
  assumes "a = fold (\<lambda>(v, kind). field_acc_observe v kind) vks a0" and "fa_present a0 = 0" "fa_counts a0 = []" "\<not> fa_capped a0"
  shows "tells a (map fst vks)"
proof -
  have "fa_present (fold (\<lambda>(v, kind). field_acc_observe v kind) vks a0) = length vks
    \<and> fa_counts (fold (\<lambda>(v, kind). field_acc_observe v kind) vks a0) = fold count_step (map fst vks) []
    \<and> (fa_capped (fold (\<lambda>(v, kind). field_acc_observe v kind) vks a0) \<longleftrightarrow>
        (\<exists>v \<in> set (map fst vks). map_of (fold count_step (map fst vks) []) v = None))"
  proof (induction vks rule: rev_induct)
    case (snoc vk vks)
    then show ?case using value_table.refused_snoc[of "map fst vks" "fst vk" "[]"] by (simp add: case_prod_beta)
  qed (simp add: assms)
  then show ?thesis
    using counted[of "map fst vks"] value_table.fold_distinct[of "[]" "map fst vks"] count_keys[of "map fst vks"]
    unfolding tells_def assms(1) by simp
qed

text \<open>Every observation of a walk, in order.\<close>

definition observations :: "match_env \<Rightarrow> (json \<Rightarrow> bool) \<Rightarrow> log_entry list \<Rightarrow> (row_key \<times> string \<times> value_kind) list" where
  "observations env is_f64 es = concat (map (fields_of env is_f64) es)"

abbreviation field_walk :: "match_env \<Rightarrow> (json \<Rightarrow> bool) \<Rightarrow> log_entry list \<Rightarrow> field_map" where
  "field_walk env is_f64 es \<equiv> fold (field_observe env is_f64) es field_map_new"

lemma walk_observations:
  "field_walk env is_f64 es = fold (\<lambda>((source, name), v, kind). field_bump name source v kind) (observations env is_f64 es) field_map_new"
  by (induction es rule: rev_induct) (simp_all add: observations_def field_observe_def)

lemma bump_fields:
  "fm_accs (field_bump name source v kind m) = row_step ((source, name), v, kind) (fm_accs m)"
  "fm_names_capped (field_bump name source v kind m) \<longleftrightarrow> fm_names_capped m \<or> row_table.refused ((source, name), v, kind) (fm_accs m)"
  by (auto simp: row_step_def field_bump_def row_table.refused_def split: option.splits)

lemma bumps_fields:
  "fm_accs (fold (\<lambda>((source, name), v, kind). field_bump name source v kind) obs field_map_new) = fold row_step obs (fm_accs field_map_new)
   \<and> (fm_names_capped (fold (\<lambda>((source, name), v, kind). field_bump name source v kind) obs field_map_new)
       \<longleftrightarrow> (\<exists>x \<in> set obs. map_of (fold row_step obs (fm_accs field_map_new)) (fst x) = None))"
proof (induction obs rule: rev_induct)
  case Nil
  show ?case by (simp add: field_map_new_def)
next
  case (snoc x obs)
  obtain source name v kind where x: "x = ((source, name), v, kind)" by (metis surj_pair)
  show ?case using snoc row_table.refused_snoc[of obs x "fm_accs field_map_new"] by (simp add: x bump_fields)
qed

lemma seeds:
  "map_of (fm_accs field_map_new) r = (case find_builtin (fst r) (snd r) of None \<Rightarrow> None | Some (_, _, _, k) \<Rightarrow> Some (field_acc_default\<lparr>fa_kind := Some k\<rparr>))"
  "distinct (keys_of (fm_accs field_map_new))" "length (fm_accs field_map_new) = 8"
proof -
  have new: "fm_accs field_map_new = map (\<lambda>(n, s, _, k). ((s, n), field_acc_default\<lparr>fa_kind := Some k\<rparr>)) builtins" by code_simp
  show "map_of (fm_accs field_map_new) r = (case find_builtin (fst r) (snd r) of None \<Rightarrow> None | Some (_, _, _, k) \<Rightarrow> Some (field_acc_default\<lparr>fa_kind := Some k\<rparr>))"
    unfolding new find_builtin_def by (cases r) (simp add: builtins_def)
  show "distinct (keys_of (fm_accs field_map_new))" "length (fm_accs field_map_new) = 8" unfolding new by (simp_all add: builtins_def)
qed

lemma row_run:
  "fold (\<lambda>x w. Some (field_acc_observe (fst (snd x)) (snd (snd x)) (case w of None \<Rightarrow> field_acc_default | Some a \<Rightarrow> a))) xs w =
     (if xs = [] then w
      else Some (fold (\<lambda>(v, kind). field_acc_observe v kind) (map snd xs) (case w of None \<Rightarrow> field_acc_default | Some a \<Rightarrow> a)))"
  by (induction xs arbitrary: w) (simp_all add: case_prod_beta)

lemma row_tells:
  assumes "map_of (fold row_step obs (fm_accs field_map_new)) r = Some a"
  shows "tells a (map (fst \<circ> snd) (filter (\<lambda>x. fst x = r) obs))"
proof -
  let ?xs = "filter (\<lambda>x. fst x = r) obs" and ?w = "map_of (fm_accs field_map_new) r"
  let ?a0 = "case ?w of None \<Rightarrow> field_acc_default | Some a \<Rightarrow> a"
  have a0: "fa_present ?a0 = 0" "fa_counts ?a0 = []" "\<not> fa_capped ?a0"
    by (simp_all add: seeds(1) field_acc_default_def split: option.split)
  have "Some a = (if ?xs = [] then ?w else Some (fold (\<lambda>(v, kind). field_acc_observe v kind) (map snd ?xs) ?a0))"
    using row_table.fold_lookup[of obs "fm_accs field_map_new" r] assms by (simp add: row_run)
  then have "a = fold (\<lambda>(v, kind). field_acc_observe v kind) (map snd ?xs) ?a0" by (cases ?w; cases "?xs = []") simp_all
  from observed_tells[OF this a0] show ?thesis by simp
qed

text \<open>
  The field map is exact (C39). Over any walk, a row counts the observations of its field, and each value it
  lists as often as it came; the number of distinct values is withheld exactly when a value was not
  learnt, and then only. The eight built-in fields always have a row. Omitted names are announced
  exactly when there are some, and the rows never exceed the cap.
\<close>

theorem field_map_exact:
  assumes m: "m = fold (field_observe env is_f64) es field_map_new" and obs: "obs = concat (map (fields_of env is_f64) es)"
  shows "(\<forall>r a. map_of (fm_accs m) r = Some a \<longrightarrow> tells a (map (fst \<circ> snd) (filter (\<lambda>x. fst x = r) obs)))
    \<and> (fm_names_capped m \<longleftrightarrow> (\<exists>x \<in> set obs. map_of (fm_accs m) (fst x) = None))
    \<and> (\<forall>(name, source, _) \<in> set builtins. map_of (fm_accs m) (source, name) \<noteq> None)
    \<and> distinct (map fst (fm_accs m)) \<and> length (fm_accs m) \<le> name_cap"
proof -
  have accs: "fm_accs m = fold row_step obs (fm_accs field_map_new)"
    and "fm_names_capped m \<longleftrightarrow> (\<exists>x \<in> set obs. map_of (fm_accs m) (fst x) = None)"
    using bumps_fields[of obs] by (simp_all add: m walk_observations observations_def obs)
  moreover have "tells a (map (fst \<circ> snd) (filter (\<lambda>x. fst x = r) obs))" if "map_of (fm_accs m) r = Some a" for r a
    using row_tells that unfolding accs .
  moreover have "map_of (fm_accs m) (source, name) \<noteq> None" if "(name, source, sel, kind) \<in> set builtins" for name source sel kind
  proof -
    have "map_of (fm_accs field_map_new) (source, name) \<noteq> None" using that by (auto simp: seeds(1) find_builtin_def builtins_def)
    then show ?thesis unfolding accs by (rule row_table.fold_row_stays)
  qed
  moreover have "distinct (map fst (fm_accs m))" "length (fm_accs m) \<le> name_cap"
    unfolding accs using row_table.fold_distinct[OF seeds(2)] row_table.fold_length(2)[of obs "fm_accs field_map_new"]
    by (simp_all add: seeds(3) name_cap_def default_group_value_cap_def)
  ultimately show ?thesis by auto
qed

definition demo_fields :: field_map where
  "demo_fields = fold (field_observe demo_env (\<lambda>_. False)) [demo_log 4 ''a'', demo_log 2 [], demo_log 9 ''a''] field_map_new"

lemma demo_fields_host:
  "map_of (fm_accs demo_fields) (Builtin, ''host'') = Some \<lparr>fa_present = 2, fa_counts = [(''a'', 2)], fa_capped = False, fa_kind = Some VString\<rparr>"
  by code_simp

theorem field_map_exact_witness:
  "tells \<lparr>fa_present = 2, fa_counts = [(''a'', 2)], fa_capped = False, fa_kind = Some VString\<rparr>
     (map (fst \<circ> snd) (filter (\<lambda>x. fst x = (Builtin, ''host''))
        (concat (map (fields_of demo_env (\<lambda>_. False)) [demo_log 4 ''a'', demo_log 2 [], demo_log 9 ''a'']))))
   \<and> length (fm_accs demo_fields) \<le> name_cap"
  using field_map_exact[OF demo_fields_def refl, THEN conjunct1, rule_format, OF demo_fields_host] field_map_exact[OF demo_fields_def refl]
  by blast

end
