(* ===== verification/Spec2Isabelle.thy ===== *)
theory Spec2Isabelle
  imports Admission Cursor_Run Pre_Buffer Trigger Epoch Bookmark_Props Span_Store Session_Restart Pipeline_Props
    Domain_Data_Props Threshold_Props Collector_Props Collector_Registry_Props
    Collector_Project_Props Log_Profile_Props
begin

text \<open>
  \<^bold>\<open>A verification of the logmon broker.\<close>

  logmon is a daemon that receives log records (GELF) and spans (OTLP) for a number of domains, keeps
  the newest of them in memory, and answers queries of agents over RPC. The code verified here is the
  crate \<open>src/crates/core/src\<close>.

  \<^bold>\<open>Parts and their interaction.\<close> A message is read into a record (\<open>gelf/message.rs\<close>), numbered by the
  domain's seq counter (\<open>engine/seq_counter.rs\<close>) and handed to the log processor
  (\<open>daemon/log_processor.rs\<close>). The processor appends it to the pre-trigger buffer
  (\<open>engine/pre_buffer.rs\<close>), evaluates the triggers of every session of the domain
  (\<open>engine/trigger.rs\<close>, \<open>daemon/session.rs\<close>), copies the buffered context of a match into the log store
  (\<open>store/memory.rs\<close>), and stores the record itself by the sessions' buffer filters, whose policy it
  first observes in the epoch log (\<open>engine/epoch.rs\<close>). Spans go to the span store (\<open>span/store.rs\<close>), to
  the span triggers and to the collectors (\<open>collector/\<close>). Filters are parsed, matched, admitted and
  resolved against bookmarks and cursors by \<open>filter/\<close> and \<open>store/bookmarks.rs\<close>. Beside the evidence a
  domain keeps a registry of facts about its provenance (\<open>domain_data/\<close>).

  \<^bold>\<open>Theories.\<close>
  \<^item> \<open>Prelude\<close>, \<open>F64\<close>: machine integers, results, strings, association lists for \<open>HashMap\<close> and \<open>BTreeMap\<close>,
    ascending lists; double-precision numbers as rationals with IEEE rounding and the grammar of
    \<open>str::parse::<f64>\<close>.
  \<^item> \<open>Message\<close>, \<open>Span_Types\<close>: \<open>gelf/message.rs\<close>, \<open>span/types.rs\<close>. No additional field of a message is lost.
  \<^item> \<open>Filter_Parser\<close>, \<open>Filter_Matcher\<close>, \<open>Admission\<close>: \<open>filter/parser.rs\<close>, \<open>matcher.rs\<close>, \<open>admission.rs\<close>. Accepted
    filters are well-formed, patterns survive their wire form, the resolved window contains what a
    filter matches, and a filter refused for a collector matches no span.
  \<^item> \<open>Seq_Ring\<close>: rings ordered by seq, the binary search of \<open>position\<close>, and the locales \<open>seq_store\<close> and
    \<open>traced_store\<close>, the contract every store gives its readers. They are interpreted for the log store,
    the pre-trigger buffer and the span store.
  \<^item> \<open>Log_Store\<close>, \<open>Log_Store_Inv\<close>, \<open>Log_Store_Props\<close>: \<open>store/memory.rs\<close>. The invariant of the ring, the loss
    floor as an exact statement of what was lost, storing as an abstract insertion, reads as filters. The
    end of a context read is a sum of 64 bits that wraps, with the panic of an inverted range as \<open>None\<close>.
  \<^item> \<open>Cursor_Read\<close>, \<open>Cursor_Props\<close>, \<open>Cursor_Run\<close>: cursor reads of \<open>store/memory.rs\<close>. Over any interleaving of
    writes and committed reads each due record is delivered exactly once.
  \<^item> \<open>Pre_Buffer\<close>, \<open>Trigger\<close>, \<open>Epoch\<close>: \<open>engine/pre_buffer.rs\<close>, \<open>trigger.rs\<close>, \<open>epoch.rs\<close>, \<open>seq_counter.rs\<close>. The
    buffer implements the last arrivals, triggers debounce, the epoch log reports every narrowing.
  \<^item> \<open>Bookmarks\<close>, \<open>Bookmark_Props\<close>: \<open>store/bookmarks.rs\<close>, \<open>filter/bookmark_resolver.rs\<close>. Commits are
    compare-and-swap, renames move what they should, a resolved filter means what its names mean.
  \<^item> \<open>Span_Store\<close>: \<open>span/store.rs\<close>, with its loss floor and reads.
  \<^item> \<open>Session\<close>, \<open>Session_Props\<close>, \<open>Session_Restart\<close>: \<open>daemon/session.rs\<close> and the persisted shapes of
    \<open>daemon/persistence.rs\<close>. The registry's invariant over its step relation, safety of connected sessions,
    and a restart that restores every named session with its bookmarks.
  \<^item> \<open>Tasks\<close>: code that takes and releases locks, as a value: one atomic step for each critical section,
    whose result picks the rest; every task ends when left alone. Locale \<open>task_logic\<close> carries an invariant through the steps of one.
  \<^item> \<open>Pipeline\<close>, \<open>Pipeline_Props\<close>: \<open>engine/pipeline.rs\<close>, \<open>daemon/log_processor.rs\<close>, \<open>daemon/span_processor.rs\<close>.
    The composition: the processing of each record or span and the clears are tasks, and a run interleaves
    the steps of any number of them. A range called complete is complete, but for records a clear
    overtook between their numbering and their storing, which the store refuses; the lemma \<open>clear_race\<close>
    shows that such a record leaves no trace.
  \<^item> \<open>Domain_Data\<close>, \<open>Domain_Files\<close>, \<open>Domain_Data_Props\<close>: \<open>domain_data/\<close> and the batches of
    \<open>daemon/rpc_handler.rs\<close>. Caps and order of the registry, protection of reserved facts, exact
    outcomes in the order sent, facts back after a restart.
  \<^item> \<open>Collector_Tiers\<close>, \<open>Collector_State\<close>, \<open>Threshold_Props\<close>, \<open>Collector_Props\<close>: \<open>collector/sketch.rs\<close>, \<open>exact.rs\<close>,
    \<open>intern.rs\<close>, \<open>sample.rs\<close>, \<open>threshold.rs\<close>, \<open>state.rs\<close>. Locale \<open>window_counter\<close>, interpreted for each of the
    four counters of a bucket, gives the exactness of the rolling window; locale \<open>tally\<close>, interpreted
    for each counter of the exact tier, gives the agreement of the breakdowns with the total.
  \<^item> \<open>Collector_Files\<close>, \<open>Collector_Files_Props\<close>: \<open>collector/history.rs\<close>, \<open>persist.rs\<close>. Recorded runs survive the
    file (as the record that is encoded, if the sketch crate reads back what it wrote), automatic labels are never given twice, files of different collectors do not collide.
  \<^item> \<open>Collector_Registry\<close>, \<open>Collector_Ops\<close>, \<open>Collector_Registry_Props\<close>: \<open>collector/registry.rs\<close>, each operation cut
    where it releases its locks. The step relation interleaves the steps of concurrent operations; its
    invariant shows that removed collectors stay removed and live ones keep their files. The
    reservation of sample bytes holds for operations one at a time, up to what a restore arms unchecked;
    an edit that lands beside an arming exceeds it.
  \<^item> \<open>Collector_Project\<close>, \<open>Collector_Project_Props\<close>: \<open>collector/project.rs\<close> and the shapes of a profile in
    \<open>protocol/src/methods.rs\<close>. Locale \<open>parent_choice\<close>, interpreted for the two ways the code finds a span's
    parent, gives self time as the time no child covers. Ranks do not depend on a map's iteration
    order, walks up the call tree end and do not repeat, eight figures of a
    profile are missing exactly when a reason is listed, the others when there is nothing to compute
    them from. The self time a profile reports is computed over intervals sorted in place: it is the
    spans' own when they were retained in that order, and wrong in general when they were not.
  \<^item> \<open>Rows\<close>: what reports of rows share, with the locale \<open>ranking\<close>, interpreted for the orders of path rows,
    group rows and log rows.
  \<^item> \<open>Log_Profile\<close>, \<open>Log_Profile_Props\<close>: \<open>logs/profile.rs\<close>, \<open>logs/fields.rs\<close>. Each record visited is in one row,
    and each row is exact under the cap. Locale \<open>capped_table\<close>, interpreted for the rows of the field map
    and for the values of one row, gives what a table that stops learning still tells exactly.

  \<^bold>\<open>Conventions and bounds.\<close> A string is the list of its UTF-8 bytes; case mapping and white space are
  ASCII. A \<open>u64\<close> is a natural number, with saturation and wrap-around written out where the code has
  them; statements about numbered records assume seqs below the largest \<open>u64\<close>. Counters that grow by
  one per record are unbounded where reaching \<open>2^64\<close> is out of the question and no claim depends on it.
  A \<open>HashMap\<close> is an association list whose order stands for the unspecified iteration order. Code under
  one lock is one step. The processors, the clears of a domain and the operations of the collector registry
  are cut where they release a lock, and their runs interleave the pieces; a scan over the sessions is one step
  for each session, and a call into the session registry is one step. The operations of the other
  components take one lock, and their runs are sequences of whole operations. Every recursion is structural or has a measure, so no fuel is used anywhere.

  \<^bold>\<open>Parameters.\<close> The regex engine, \<open>serde_json\<close>'s parser and number printer, \<open>chrono\<close>'s rendering of an
  instant, the clock, the success of file writes and renames, and the sketch crate with its byte form are arguments of
  the definitions that use them; what a property needs of them is a hypothesis with a witness.

  \<^bold>\<open>Not modelled.\<close> Sockets, tasks and transports (\<open>receiver/\<close>, \<open>gelf/tcp.rs\<close>, \<open>gelf/udp.rs\<close>, \<open>daemon/server.rs\<close>,
  \<open>daemon/transport.rs\<close>, \<open>daemon/process.rs\<close>): they only move bytes. Rendering for display (\<open>render/\<close>).
  The RPC handlers apart from the provenance batches: they decode parameters and call the components above.
  The JSON text of the files of sessions and collectors: a file is the record that is encoded, and
  the projections of a recorded run are one opaque value of it. Collector documents and diffs (\<open>collector/document.rs\<close>, \<open>diff.rs\<close>), the
  directory scan of \<open>persist.rs\<close> with its migration, and case files (\<open>cases/\<close>). Reorderings of relaxed atomics inside one evaluation of
  a threshold are below the granularity of the model.
\<close>

end
